(* ===== verification/Prelude.thy ===== *)
theory Prelude
  imports Main "HOL-Library.Word" "HOL-Library.Monad_Syntax"
begin

text \<open>
  What the components of the development share: the constants of the page
  size, the little-endian byte codecs that the on-disk structures and the
  extended attributes use, the errno values the code returns, and the lemma
  collections.

  Conventions. A value of type \<^typ>\<open>'a option\<close> returned by an operation is
  \<^const>\<open>None\<close> where the C code stops the kernel (\<open>BUG_ON\<close>, a NULL
  dereference) or does not return; an error the C code returns is an ordinary
  result. Unsigned C integers are \<^typ>\<open>nat\<close> with the wrap-around written out
  where the code relies on a width, signed ones are \<^typ>\<open>int\<close>, and flag words
  and bitmap bytes are machine words.
\<close>

named_theorems frame_simps \<open>what an operation leaves unchanged\<close>

section \<open>Types and constants\<close>

type_synonym byte = "8 word"
type_synonym page = "nat \<Rightarrow> byte"
type_synonym ino = nat
type_synonym addr = nat

text \<open>\<open>PAGE_SHIFT\<close>, \<open>PAGE_SIZE\<close> on x86-64, and the macros of
  \<open>corw_sparse.h\<close> built on them.\<close>

abbreviation PAGE_SHIFT :: nat where
  "PAGE_SHIFT \<equiv> 12"

abbreviation PAGE_SIZE :: nat where
  "PAGE_SIZE \<equiv> 4096"

definition PAGE_BLOCKS :: nat where
  [simp]: "PAGE_BLOCKS = PAGE_SIZE * 8"

definition SCORW_MAX_CHILDS :: nat where
  [simp]: "SCORW_MAX_CHILDS = 64"

definition MAX_RANGES_SUPPORTED :: nat where
  [simp]: "MAX_RANGES_SUPPORTED = 4"

definition MAX_VERSIONS :: nat where
  [simp]: "MAX_VERSIONS = 32"

definition MAX_RAM_VERSIONS :: nat where
  [simp]: "MAX_RAM_VERSIONS = 4"

text \<open>\<open>BLK_NOT_FOUND\<close> is \<open>~0UL\<close>.\<close>

definition BLK_NOT_FOUND :: nat where
  "BLK_NOT_FOUND = 2 ^ 64 - 1"

definition SCORW_ERR_MAX_CHILDS_ALREADY_SET :: int where
  [simp]: "SCORW_ERR_MAX_CHILDS_ALREADY_SET = - 8000"

definition SCORW_PARENT_ERROR :: int where
  [simp]: "SCORW_PARENT_ERROR = - 8004"

definition SCORW_PERFORM_ORIG_READ :: int where
  [simp]: "SCORW_PERFORM_ORIG_READ = - 9000"

abbreviation EPERM :: int where "EPERM \<equiv> 1"
abbreviation ENOENT :: int where "ENOENT \<equiv> 2"
abbreviation EINTR :: int where "EINTR \<equiv> 4"
abbreviation EIO :: int where "EIO \<equiv> 5"
abbreviation ENOMEM :: int where "ENOMEM \<equiv> 12"
abbreviation EFAULT :: int where "EFAULT \<equiv> 14"
abbreviation EINVAL :: int where "EINVAL \<equiv> 22"
abbreviation ERANGE :: int where "ERANGE \<equiv> 34"
abbreviation ENODATA :: int where "ENODATA \<equiv> 61"

text \<open>Signed 32 and 64 bit values: two's complement wrap-around.\<close>

definition s32 :: "int \<Rightarrow> int" where
  "s32 x = (x + 2 ^ 31) mod 2 ^ 32 - 2 ^ 31"

lemma s32_id: "- (2 ^ 31) \<le> x \<Longrightarrow> x < 2 ^ 31 \<Longrightarrow> s32 x = x"
  by (simp add: s32_def)

definition s64 :: "int \<Rightarrow> int" where
  "s64 x = (x + 2 ^ 63) mod 2 ^ 64 - 2 ^ 63"

lemma s64_id: "- (2 ^ 63) \<le> x \<Longrightarrow> x < 2 ^ 63 \<Longrightarrow> s64 x = x"
  by (simp add: s64_def)

text \<open>Round a byte count up to a whole number of pages:
  \<open>(x + PAGE_SIZE - 1) & ~(PAGE_SIZE - 1)\<close>.\<close>

definition page_align :: "nat \<Rightarrow> nat" where
  "page_align x = (x + (PAGE_SIZE - 1)) div PAGE_SIZE * PAGE_SIZE"

lemma page_align_ge: "x \<le> page_align x"
  using div_mult_mod_eq [of "x + (PAGE_SIZE - 1)" PAGE_SIZE]
    mod_less_divisor [of PAGE_SIZE "x + (PAGE_SIZE - 1)"]
  unfolding page_align_def by linarith

lemma page_align_mod [simp]: "page_align x mod PAGE_SIZE = 0"
  by (simp add: page_align_def)

lemma page_align_less: "page_align x < x + PAGE_SIZE"
  using div_mult_mod_eq [of "x + (PAGE_SIZE - 1)" PAGE_SIZE]
  unfolding page_align_def by linarith

lemma page_align_id:
  assumes "x mod PAGE_SIZE = 0"
  shows "page_align x = x"
proof -
  obtain k where x: "x = k * PAGE_SIZE" using assms by (auto simp: mod_eq_0_iff_dvd)
  then have "(x + (PAGE_SIZE - 1)) div PAGE_SIZE = k" by simp
  with x show ?thesis by (simp add: page_align_def)
qed

lemma div_mod_add_small:
  fixes x k n :: nat
  assumes "x mod n + k < n"
  shows "(x + k) div n = x div n" "(x + k) mod n = x mod n + k"
proof -
  define a b where "a = x div n" and "b = x mod n"
  have eq: "x + k = n * a + (b + k)" by (simp add: a_def b_def)
  have lt: "b + k < n" using assms by (simp add: b_def)
  show "(x + k) div n = x div n" unfolding eq a_def [symmetric] using lt by simp
  show "(x + k) mod n = x mod n + k" unfolding eq b_def [symmetric] using lt by simp
qed

section \<open>Little-endian byte codecs\<close>

fun le_bytes :: "nat \<Rightarrow> nat \<Rightarrow> byte list" where
  "le_bytes 0 v = []"
| "le_bytes (Suc n) v = of_nat v # le_bytes n (v div 256)"

fun le_val :: "byte list \<Rightarrow> nat" where
  "le_val [] = 0"
| "le_val (b # bs) = unat b + 256 * le_val bs"

lemma length_le_bytes [simp]: "length (le_bytes n v) = n"
  by (induction n arbitrary: v) auto

lemma unat_of_nat_byte: "unat (of_nat v :: byte) = v mod 256"
  by (simp add: unat_of_nat)

lemma le_val_le_bytes: "le_val (le_bytes n v) = v mod 256 ^ n"
proof (induction n arbitrary: v)
  case 0
  then show ?case by simp
next
  case (Suc n)
  have "v mod 256 ^ Suc n = v mod 256 + 256 * (v div 256 mod 256 ^ n)"
    using mod_mult2_eq [of v 256 "256 ^ n"] by (simp add: algebra_simps)
  with Suc show ?case by (simp add: unat_of_nat_byte)
qed

lemma le_val_le_bytes_id: "v < 256 ^ n \<Longrightarrow> le_val (le_bytes n v) = v"
  by (simp add: le_val_le_bytes)

lemma le_val_less: "le_val bs < 256 ^ length bs"
proof (induction bs)
  case Nil
  then show ?case by simp
next
  case (Cons b bs)
  have "unat b < 2 ^ LENGTH(8)" by (rule unsigned_less)
  with Cons show ?case by simp
qed

lemma le_val_append: "le_val (xs @ ys) = le_val xs + 256 ^ length xs * le_val ys"
  by (induction xs) (auto simp: algebra_simps)

section \<open>Lists\<close>

text \<open>A loop body that may stop the kernel, run over a list.\<close>

fun ofold :: "('s \<Rightarrow> 'x \<Rightarrow> 's option) \<Rightarrow> 'x list \<Rightarrow> 's \<Rightarrow> 's option" where
  "ofold step [] s = Some s"
| "ofold step (x # xs) s = (case step s x of None \<Rightarrow> None | Some t \<Rightarrow> ofold step xs t)"

lemma ofold_append:
  "ofold step (xs @ ys) s = (case ofold step xs s of None \<Rightarrow> None | Some t \<Rightarrow> ofold step ys t)"
  by (induction xs arbitrary: s) (auto split: option.splits)

lemma ofold_invariant:
  assumes "ofold step xs s = Some t" and "P s"
    and "\<And>s x t. x \<in> set xs \<Longrightarrow> step s x = Some t \<Longrightarrow> P s \<Longrightarrow> P t"
  shows "P t"
  using assms
proof (induction xs arbitrary: s)
  case Nil
  then show ?case by simp
next
  case (Cons x xs)
  from Cons.prems(1) obtain u where u: "step s x = Some u" "ofold step xs u = Some t"
    by (auto split: option.splits)
  have "P u" using Cons.prems(3) [OF _ u(1) Cons.prems(2)] by simp
  with u(2) show ?case by (rule Cons.IH) (use Cons.prems(3) in auto)
qed

lemma take_eq_map_nth: "n \<le> length xs \<Longrightarrow> take n xs = map (\<lambda>i. xs ! i) [0..<n]"
  by (rule nth_equalityI) auto

lemma map_upt_Suc_shift: "map g [0..<Suc n] = g 0 # map (\<lambda>k. g (Suc k)) [0..<n]"
  by (simp add: upt_conv_Cons map_Suc_upt [symmetric] del: upt_Suc)

lemma upt_split: "i \<le> j \<Longrightarrow> j \<le> k \<Longrightarrow> [i..<k] = [i..<j] @ [j..<k]"
  using upt_add_eq_append [of i j "k - j"] by simp

section \<open>Searching lists\<close>

lemma find_append:
  "find P (xs @ ys) = (case find P xs of Some x \<Rightarrow> Some x | None \<Rightarrow> find P ys)"
  by (induction xs) auto

lemma find_SomeD: "find P xs = Some x \<Longrightarrow> P x \<and> x \<in> set xs"
  by (induction xs) (auto split: if_splits)

end
