(* ===== verification/Page_Cache.thy ===== *)
theory Page_Cache
  imports Prelude
begin

text \<open>
  Files as the module sees them: a size, the up-to-date pages of the page
  cache, and the contents that reading a page from disk brings in. The kernel
  calls the module makes on them (\<open>read_mapping_page\<close>, \<open>truncate_setsize\<close>,
  \<open>write_begin\<close>/\<open>write_end\<close>, writeback, reclaim of clean pages) are
  modelled by their effect on these three. \<open>scorw_get_page\<close> is
  \<open>src/ext4-module/corw_sparse.c\<close>, as is \<open>write_offset_log\<close>.
\<close>

section \<open>State\<close>

record "file" =
  i_size :: nat
  cache :: "nat \<rightharpoonup> page"
  pdirty :: "nat \<Rightarrow> bool"
  disk :: "nat \<Rightarrow> page option"

text \<open>
  What may fail: the allocation of a page for the page cache
  (\<open>find_or_create_page\<close>), the preparation of a page for writing
  (\<open>__block_write_begin\<close>, \<open>write_begin\<close>), the end of the write of a page by the write
  loop (\<open>ext4_da_do_write_end\<close>), all per page index, and \<open>kzalloc\<close>. A page whose read from disk fails is \<^const>\<open>None\<close> in
  \<^const>\<open>disk\<close>.
\<close>

datatype end_result = End_Done | End_No_Buffers | End_Journal int

record kenv =
  alloc_page_ok :: "nat \<Rightarrow> bool"
  begin_ok :: "nat \<Rightarrow> bool"
  end_res :: "nat \<Rightarrow> end_result"
  kzalloc_ok :: bool

definition good_env :: kenv where
  "good_env = \<lparr>alloc_page_ok = (\<lambda>_. True), begin_ok = (\<lambda>_. True), end_res = (\<lambda>_. End_Done), kzalloc_ok = True\<rparr>"

lemma good_env_simps [simp]:
  "alloc_page_ok good_env i" "begin_ok good_env i" "kzalloc_ok good_env" "end_res good_env i = End_Done"
  by (simp_all add: good_env_def)

text \<open>No page operation fails.\<close>

definition pages_env_ok :: "kenv \<Rightarrow> bool" where
  "pages_env_ok e \<longleftrightarrow> (\<forall>i. alloc_page_ok e i \<and> begin_ok e i \<and> end_res e i = End_Done)"

lemma pages_env_okD: "pages_env_ok e \<Longrightarrow> alloc_page_ok e i" "pages_env_ok e \<Longrightarrow> begin_ok e i" "pages_env_ok e \<Longrightarrow> end_res e i = End_Done"
  by (simp_all add: pages_env_ok_def)

lemma pages_env_ok_good [simp]: "pages_env_ok good_env"
  by (simp add: pages_env_ok_def)

definition zero_page :: page where
  "zero_page = (\<lambda>_. 0)"

definition empty_file :: "file" where
  "empty_file = \<lparr>i_size = 0, cache = Map.empty, pdirty = (\<lambda>_. False),
     disk = (\<lambda>_. Some zero_page)\<rparr>"

text \<open>The contents of a page as any read through the page cache sees them.\<close>

definition view :: "file \<Rightarrow> nat \<Rightarrow> page option" where
  "view f i = (case cache f i of Some p \<Rightarrow> Some p | None \<Rightarrow> disk f i)"

section \<open>Bytes of a page\<close>

definition memcpy_page :: "page \<Rightarrow> nat \<Rightarrow> byte list \<Rightarrow> page" where
  "memcpy_page p off bs =
     (\<lambda>i. if off \<le> i \<and> i < off + length bs then bs ! (i - off) else p i)"

definition page_bytes :: "page \<Rightarrow> nat \<Rightarrow> nat \<Rightarrow> byte list" where
  "page_bytes p off n = map p [off..<off + n]"

lemma length_page_bytes [simp]: "length (page_bytes p off n) = n"
  by (simp add: page_bytes_def)

lemma page_bytes_memcpy [simp]: "page_bytes (memcpy_page p off bs) off (length bs) = bs"
  by (rule nth_equalityI) (auto simp: page_bytes_def memcpy_page_def)

lemma page_bytes_memcpy_other:
  "o2 + n \<le> off \<or> off + length bs \<le> o2 \<Longrightarrow>
   page_bytes (memcpy_page p off bs) o2 n = page_bytes p o2 n"
  by (auto simp: page_bytes_def memcpy_page_def)

section \<open>Page cache operations\<close>

text \<open>\<open>read_mapping_page\<close>: the cached page, or the page read from disk, which
  is then cached. \<^const>\<open>None\<close> is \<open>IS_ERR(page)\<close>.\<close>

definition read_mapping_page :: "file \<Rightarrow> nat \<Rightarrow> page option \<times> file" where
  "read_mapping_page f i =
     (case cache f i of
        Some p \<Rightarrow> (Some p, f)
      | None \<Rightarrow> (case disk f i of
          None \<Rightarrow> (None, f)
        | Some p \<Rightarrow> (Some p, f\<lparr>cache := (cache f)(i \<mapsto> p)\<rparr>)))"

text \<open>
  \<open>scorw_get_page\<close>: a page that is cached and up to date is returned as it
  is. Otherwise a page is allocated; at or after the page of the end of file
  it is zero-filled and declared up to date without reading the disk,
  before it the disk is read.
\<close>

definition scorw_get_page :: "kenv \<Rightarrow> file \<Rightarrow> nat \<Rightarrow> page option \<times> file" where
  "scorw_get_page e f lblk =
     (case cache f lblk of
        Some p \<Rightarrow> (Some p, f)
      | None \<Rightarrow>
          if \<not> alloc_page_ok e lblk then (None, f)
          else if i_size f div PAGE_SIZE \<le> lblk then
            (Some zero_page, f\<lparr>cache := (cache f)(lblk \<mapsto> zero_page)\<rparr>)
          else (case disk f lblk of
              None \<Rightarrow> (None, f)
            | Some p \<Rightarrow> (Some p, f\<lparr>cache := (cache f)(lblk \<mapsto> p)\<rparr>)))"

text \<open>Store a modified page: it is in the cache and dirty.\<close>

definition put_dirty :: "file \<Rightarrow> nat \<Rightarrow> page \<Rightarrow> file" where
  "put_dirty f i p = f\<lparr>cache := (cache f)(i \<mapsto> p), pdirty := (pdirty f)(i := True)\<rparr>"

text \<open>Writeback of one page, of all pages (\<open>filemap_write_and_wait\<close>), and reclaim of a
  clean page.\<close>

definition writeback_page :: "file \<Rightarrow> nat \<Rightarrow> file" where
  "writeback_page f i =
     (case cache f i of
        None \<Rightarrow> f
      | Some p \<Rightarrow> f\<lparr>disk := (disk f)(i := Some p), pdirty := (pdirty f)(i := False)\<rparr>)"

definition writeback_all :: "file \<Rightarrow> file" where
  "writeback_all f = f\<lparr>disk := view f, pdirty := (\<lambda>_. False)\<rparr>"

definition reclaim_page :: "file \<Rightarrow> nat \<Rightarrow> file" where
  "reclaim_page f i = (if pdirty f i then f else f\<lparr>cache := (cache f)(i := None)\<rparr>)"

text \<open>\<open>truncate_setsize\<close>: the size is set, cached pages past it are dropped, and
  the cached page that holds the new end of file is zeroed after it.\<close>

definition truncate_setsize :: "file \<Rightarrow> nat \<Rightarrow> file" where
  "truncate_setsize f n = f\<lparr>i_size := n,
     cache := (\<lambda>i. if n \<le> i * PAGE_SIZE then None
       else map_option (\<lambda>p k. if n \<le> i * PAGE_SIZE + k then 0 else p k) (cache f i))\<rparr>"

text \<open>
  \<open>write_begin\<close> and \<open>write_end\<close> of the file system's address space
  operations: the page to be filled, or \<^const>\<open>None\<close> on failure. A page that is
  not up to date is read from disk, except when it is going to be overwritten
  whole: then its old contents are whatever the page held (\<open>junk\<close>).
\<close>

definition write_begin :: "kenv \<Rightarrow> page \<Rightarrow> file \<Rightarrow> nat \<Rightarrow> nat \<Rightarrow> page option" where
  "write_begin e junk f pos len =
     (if \<not> begin_ok e (pos div PAGE_SIZE) then None
      else case cache f (pos div PAGE_SIZE) of
          Some p \<Rightarrow> Some p
        | None \<Rightarrow> if len = PAGE_SIZE then Some junk else disk f (pos div PAGE_SIZE))"

definition write_end :: "file \<Rightarrow> nat \<Rightarrow> nat \<Rightarrow> nat \<Rightarrow> page \<Rightarrow> file" where
  "write_end f i pos copied p =
     (put_dirty f i p)\<lparr>i_size := max (i_size f) (pos + copied)\<rparr>"

section \<open>Appending bytes: \<open>write_offset_log\<close>\<close>

text \<open>
  \<open>write_offset_log\<close> copies \<open>len\<close> bytes to one page of a file and moves the
  end of file. \<^const>\<open>None\<close> is the \<open>BUG_ON\<close> after a failed
  \<open>__block_write_begin\<close>; a page that cannot be obtained loses the write
  silently.
\<close>

definition write_offset_log :: "kenv \<Rightarrow> file \<Rightarrow> nat \<Rightarrow> byte list \<Rightarrow> file option" where
  "write_offset_log e f offset bs =
     (case scorw_get_page e f (offset div PAGE_SIZE) of
        (None, f1) \<Rightarrow> Some f1
      | (Some p, f1) \<Rightarrow>
          if \<not> begin_ok e (offset div PAGE_SIZE) then None
          else
            let f2 = put_dirty f1 (offset div PAGE_SIZE)
                       (memcpy_page p (offset mod PAGE_SIZE) bs);
                new_size = offset + length bs
            in Some (if i_size f2 < new_size then f2\<lparr>i_size := new_size\<rparr> else f2))"

section \<open>Lemmas\<close>

lemma view_cache: "cache f i = Some p \<Longrightarrow> view f i = Some p"
  by (simp add: view_def)

lemma view_put_dirty [simp]:
  "view (put_dirty f i p) j = (if j = i then Some p else view f j)"
  by (simp add: view_def put_dirty_def split: option.splits)

lemma view_size [simp]: "view (f\<lparr>i_size := n\<rparr>) i = view f i"
  by (simp add: view_def split: option.splits)

lemma i_size_put_dirty [simp]: "i_size (put_dirty f i p) = i_size f"
  by (simp add: put_dirty_def)

lemma read_mapping_page_fst: "fst (read_mapping_page f i) = view f i"
  by (auto simp: read_mapping_page_def view_def split: option.splits)

lemma read_mapping_page_frame [simp]:
  "i_size (snd (read_mapping_page f i)) = i_size f"
  "view (snd (read_mapping_page f i)) j = view f j"
  by (auto simp: read_mapping_page_def view_def split: option.splits)

lemma read_mapping_page_cached:
  "cache f j \<noteq> None \<Longrightarrow> cache (snd (read_mapping_page f i)) j \<noteq> None"
  by (auto simp: read_mapping_page_def split: option.splits)

lemma scorw_get_page_frame [simp]: "i_size (snd (scorw_get_page e f i)) = i_size f"
  by (auto simp: scorw_get_page_def split: option.splits if_splits)

lemma scorw_get_page_other: "j \<noteq> i \<Longrightarrow> view (snd (scorw_get_page e f i)) j = view f j"
  by (auto simp: scorw_get_page_def view_def split: option.splits)

text \<open>Inside the file, or on a cached page, \<open>scorw_get_page\<close> shows the file's
  contents.\<close>

lemma scorw_get_page_view:
  assumes "fst (scorw_get_page e f i) = Some p"
    and "cache f i \<noteq> None \<or> i < i_size f div PAGE_SIZE"
  shows "view f i = Some p"
  using assms by (auto simp: scorw_get_page_def view_def split: option.splits if_splits)

lemma truncate_setsize_size [simp]: "i_size (truncate_setsize f n) = n"
  by (simp add: truncate_setsize_def)

lemma view_writeback [simp]: "view (writeback_page f i) j = view f j"
  by (auto simp: view_def writeback_page_def split: option.splits)

lemma writeback_all_frame [simp]:
  "view (writeback_all f) i = view f i" "i_size (writeback_all f) = i_size f"
  "cache (writeback_all f) = cache f" "disk (writeback_all f) i = view f i"
  by (auto simp: view_def writeback_all_def split: option.splits)

text \<open>\<open>g\<close> is \<open>f\<close> after reads: the same contents, perhaps more of them cached.\<close>

definition same_view :: "file \<Rightarrow> file \<Rightarrow> bool" where
  "same_view f g \<longleftrightarrow> i_size g = i_size f \<and> (\<forall>i. view g i = view f i) \<and>
     (\<forall>i. cache f i \<noteq> None \<longrightarrow> cache g i \<noteq> None)"

lemma same_view_refl [simp]: "same_view f f"
  by (simp add: same_view_def)

lemma same_view_writeback_all [simp]: "same_view f (writeback_all f)"
  by (simp add: same_view_def)

lemma same_view_trans [trans]: "same_view f g \<Longrightarrow> same_view g h \<Longrightarrow> same_view f h"
  by (simp add: same_view_def)

lemma same_view_read_mapping_page: "same_view f (snd (read_mapping_page f i))"
  using read_mapping_page_cached by (auto simp: same_view_def)

lemma same_viewD:
  "same_view f g \<Longrightarrow> i_size g = i_size f" "same_view f g \<Longrightarrow> view g i = view f i"
  by (auto simp: same_view_def)

end
