(* ===== verification/Log_File.thy ===== *)
theory Log_File
  imports Page_Cache
begin

text \<open>
  The transaction log of a versioned parent file: the 32-byte record
  \<open>struct scorw_log_record\<close> of \<open>src/ext4-module/corw_sparse.h\<close>, its
  little-endian layout on disk, the records a log file holds, and the append
  that \<open>write_offset_log\<close> performs. The locale \<open>record_log\<close> is the interface
  the version store uses; it is interpreted on the byte-level log file.
\<close>

section \<open>The log record and its layout\<close>

record scorw_log_record =
  version_num :: nat
  logical_start_blk :: nat
  physical_start_blk :: nat
  len_blks :: nat
  padding :: nat
  padding2 :: nat

abbreviation RECORD_SIZE :: nat where
  "RECORD_SIZE \<equiv> 32"

definition encode_record :: "scorw_log_record \<Rightarrow> byte list" where
  "encode_record r =
     le_bytes 4 (version_num r) @ le_bytes 4 (logical_start_blk r) @
     le_bytes 8 (physical_start_blk r) @ le_bytes 4 (len_blks r) @
     le_bytes 4 (padding r) @ le_bytes 8 (padding2 r)"

definition decode_record :: "byte list \<Rightarrow> scorw_log_record" where
  "decode_record bs =
     \<lparr>version_num = le_val (take 4 bs),
      logical_start_blk = le_val (take 4 (drop 4 bs)),
      physical_start_blk = le_val (take 8 (drop 8 bs)),
      len_blks = le_val (take 4 (drop 16 bs)),
      padding = le_val (take 4 (drop 20 bs)),
      padding2 = le_val (take 8 (drop 24 bs))\<rparr>"

text \<open>The fields fit the widths of the C structure.\<close>

definition record_ok :: "scorw_log_record \<Rightarrow> bool" where
  "record_ok r \<longleftrightarrow> version_num r < 2 ^ 32 \<and> logical_start_blk r < 2 ^ 32 \<and>
     physical_start_blk r < 2 ^ 64 \<and> len_blks r < 2 ^ 32 \<and> padding r < 2 ^ 32 \<and>
     padding2 r < 2 ^ 64"

lemma length_encode_record [simp]: "length (encode_record r) = RECORD_SIZE"
  by (simp add: encode_record_def)

lemma decode_encode_record: "record_ok r \<Longrightarrow> decode_record (encode_record r) = r"
  by (simp add: decode_record_def encode_record_def record_ok_def le_val_le_bytes)

section \<open>The records of a log file\<close>

definition record_at :: "file \<Rightarrow> nat \<Rightarrow> scorw_log_record" where
  "record_at f off =
     (case view f (off div PAGE_SIZE) of
        None \<Rightarrow> decode_record (replicate RECORD_SIZE 0)
      | Some p \<Rightarrow> decode_record (page_bytes p (off mod PAGE_SIZE) RECORD_SIZE))"

definition log_records :: "file \<Rightarrow> scorw_log_record list" where
  "log_records f = map (\<lambda>k. record_at f (RECORD_SIZE * k)) [0..<i_size f div RECORD_SIZE]"

text \<open>Every page below the end of file can be read.\<close>

definition pages_ok :: "file \<Rightarrow> bool" where
  "pages_ok f \<longleftrightarrow> (\<forall>i. i * PAGE_SIZE < i_size f \<longrightarrow> view f i \<noteq> None)"

text \<open>A log that can be appended to: whole records, readable pages, and the
  page the end of file falls into in the page cache unless it is a new one.\<close>

definition log_ok :: "file \<Rightarrow> bool" where
  "log_ok f \<longleftrightarrow> i_size f mod RECORD_SIZE = 0 \<and> pages_ok f \<and>
     (i_size f mod PAGE_SIZE = 0 \<or> cache f (i_size f div PAGE_SIZE) \<noteq> None)"

definition append_record :: "kenv \<Rightarrow> file \<Rightarrow> scorw_log_record \<Rightarrow> file option" where
  "append_record e f r = write_offset_log e f (i_size f) (encode_record r)"

lemma length_log_records [simp]: "length (log_records f) = i_size f div RECORD_SIZE"
  by (simp add: log_records_def)

lemma log_records_nth:
  "k < i_size f div RECORD_SIZE \<Longrightarrow> log_records f ! k = record_at f (RECORD_SIZE * k)"
  by (simp add: log_records_def)

lemma log_records_cong:
  assumes "i_size f = i_size g" and "\<And>i. view f i = view g i"
  shows "log_records f = log_records g"
  using assms by (simp add: log_records_def record_at_def)

lemma log_ok_empty_file [simp]: "log_ok empty_file" "log_records empty_file = []"
  by (auto simp: log_ok_def pages_ok_def log_records_def empty_file_def)

lemma same_view_log:
  assumes "same_view f g"
  shows "log_records g = log_records f" "pages_ok g = pages_ok f" "log_ok f \<Longrightarrow> log_ok g"
proof -
  show "log_records g = log_records f"
    by (rule log_records_cong) (use assms in \<open>auto simp: same_view_def\<close>)
  show "pages_ok g = pages_ok f" "log_ok f \<Longrightarrow> log_ok g"
    using assms by (auto simp: same_view_def pages_ok_def log_ok_def)
qed

lemma pages_okE:
  assumes "pages_ok f" and "off < i_size f"
  obtains p f1 where "view f (off div PAGE_SIZE) = Some p"
    "read_mapping_page f (off div PAGE_SIZE) = (Some p, f1)" "same_view f f1"
proof -
  have "off div PAGE_SIZE * PAGE_SIZE < i_size f"
    using assms(2) div_times_less_eq_dividend [of off PAGE_SIZE] by (rule le_less_trans [rotated])
  with assms(1) obtain p where "view f (off div PAGE_SIZE) = Some p" by (auto simp: pages_ok_def)
  moreover obtain f1 where "read_mapping_page f (off div PAGE_SIZE) = (Some p, f1)"
    using calculation read_mapping_page_fst [of f "off div PAGE_SIZE"] by (metis prod.collapse)
  ultimately show thesis
    using that same_view_read_mapping_page [of f "off div PAGE_SIZE"] by simp
qed

text \<open>Records do not straddle pages.\<close>

lemma record_in_page: "off mod RECORD_SIZE = 0 \<Longrightarrow> off mod PAGE_SIZE + RECORD_SIZE \<le> PAGE_SIZE"
proof -
  assume "off mod RECORD_SIZE = 0"
  then have "(off mod PAGE_SIZE) mod RECORD_SIZE = 0"
    by (simp add: mod_mod_cancel)
  moreover have "off mod PAGE_SIZE < PAGE_SIZE" by simp
  ultimately obtain k where "off mod PAGE_SIZE = k * RECORD_SIZE" "k * RECORD_SIZE < PAGE_SIZE"
    by (metis mod_eq_0_iff_dvd dvdE mult.commute)
  then show ?thesis by simp
qed

section \<open>Appending a record\<close>

lemma append_record_eq:
  assumes "log_ok f" and "alloc_page_ok e (i_size f div PAGE_SIZE)"
    and "begin_ok e (i_size f div PAGE_SIZE)"
  obtains p where "cache f (i_size f div PAGE_SIZE) = Some p \<or>
        cache f (i_size f div PAGE_SIZE) = None \<and> i_size f mod PAGE_SIZE = 0"
    and "append_record e f r = Some ((put_dirty f (i_size f div PAGE_SIZE)
      (memcpy_page p (i_size f mod PAGE_SIZE) (encode_record r)))
        \<lparr>i_size := i_size f + RECORD_SIZE\<rparr>)"
    and "cache f (i_size f div PAGE_SIZE) \<noteq> None \<Longrightarrow> cache f (i_size f div PAGE_SIZE) = Some p"
proof (cases "cache f (i_size f div PAGE_SIZE)")
  case None
  with assms(1) have z: "i_size f mod PAGE_SIZE = 0" by (simp add: log_ok_def)
  show ?thesis
    by (rule that [of zero_page])
      (use None assms z in \<open>auto simp: append_record_def write_offset_log_def scorw_get_page_def
         put_dirty_def Let_def\<close>)
next
  case (Some p)
  show ?thesis
    by (rule that [of p])
      (use Some assms in \<open>auto simp: append_record_def write_offset_log_def scorw_get_page_def
         put_dirty_def Let_def\<close>)
qed

text \<open>A record that lies wholly below the end of file is untouched by a write
  at the end of file.\<close>

lemma record_at_below:
  assumes old: "off mod RECORD_SIZE = 0" "off + RECORD_SIZE \<le> n"
    and p: "view f (n div PAGE_SIZE) = Some p \<or> n mod PAGE_SIZE = 0"
  shows "record_at (put_dirty f (n div PAGE_SIZE)
           (memcpy_page p (n mod PAGE_SIZE) (encode_record r))) off = record_at f off"
proof (cases "off div PAGE_SIZE = n div PAGE_SIZE")
  case True
  have "off mod PAGE_SIZE + RECORD_SIZE \<le> n mod PAGE_SIZE"
    using True old(2) div_mult_mod_eq [of off PAGE_SIZE] div_mult_mod_eq [of n PAGE_SIZE]
    by linarith
  moreover from this p have "view f (n div PAGE_SIZE) = Some p" by auto
  ultimately show ?thesis
    by (simp add: record_at_def True page_bytes_memcpy_other)
next
  case False
  then show ?thesis by (simp add: record_at_def)
qed

text \<open>The record written is the record read back.\<close>

lemma record_at_written:
  assumes "record_ok r"
  shows "record_at (put_dirty f (n div PAGE_SIZE)
           (memcpy_page p (n mod PAGE_SIZE) (encode_record r))) n = r"
proof -
  have "page_bytes (memcpy_page p (n mod PAGE_SIZE) (encode_record r)) (n mod PAGE_SIZE)
      RECORD_SIZE = encode_record r"
    using page_bytes_memcpy [of p "n mod PAGE_SIZE" "encode_record r"] by simp
  with assms show ?thesis by (simp add: record_at_def decode_encode_record)
qed

lemma record_at_size [simp]: "record_at (f\<lparr>i_size := n\<rparr>) off = record_at f off"
  by (simp add: record_at_def)

lemma append_record_records:
  assumes ok: "log_ok f" and r: "record_ok r"
    and e: "alloc_page_ok e (i_size f div PAGE_SIZE)" "begin_ok e (i_size f div PAGE_SIZE)"
  shows "\<exists>f'. append_record e f r = Some f' \<and> log_ok f' \<and>
    log_records f' = log_records f @ [r] \<and> i_size f' = i_size f + RECORD_SIZE"
proof -
  let ?n = "i_size f" and ?i = "i_size f div PAGE_SIZE"
  obtain p where p: "cache f ?i = Some p \<or> cache f ?i = None \<and> ?n mod PAGE_SIZE = 0"
    and eq: "append_record e f r = Some ((put_dirty f ?i
      (memcpy_page p (?n mod PAGE_SIZE) (encode_record r)))\<lparr>i_size := ?n + RECORD_SIZE\<rparr>)"
    by (rule append_record_eq [OF ok e, of r])
  let ?g = "put_dirty f ?i (memcpy_page p (?n mod PAGE_SIZE) (encode_record r))"
  let ?f' = "?g\<lparr>i_size := ?n + RECORD_SIZE\<rparr>"
  have n32: "?n mod RECORD_SIZE = 0" and pg: "pages_ok f" using ok by (auto simp: log_ok_def)
  have in_page: "?n mod PAGE_SIZE + RECORD_SIZE \<le> PAGE_SIZE"
    using n32 by (rule record_in_page)
  have vp: "view f ?i = Some p \<or> ?n mod PAGE_SIZE = 0" using p by (auto simp: view_def)
  have old: "record_at ?f' (RECORD_SIZE * k) = record_at f (RECORD_SIZE * k)"
    if "k < ?n div RECORD_SIZE" for k
  proof -
    have "RECORD_SIZE * k + RECORD_SIZE \<le> ?n"
      using that div_mult_mod_eq [of ?n RECORD_SIZE] by linarith
    then show ?thesis using record_at_below [OF _ _ vp, of "RECORD_SIZE * k" r] by simp
  qed
  have new: "record_at ?f' ?n = r" using record_at_written [OF r] by simp
  have cnt: "(?n + RECORD_SIZE) div RECORD_SIZE = Suc (?n div RECORD_SIZE)" by simp
  have nn: "RECORD_SIZE * (?n div RECORD_SIZE) = ?n" using n32 by auto
  have recs: "log_records ?f' = log_records f @ [r]"
    unfolding log_records_def using old new cnt nn by simp
  have pages: "pages_ok ?f'"
    unfolding pages_ok_def
  proof (intro allI impI)
    fix i assume "i * PAGE_SIZE < i_size ?f'"
    then have "i * PAGE_SIZE < ?n + RECORD_SIZE" by simp
    then have "i = ?i \<or> i * PAGE_SIZE < ?n"
      using in_page div_mult_mod_eq [of ?n PAGE_SIZE] by linarith
    then show "view ?f' i \<noteq> None" using pg by (auto simp: pages_ok_def)
  qed
  have "(?n + RECORD_SIZE) mod PAGE_SIZE = 0 \<or> (?n + RECORD_SIZE) div PAGE_SIZE = ?i"
  proof (cases "?n mod PAGE_SIZE + RECORD_SIZE = PAGE_SIZE")
    case True
    then have "?n + RECORD_SIZE = (?i + 1) * PAGE_SIZE"
      using div_mult_mod_eq [of ?n PAGE_SIZE] by (simp add: algebra_simps)
    then show ?thesis by (metis mod_mult_self2_is_0)
  next
    case False
    with in_page have "?n mod PAGE_SIZE + RECORD_SIZE < PAGE_SIZE" by simp
    moreover have "?n + RECORD_SIZE = ?i * PAGE_SIZE + (?n mod PAGE_SIZE + RECORD_SIZE)"
      using div_mult_mod_eq [of ?n PAGE_SIZE] by linarith
    ultimately show ?thesis by (metis div_mult_self3 div_less add.commute add_0 zero_neq_numeral)
  qed
  then have "log_ok ?f'" using pages n32 by (auto simp: log_ok_def put_dirty_def)
  with eq recs show ?thesis by auto
qed

section \<open>The interface of a record log\<close>

locale record_log =
  fixes records :: "'f \<Rightarrow> 'r list"
    and ok :: "'f \<Rightarrow> bool"
    and append :: "'e \<Rightarrow> 'f \<Rightarrow> 'r \<Rightarrow> 'f option"
    and rok :: "'r \<Rightarrow> bool"
    and eok :: "'e \<Rightarrow> bool"
  assumes append_one: "eok e \<Longrightarrow> ok f \<Longrightarrow> rok r \<Longrightarrow>
    \<exists>f'. append e f r = Some f' \<and> ok f' \<and> records f' = records f @ [r]"
begin

lemma append_Some:
  "eok e \<Longrightarrow> ok f \<Longrightarrow> rok r \<Longrightarrow> append e f r = Some f' \<Longrightarrow>
   ok f' \<and> records f' = records f @ [r]"
  using append_one by fastforce

lemma append_all:
  "eok e \<Longrightarrow> ok f \<Longrightarrow> list_all rok rs \<Longrightarrow>
   \<exists>f'. ofold (append e) rs f = Some f' \<and> ok f' \<and> records f' = records f @ rs"
proof (induction rs arbitrary: f)
  case Nil
  then show ?case by simp
next
  case (Cons r rs)
  then obtain g where g: "append e f r = Some g" "ok g" "records g = records f @ [r]"
    using append_one [of e f r] by auto
  with Cons show ?case by fastforce
qed

end

interpretation scorw_log: record_log log_records log_ok append_record record_ok pages_env_ok
  by unfold_locales (use append_record_records in \<open>blast dest: pages_env_okD\<close>)

section \<open>What the append does to a log whose last page was reclaimed\<close>

definition zero_record :: scorw_log_record where
  "zero_record = \<lparr>version_num = 0, logical_start_blk = 0, physical_start_blk = 0,
     len_blks = 0, padding = 0, padding2 = 0\<rparr>"

lemma le_val_replicate_0 [simp]: "le_val (replicate n 0) = 0"
  by (induction n) auto

lemma decode_zeroes [simp]: "decode_record (replicate RECORD_SIZE 0) = zero_record"
  by (simp add: decode_record_def zero_record_def)

lemma page_bytes_zero_page [simp]: "page_bytes zero_page off n = replicate n 0"
  by (rule nth_equalityI) (auto simp: page_bytes_def zero_page_def)

lemma append_uncached_zeroes:
  assumes uncached: "cache f (i_size f div PAGE_SIZE) = None"
    and e: "pages_env_ok e"
    and off: "off mod RECORD_SIZE = 0" "off div PAGE_SIZE = i_size f div PAGE_SIZE"
      "off + RECORD_SIZE \<le> i_size f"
  shows "\<exists>f'. append_record e f r = Some f' \<and> record_at f' off = zero_record"
proof -
  let ?n = "i_size f"
  have b: "off mod PAGE_SIZE + RECORD_SIZE \<le> ?n mod PAGE_SIZE"
    using off div_mult_mod_eq [of off PAGE_SIZE] div_mult_mod_eq [of ?n PAGE_SIZE] by linarith
  have "append_record e f r = Some ((put_dirty f (?n div PAGE_SIZE)
      (memcpy_page zero_page (?n mod PAGE_SIZE) (encode_record r)))\<lparr>i_size := ?n + RECORD_SIZE\<rparr>)"
    using uncached pages_env_okD [OF e]
    by (auto simp: append_record_def write_offset_log_def scorw_get_page_def put_dirty_def Let_def)
  moreover have "record_at (put_dirty f (?n div PAGE_SIZE)
      (memcpy_page zero_page (?n mod PAGE_SIZE) (encode_record r))) off = zero_record"
    using b by (simp add: record_at_def off(2) page_bytes_memcpy_other)
  ultimately show ?thesis by simp
qed

end
