(* ===== verification/Log_Scan.thy ===== *)
theory Log_Scan
  imports Log_File
begin

text \<open>
  Reading the log from the start, as \<open>scorw_replay_log_version\<close> and
  \<open>scorw_gc_blocks\<close> of \<open>src/ext4-module/corw_sparse.c\<close> do: the scan visits the
  records of the log in order, and returns only when the log holds a whole
  number of records.
\<close>

section \<open>Scanning the log\<close>

text \<open>
  The loop that the readers of the log share: over the pages of the log and,
  in each mapped page, over its records, doing \<open>g\<close> for each. The inner loop
  gives the result and the new file offset. The outer loop stops at a page that
  cannot be read; it does not advance past a trailing fragment shorter than
  a record, so it may not return.
\<close>

fun scan_page :: "(scorw_log_record \<Rightarrow> 'a \<Rightarrow> 'a) \<Rightarrow> page \<Rightarrow> nat \<Rightarrow> nat \<Rightarrow> nat \<Rightarrow> 'a \<Rightarrow> 'a \<times> nat" where
  "scan_page g kaddr rec bytes_to_read offset v =
     (if RECORD_SIZE \<le> bytes_to_read then
        scan_page g kaddr (rec + RECORD_SIZE) (bytes_to_read - RECORD_SIZE) (offset + RECORD_SIZE)
          (g (decode_record (page_bytes kaddr rec RECORD_SIZE)) v)
      else (v, offset))"

declare scan_page.simps [simp del]

partial_function (option) scan_loop ::
    "(scorw_log_record \<Rightarrow> 'a \<Rightarrow> 'a) \<Rightarrow> nat \<Rightarrow> file \<Rightarrow> nat \<Rightarrow> 'a \<Rightarrow> ('a \<times> file) option" where
  "scan_loop g log_size f offset v =
     (if offset < log_size then
        (case read_mapping_page f (offset div PAGE_SIZE) of
           (None, f1) \<Rightarrow> Some (v, f1)
         | (Some kaddr, f1) \<Rightarrow>
             (case scan_page g kaddr (offset mod PAGE_SIZE)
                (min (PAGE_SIZE - offset mod PAGE_SIZE) (log_size - offset)) offset v of
                (v1, offset1) \<Rightarrow> scan_loop g log_size f1 offset1 v1))
      else Some (v, f))"

lemma scan_page_fold:
  assumes "k < RECORD_SIZE"
  shows "scan_page g p rec (RECORD_SIZE * n + k) off v =
    (fold g
       (map (\<lambda>j. decode_record (page_bytes p (rec + RECORD_SIZE * j) RECORD_SIZE)) [0..<n]) v,
     off + RECORD_SIZE * n)"
proof (induction n arbitrary: rec off v)
  case 0
  with assms show ?case by (simp add: scan_page.simps)
next
  case (Suc n)
  show ?case
    using Suc by (subst scan_page.simps) (simp add: map_upt_Suc_shift algebra_simps del: upt_Suc)
qed

text \<open>One iteration of the outer loop covers the records from \<open>offset\<close> to the
  end of its page or of the file.\<close>

lemma chunk_records:
  assumes off: "off mod RECORD_SIZE = 0" and n: "off mod PAGE_SIZE + RECORD_SIZE * n \<le> PAGE_SIZE"
    and p: "view f (off div PAGE_SIZE) = Some p"
  shows "map (\<lambda>j. decode_record (page_bytes p (off mod PAGE_SIZE + RECORD_SIZE * j) RECORD_SIZE)) [0..<n]
    = map (\<lambda>j. record_at f (off + RECORD_SIZE * j)) [0..<n]"
proof (rule map_cong [OF refl])
  fix j assume "j \<in> set [0..<n]"
  then have "off mod PAGE_SIZE + RECORD_SIZE * j < PAGE_SIZE" using n by simp
  note div_mod_add_small [OF this]
  with p show "decode_record (page_bytes p (off mod PAGE_SIZE + RECORD_SIZE * j) RECORD_SIZE)
      = record_at f (off + RECORD_SIZE * j)"
    by (simp add: record_at_def)
qed

lemma log_records_drop:
  assumes "off mod RECORD_SIZE = 0" "off + RECORD_SIZE * n \<le> i_size f"
  shows "drop (off div RECORD_SIZE) (log_records f) =
    map (\<lambda>j. record_at f (off + RECORD_SIZE * j)) [0..<n] @
    drop ((off + RECORD_SIZE * n) div RECORD_SIZE) (log_records f)"
proof -
  obtain q where q: "off = RECORD_SIZE * q" using assms(1) by auto
  let ?m = "i_size f div RECORD_SIZE"
  have qn: "q + n \<le> ?m" using assms(2) q by (simp add: less_eq_div_iff_mult_less_eq)
  have "drop q (log_records f) = map (\<lambda>k. record_at f (RECORD_SIZE * k)) ([q..<q+n] @ [q+n..<?m])"
    using qn by (simp add: log_records_def drop_map upt_split [of q "q + n" ?m])
  also have "[q..<q+n] = map (\<lambda>j. q + j) [0..<n]"
    by (simp add: map_add_upt add.commute)
  finally show ?thesis
    using q by (simp add: log_records_def drop_map algebra_simps)
qed

lemma chunk_size:
  assumes "off mod RECORD_SIZE = 0" and "s mod RECORD_SIZE = 0" and "off < s"
  shows "\<exists>n. min (PAGE_SIZE - off mod PAGE_SIZE) (s - off) = RECORD_SIZE * n \<and>
    0 < min (PAGE_SIZE - off mod PAGE_SIZE) (s - off) \<and>
    off mod PAGE_SIZE + RECORD_SIZE * n \<le> PAGE_SIZE \<and> off + RECORD_SIZE * n \<le> s"
proof -
  let ?b = "min (PAGE_SIZE - off mod PAGE_SIZE) (s - off)"
  have "RECORD_SIZE dvd off" "RECORD_SIZE dvd s" using assms by (simp_all only: mod_eq_0_iff_dvd)
  then have "RECORD_SIZE dvd PAGE_SIZE - off mod PAGE_SIZE" "RECORD_SIZE dvd s - off"
    by (auto intro!: dvd_diff_nat simp: dvd_mod_iff)
  then have "RECORD_SIZE dvd ?b" by (simp only: min_def split: if_split) blast
  then obtain n where n: "?b = RECORD_SIZE * n" by (rule dvdE)
  have "0 < ?b" using assms(3) mod_less_divisor [of PAGE_SIZE off]
    by (simp only: min_def split: if_split) simp
  moreover have "off mod PAGE_SIZE + RECORD_SIZE * n \<le> PAGE_SIZE" "off + RECORD_SIZE * n \<le> s"
    using n assms(3) mod_less_divisor [of PAGE_SIZE off] by linarith+
  ultimately show ?thesis using n by blast
qed

lemma scan_loop_ok:
  assumes "pages_ok f" and "i_size f mod RECORD_SIZE = 0"
    and "off mod RECORD_SIZE = 0" and "off \<le> i_size f"
  shows "\<exists>f'. scan_loop g (i_size f) f off v =
      Some (fold g (drop (off div RECORD_SIZE) (log_records f)) v, f') \<and>
    same_view f f'"
  using assms
proof (induction "i_size f - off" arbitrary: f off v rule: less_induct)
  case less
  let ?s = "i_size f"
  show ?case
  proof (cases "off < ?s")
    case False
    with less.prems have "off = ?s" by simp
    then show ?thesis by (subst scan_loop.simps) (auto intro: exI [of _ f])
  next
    case True
    let ?b = "min (PAGE_SIZE - off mod PAGE_SIZE) (?s - off)"
    obtain p f1 where p: "view f (off div PAGE_SIZE) = Some p"
      and f1: "read_mapping_page f (off div PAGE_SIZE) = (Some p, f1)" and sv: "same_view f f1"
      using less.prems(1) True by (rule pages_okE)
    obtain n where n: "?b = RECORD_SIZE * n" "0 < ?b"
      and n1: "off mod PAGE_SIZE + RECORD_SIZE * n \<le> PAGE_SIZE" and n2: "off + RECORD_SIZE * n \<le> ?s"
      using chunk_size [OF less.prems(3,2) True] by blast
    let ?v1 = "fold g (map (\<lambda>j. record_at f (off + RECORD_SIZE * j)) [0..<n]) v"
    have page: "scan_page g p (off mod PAGE_SIZE) ?b off v = (?v1, off + RECORD_SIZE * n)"
      using scan_page_fold [of 0 g p "off mod PAGE_SIZE" n off v]
        chunk_records [OF less.prems(3) n1 p] n(1) by simp
    have "i_size f1 - (off + RECORD_SIZE * n) < ?s - off" using sv n n2 by (simp add: same_viewD)
    from less.hyps [OF this, of ?v1]
    obtain f' where "scan_loop g (i_size f1) f1 (off + RECORD_SIZE * n) ?v1 =
        Some (fold g (drop ((off + RECORD_SIZE * n) div RECORD_SIZE) (log_records f1)) ?v1, f')"
        "same_view f1 f'"
      using sv n2 less.prems by (auto simp: same_view_log same_viewD)
    then have f': "scan_loop g ?s f1 (off + RECORD_SIZE * n) ?v1 =
        Some (fold g (drop ((off + RECORD_SIZE * n) div RECORD_SIZE) (log_records f)) ?v1, f')"
        "same_view f f'"
      using sv by (simp_all add: same_view_log same_viewD same_view_trans [OF sv])
    have "scan_loop g ?s f off v = scan_loop g ?s f1 (off + RECORD_SIZE * n) ?v1"
      by (subst scan_loop.simps) (simp only: True f1 page if_True prod.case option.case)
    with f' show ?thesis
      by (simp only: log_records_drop [OF less.prems(3) n2] fold_append) auto
  qed
qed

text \<open>A log whose size is not a whole number of records makes the loop
  run forever.\<close>

lemma scan_loop_diverges:
  assumes "scan_loop g s f off v = Some r"
  shows "s mod RECORD_SIZE \<noteq> 0 \<longrightarrow> off mod RECORD_SIZE = 0 \<longrightarrow> off \<le> s \<longrightarrow>
    (\<forall>i. i * PAGE_SIZE < s \<longrightarrow> view f i \<noteq> None) \<longrightarrow> False"
proof (rule scan_loop.raw_induct [where P = "\<lambda>g s f off v r. s mod RECORD_SIZE \<noteq> 0 \<longrightarrow>
    off mod RECORD_SIZE = 0 \<longrightarrow> off \<le> s \<longrightarrow> (\<forall>i. i * PAGE_SIZE < s \<longrightarrow> view f i \<noteq> None) \<longrightarrow> False",
    OF _ assms], intro impI)
  fix loop g s f off v r
  assume IH: "\<And>g s f off v r. loop g s f off v = Some r \<Longrightarrow> s mod RECORD_SIZE \<noteq> 0 \<longrightarrow>
      off mod RECORD_SIZE = 0 \<longrightarrow> off \<le> s \<longrightarrow> (\<forall>i. i * PAGE_SIZE < s \<longrightarrow> view f i \<noteq> None) \<longrightarrow> False"
    and eq: "(if off < s then
        (case read_mapping_page f (off div PAGE_SIZE) of
           (None, f1) \<Rightarrow> Some (v, f1)
         | (Some kaddr, f1) \<Rightarrow>
             (case scan_page g kaddr (off mod PAGE_SIZE)
                (min (PAGE_SIZE - off mod PAGE_SIZE) (s - off)) off v of
                (v1, offset1) \<Rightarrow> loop g s f1 offset1 v1))
      else Some (v, f)) = Some r"
    and s: "s mod RECORD_SIZE \<noteq> 0" and off: "off mod RECORD_SIZE = 0" and le: "off \<le> s"
    and vw: "\<forall>i. i * PAGE_SIZE < s \<longrightarrow> view f i \<noteq> None"
  have lt: "off < s" using s off le by (cases "off = s") auto
  let ?b = "min (PAGE_SIZE - off mod PAGE_SIZE) (s - off)"
  have b: "?b = RECORD_SIZE * (?b div RECORD_SIZE) + ?b mod RECORD_SIZE" by simp
  obtain p where p: "view f (off div PAGE_SIZE) = Some p"
    using lt vw div_mult_mod_eq [of off PAGE_SIZE] by fastforce
  obtain f1 where f1: "read_mapping_page f (off div PAGE_SIZE) = (Some p, f1)"
    using p read_mapping_page_fst [of f "off div PAGE_SIZE"] by (metis prod.collapse)
  then have vw1: "\<forall>i. view f1 i = view f i"
    using read_mapping_page_frame(2) [of f "off div PAGE_SIZE"] by simp
  obtain v1 where "scan_page g p (off mod PAGE_SIZE) ?b off v = (v1, off + RECORD_SIZE * (?b div RECORD_SIZE))"
    using scan_page_fold [of "?b mod RECORD_SIZE" g p "off mod PAGE_SIZE" "?b div RECORD_SIZE" off v,
      folded b] by (simp only: mod_less_divisor zero_less_numeral)
  with eq f1 lt have step: "loop g s f1 (off + RECORD_SIZE * (?b div RECORD_SIZE)) v1 = Some r"
    by (simp only: if_True prod.case option.case)
  have le2: "off + RECORD_SIZE * (?b div RECORD_SIZE) \<le> s"
    using lt times_div_less_eq_dividend [of RECORD_SIZE ?b] by linarith
  from IH [OF step] show False
    using s off le2 vw vw1 by simp
qed

end
