(* ===== verification/Version_Store.thy ===== *)
theory Version_Store
  imports Log_Scan
begin

text \<open>
  The version store of a parent file: the in-memory table of at most
  \<open>MAX_RAM_VERSIONS\<close> per-version block maps (\<open>struct scorw_version\<close>, an
  xarray from logical to physical blocks), filled on demand from the log and
  evicted first-in first-out, and the lookup that walks the versions
  backwards. Sources: \<open>scorw_get_or_create_version\<close>,
  \<open>scorw_replay_log_version\<close>, \<open>scorw_lookup_physical_block\<close>,
  \<open>scorw_record_write\<close>, \<open>scorw_cleanup_versions\<close> of
  \<open>src/ext4-module/corw_sparse.c\<close>.
\<close>

section \<open>Data\<close>

text \<open>Value entries of an xarray: \<open>xa_mk_value\<close>, \<open>xa_to_value\<close>.\<close>

definition xa_mk_value :: "nat \<Rightarrow> nat" where
  "xa_mk_value v = (2 * v + 1) mod 2 ^ 64"

definition xa_to_value :: "nat \<Rightarrow> nat" where
  "xa_to_value x = x div 2"

type_synonym xarray = "nat \<rightharpoonup> nat"

record scorw_version =
  sv_version_num :: int
  delta_map :: xarray

text \<open>The fields of \<open>struct scorw_inode\<close> that hold loaded versions.\<close>

record version_cache =
  version_states :: "nat \<Rightarrow> scorw_version option"
  loaded_versions :: "nat \<Rightarrow> int"
  loaded_version_count :: nat
  fifo_head :: nat

definition empty_cache :: version_cache where
  "empty_cache = \<lparr>version_states = (\<lambda>_. None), loaded_versions = (\<lambda>_. 0),
     loaded_version_count = 0, fifo_head = 0\<rparr>"

section \<open>Replaying one version from the log\<close>

text \<open>Store every block of an extent; the logical block is 32-bit arithmetic on
  the record's \<open>__u32\<close> field, the physical one 64-bit.\<close>

definition store_extent :: "nat \<Rightarrow> nat \<Rightarrow> nat \<Rightarrow> xarray \<Rightarrow> xarray" where
  "store_extent lsb psb len dm =
     fold (\<lambda>i m. m((lsb + i) mod 2 ^ 32 \<mapsto> xa_mk_value ((psb + i) mod 2 ^ 64))) [0..<len] dm"

definition replay_record :: "int \<Rightarrow> scorw_log_record \<Rightarrow> xarray option \<Rightarrow> xarray option" where
  "replay_record target_version r v =
     (if int (version_num r) = target_version mod 2 ^ 32
      then map_option (store_extent (logical_start_blk r) (physical_start_blk r) (len_blks r)) v
      else v)"

definition set_version_state :: "version_cache \<Rightarrow> nat \<Rightarrow> scorw_version option \<Rightarrow> version_cache" where
  "set_version_state vc idx sv = vc\<lparr>version_states := (version_states vc)(idx := sv)\<rparr>"

definition scorw_replay_log_version ::
    "file option \<Rightarrow> version_cache \<Rightarrow> int \<Rightarrow> (version_cache \<times> file option) option" where
  "scorw_replay_log_version log vc target_version =
     (case log of
        None \<Rightarrow> Some (vc, None)
      | Some f \<Rightarrow>
          (let idx = nat (target_version - 1); sv = version_states vc idx in
           case scan_loop (replay_record target_version) (i_size f) f 0 (map_option delta_map sv) of
             None \<Rightarrow> None
           | Some (dm, f') \<Rightarrow>
               Some (set_version_state vc idx
                       (case (sv, dm) of (Some s, Some m) \<Rightarrow> Some (s\<lparr>delta_map := m\<rparr>) | _ \<Rightarrow> sv),
                     Some f')))"

section \<open>The table of loaded versions\<close>

text \<open>
  \<open>scorw_get_or_create_version\<close>. The result is the index of the version in
  \<open>version_states\<close> (the pointer the C function returns), or \<^const>\<open>None\<close> for
  NULL.
\<close>

definition make_room :: "version_cache \<Rightarrow> int \<Rightarrow> version_cache" where
  "make_room vc v_num =
     (if loaded_version_count vc = MAX_RAM_VERSIONS then
        let evict_idx = fifo_head vc;
            evict_v_num = loaded_versions vc evict_idx;
            vc1 = set_version_state vc (nat (evict_v_num - 1)) None
        in vc1\<lparr>loaded_versions := (loaded_versions vc1)(evict_idx := v_num),
               fifo_head := (fifo_head vc1 + 1) mod MAX_RAM_VERSIONS\<rparr>
      else vc\<lparr>loaded_versions := (loaded_versions vc)(loaded_version_count vc := v_num),
              loaded_version_count := loaded_version_count vc + 1\<rparr>)"

definition scorw_get_or_create_version ::
    "kenv \<Rightarrow> file option \<Rightarrow> version_cache \<Rightarrow> int \<Rightarrow>
      (nat option \<times> version_cache \<times> file option) option" where
  "scorw_get_or_create_version e log vc v_num =
     (let idx = v_num - 1 in
      if idx < 0 \<or> int MAX_VERSIONS \<le> idx then Some (None, vc, log)
      else if version_states vc (nat idx) \<noteq> None then Some (Some (nat idx), vc, log)
      else
        let vc1 = make_room vc v_num in
        if \<not> kzalloc_ok e then Some (None, vc1, log)
        else
          let vc2 = set_version_state vc1 (nat idx)
                      (Some \<lparr>sv_version_num = v_num, delta_map = Map.empty\<rparr>) in
          (case scorw_replay_log_version log vc2 v_num of
             None \<Rightarrow> None
           | Some (vc3, log') \<Rightarrow> Some (Some (nat idx), vc3, log')))"

section \<open>Looking a block up\<close>

text \<open>The loop over the versions, from the reader's version down to 1.\<close>

fun lookup_loop ::
    "kenv \<Rightarrow> nat \<Rightarrow> file option \<Rightarrow> version_cache \<Rightarrow> nat \<Rightarrow>
      (nat option \<times> version_cache \<times> file option) option" where
  "lookup_loop e blk log vc 0 = Some (None, vc, log)"
| "lookup_loop e blk log vc (Suc n) =
     (case scorw_get_or_create_version e log vc (int (Suc n)) of
        None \<Rightarrow> None
      | Some (None, vc1, log1) \<Rightarrow> lookup_loop e blk log1 vc1 n
      | Some (Some idx, vc1, log1) \<Rightarrow>
          (case Option.bind (version_states vc1 idx) (\<lambda>sv. delta_map sv blk) of
             Some x \<Rightarrow> Some (Some (xa_to_value x), vc1, log1)
           | None \<Rightarrow> lookup_loop e blk log1 vc1 n))"

text \<open>
  \<open>scorw_lookup_physical_block\<close> once the source inode is found: \<open>version\<close> is
  the version of the reader, the version store and the log are those of the
  source (the parent when a child reads), \<open>orig_size\<close> is the parent's
  \<open>PAR_ORGY\<close> attribute.
\<close>

definition scorw_lookup_physical_block ::
    "kenv \<Rightarrow> int \<Rightarrow> nat \<Rightarrow> file option \<Rightarrow> version_cache \<Rightarrow> nat \<Rightarrow>
      (nat \<times> version_cache \<times> file option) option" where
  "scorw_lookup_physical_block e version orig_size log vc blk =
     (case lookup_loop e blk log vc (nat version) of
        None \<Rightarrow> None
      | Some (Some p, vc1, log1) \<Rightarrow> Some (p, vc1, log1)
      | Some (None, vc1, log1) \<Rightarrow>
          Some (if blk < orig_size div PAGE_SIZE then blk else BLK_NOT_FOUND, vc1, log1))"

section \<open>Recording a write\<close>

abbreviation SET_NORMAL_WRITE :: int where "SET_NORMAL_WRITE \<equiv> 2"
abbreviation SET_TRANSACTION :: int where "SET_TRANSACTION \<equiv> 1"
abbreviation UNSET_TRANSACTION :: int where "UNSET_TRANSACTION \<equiv> 0"

text \<open>The xarray update of \<open>scorw_record_write\<close>: \<open>unsigned long\<close> arithmetic
  on both block numbers.\<close>

definition store_blocks :: "nat \<Rightarrow> nat \<Rightarrow> nat \<Rightarrow> xarray \<Rightarrow> xarray" where
  "store_blocks lblk pblk len dm =
     fold (\<lambda>i m. m((lblk + i) mod 2 ^ 64 \<mapsto> xa_mk_value ((pblk + i) mod 2 ^ 64))) [0..<len] dm"

definition upd_delta :: "version_cache \<Rightarrow> nat \<Rightarrow> (xarray \<Rightarrow> xarray) \<Rightarrow> version_cache" where
  "upd_delta vc idx g = set_version_state vc idx
     (map_option (\<lambda>s. s\<lparr>delta_map := g (delta_map s)\<rparr>) (version_states vc idx))"

text \<open>The record as it is stored: the fields are truncated to their widths, and
  \<open>padding2\<close> is not assigned (\<open>junk\<close>).\<close>

definition make_record :: "int \<Rightarrow> nat \<Rightarrow> nat \<Rightarrow> nat \<Rightarrow> nat \<Rightarrow> scorw_log_record" where
  "make_record ver lblk pblk len junk =
     \<lparr>version_num = nat (ver mod 2 ^ 32), logical_start_blk = lblk mod 2 ^ 32,
      physical_start_blk = pblk mod 2 ^ 64, len_blks = len mod 2 ^ 32,
      padding = 0, padding2 = junk mod 2 ^ 64\<rparr>"

definition scorw_record_write ::
    "kenv \<Rightarrow> int \<Rightarrow> file option \<Rightarrow> version_cache \<Rightarrow> nat \<Rightarrow> nat \<Rightarrow> nat \<Rightarrow> int \<Rightarrow> nat \<Rightarrow>
      (int \<times> version_cache \<times> file option) option" where
  "scorw_record_write e version log vc logical_blk physical_blk len status junk =
     (let curr_version = (if status = SET_TRANSACTION then version + 1 else version) in
      case scorw_get_or_create_version e log vc curr_version of
        None \<Rightarrow> None
      | Some (None, vc1, log1) \<Rightarrow> Some (- ENOMEM, vc1, log1)
      | Some (Some idx, vc1, log1) \<Rightarrow>
          let vc2 = upd_delta vc1 idx (store_blocks logical_blk physical_blk len) in
          (case log1 of
             None \<Rightarrow> Some (0, vc2, None)
           | Some f \<Rightarrow>
               (case append_record e f
                  (make_record curr_version logical_blk physical_blk len junk) of
                  None \<Rightarrow> None
                | Some f' \<Rightarrow> Some (0, vc2, Some f'))))"

section \<open>Dropping the table\<close>

text \<open>\<open>scorw_cleanup_versions\<close>: every version is freed and the log inode is
  handed over to the list of logs to be synced at unmount (or released when
  the list entry cannot be allocated). The result is the emptied table and the
  log inode queued, if any.\<close>

definition scorw_cleanup_versions ::
    "bool \<Rightarrow> version_cache \<Rightarrow> ino option \<Rightarrow> version_cache \<times> ino list \<times> ino option" where
  "scorw_cleanup_versions kmalloc_ok vc log_ino =
     (vc\<lparr>version_states := (\<lambda>i. if i < MAX_VERSIONS then None else version_states vc i),
         loaded_version_count := 0, fifo_head := 0\<rparr>,
      (case log_ino of None \<Rightarrow> [] | Some l \<Rightarrow> if kmalloc_ok then [l] else []),
      None)"

section \<open>The replay loop\<close>

section \<open>The table of loaded versions mirrors the log\<close>

text \<open>The block map that the records of version \<open>v\<close> build, in log order.\<close>

definition version_delta :: "scorw_log_record list \<Rightarrow> nat \<Rightarrow> xarray" where
  "version_delta recs v = the (fold (replay_record (int v)) recs (Some Map.empty))"

lemma replay_record_Some: "\<exists>m. fold (replay_record tv) recs (Some d) = Some m"
  by (induction recs arbitrary: d) (auto simp: replay_record_def)

lemma fold_replay_version:
  "fold (replay_record (int v)) recs (Some Map.empty) = Some (version_delta recs v)"
  using replay_record_Some [of "int v" recs Map.empty] by (auto simp: version_delta_def)

lemma version_delta_Nil [simp]: "version_delta [] v = Map.empty"
  by (simp add: version_delta_def)

lemma version_delta_snoc:
  assumes "v < 2 ^ 32"
  shows "version_delta (recs @ [r]) v =
    (if version_num r = v
     then store_extent (logical_start_blk r) (physical_start_blk r) (len_blks r) (version_delta recs v)
     else version_delta recs v)"
  using assms fold_replay_version [of v "recs @ [r]"]
  by (auto simp: fold_replay_version replay_record_def split: if_splits)

text \<open>The invariant: no more than \<open>MAX_RAM_VERSIONS\<close> versions are loaded, each of
  them is listed in \<open>loaded_versions\<close>, and its map is the one the log gives.\<close>

definition cache_inv :: "version_cache \<Rightarrow> scorw_log_record list \<Rightarrow> bool" where
  "cache_inv vc recs \<longleftrightarrow>
     loaded_version_count vc \<le> MAX_RAM_VERSIONS \<and>
     fifo_head vc < MAX_RAM_VERSIONS \<and>
     (\<forall>i < loaded_version_count vc. 1 \<le> loaded_versions vc i \<and> loaded_versions vc i \<le> int MAX_VERSIONS) \<and>
     (\<forall>k sv. version_states vc k = Some sv \<longrightarrow>
        sv_version_num sv = int k + 1 \<and> delta_map sv = version_delta recs (k + 1) \<and>
        (\<exists>i < loaded_version_count vc. loaded_versions vc i = int k + 1))"

lemma cache_inv_empty: "cache_inv empty_cache recs"
  by (simp add: cache_inv_def empty_cache_def)

lemma cache_invD:
  assumes "cache_inv vc recs"
  shows "loaded_version_count vc \<le> MAX_RAM_VERSIONS" "fifo_head vc < MAX_RAM_VERSIONS"
    "version_states vc k = Some sv \<Longrightarrow> sv_version_num sv = int k + 1 \<and>
       delta_map sv = version_delta recs (k + 1) \<and>
       (\<exists>i < loaded_version_count vc. loaded_versions vc i = int k + 1)"
    "version_states vc k = Some sv \<Longrightarrow> k < MAX_VERSIONS"
  using assms by (fastforce simp: cache_inv_def)+

lemma cache_invI:
  assumes "loaded_version_count vc \<le> MAX_RAM_VERSIONS" and "fifo_head vc < MAX_RAM_VERSIONS"
    and "\<And>i. i < loaded_version_count vc \<Longrightarrow>
      1 \<le> loaded_versions vc i \<and> loaded_versions vc i \<le> int MAX_VERSIONS"
    and "\<And>k sv. version_states vc k = Some sv \<Longrightarrow>
      sv_version_num sv = int k + 1 \<and> delta_map sv = version_delta recs (k + 1) \<and>
      (\<exists>i < loaded_version_count vc. loaded_versions vc i = int k + 1)"
  shows "cache_inv vc recs"
  using assms unfolding cache_inv_def by blast

lemma cache_inv_range:
  "cache_inv vc recs \<Longrightarrow> i < loaded_version_count vc \<Longrightarrow>
    1 \<le> loaded_versions vc i \<and> loaded_versions vc i \<le> int MAX_VERSIONS"
  unfolding cache_inv_def by blast

lemma make_room_states:
  assumes "version_states (make_room vc v) k = Some sv"
  shows "version_states vc k = Some sv"
  using assms by (auto simp: make_room_def set_version_state_def Let_def split: if_splits)

lemma make_room_inv:
  assumes inv: "cache_inv vc recs" and v: "1 \<le> v" "v \<le> int MAX_VERSIONS"
  shows "cache_inv (make_room vc v) recs"
    and "\<exists>i < loaded_version_count (make_room vc v). loaded_versions (make_room vc v) i = v"
proof -
  show "\<exists>i < loaded_version_count (make_room vc v). loaded_versions (make_room vc v) i = v"
    using cache_invD(1,2) [OF inv]
    by (auto simp: make_room_def set_version_state_def Let_def intro: exI [of _ "fifo_head vc"])
  show "cache_inv (make_room vc v) recs"
  proof (rule cache_invI)
    let ?vc = "make_room vc v"
    show "loaded_version_count ?vc \<le> MAX_RAM_VERSIONS" "fifo_head ?vc < MAX_RAM_VERSIONS"
      using cache_invD(1,2) [OF inv] by (simp_all add: make_room_def set_version_state_def Let_def)
    show "1 \<le> loaded_versions ?vc i \<and> loaded_versions ?vc i \<le> int MAX_VERSIONS"
      if "i < loaded_version_count ?vc" for i
      using that v cache_inv_range [OF inv, of i]
      by (auto simp: make_room_def set_version_state_def Let_def split: if_splits)
    fix k sv assume k: "version_states ?vc k = Some sv"
    from cache_invD(3) [OF inv make_room_states [OF k]] obtain i where
      i: "i < loaded_version_count vc" "loaded_versions vc i = int k + 1"
      and sv: "sv_version_num sv = int k + 1" "delta_map sv = version_delta recs (k + 1)" by blast
    have "\<exists>i < loaded_version_count ?vc. loaded_versions ?vc i = int k + 1"
    proof (rule exI [of _ i], cases "loaded_version_count vc = MAX_RAM_VERSIONS")
      case True
      with k i have "i \<noteq> fifo_head vc"
        by (auto simp: make_room_def set_version_state_def Let_def)
      with True i show "i < loaded_version_count ?vc \<and> loaded_versions ?vc i = int k + 1"
        by (simp add: make_room_def set_version_state_def Let_def)
    qed (use i in \<open>simp add: make_room_def\<close>)
    with sv show "sv_version_num sv = int k + 1 \<and> delta_map sv = version_delta recs (k + 1) \<and>
        (\<exists>i < loaded_version_count ?vc. loaded_versions ?vc i = int k + 1)" by blast
  qed
qed

text \<open>A version outside \<open>1..MAX_VERSIONS\<close> has no slot.\<close>

lemma get_or_create_out_of_range:
  "v \<le> 0 \<or> int MAX_VERSIONS < v \<Longrightarrow> scorw_get_or_create_version e log vc v = Some (None, vc, log)"
  by (auto simp: scorw_get_or_create_version_def Let_def)

text \<open>Any other version is loaded, from the table or by replaying the log.\<close>

lemma get_or_create_ok:
  assumes inv: "cache_inv vc (log_records f)" and log: "log_ok f" and e: "kzalloc_ok e"
    and v: "1 \<le> v" "v \<le> MAX_VERSIONS"
  shows "\<exists>vc' f' sv. scorw_get_or_create_version e (Some f) vc (int v) = Some (Some (v - 1), vc', Some f') \<and>
    same_view f f' \<and> cache_inv vc' (log_records f) \<and>
    version_states vc' (v - 1) = Some sv \<and> delta_map sv = version_delta (log_records f) v"
proof (cases "version_states vc (v - 1)")
  case (Some sv)
  with v cache_invD(3) [OF inv Some]
  have "scorw_get_or_create_version e (Some f) vc (int v) = Some (Some (v - 1), vc, Some f)"
    "delta_map sv = version_delta (log_records f) v"
    by (auto simp: scorw_get_or_create_version_def Let_def nat_diff_distrib)
  with Some inv show ?thesis by (intro exI [of _ vc] exI [of _ f] exI [of _ sv]) simp
next
  case None
  let ?recs = "log_records f" and ?k = "v - 1"
  let ?vc1 = "make_room vc (int v)"
  let ?sv = "\<lparr>sv_version_num = int v, delta_map = version_delta ?recs v\<rparr>"
  let ?vc3 = "set_version_state ?vc1 ?k (Some ?sv)"
  have nk: "nat (int v - 1) = ?k" using v by simp
  obtain f' where f': "scan_loop (replay_record (int v)) (i_size f) f 0 (Some Map.empty) = Some (Some (version_delta ?recs v), f')"
    "same_view f f'"
    using scan_loop_ok [of f 0 "replay_record (int v)" "Some Map.empty"] log by (auto simp: log_ok_def fold_replay_version)
  have eq: "scorw_get_or_create_version e (Some f) vc (int v) = Some (Some ?k, ?vc3, Some f')"
    using v e None f'(1)
    by (simp add: scorw_get_or_create_version_def scorw_replay_log_version_def Let_def nk set_version_state_def)
  have "int v \<le> int MAX_VERSIONS" "1 \<le> int v" using v by simp_all
  note room = make_room_inv [OF inv this(2,1)]
  have "cache_inv ?vc3 ?recs"
  proof (rule cache_invI)
    show "loaded_version_count ?vc3 \<le> MAX_RAM_VERSIONS" "fifo_head ?vc3 < MAX_RAM_VERSIONS"
      using cache_invD(1,2) [OF room(1)] by (simp_all add: set_version_state_def)
    show "1 \<le> loaded_versions ?vc3 i \<and> loaded_versions ?vc3 i \<le> int MAX_VERSIONS"
      if "i < loaded_version_count ?vc3" for i
      using that cache_inv_range [OF room(1), of i] by (simp add: set_version_state_def)
    show "sv_version_num sv = int k + 1 \<and> delta_map sv = version_delta ?recs (k + 1) \<and>
        (\<exists>i < loaded_version_count ?vc3. loaded_versions ?vc3 i = int k + 1)"
      if "version_states ?vc3 k = Some sv" for k sv
    proof (cases "k = ?k")
      case True
      with that v room(2) show ?thesis by (auto simp: set_version_state_def)
    next
      case False
      with that cache_invD(3) [OF room(1), of k sv] show ?thesis by (simp add: set_version_state_def)
    qed
  qed
  with eq f'(2) show ?thesis
    by (intro exI [of _ ?vc3] exI [of _ f'] exI [of _ ?sv]) (simp add: set_version_state_def)
qed

section \<open>The lookup loop\<close>

text \<open>What the loop computes, from the block maps of the versions.\<close>

fun lookup_deltas :: "scorw_log_record list \<Rightarrow> nat \<Rightarrow> nat \<Rightarrow> nat option" where
  "lookup_deltas recs blk 0 = None"
| "lookup_deltas recs blk (Suc n) =
     (case version_delta recs (Suc n) blk of
        Some x \<Rightarrow> Some x
      | None \<Rightarrow> lookup_deltas recs blk n)"

lemma lookup_loop_ok:
  assumes "cache_inv vc (log_records f)" and "log_ok f" and "kzalloc_ok e"
  shows "\<exists>vc' f'. lookup_loop e blk (Some f) vc n =
      Some (map_option xa_to_value (lookup_deltas (log_records f) blk (min n MAX_VERSIONS)), vc', Some f') \<and>
    same_view f f' \<and> cache_inv vc' (log_records f)"
  using assms
proof (induction n arbitrary: vc f)
  case 0
  then show ?case by auto
next
  case (Suc n)
  show ?case
  proof (cases "Suc n \<le> MAX_VERSIONS")
    case False
    then have "min n MAX_VERSIONS = min (Suc n) MAX_VERSIONS" by simp
    with False Suc.IH [OF Suc.prems] show ?thesis
      by (simp only: lookup_loop.simps) (simp add: get_or_create_out_of_range)
  next
    case True
    from get_or_create_ok [OF Suc.prems _ True] obtain vc1 f1 sv where
      g: "scorw_get_or_create_version e (Some f) vc (int (Suc n)) = Some (Some n, vc1, Some f1)"
      and sv: "same_view f f1" "cache_inv vc1 (log_records f)"
        "version_states vc1 n = Some sv" "delta_map sv = version_delta (log_records f) (Suc n)"
      by auto
    have m: "min (Suc n) MAX_VERSIONS = Suc n" "min n MAX_VERSIONS = n" using True by simp_all
    from sv Suc.prems have "cache_inv vc1 (log_records f1)" "log_ok f1" by (auto simp: same_view_log)
    from Suc.IH [OF this Suc.prems(3)] show ?thesis
      using g sv unfolding m
      by (auto simp: same_view_log simp del: of_nat_Suc split: option.split intro: same_view_trans)
  qed
qed

end
