(* ===== verification/Version_Refinement.thy ===== *)
theory Version_Refinement
  imports Version_Store
begin

text \<open>
  What the version store promises. \<open>resolve\<close> says which physical block a
  reader of a version gets, from the history of log records alone; the lookup
  of the source refines it, and \<open>scorw_record_write\<close> appends to the history.
  The locale \<open>versioned_blocks\<close> is the contract its clients use, and it is
  interpreted on the definitions of \<open>Version_Store\<close>.
\<close>

section \<open>Extents and block maps\<close>

lemma store_extent_Suc:
  "store_extent lsb psb (Suc n) dm =
    (store_extent lsb psb n dm)((lsb + n) mod 2 ^ 32 \<mapsto> xa_mk_value ((psb + n) mod 2 ^ 64))"
  by (simp add: store_extent_def)

lemma store_extent_apply:
  "lsb + len \<le> 2 ^ 32 \<Longrightarrow> store_extent lsb psb len dm blk =
    (if lsb \<le> blk \<and> blk < lsb + len then Some (xa_mk_value ((psb + (blk - lsb)) mod 2 ^ 64)) else dm blk)"
proof (induction len)
  case 0
  then show ?case by (auto simp: store_extent_def)
next
  case (Suc n)
  then have "(lsb + n) mod 2 ^ 32 = lsb + n" by simp
  with Suc show ?case by (auto simp: store_extent_Suc less_Suc_eq)
qed

text \<open>The block map of a write and the replay of its record agree as long as
  the logical blocks fit the record's 32-bit field.\<close>

lemma store_blocks_extent:
  assumes "lblk + len \<le> 2 ^ 32"
  shows "store_blocks lblk pblk len = store_extent lblk pblk len"
proof -
  have "fold (\<lambda>i m. m((lblk + i) mod 2 ^ 64 \<mapsto> xa_mk_value ((pblk + i) mod 2 ^ 64))) [0..<len] dm =
      fold (\<lambda>i m. m((lblk + i) mod 2 ^ 32 \<mapsto> xa_mk_value ((pblk + i) mod 2 ^ 64))) [0..<len] dm"
    for dm :: xarray
    by (rule fold_cong) (use assms in auto)
  then show ?thesis unfolding store_blocks_def store_extent_def by blast
qed

section \<open>The history of a file\<close>

definition covers :: "scorw_log_record \<Rightarrow> nat \<Rightarrow> bool" where
  "covers r blk \<longleftrightarrow> logical_start_blk r \<le> blk \<and> blk < logical_start_blk r + len_blks r"

definition extent_ok :: "scorw_log_record \<Rightarrow> bool" where
  "extent_ok r \<longleftrightarrow> logical_start_blk r + len_blks r \<le> 2 ^ 32 \<and>
     physical_start_blk r + len_blks r \<le> 2 ^ 63"

definition target :: "scorw_log_record \<Rightarrow> nat \<Rightarrow> nat" where
  "target r blk = physical_start_blk r + (blk - logical_start_blk r)"

lemma xa_roundtrip: "v < 2 ^ 63 \<Longrightarrow> xa_to_value (xa_mk_value v) = v"
  by (simp add: xa_to_value_def xa_mk_value_def)

lemma version_delta_find:
  assumes "\<forall>r\<in>set recs. extent_ok r" and "v < 2 ^ 32"
  shows "map_option xa_to_value (version_delta recs v blk) =
    map_option (\<lambda>r. target r blk) (find (\<lambda>r. version_num r = v \<and> covers r blk) (rev recs))"
  using assms
proof (induction recs rule: rev_induct)
  case (snoc r recs)
  then have IH: "map_option xa_to_value (version_delta recs v blk) =
    map_option (\<lambda>r. target r blk) (find (\<lambda>r. version_num r = v \<and> covers r blk) (rev recs))"
    and r: "extent_ok r" by simp_all
  show ?case
  proof (cases "version_num r = v \<and> covers r blk")
    case True
    with r have "target r blk < 2 ^ 63" "logical_start_blk r + len_blks r \<le> 2 ^ 32"
      by (auto simp: extent_ok_def covers_def target_def)
    then have "version_delta (recs @ [r]) v blk = Some (xa_mk_value (target r blk))"
      using True snoc.prems(2)
      by (simp add: version_delta_snoc store_extent_apply covers_def target_def)
    with True \<open>target r blk < 2 ^ 63\<close> show ?thesis by (simp add: xa_roundtrip)
  next
    case False
    with r snoc.prems(2) have "version_delta (recs @ [r]) v blk = version_delta recs v blk"
      by (auto simp: version_delta_snoc store_extent_apply covers_def extent_ok_def)
    with IH False show ?thesis by auto
  qed
qed simp

lemma find_le_Suc:
  assumes "sorted_wrt (\<lambda>x y. f y \<le> f x) xs"
  shows "find (\<lambda>x. f x \<le> Suc n \<and> Q x) xs =
    (case find (\<lambda>x. f x = Suc n \<and> Q x) xs of
       Some x \<Rightarrow> Some x
     | None \<Rightarrow> find (\<lambda>x. f x \<le> n \<and> Q x) xs)"
  using assms
proof (induction xs)
  case (Cons x xs)
  have "find (\<lambda>x. f x = Suc n \<and> Q x) xs = None" if "f x \<le> n"
    using that Cons.prems by (fastforce simp: find_None_iff)
  with Cons show ?case
    by (cases "find (\<lambda>x. f x = Suc n \<and> Q x) xs") (auto simp: le_Suc_eq)
qed simp

text \<open>What a lookup at version \<open>n\<close> means: the last record of the log, of a
  version between 1 and \<open>n\<close>, that covers the block; without one, the block
  itself inside the original file, and \<open>BLK_NOT_FOUND\<close> outside it.\<close>

definition resolve :: "scorw_log_record list \<Rightarrow> nat \<Rightarrow> nat \<Rightarrow> nat \<Rightarrow> nat" where
  "resolve recs n orig_size blk =
     (case find (\<lambda>r. version_num r \<le> n \<and> 1 \<le> version_num r \<and> covers r blk) (rev recs) of
        Some r \<Rightarrow> target r blk
      | None \<Rightarrow> if blk < orig_size div PAGE_SIZE then blk else BLK_NOT_FOUND)"

definition history_ok :: "scorw_log_record list \<Rightarrow> bool" where
  "history_ok recs \<longleftrightarrow> list_all extent_ok recs \<and> sorted (map version_num recs)"

lemma lookup_deltas_find:
  assumes "history_ok recs" and "n \<le> MAX_VERSIONS"
  shows "map_option xa_to_value (lookup_deltas recs blk n) =
    map_option (\<lambda>r. target r blk)
      (find (\<lambda>r. version_num r \<le> n \<and> 1 \<le> version_num r \<and> covers r blk) (rev recs))"
  using assms(2)
proof (induction n)
  case 0
  have "find (\<lambda>r. version_num r \<le> 0 \<and> 1 \<le> version_num r \<and> covers r blk) (rev recs) = None"
    by (auto simp: find_None_iff)
  then show ?case by simp
next
  case (Suc n)
  let ?at = "find (\<lambda>r. version_num r = Suc n \<and> covers r blk) (rev recs)"
  have v: "map_option xa_to_value (version_delta recs (Suc n) blk) = map_option (\<lambda>r. target r blk) ?at"
    using assms(1) Suc.prems
    by (intro version_delta_find) (auto simp: history_ok_def list_all_iff)
  have "(\<lambda>r. version_num r = Suc n \<and> 1 \<le> version_num r \<and> covers r blk) =
      (\<lambda>r. version_num r = Suc n \<and> covers r blk)" by auto
  moreover have "sorted_wrt (\<lambda>x y. version_num y \<le> version_num x) (rev recs)"
    using assms(1) by (simp add: history_ok_def sorted_wrt_rev sorted_wrt_map)
  ultimately have f: "find (\<lambda>r. version_num r \<le> Suc n \<and> 1 \<le> version_num r \<and> covers r blk) (rev recs) =
      (case ?at of Some r \<Rightarrow> Some r
       | None \<Rightarrow> find (\<lambda>r. version_num r \<le> n \<and> 1 \<le> version_num r \<and> covers r blk) (rev recs))"
    using find_le_Suc [of version_num "rev recs" n "\<lambda>r. 1 \<le> version_num r \<and> covers r blk"] by simp
  show ?case
  proof (cases ?at)
    case None
    with v f Suc show ?thesis by simp
  next
    case (Some r)
    with v obtain x where "version_delta recs (Suc n) blk = Some x" "xa_to_value x = target r blk" by auto
    with Some f show ?thesis by simp
  qed
qed

lemma lookup_physical_block_resolve:
  assumes "cache_inv vc (log_records f)" and "log_ok f" and "kzalloc_ok e"
    and "history_ok (log_records f)"
  shows "\<exists>vc' f'. scorw_lookup_physical_block e version orig_size (Some f) vc blk =
      Some (resolve (log_records f) (min (nat version) MAX_VERSIONS) orig_size blk, vc', Some f') \<and>
    cache_inv vc' (log_records f) \<and> same_view f f'"
proof -
  let ?n = "min (nat version) MAX_VERSIONS" and ?recs = "log_records f"
  obtain vc' f' where l: "lookup_loop e blk (Some f) vc (nat version) =
      Some (map_option xa_to_value (lookup_deltas ?recs blk ?n), vc', Some f')"
    "same_view f f'" "cache_inv vc' ?recs"
    using lookup_loop_ok [OF assms(1-3), of blk "nat version"] by blast
  have "map_option xa_to_value (lookup_deltas ?recs blk ?n) = map_option (\<lambda>r. target r blk)
      (find (\<lambda>r. version_num r \<le> ?n \<and> 1 \<le> version_num r \<and> covers r blk) (rev ?recs))"
    by (rule lookup_deltas_find [OF assms(4)]) simp
  with l show ?thesis
    by (auto simp: scorw_lookup_physical_block_def resolve_def split: option.splits)
qed

section \<open>Recording a write extends the history\<close>

lemma make_record_fields:
  assumes "ver < 2 ^ 32" and "lblk + len < 2 ^ 32" and "pblk < 2 ^ 64"
  shows "version_num (make_record (int ver) lblk pblk len junk) = ver"
    "logical_start_blk (make_record (int ver) lblk pblk len junk) = lblk"
    "physical_start_blk (make_record (int ver) lblk pblk len junk) = pblk"
    "len_blks (make_record (int ver) lblk pblk len junk) = len"
  using assms by (simp_all add: make_record_def nat_mod_distrib)

lemma record_ok_make_record [simp]: "record_ok (make_record ver lblk pblk len junk)"
  by (simp add: record_ok_def make_record_def nat_less_iff)

lemma cache_inv_record:
  assumes inv: "cache_inv vc recs" and r: "version_num r = v"
    and ext: "g = store_extent (logical_start_blk r) (physical_start_blk r) (len_blks r)"
  shows "v \<noteq> 0 \<Longrightarrow> version_states vc (v - 1) \<noteq> None \<Longrightarrow> cache_inv (upd_delta vc (v - 1) g) (recs @ [r])"
proof (rule cache_invI)
  assume v: "v \<noteq> 0" "version_states vc (v - 1) \<noteq> None"
  let ?vc = "upd_delta vc (v - 1) g"
  note defs = upd_delta_def set_version_state_def
  show "loaded_version_count ?vc \<le> MAX_RAM_VERSIONS" "fifo_head ?vc < MAX_RAM_VERSIONS"
    using cache_invD(1,2) [OF inv] by (simp_all add: defs)
  show "1 \<le> loaded_versions ?vc i \<and> loaded_versions ?vc i \<le> int MAX_VERSIONS"
    if "i < loaded_version_count ?vc" for i
    using that cache_inv_range [OF inv, of i] by (simp add: defs)
  fix k sv assume k: "version_states ?vc k = Some sv"
  then obtain sv0 where sv0: "version_states vc k = Some sv0"
    and sv: "sv = (if k = v - 1 then sv0\<lparr>delta_map := g (delta_map sv0)\<rparr> else sv0)"
    by (auto simp: defs split: if_splits)
  have "k + 1 < 2 ^ 32" using cache_invD(4) [OF inv sv0] by simp
  then have "delta_map sv = version_delta (recs @ [r]) (k + 1)"
    using cache_invD(3) [OF inv sv0] v(1) r ext sv by (auto simp: version_delta_snoc)
  with cache_invD(3) [OF inv sv0] sv
  show "sv_version_num sv = int k + 1 \<and> delta_map sv = version_delta (recs @ [r]) (k + 1) \<and>
      (\<exists>i < loaded_version_count ?vc. loaded_versions ?vc i = int k + 1)"
    by (simp add: defs)
qed

definition write_version :: "int \<Rightarrow> int \<Rightarrow> int" where
  "write_version version status = (if status = SET_TRANSACTION then version + 1 else version)"

lemma scorw_record_write_ok:
  assumes inv: "cache_inv vc (log_records f)" and log: "log_ok f"
    and e: "kzalloc_ok e" "pages_env_ok e"
    and cv: "write_version version status = int v" "1 \<le> v" "v \<le> MAX_VERSIONS"
    and blk: "lblk + len < 2 ^ 32" "pblk < 2 ^ 64"
  shows "\<exists>vc' f'. scorw_record_write e version (Some f) vc lblk pblk len status junk = Some (0, vc', Some f') \<and>
    log_ok f' \<and> log_records f' = log_records f @ [make_record (int v) lblk pblk len junk] \<and>
    cache_inv vc' (log_records f')"
proof -
  let ?r = "make_record (int v) lblk pblk len junk"
  obtain vc1 f1 sv where g: "scorw_get_or_create_version e (Some f) vc (int v) = Some (Some (v - 1), vc1, Some f1)"
    and f1: "same_view f f1" and vc1: "cache_inv vc1 (log_records f)" "version_states vc1 (v - 1) = Some sv"
    using get_or_create_ok [OF inv log e(1) cv(2,3)] by blast
  have log1: "log_ok f1" "log_records f1 = log_records f" using f1 log by (simp_all add: same_view_log)
  obtain f2 where f2: "append_record e f1 ?r = Some f2" "log_ok f2" "log_records f2 = log_records f @ [?r]"
    using scorw_log.append_one [OF e(2) log1(1) record_ok_make_record [of "int v" lblk pblk len junk]]
    by (auto simp: log1)
  have v: "v < 2 ^ 32" "v \<noteq> 0" using cv by simp_all
  note r = make_record_fields [OF v(1) blk, of junk]
  have "cache_inv (upd_delta vc1 (v - 1) (store_blocks lblk pblk len)) (log_records f @ [?r])"
    using blk vc1 v(2) by (intro cache_inv_record) (simp_all add: r store_blocks_extent)
  then show ?thesis
    using g f2 cv(1) by (auto simp: scorw_record_write_def write_version_def)
qed

lemma scorw_record_write_out_of_range:
  assumes "write_version version status \<le> 0 \<or> int MAX_VERSIONS < write_version version status"
  shows "scorw_record_write e version log vc lblk pblk len status junk = Some (- ENOMEM, vc, log)"
  using get_or_create_out_of_range [OF assms, of e log vc]
  by (simp add: scorw_record_write_def write_version_def Let_def)

lemma resolve_append:
  "resolve (recs @ [r]) n orig_size blk =
    (if 1 \<le> version_num r \<and> version_num r \<le> n \<and> covers r blk then target r blk
     else resolve recs n orig_size blk)"
  by (auto simp: resolve_def)

definition newest :: "scorw_log_record list \<Rightarrow> nat" where
  "newest recs = (if recs = [] then 0 else version_num (last recs))"

lemma history_ok_append:
  assumes "history_ok recs" and "extent_ok r" and "newest recs \<le> version_num r"
  shows "history_ok (recs @ [r])"
proof -
  have "version_num x \<le> version_num r" if "x \<in> set recs" for x
  proof -
    from that have ne: "recs \<noteq> []" by auto
    then have "recs = butlast recs @ [last recs]" by simp
    with assms(1) have "sorted (map version_num (butlast recs @ [last recs]))" by (simp add: history_ok_def)
    moreover have "x \<in> set (butlast recs @ [last recs])" using that ne by simp
    ultimately have "version_num x \<le> version_num (last recs)"
      by (auto simp: sorted_append)
    with assms(3) ne show ?thesis by (simp add: newest_def)
  qed
  with assms show ?thesis by (auto simp: history_ok_def sorted_append)
qed

section \<open>The contract of the version store\<close>

text \<open>
  What the write and read paths rely on: a lookup answers from the recorded
  history and changes nothing a client can see; recording a write appends one
  record to the history. \<open>ver\<close> is the version of a write, \<open>n\<close> that of a reader.
\<close>

locale versioned_blocks =
  fixes ok :: "'s \<Rightarrow> bool"
    and hist :: "'s \<Rightarrow> scorw_log_record list"
    and lookup :: "nat \<Rightarrow> nat \<Rightarrow> nat \<Rightarrow> 's \<Rightarrow> (nat \<times> 's) option"
    and record_write :: "nat \<Rightarrow> nat \<Rightarrow> nat \<Rightarrow> nat \<Rightarrow> 's \<Rightarrow> 's option"
  assumes lookup_law: "ok s \<Longrightarrow> \<exists>s'. lookup n orig blk s =
      Some (resolve (hist s) (min n MAX_VERSIONS) orig blk, s') \<and> ok s' \<and> hist s' = hist s"
    and record_law: "ok s \<Longrightarrow> 1 \<le> ver \<Longrightarrow> ver \<le> MAX_VERSIONS \<Longrightarrow> newest (hist s) \<le> ver \<Longrightarrow>
      lblk + len < 2 ^ 32 \<Longrightarrow> pblk + len \<le> 2 ^ 63 \<Longrightarrow>
      \<exists>s' r. record_write ver lblk pblk len s = Some s' \<and> ok s' \<and> hist s' = hist s @ [r] \<and>
        version_num r = ver \<and> logical_start_blk r = lblk \<and> physical_start_blk r = pblk \<and> len_blks r = len"
begin

lemma lookup_value:
  "ok s \<Longrightarrow> lookup n orig blk s = Some (p, s') \<Longrightarrow>
    p = resolve (hist s) (min n MAX_VERSIONS) orig blk \<and> ok s' \<and> hist s' = hist s"
  using lookup_law [of s n orig blk] by auto

text \<open>A reader of the written version, or of a later one, sees the write; a
  reader of an earlier version, or of another block, sees what it saw before.\<close>

lemma write_spec:
  assumes "ok s" and "1 \<le> ver" "ver \<le> MAX_VERSIONS" "newest (hist s) \<le> ver"
    and "lblk + len < 2 ^ 32" "pblk + len \<le> 2 ^ 63"
  shows "\<exists>s1. record_write ver lblk pblk len s = Some s1 \<and> ok s1 \<and>
    (\<forall>n orig blk. map_option fst (lookup n orig blk s1) =
      (if ver \<le> n \<and> lblk \<le> blk \<and> blk < lblk + len then Some (pblk + (blk - lblk))
       else map_option fst (lookup n orig blk s)))"
proof -
  obtain s1 r where w: "record_write ver lblk pblk len s = Some s1" "ok s1" "hist s1 = hist s @ [r]"
    and r: "version_num r = ver" "logical_start_blk r = lblk" "physical_start_blk r = pblk" "len_blks r = len"
    using record_law [OF assms] by blast
  have "map_option fst (lookup n orig blk s1) =
      (if ver \<le> n \<and> lblk \<le> blk \<and> blk < lblk + len then Some (pblk + (blk - lblk))
       else map_option fst (lookup n orig blk s))" for n orig blk
  proof -
    have "resolve (hist s @ [r]) (min n MAX_VERSIONS) orig blk =
        (if ver \<le> n \<and> lblk \<le> blk \<and> blk < lblk + len then pblk + (blk - lblk)
         else resolve (hist s) (min n MAX_VERSIONS) orig blk)"
      using assms r by (simp add: resolve_append covers_def target_def)
    with w lookup_law [OF assms(1), of n orig blk] lookup_law [OF w(2), of n orig blk]
    show ?thesis by auto
  qed
  with w show ?thesis by blast
qed

text \<open>Looking up twice gives the same answer.\<close>

lemma lookup_stable:
  assumes "ok s" and "lookup n orig blk s = Some (p, s1)"
  shows "map_option fst (lookup m orig' blk' s1) = map_option fst (lookup m orig' blk' s)"
  using lookup_value [OF assms] lookup_law [OF assms(1), of m orig' blk']
    lookup_law [of s1 m orig' blk'] by auto

end

section \<open>The model keeps the contract\<close>

type_synonym vstore = "version_cache \<times> file"

definition vs_ok :: "kenv \<Rightarrow> vstore \<Rightarrow> bool" where
  "vs_ok e s = (case s of (vc, f) \<Rightarrow> kzalloc_ok e \<and> pages_env_ok e \<and>
     cache_inv vc (log_records f) \<and> log_ok f \<and> history_ok (log_records f))"

definition vs_hist :: "vstore \<Rightarrow> scorw_log_record list" where
  "vs_hist s = log_records (snd s)"

definition vs_lookup :: "kenv \<Rightarrow> nat \<Rightarrow> nat \<Rightarrow> nat \<Rightarrow> vstore \<Rightarrow> (nat \<times> vstore) option" where
  "vs_lookup e n orig blk s =
     (case scorw_lookup_physical_block e (int n) orig (Some (snd s)) (fst s) blk of
        Some (p, vc, Some f) \<Rightarrow> Some (p, (vc, f))
      | _ \<Rightarrow> None)"

definition vs_record :: "kenv \<Rightarrow> int \<Rightarrow> nat \<Rightarrow> nat \<Rightarrow> nat \<Rightarrow> nat \<Rightarrow> nat \<Rightarrow> vstore \<Rightarrow> vstore option" where
  "vs_record e status junk ver lblk pblk len s =
     (case scorw_record_write e (if status = SET_TRANSACTION then int ver - 1 else int ver)
        (Some (snd s)) (fst s) lblk pblk len status junk of
        Some (ret, vc, Some f) \<Rightarrow> if ret = 0 then Some (vc, f) else None
      | _ \<Rightarrow> None)"

lemma vs_okE:
  assumes "vs_ok e s"
  obtains vc f where "s = (vc, f)" "kzalloc_ok e" "pages_env_ok e" "cache_inv vc (log_records f)"
    "log_ok f" "history_ok (log_records f)"
  using assms by (auto simp: vs_ok_def split: prod.splits)

interpretation vstore: versioned_blocks "vs_ok e" vs_hist "vs_lookup e" "vs_record e status junk"
  for e status junk
proof
  fix s n orig blk
  assume "vs_ok e s"
  then obtain vc f where s: "s = (vc, f)" and e: "kzalloc_ok e" "pages_env_ok e"
    and inv: "cache_inv vc (log_records f)" "log_ok f" "history_ok (log_records f)" by (rule vs_okE)
  from lookup_physical_block_resolve [OF inv(1,2) e(1) inv(3), of "int n" orig blk]
  show "\<exists>s'. vs_lookup e n orig blk s = Some (resolve (vs_hist s) (min n MAX_VERSIONS) orig blk, s') \<and>
      vs_ok e s' \<and> vs_hist s' = vs_hist s"
    using s e inv by (auto simp: vs_lookup_def vs_ok_def vs_hist_def same_view_log)
next
  fix s and ver lblk len pblk :: nat
  assume "vs_ok e s" and v: "1 \<le> ver" "ver \<le> MAX_VERSIONS" and new: "newest (vs_hist s) \<le> ver"
    and b: "lblk + len < 2 ^ 32" "pblk + len \<le> 2 ^ 63"
  from this(1) obtain vc f where s: "s = (vc, f)" and e: "kzalloc_ok e" "pages_env_ok e"
    and inv: "cache_inv vc (log_records f)" "log_ok f" "history_ok (log_records f)" by (rule vs_okE)
  let ?version = "if status = SET_TRANSACTION then int ver - 1 else int ver"
  have wv: "write_version ?version status = int ver" by (simp add: write_version_def)
  let ?r = "make_record (int ver) lblk pblk len junk"
  have bnd: "ver < 2 ^ 32" "pblk < 2 ^ 64" using v b by simp_all
  note r = make_record_fields [OF bnd(1) b(1) bnd(2), of junk]
  from scorw_record_write_ok [OF inv(1,2) e wv v b(1) bnd(2), of junk]
  obtain vc' f' where w: "scorw_record_write e ?version (Some f) vc lblk pblk len status junk =
      Some (0, vc', Some f')" "log_ok f'" "log_records f' = log_records f @ [?r]" "cache_inv vc' (log_records f')"
    by blast
  have "extent_ok ?r" using b by (simp add: r extent_ok_def)
  then have "history_ok (log_records f')"
    using s inv new w(3) by (auto simp: vs_hist_def r intro!: history_ok_append)
  with w s e show "\<exists>s' r. vs_record e status junk ver lblk pblk len s = Some s' \<and> vs_ok e s' \<and>
      vs_hist s' = vs_hist s @ [r] \<and>
      version_num r = ver \<and> logical_start_blk r = lblk \<and> physical_start_blk r = pblk \<and> len_blks r = len"
    by (intro exI [of _ "(vc', f')"] exI [of _ ?r]) (simp add: vs_record_def vs_ok_def vs_hist_def r)
qed

lemma vs_lookup_fst:
  assumes "vs_ok e (vc, f)"
  shows "map_option fst (vs_lookup e n orig blk (vc, f)) =
    map_option fst (scorw_lookup_physical_block e (int n) orig (Some f) vc blk)"
proof -
  from assms obtain p vc' f' where "scorw_lookup_physical_block e (int n) orig (Some f) vc blk = Some (p, vc', Some f')"
    using lookup_physical_block_resolve [of vc f e "int n" orig blk] by (auto simp: vs_ok_def)
  then show ?thesis by (simp add: vs_lookup_def)
qed

section \<open>Runs of the version store\<close>

text \<open>A file is opened on its log with an empty table, and then looked up and
  written in any order; writes never go back to an older version.\<close>

inductive vstore_run :: "kenv \<Rightarrow> vstore \<Rightarrow> bool" for e where
  opened: "log_ok f \<Longrightarrow> history_ok (log_records f) \<Longrightarrow> vstore_run e (empty_cache, f)"
| looked_up: "vstore_run e (vc, f) \<Longrightarrow>
    scorw_lookup_physical_block e version orig (Some f) vc blk = Some (p, vc', Some f') \<Longrightarrow>
    vstore_run e (vc', f')"
| written: "vstore_run e (vc, f) \<Longrightarrow> newest (log_records f) \<le> nat (write_version version status) \<Longrightarrow>
    lblk + len < 2 ^ 32 \<Longrightarrow> pblk + len \<le> 2 ^ 63 \<Longrightarrow>
    scorw_record_write e version (Some f) vc lblk pblk len status junk = Some (ret, vc', Some f') \<Longrightarrow>
    vstore_run e (vc', f')"

lemma vs_ok_lookup:
  assumes "vs_ok e (vc, f)"
    and "scorw_lookup_physical_block e version orig (Some f) vc blk = Some (p, vc', Some f')"
  shows "vs_ok e (vc', f')"
proof -
  from assms(1) have i: "cache_inv vc (log_records f)" "log_ok f" "kzalloc_ok e" "history_ok (log_records f)"
    and e: "pages_env_ok e" by (simp_all add: vs_ok_def)
  show ?thesis
    using lookup_physical_block_resolve [OF i, of version orig blk] assms(2) i e
    by (auto simp: vs_ok_def same_view_log)
qed

lemma vs_ok_record:
  assumes "vs_ok e (vc, f)" and new: "newest (log_records f) \<le> nat (write_version version status)"
    and b: "lblk + len < 2 ^ 32" "pblk + len \<le> 2 ^ 63"
    and w: "scorw_record_write e version (Some f) vc lblk pblk len status junk = Some (ret, vc', Some f')"
  shows "vs_ok e (vc', f')"
proof (cases "write_version version status \<le> 0 \<or> int MAX_VERSIONS < write_version version status")
  case True
  from scorw_record_write_out_of_range [OF this, of e "Some f" vc lblk pblk len junk] w assms(1)
  show ?thesis by simp
next
  case False
  define ver where "ver = nat (write_version version status)"
  with False have ver: "1 \<le> ver" "ver \<le> MAX_VERSIONS" "write_version version status = int ver" by auto
  then have "version = (if status = SET_TRANSACTION then int ver - 1 else int ver)"
    by (auto simp: write_version_def split: if_splits)
  then have "vs_record e status junk ver lblk pblk len (vc, f) = (if ret = 0 then Some (vc', f') else None)"
    using w by (simp add: vs_record_def)
  moreover obtain s' where "vs_record e status junk ver lblk pblk len (vc, f) = Some s'" "vs_ok e s'"
    using vstore.record_law [OF assms(1) ver(1,2) _ b, of status junk] new
    by (auto simp: vs_hist_def ver_def)
  ultimately show ?thesis by (simp split: if_splits)
qed

lemma vstore_run_ok:
  assumes "vstore_run e s" and "kzalloc_ok e" and "pages_env_ok e"
  shows "vs_ok e s"
  using assms
proof (induction rule: vstore_run.induct)
  case (opened f)
  then show ?case by (simp add: vs_ok_def cache_inv_empty)
qed (blast intro: vs_ok_lookup vs_ok_record)+

lemma cache_inv_card:
  assumes "cache_inv vc recs"
  shows "card {k. version_states vc k \<noteq> None} \<le> MAX_RAM_VERSIONS"
proof -
  let ?n = "loaded_version_count vc"
  have "{k. version_states vc k \<noteq> None} \<subseteq> (\<lambda>i. nat (loaded_versions vc i - 1)) ` {..<?n}"
  proof
    fix k assume "k \<in> {k. version_states vc k \<noteq> None}"
    then obtain i where "i < ?n" "loaded_versions vc i = int k + 1"
      using cache_invD(3) [OF assms] by blast
    then show "k \<in> (\<lambda>i. nat (loaded_versions vc i - 1)) ` {..<?n}" by force
  qed
  from card_mono [OF _ this] have "card {k. version_states vc k \<noteq> None} \<le> ?n"
    using card_image_le [of "{..<?n}" "\<lambda>i. nat (loaded_versions vc i - 1)"] by fastforce
  with cache_invD(1) [OF assms] show ?thesis by simp
qed

section \<open>A sample log\<close>

definition sample_records :: "scorw_log_record list" where
  "sample_records = [make_record 1 0 5 2 0, make_record 2 1 7 1 0]"

definition sample_log :: "file" where
  "sample_log = the (ofold (append_record good_env) sample_records empty_file)"

lemma sample_log_records: "log_ok sample_log" "log_records sample_log = sample_records"
proof -
  have "list_all record_ok sample_records" by (simp add: sample_records_def)
  from scorw_log.append_all [OF pages_env_ok_good log_ok_empty_file(1) this]
  show "log_ok sample_log" "log_records sample_log = sample_records"
    by (auto simp: sample_log_def)
qed

lemma sample_history_ok [simp]: "history_ok sample_records"
  by (simp add: sample_records_def history_ok_def extent_ok_def make_record_def)

lemma sample_vs_ok: "vs_ok good_env (empty_cache, sample_log)"
  by (simp add: vs_ok_def sample_log_records cache_inv_empty)

lemma scorw_replay_diverges:
  assumes "pages_ok f" and "i_size f mod RECORD_SIZE \<noteq> 0"
  shows "scorw_replay_log_version (Some f) vc target_version = None"
proof (rule ccontr)
  assume "scorw_replay_log_version (Some f) vc target_version \<noteq> None"
  then obtain r where "scan_loop (replay_record target_version) (i_size f) f 0
      (map_option delta_map (version_states vc (nat (target_version - 1)))) = Some r"
    by (auto simp: scorw_replay_log_version_def Let_def split: option.splits)
  from scan_loop_diverges [OF this] assms show False
    by (auto simp: pages_ok_def)
qed

section \<open>Properties\<close>

text \<open>C7: a lookup at a version returns the physical block of the last record
  of the log, among those of version at most the reader's (and at most
  \<open>MAX_VERSIONS\<close>), that covers the block, and without one the block itself inside
  the original file and \<open>BLK_NOT_FOUND\<close> outside it; the versions it loads and
  evicts on the way leave the table consistent with the log and the log's
  contents unchanged.\<close>

theorem scorw_lookup_refines_history:
  assumes "cache_inv vc (log_records f)" and "log_ok f" and "kzalloc_ok e"
    and "history_ok (log_records f)"
  shows "\<exists>vc' f'. scorw_lookup_physical_block e version orig_size (Some f) vc blk =
      Some (resolve (log_records f) (min (nat version) MAX_VERSIONS) orig_size blk, vc', Some f') \<and>
    cache_inv vc' (log_records f') \<and> log_ok f' \<and> log_records f' = log_records f"
  using lookup_physical_block_resolve [OF assms, of version orig_size blk] assms(2)
  by (metis same_view_log(1,3))

theorem scorw_lookup_refines_history_witness:
  "(\<exists>vc' f'. scorw_lookup_physical_block good_env 2 12288 (Some sample_log) empty_cache 1 = Some (7, vc', Some f')) \<and>
   (\<exists>vc' f'. scorw_lookup_physical_block good_env 1 12288 (Some sample_log) empty_cache 1 = Some (6, vc', Some f')) \<and>
   (\<exists>vc' f'. scorw_lookup_physical_block good_env 2 12288 (Some sample_log) empty_cache 2 = Some (2, vc', Some f')) \<and>
   (\<exists>vc' f'. scorw_lookup_physical_block good_env 2 12288 (Some sample_log) empty_cache 3 = Some (BLK_NOT_FOUND, vc', Some f'))"
proof -
  note l = scorw_lookup_refines_history [of empty_cache sample_log good_env _ 12288,
    unfolded sample_log_records(2), OF cache_inv_empty sample_log_records(1) good_env_simps(3) sample_history_ok]
  show ?thesis
    using l [of 2 1] l [of 1 1] l [of 2 2] l [of 2 3]
    by (auto simp: resolve_def sample_records_def make_record_def covers_def target_def)
qed

text \<open>C14: recording a write of \<open>len\<close> blocks at version \<open>ver\<close> (the file's version,
  or the next one inside a transaction) succeeds, and from then on a reader of
  version \<open>ver\<close> or later finds block \<open>lblk + i\<close> at \<open>pblk + i\<close>, while a reader of an
  earlier version, and every reader of another block, finds what it found
  before the write.\<close>

theorem scorw_record_write_isolation:
  assumes "kzalloc_ok e" and "pages_env_ok e"
    and "cache_inv vc (log_records f)" and "log_ok f" and "history_ok (log_records f)"
    and "version = (if status = SET_TRANSACTION then int ver - 1 else int ver)"
    and "1 \<le> ver" and "ver \<le> MAX_VERSIONS" and "newest (log_records f) \<le> ver"
    and "lblk + len < 2 ^ 32" and "pblk + len \<le> 2 ^ 63"
  shows "\<exists>vc1 f1. scorw_record_write e version (Some f) vc lblk pblk len status junk = Some (0, vc1, Some f1) \<and>
    (\<forall>n orig blk. map_option fst (scorw_lookup_physical_block e (int n) orig (Some f1) vc1 blk) =
      (if ver \<le> n \<and> lblk \<le> blk \<and> blk < lblk + len then Some (pblk + (blk - lblk))
       else map_option fst (scorw_lookup_physical_block e (int n) orig (Some f) vc blk)))"
proof -
  have ok: "vs_ok e (vc, f)" using assms by (simp add: vs_ok_def)
  obtain vc1 f1 where w: "vs_record e status junk ver lblk pblk len (vc, f) = Some (vc1, f1)" "vs_ok e (vc1, f1)"
    and l: "\<And>n orig blk. map_option fst (vs_lookup e n orig blk (vc1, f1)) =
      (if ver \<le> n \<and> lblk \<le> blk \<and> blk < lblk + len then Some (pblk + (blk - lblk))
       else map_option fst (vs_lookup e n orig blk (vc, f)))"
    using vstore.write_spec [OF ok assms(7,8) _ assms(10,11), of status junk] assms(9)
    by (auto simp: vs_hist_def)
  have "scorw_record_write e version (Some f) vc lblk pblk len status junk = Some (0, vc1, Some f1)"
    using w(1) assms(6) by (auto simp: vs_record_def split: option.splits if_splits)
  with l show ?thesis by (auto simp: vs_lookup_fst [OF ok] vs_lookup_fst [OF w(2)])
qed

theorem scorw_record_write_isolation_witness:
  "\<exists>vc1 f1. scorw_record_write good_env 2 (Some sample_log) empty_cache 1 9 1 SET_TRANSACTION 0 = Some (0, vc1, Some f1) \<and>
    map_option fst (scorw_lookup_physical_block good_env (int 3) 0 (Some f1) vc1 1) = Some 9 \<and>
    map_option fst (scorw_lookup_physical_block good_env (int 2) 0 (Some f1) vc1 1) =
      map_option fst (scorw_lookup_physical_block good_env (int 2) 0 (Some sample_log) empty_cache 1)"
proof -
  have new: "newest sample_records \<le> 3" by (simp add: newest_def sample_records_def make_record_def)
  obtain vc1 f1 where w: "scorw_record_write good_env 2 (Some sample_log) empty_cache 1 9 1 SET_TRANSACTION 0 = Some (0, vc1, Some f1)"
    "\<And>n orig blk. map_option fst (scorw_lookup_physical_block good_env (int n) orig (Some f1) vc1 blk) =
      (if 3 \<le> n \<and> 1 \<le> blk \<and> blk < 1 + 1 then Some (9 + (blk - 1))
       else map_option fst (scorw_lookup_physical_block good_env (int n) orig (Some sample_log) empty_cache blk))"
    using scorw_record_write_isolation [of good_env empty_cache sample_log 2 SET_TRANSACTION 3 1 1 9 0] new
    by (auto simp: sample_log_records cache_inv_empty)
  then show ?thesis using w(2) [of 3 0 1] w(2) [of 2 0 1] by auto
qed

text \<open>C20: whatever sequence of lookups and writes is run on an opened file, at
  most \<open>MAX_RAM_VERSIONS\<close> versions are in memory, each of them holds exactly the
  block map the log gives for it, and the log is well formed.\<close>

theorem version_table_bounded:
  assumes "vstore_run e (vc, f)" and "kzalloc_ok e" and "pages_env_ok e"
  shows "card {k. version_states vc k \<noteq> None} \<le> MAX_RAM_VERSIONS \<and>
    (\<forall>k sv. version_states vc k = Some sv \<longrightarrow>
       k < MAX_VERSIONS \<and> delta_map sv = version_delta (log_records f) (k + 1)) \<and>
    log_ok f \<and> history_ok (log_records f)"
proof -
  from vstore_run_ok [OF assms] have i: "cache_inv vc (log_records f)" "log_ok f" "history_ok (log_records f)"
    by (simp_all add: vs_ok_def)
  from cache_inv_card [OF i(1)] cache_invD(3,4) [OF i(1)] i show ?thesis by blast
qed

theorem version_table_bounded_witness:
  "\<exists>vc f. vstore_run good_env (vc, f) \<and> version_states vc 1 \<noteq> None \<and>
     card {k. version_states vc k \<noteq> None} \<le> MAX_RAM_VERSIONS"
proof -
  have k: "kzalloc_ok good_env" and v: "1 \<le> (2::nat)" "2 \<le> MAX_VERSIONS" by simp_all
  have c: "cache_inv empty_cache (log_records sample_log)" by (rule cache_inv_empty)
  obtain vc1 f1 sv where g: "scorw_get_or_create_version good_env (Some sample_log) empty_cache (int 2) =
      Some (Some (2 - 1), vc1, Some f1)" "version_states vc1 (2 - 1) = Some sv"
    "delta_map sv = version_delta (log_records sample_log) 2"
    using get_or_create_ok [OF c sample_log_records(1) k v] by blast
  have d: "version_delta sample_records 2 1 = Some (xa_mk_value 7)"
    by (simp add: version_delta_def sample_records_def replay_record_def make_record_def store_extent_def)
  have "scorw_lookup_physical_block good_env 2 0 (Some sample_log) empty_cache 1 = Some (xa_to_value (xa_mk_value 7), vc1, Some f1)"
    using g d by (simp add: scorw_lookup_physical_block_def numeral_2_eq_2 sample_log_records)
  moreover have "vstore_run good_env (empty_cache, sample_log)"
    by (rule opened) (simp_all add: sample_log_records)
  ultimately have run: "vstore_run good_env (vc1, f1)" by (rule looked_up [rotated])
  with g show ?thesis using version_table_bounded [OF run k pages_env_ok_good] by auto
qed

text \<open>A write at a version above \<open>MAX_VERSIONS\<close> is refused with
  \<open>-ENOMEM\<close> and leaves no trace: no record is appended and no block map
  changes.\<close>

theorem scorw_record_write_version_limit:
  assumes "int MAX_VERSIONS < (if status = SET_TRANSACTION then version + 1 else version)"
  shows "scorw_record_write e version log vc lblk pblk len status junk = Some (- ENOMEM, vc, log)"
  using assms by (intro scorw_record_write_out_of_range) (simp add: write_version_def)

theorem scorw_record_write_version_limit_witness:
  "scorw_record_write good_env 32 (Some sample_log) empty_cache 1 9 1 SET_TRANSACTION 0 =
    Some (- ENOMEM, empty_cache, Some sample_log)"
  by (rule scorw_record_write_version_limit) simp

text \<open>C26: replaying a readable log returns if and only if its size is a whole
  number of records; on a trailing fragment the loop never advances.\<close>

theorem scorw_replay_returns_iff:
  assumes "pages_ok f"
  shows "(\<exists>r. scorw_replay_log_version (Some f) vc target_version = Some r) \<longleftrightarrow>
    i_size f mod RECORD_SIZE = 0"
proof
  assume "\<exists>r. scorw_replay_log_version (Some f) vc target_version = Some r"
  then show "i_size f mod RECORD_SIZE = 0" using scorw_replay_diverges [OF assms] by force
next
  assume "i_size f mod RECORD_SIZE = 0"
  from scan_loop_ok [OF assms this, of 0 "replay_record target_version"
      "map_option delta_map (version_states vc (nat (target_version - 1)))"] show "\<exists>r. scorw_replay_log_version (Some f) vc target_version = Some r"
    by (force simp: scorw_replay_log_version_def Let_def)
qed

theorem scorw_replay_returns_iff_witness:
  "(\<exists>r. scorw_replay_log_version (Some sample_log) empty_cache 1 = Some r) \<and>
   scorw_replay_log_version (Some (empty_file\<lparr>i_size := 33\<rparr>)) empty_cache 1 = None"
proof -
  have a: "pages_ok sample_log" "i_size sample_log mod RECORD_SIZE = 0"
    using sample_log_records(1) by (simp_all add: log_ok_def)
  have b: "pages_ok (empty_file\<lparr>i_size := 33\<rparr>)" by (simp add: pages_ok_def view_def empty_file_def)
  from scorw_replay_returns_iff [OF a(1)] scorw_replay_returns_iff [OF b, of empty_cache 1] a(2)
  show ?thesis by (simp add: empty_file_def del: split_paired_Ex split_paired_All)
qed

end
