(* ===== verification/Transactions.thy ===== *)
theory Transactions
  imports Version_Refinement
begin

text \<open>
  Transactions on a versioned parent file and the redirection of its writes.
  \<open>struct Transaction_locks\<close> is a mutex with the \<open>struct file\<close> that holds it and
  the reason it is held; \<open>scorw_set_transaction\<close> begins and commits,
  \<open>scorw_set_transaction_error\<close> gives up. \<open>scorw_write_see_thru_ro\<close> sends a write
  to fresh blocks at the end of the file, \<open>scorw_ioctl_see_thru_writev\<close> does so
  for a vector of writes. Source: \<open>src/ext4-module/corw_sparse.c\<close>.
\<close>

section \<open>State\<close>

text \<open>What a call ends in: a kernel oops (a \<open>BUG_ON\<close>, a NULL dereference, an
  endless loop), waiting for a lock, or a result.\<close>

datatype 'a outcome = Oops | Blocks | Ret 'a

record Transaction_locks =
  locked :: bool
  owner :: "addr option"
  transaction :: int

text \<open>The part of \<open>struct scorw_inode\<close> that a versioned parent uses, with the
  contents of the parent and of its log, and the parent's \<open>PAR_ORGY\<close> attribute.\<close>

record ver_inode =
  version :: int
  vcache :: version_cache
  i_log_vfs_inode :: "file option"
  t_locks :: Transaction_locks
  is_see_thru_ro :: bool
  data :: "file"
  orig_size :: nat

section \<open>The transaction lock\<close>

definition init_Transaction_locks :: "ver_inode \<Rightarrow> ver_inode" where
  "init_Transaction_locks si =
     si\<lparr>t_locks := \<lparr>locked = False, owner = None, transaction = -1\<rparr>\<rparr>"

definition scorw_self_transaction_status :: "ver_inode option \<Rightarrow> addr \<Rightarrow> int" where
  "scorw_self_transaction_status si f =
     (case si of
        None \<Rightarrow> -1
      | Some s \<Rightarrow>
          if \<not> locked (t_locks s) then -1
          else if owner (t_locks s) \<noteq> Some f then -1
          else transaction (t_locks s))"

text \<open>
  \<open>scorw_set_transaction\<close>. The scorw inode is dereferenced before it is tested,
  so a missing one is an oops. \<open>mutex_lock_interruptible\<close> takes a free mutex;
  on a held one the caller waits, until a signal (\<open>intr\<close>) ends the wait with
  an error.
\<close>

definition scorw_set_transaction ::
    "bool \<Rightarrow> ver_inode option \<Rightarrow> addr \<Rightarrow> int \<Rightarrow> (int \<times> ver_inode) outcome" where
  "scorw_set_transaction intr si f val =
     (case si of
        None \<Rightarrow> Oops
      | Some s \<Rightarrow>
          if val = SET_TRANSACTION \<or> val = SET_NORMAL_WRITE then
            if scorw_self_transaction_status (Some s) f = val then Ret (-25, s)
            else if locked (t_locks s) then (if intr then Ret (-67, s) else Blocks)
            else Ret (0, s\<lparr>t_locks := \<lparr>locked = True, owner = Some f, transaction = val\<rparr>\<rparr>)
          else if val = UNSET_TRANSACTION then
            if \<not> locked (t_locks s) \<or> owner (t_locks s) \<noteq> Some f then Ret (-25, s)
            else
              let s1 = (if transaction (t_locks s) = SET_TRANSACTION
                        then s\<lparr>version := s32 (version s + 1),
                               i_log_vfs_inode := map_option writeback_all (i_log_vfs_inode s)\<rparr>
                        else s)
              in Ret (0, s1\<lparr>t_locks := \<lparr>locked = False, owner = None, transaction = val\<rparr>\<rparr>)
          else Ret (0, s))"

definition scorw_set_transaction_error :: "ver_inode option \<Rightarrow> addr \<Rightarrow> int \<times> ver_inode option" where
  "scorw_set_transaction_error si f =
     (case si of
        None \<Rightarrow> (- EINVAL, None)
      | Some s \<Rightarrow>
          if \<not> locked (t_locks s) then (- EPERM, Some s)
          else if owner (t_locks s) \<noteq> Some f then (- EPERM, Some s)
          else (0, Some (s\<lparr>t_locks :=
                  \<lparr>locked = False, owner = None, transaction = UNSET_TRANSACTION\<rparr>\<rparr>)))"

text \<open>\<open>update_version\<close>: a child moves to the version in the parent's
  \<open>CURR_VERSION\<close> attribute; in the result, the new version of the child.\<close>

definition update_version :: "int option \<Rightarrow> bool \<Rightarrow> nat \<Rightarrow> int \<times> int option" where
  "update_version child_version has_parent par_curr_version =
     (case child_version of
        None \<Rightarrow> (- EINVAL, None)
      | Some v \<Rightarrow>
          if \<not> has_parent then (- ENOENT, Some v)
          else (0, Some (s32 (int par_curr_version))))"

section \<open>Copying inside the parent\<close>

text \<open>The page index of a file position: \<open>loff_t\<close> is signed, so the shift of a
  position above \<open>2^63\<close> keeps the sign.\<close>

definition pgoff :: "nat \<Rightarrow> nat" where
  "pgoff pos = (if pos < 2 ^ 63 then pos div PAGE_SIZE
     else 2 ^ 64 - (2 ^ 64 - pos + PAGE_SIZE - 1) div PAGE_SIZE)"

text \<open>\<open>scorw_internal_copy_blocks\<close>: the status of the last step and the file.
  \<open>write_end\<close> returns the number of bytes it copied.\<close>

function scorw_internal_copy_blocks ::
    "kenv \<Rightarrow> page \<Rightarrow> file \<Rightarrow> nat \<Rightarrow> nat \<Rightarrow> nat \<Rightarrow> int \<Rightarrow> int \<times> file" where
  "scorw_internal_copy_blocks e junk f src_pos dest_pos len status =
     (if len = 0 then (status, f)
      else
        let dest_offset = dest_pos mod PAGE_SIZE;
            src_offset = src_pos mod PAGE_SIZE;
            bytes = min len (PAGE_SIZE - dest_offset)
        in case read_mapping_page f (pgoff src_pos) of
             (None, f1) \<Rightarrow> (- EIO, f1)
           | (Some src, f1) \<Rightarrow>
               (case write_begin e junk f1 dest_pos bytes of
                  None \<Rightarrow> (- ENOMEM, f1)
                | Some dest \<Rightarrow>
                    scorw_internal_copy_blocks e junk
                      (write_end f1 (dest_pos div PAGE_SIZE) dest_pos bytes
                        (memcpy_page dest dest_offset (page_bytes src src_offset bytes)))
                      (src_pos + bytes) (dest_pos + bytes) (len - bytes) (int bytes)))"
  by pat_completeness auto

termination
proof (relation "measure (\<lambda>(e, junk, f, src_pos, dest_pos, len, status). len)", goal_cases)
  case (2 e junk f src_pos dest_pos len status)
  have "0 < PAGE_SIZE - dest_pos mod PAGE_SIZE"
    using mod_less_divisor [of PAGE_SIZE dest_pos] by simp
  with 2 show ?case by (simp add: min_def)
qed simp

declare scorw_internal_copy_blocks.simps [simp del]

text \<open>\<open>scorw_write_kernel_data\<close> maps one page and copies the whole buffer: a
  buffer that runs past the end of the page overwrites other memory.\<close>

definition scorw_write_kernel_data ::
    "kenv \<Rightarrow> page \<Rightarrow> file \<Rightarrow> nat \<Rightarrow> byte list \<Rightarrow> (int \<times> file) outcome" where
  "scorw_write_kernel_data e junk f dest_pos kbuf =
     (case write_begin e junk f dest_pos (length kbuf) of
        None \<Rightarrow> Ret (- ENOMEM, f)
      | Some dest \<Rightarrow>
          if PAGE_SIZE < dest_pos mod PAGE_SIZE + length kbuf then Oops
          else Ret (int (length kbuf),
            write_end f (dest_pos div PAGE_SIZE) dest_pos (length kbuf)
              (memcpy_page dest (dest_pos mod PAGE_SIZE) kbuf)))"

section \<open>Redirecting a write\<close>

text \<open>Lookup and record on the store of an inode.\<close>

definition inode_lookup :: "kenv \<Rightarrow> ver_inode \<Rightarrow> nat \<Rightarrow> (nat \<times> ver_inode) option" where
  "inode_lookup e s blk =
     (case scorw_lookup_physical_block e (version s) (orig_size s) (i_log_vfs_inode s) (vcache s) blk of
        None \<Rightarrow> None
      | Some (p, vc, log) \<Rightarrow> Some (p, s\<lparr>vcache := vc, i_log_vfs_inode := log\<rparr>))"

definition inode_record_write ::
    "kenv \<Rightarrow> ver_inode \<Rightarrow> nat \<Rightarrow> nat \<Rightarrow> nat \<Rightarrow> int \<Rightarrow> nat \<Rightarrow> (int \<times> ver_inode) option" where
  "inode_record_write e s lblk pblk len status junk =
     (case scorw_record_write e (version s) (i_log_vfs_inode s) (vcache s) lblk pblk len status junk of
        None \<Rightarrow> None
      | Some (ret, vc, log) \<Rightarrow> Some (ret, s\<lparr>vcache := vc, i_log_vfs_inode := log\<rparr>))"

text \<open>
  The copies \<open>scorw_write_see_thru_ro\<close> makes before a write of \<open>count\<close> bytes at
  \<open>pos\<close>: the first page when the write does not start on a page boundary or
  covers only part of a single page, and the last page when the write ends
  inside it. \<open>last\<close> is \<open>pos + count - 1\<close>. In the result, whether a copy failed.
\<close>

definition see_thru_copies ::
    "kenv \<Rightarrow> page \<Rightarrow> file \<Rightarrow> nat \<Rightarrow> nat \<Rightarrow> nat \<Rightarrow> nat \<Rightarrow> nat \<Rightarrow> bool \<times> file" where
  "see_thru_copies e junk f pos count logical_size to_write_block append_pos =
     (if to_write_block \<noteq> BLK_NOT_FOUND \<or> pos < logical_size then
        let end_page_idx = (pos + count + 2 ^ 64 - 1) mod 2 ^ 64 div PAGE_SIZE;
            copy_helper = (end_page_idx + 2 ^ 64 - pos div PAGE_SIZE) mod 2 ^ 64;
            (st1, f1) =
              (if pos mod PAGE_SIZE \<noteq> 0 \<or> (copy_helper = 0 \<and> (pos + count) mod PAGE_SIZE \<noteq> 0)
               then scorw_internal_copy_blocks e junk f (to_write_block * PAGE_SIZE mod 2 ^ 64)
                      append_pos PAGE_SIZE 0
               else (0, f))
        in if st1 < 0 then (True, f1)
           else
             let (st2, f2) =
                   (if (pos + count) mod PAGE_SIZE \<noteq> 0 \<and> 0 < copy_helper \<and>
                       end_page_idx * PAGE_SIZE < logical_size
                    then scorw_internal_copy_blocks e junk f1 (end_page_idx * PAGE_SIZE)
                           (append_pos + copy_helper * PAGE_SIZE) PAGE_SIZE 0
                    else (0, f1))
             in (st2 < 0, f2)
      else (False, f))"

text \<open>
  \<open>scorw_write_see_thru_ro\<close> after \<open>scorw_find_inode\<close>: the position the data is to
  be written to, or an error. When a copy fails the function returns \<open>pos\<close>
  without giving the lock back.
\<close>

definition scorw_write_see_thru_ro ::
    "kenv \<Rightarrow> page \<Rightarrow> nat \<Rightarrow> bool \<Rightarrow> ver_inode \<Rightarrow> addr \<Rightarrow> nat \<Rightarrow> nat \<Rightarrow> (int \<times> ver_inode) outcome" where
  "scorw_write_see_thru_ro e junk rjunk intr s f pos count =
     (let target_logical_blk = pos div PAGE_SIZE;
          nr_blk = ((pos + count + 2 ^ 64 - 1) mod 2 ^ 64 div PAGE_SIZE + 2 ^ 64 -
                    target_logical_blk + 1) mod 2 ^ 32;
          in_txn = (scorw_self_transaction_status (Some s) f = SET_TRANSACTION);
          status = (if in_txn then SET_TRANSACTION else SET_NORMAL_WRITE)
      in case (if in_txn then Ret (0, s) else scorw_set_transaction intr (Some s) f SET_NORMAL_WRITE) of
           Oops \<Rightarrow> Oops
         | Blocks \<Rightarrow> Blocks
         | Ret (err, s1) \<Rightarrow>
             if err \<noteq> 0 then Ret (- EIO, s1)
             else
               let append_pos = page_align (i_size (data s1));
                   appended_ext4_blk = append_pos div PAGE_SIZE
               in case inode_lookup e s1 target_logical_blk of
                    None \<Rightarrow> Oops
                  | Some (to_write_block, s2) \<Rightarrow>
                      (case see_thru_copies e junk (data s2) pos count (orig_size s2)
                              to_write_block append_pos of
                         (True, d) \<Rightarrow> Ret (int pos, s2\<lparr>data := d\<rparr>)
                       | (False, d) \<Rightarrow>
                           let s3 = s2\<lparr>data := d\<rparr>;
                               s4 = (if status = SET_NORMAL_WRITE
                                     then s3\<lparr>version := s32 (version s3 + 1)\<rparr> else s3)
                           in (case inode_record_write e s4 target_logical_blk appended_ext4_blk
                                      nr_blk status rjunk of
                                 None \<Rightarrow> Oops
                               | Some (_, s5) \<Rightarrow>
                                   if status = SET_NORMAL_WRITE then
                                     (case scorw_set_transaction intr (Some s5) f UNSET_TRANSACTION of
                                        Ret (err2, s6) \<Rightarrow>
                                          if err2 \<noteq> 0 then Ret (- EIO, s6)
                                          else Ret (int (append_pos + pos mod PAGE_SIZE), s6)
                                      | other \<Rightarrow> other)
                                   else Ret (int (append_pos + pos mod PAGE_SIZE), s5))))"

section \<open>Vectored writes\<close>

record scorw_io_vec =
  logical_offset :: nat
  vlen :: nat
  vbuf :: "byte list option"

text \<open>Phase 1 of \<open>scorw_ioctl_see_thru_writev\<close>: each vector copies its base
  block to the end of the file and writes its bytes over it. \<open>vbuf\<close> is the user
  buffer, \<^const>\<open>None\<close> when it cannot be read. The result is an error or 0, the
  file, and the last status.\<close>

fun writev_phase1 ::
    "kenv \<Rightarrow> page \<Rightarrow> file \<Rightarrow> nat \<Rightarrow> scorw_io_vec list \<Rightarrow> (int \<times> file) outcome" where
  "writev_phase1 e junk f append_pos [] = Ret (0, f)"
| "writev_phase1 e junk f append_pos (v # vs) =
     (if PAGE_SIZE < vlen v then Ret (- EINVAL, f)
      else case vbuf v of
          None \<Rightarrow> Ret (- EFAULT, f)
        | Some buf \<Rightarrow>
            (case scorw_internal_copy_blocks e junk f
                    (logical_offset v div PAGE_SIZE * PAGE_SIZE) append_pos PAGE_SIZE 0 of
               (ret, f1) \<Rightarrow>
                 if ret < 0 then Ret (ret, f1)
                 else (case scorw_write_kernel_data e junk f1
                              (append_pos + logical_offset v mod PAGE_SIZE) (take (vlen v) buf) of
                         Ret (ret2, f2) \<Rightarrow>
                           if ret2 < 0 then Ret (ret2, f2)
                           else writev_phase1 e junk f2 (append_pos + PAGE_SIZE) vs
                       | other \<Rightarrow> other)))"

text \<open>Phase 2: block map and log record of each vector, at the version to come.\<close>

fun writev_phase2 ::
    "kenv \<Rightarrow> nat \<Rightarrow> int \<Rightarrow> nat \<Rightarrow> nat \<Rightarrow> nat \<Rightarrow> scorw_io_vec list \<Rightarrow>
      version_cache \<times> file option \<Rightarrow> (version_cache \<times> file option) option" where
  "writev_phase2 e rjunk new_version idx append_pos i [] st = Some st"
| "writev_phase2 e rjunk new_version idx append_pos i (v # vs) (vc, log) =
     (let lblk = logical_offset v div PAGE_SIZE;
          pblk = (append_pos + i * PAGE_SIZE) div PAGE_SIZE;
          vc1 = upd_delta vc idx (\<lambda>dm. dm(lblk \<mapsto> xa_mk_value pblk))
      in case log of
           None \<Rightarrow> writev_phase2 e rjunk new_version idx append_pos (i + 1) vs (vc1, None)
         | Some l \<Rightarrow>
             (case append_record e l (make_record new_version lblk pblk 1 rjunk) of
                None \<Rightarrow> None
              | Some l1 \<Rightarrow>
                  writev_phase2 e rjunk new_version idx append_pos (i + 1) vs (vc1, Some l1)))"

definition scorw_ioctl_see_thru_writev ::
    "kenv \<Rightarrow> page \<Rightarrow> nat \<Rightarrow> ver_inode option \<Rightarrow> nat \<Rightarrow> scorw_io_vec list option \<Rightarrow>
      (int \<times> ver_inode option) outcome" where
  "scorw_ioctl_see_thru_writev e junk rjunk si count user_vecs =
     (case si of
        None \<Rightarrow> Ret (- EINVAL, None)
      | Some s \<Rightarrow>
          if \<not> is_see_thru_ro s then Ret (- EINVAL, Some s)
          else if count = 0 \<or> 1024 < count then Ret (- EINVAL, Some s)
          else case user_vecs of
              None \<Rightarrow> Ret (- EFAULT, Some s)
            | Some vecs \<Rightarrow>
                if \<not> kzalloc_ok e then Ret (- ENOMEM, Some s)
                else
                  (case writev_phase1 e junk (data s) (page_align (i_size (data s))) vecs of
                     Oops \<Rightarrow> Oops
                   | Blocks \<Rightarrow> Blocks
                   | Ret (ret, d) \<Rightarrow>
                       if ret < 0 then Ret (ret, Some (s\<lparr>data := d\<rparr>))
                       else
                         let new_version = s32 (version s + 1) in
                         (case scorw_get_or_create_version e (i_log_vfs_inode s) (vcache s) new_version of
                            None \<Rightarrow> Oops
                          | Some (None, vc, log) \<Rightarrow>
                              Ret (- ENOMEM, Some (s\<lparr>data := d, vcache := vc, i_log_vfs_inode := log\<rparr>))
                          | Some (Some idx, vc, log) \<Rightarrow>
                              (case writev_phase2 e rjunk new_version idx (page_align (i_size d)) 0 vecs (vc, log) of
                                 None \<Rightarrow> Oops
                               | Some (vc1, log1) \<Rightarrow>
                                   Ret (int count,
                                     Some (s\<lparr>data := d, vcache := vc1, i_log_vfs_inode := log1,
                                             version := new_version\<rparr>))))))"

end
