(* ===== verification/Isolation.thy ===== *)
theory Isolation
  imports Transactions
begin

text \<open>
  What transactions and redirected writes guarantee on a versioned parent
  whose log is well formed: the exact effect of \<open>scorw_write_see_thru_ro\<close>, the
  runs of interleaved operations, and the isolation of the readers of a
  committed version from everything that happens later.
\<close>

section \<open>The history of an inode\<close>

definition inode_hist :: "ver_inode \<Rightarrow> scorw_log_record list" where
  "inode_hist s = (case i_log_vfs_inode s of None \<Rightarrow> [] | Some l \<Rightarrow> log_records l)"

definition inode_ok :: "kenv \<Rightarrow> ver_inode \<Rightarrow> bool" where
  "inode_ok e s \<longleftrightarrow> (\<exists>l. i_log_vfs_inode s = Some l \<and> vs_ok e (vcache s, l)) \<and>
     0 \<le> version s \<and> int (newest (inode_hist s)) \<le> version s + 1"

text \<open>What a reader of version \<open>n\<close> finds.\<close>

definition reader_block :: "kenv \<Rightarrow> ver_inode \<Rightarrow> nat \<Rightarrow> nat \<Rightarrow> nat option" where
  "reader_block e s n blk = map_option fst
     (scorw_lookup_physical_block e (int n) (orig_size s) (i_log_vfs_inode s) (vcache s) blk)"

lemma inode_okE:
  assumes "inode_ok e s"
  obtains l where "i_log_vfs_inode s = Some l" "vs_ok e (vcache s, l)" "0 \<le> version s"
    "int (newest (log_records l)) \<le> version s + 1" "inode_hist s = log_records l"
  using assms by (auto simp: inode_ok_def inode_hist_def)

lemma reader_block_resolve:
  assumes "inode_ok e s"
  shows "reader_block e s n blk = Some (resolve (inode_hist s) (min n MAX_VERSIONS) (orig_size s) blk)"
proof -
  obtain l where l: "i_log_vfs_inode s = Some l" "vs_ok e (vcache s, l)" "inode_hist s = log_records l"
    using assms by (rule inode_okE)
  then show ?thesis
    using lookup_physical_block_resolve [of "vcache s" l e "int n" "orig_size s" blk]
    by (auto simp: reader_block_def vs_ok_def)
qed

lemma inode_lookup_ok:
  assumes "inode_ok e s"
  shows "\<exists>vc l. inode_lookup e s blk =
      Some (resolve (inode_hist s) (min (nat (version s)) MAX_VERSIONS) (orig_size s) blk,
            s\<lparr>vcache := vc, i_log_vfs_inode := Some l\<rparr>) \<and>
    inode_ok e (s\<lparr>vcache := vc, i_log_vfs_inode := Some l\<rparr>) \<and> log_records l = inode_hist s"
proof -
  obtain l where l: "i_log_vfs_inode s = Some l" "vs_ok e (vcache s, l)" "0 \<le> version s"
    "int (newest (log_records l)) \<le> version s + 1" "inode_hist s = log_records l"
    using assms by (rule inode_okE)
  then obtain vc l' where "scorw_lookup_physical_block e (version s) (orig_size s) (Some l) (vcache s) blk =
      Some (resolve (log_records l) (min (nat (version s)) MAX_VERSIONS) (orig_size s) blk, vc, Some l')"
    "same_view l l'"
    using lookup_physical_block_resolve [of "vcache s" l e "version s" "orig_size s" blk]
    by (auto simp: vs_ok_def)
  with l vs_ok_lookup [OF l(2) this(1)] show ?thesis
    by (intro exI [of _ vc] exI [of _ l'])
      (simp add: inode_lookup_def inode_ok_def inode_hist_def same_view_log)
qed

lemma inode_record_write_ok:
  assumes log: "i_log_vfs_inode s = Some l" and ok: "vs_ok e (vcache s, l)"
    and wv: "write_version (version s) status = int w" "newest (log_records l) \<le> w" "1 \<le> w"
    and b: "lblk + len < 2 ^ 32" "pblk + len \<le> 2 ^ 63"
  shows "\<exists>ret vc l'. inode_record_write e s lblk pblk len status junk =
      Some (ret, s\<lparr>vcache := vc, i_log_vfs_inode := Some l'\<rparr>) \<and> vs_ok e (vc, l') \<and>
    log_records l' = log_records l @ (if w \<le> MAX_VERSIONS then [make_record (int w) lblk pblk len junk] else [])"
proof (cases "w \<le> MAX_VERSIONS")
  case True
  from ok have i: "cache_inv (vcache s) (log_records l)" "log_ok l" "kzalloc_ok e" "pages_env_ok e"
    by (simp_all add: vs_ok_def)
  have p: "pblk < 2 ^ 64" using b by simp
  from scorw_record_write_ok [OF i wv(1,3) True b(1) p, of junk] obtain vc l' where
    w: "scorw_record_write e (version s) (Some l) (vcache s) lblk pblk len status junk = Some (0, vc, Some l')"
      "log_records l' = log_records l @ [make_record (int w) lblk pblk len junk]" by blast
  moreover have "vs_ok e (vc, l')"
    using vs_ok_record [OF ok _ b w(1)] wv by simp
  ultimately show ?thesis using log True
    by (intro exI [of _ 0] exI [of _ vc] exI [of _ l']) (simp add: inode_record_write_def)
next
  case False
  with wv have "int MAX_VERSIONS < write_version (version s) status" by simp
  from scorw_record_write_out_of_range [OF disjI2 [OF this], of e "Some l" "vcache s" lblk pblk len junk]
  have "inode_record_write e s lblk pblk len status junk =
      Some (- ENOMEM, s\<lparr>vcache := vcache s, i_log_vfs_inode := Some l\<rparr>)"
    by (simp add: inode_record_write_def log)
  with False ok show ?thesis by (intro exI [of _ "- ENOMEM"] exI [of _ "vcache s"] exI [of _ l]) simp
qed

lemma newest_append [simp]: "newest (xs @ [r]) = version_num r"
  by (simp add: newest_def)

text \<open>The blocks of a write stay inside the fields of a record.\<close>

definition write_fits :: "ver_inode \<Rightarrow> nat \<Rightarrow> nat \<Rightarrow> bool" where
  "write_fits s pos count \<longleftrightarrow> 0 < count \<and> pos + count < 2 ^ 43 \<and> i_size (data s) < 2 ^ 62"

definition blocks_of_write :: "nat \<Rightarrow> nat \<Rightarrow> nat" where
  "blocks_of_write pos count = (pos + count - 1) div PAGE_SIZE - pos div PAGE_SIZE + 1"

lemma blocks_of_write_bounds:
  assumes "0 < count" and "pos + count < 2 ^ 43"
  shows "((pos + count + 2 ^ 64 - 1) mod 2 ^ 64 div PAGE_SIZE + 2 ^ 64 - pos div PAGE_SIZE + 1) mod 2 ^ 32
      = blocks_of_write pos count"
    and "pos div PAGE_SIZE + blocks_of_write pos count < 2 ^ 32"
    and "blocks_of_write pos count \<le> 2 ^ 31"
proof -
  have e1: "(pos + count + 2 ^ 64 - 1) mod 2 ^ 64 = pos + count - 1"
  proof -
    have "pos + count + 2 ^ 64 - 1 = (pos + count - 1) + 2 ^ 64" using assms by simp
    then have "(pos + count + 2 ^ 64 - 1) mod 2 ^ 64 = (pos + count - 1) mod 2 ^ 64"
      by (simp only: mod_add_self2)
    also have "\<dots> = pos + count - 1" using assms by (intro mod_less) simp
    finally show ?thesis .
  qed
  define a b where "a = pos div PAGE_SIZE" and "b = (pos + count - 1) div PAGE_SIZE"
  have ab: "a \<le> b" unfolding a_def b_def using assms by (intro div_le_mono) simp
  have b: "b < 2 ^ 31" unfolding b_def using assms by (simp add: less_mult_imp_div_less)
  have "(b + 2 ^ 64 - a + 1) mod 2 ^ 32 = (b - a + 1 + 2 ^ 64) mod 2 ^ 32"
    using ab by (intro arg_cong [where f = "\<lambda>x. x mod 2 ^ 32"]) simp
  also have "\<dots> = (b - a + 1 + 2 ^ 32 * 2 ^ 32) mod 2 ^ 32" by simp
  also have "\<dots> = (b - a + 1) mod 2 ^ 32" by (rule mod_mult_self2)
  also have "\<dots> = b - a + 1" using b by (intro mod_less) simp
  finally show "((pos + count + 2 ^ 64 - 1) mod 2 ^ 64 div PAGE_SIZE + 2 ^ 64 - pos div PAGE_SIZE + 1) mod 2 ^ 32
      = blocks_of_write pos count"
    by (simp only: e1 a_def b_def blocks_of_write_def)
  show "pos div PAGE_SIZE + blocks_of_write pos count < 2 ^ 32" "blocks_of_write pos count \<le> 2 ^ 31"
    using ab b unfolding blocks_of_write_def a_def [symmetric] b_def [symmetric] by simp_all
qed

section \<open>The effect of a redirected write\<close>

lemma inode_frame [simp]:
  "inode_hist (s\<lparr>t_locks := t\<rparr>) = inode_hist s" "inode_ok e (s\<lparr>t_locks := t\<rparr>) = inode_ok e s"
  "inode_hist (s\<lparr>data := d\<rparr>) = inode_hist s" "inode_ok e (s\<lparr>data := d\<rparr>) = inode_ok e s"
  by (simp_all add: inode_hist_def inode_ok_def)

definition txn_status :: "ver_inode \<Rightarrow> addr \<Rightarrow> int" where
  "txn_status s f = (if scorw_self_transaction_status (Some s) f = SET_TRANSACTION
     then SET_TRANSACTION else SET_NORMAL_WRITE)"

text \<open>Where a write takes its block from, and the record it leaves.\<close>

definition write_source :: "ver_inode \<Rightarrow> nat \<Rightarrow> nat" where
  "write_source s pos = resolve (inode_hist s) (min (nat (version s)) MAX_VERSIONS) (orig_size s) (pos div PAGE_SIZE)"

definition write_records :: "ver_inode \<Rightarrow> nat \<Rightarrow> nat \<Rightarrow> nat \<Rightarrow> scorw_log_record list" where
  "write_records s pos count rjunk =
     (if version s + 1 \<le> int MAX_VERSIONS
      then [make_record (version s + 1) (pos div PAGE_SIZE) (page_align (i_size (data s)) div PAGE_SIZE)
              (blocks_of_write pos count) rjunk]
      else [])"

text \<open>The lock is free, or held for a transaction of the same open file.\<close>

definition can_write :: "ver_inode \<Rightarrow> addr \<Rightarrow> bool" where
  "can_write s f \<longleftrightarrow> \<not> locked (t_locks s) \<or>
     (owner (t_locks s) = Some f \<and> transaction (t_locks s) = SET_TRANSACTION)"

lemma write_refused:
  assumes "\<not> can_write s f"
  shows "scorw_write_see_thru_ro e junk rjunk intr s f pos count \<in> {Blocks, Ret (- EIO, s)}"
  using assms
  by (auto simp: can_write_def scorw_write_see_thru_ro_def scorw_self_transaction_status_def
      scorw_set_transaction_def Let_def)

lemma page_align_blocks:
  assumes "n < 2 ^ 62"
  shows "page_align n div PAGE_SIZE \<le> 2 ^ 61"
proof -
  have "page_align n < 2 ^ 62 + PAGE_SIZE" using assms page_align_less [of n] by simp
  then have "page_align n div PAGE_SIZE \<le> (2 ^ 62 + PAGE_SIZE) div PAGE_SIZE"
    by (intro div_le_mono) simp
  then show ?thesis by simp
qed

lemma write_acquire:
  assumes "can_write s f"
  shows "(if scorw_self_transaction_status (Some s) f = SET_TRANSACTION then Ret (0, s)
      else scorw_set_transaction intr (Some s) f SET_NORMAL_WRITE) =
    Ret (0, s\<lparr>t_locks := \<lparr>locked = True, owner = Some f, transaction = txn_status s f\<rparr>\<rparr>)"
  using assms by (cases s, cases "t_locks s")
    (auto simp: can_write_def txn_status_def scorw_self_transaction_status_def scorw_set_transaction_def)

lemma txn_status_cases: "txn_status s f = SET_TRANSACTION \<or> txn_status s f = SET_NORMAL_WRITE"
  by (simp add: txn_status_def)

lemma write_bump_record:
  assumes ok: "inode_ok e s" and ver: "version s < 2 ^ 31 - 1"
    and st: "st = SET_TRANSACTION \<or> st = SET_NORMAL_WRITE"
    and b: "lblk + len < 2 ^ 32" "pblk + len \<le> 2 ^ 63"
  shows "\<exists>r s'. inode_record_write e
        (if st = SET_NORMAL_WRITE then s\<lparr>version := s32 (version s + 1)\<rparr> else s) lblk pblk len st rjunk =
      Some (r, s') \<and> inode_ok e s' \<and>
    inode_hist s' = inode_hist s @ (if version s + 1 \<le> int MAX_VERSIONS
      then [make_record (version s + 1) lblk pblk len rjunk] else []) \<and>
    version s' = (if st = SET_TRANSACTION then version s else version s + 1) \<and>
    data s' = data s \<and> t_locks s' = t_locks s \<and> orig_size s' = orig_size s"
proof -
  obtain l where l: "i_log_vfs_inode s = Some l" "vs_ok e (vcache s, l)" "0 \<le> version s"
    "int (newest (log_records l)) \<le> version s + 1" "inode_hist s = log_records l"
    using ok by (rule inode_okE)
  define w where "w = nat (version s + 1)"
  have w: "int w = version s + 1" "1 \<le> w" "newest (log_records l) \<le> w"
    using l by (simp_all add: w_def)
  define s4 where "s4 = (if st = SET_NORMAL_WRITE then s\<lparr>version := s32 (version s + 1)\<rparr> else s)"
  have v4: "version s4 = (if st = SET_TRANSACTION then version s else version s + 1)"
    using ver l(3) st s32_id [of "version s + 1"] by (auto simp: s4_def)
  then have wv: "write_version (version s4) st = int w" using w by (simp add: write_version_def)
  have "i_log_vfs_inode s4 = Some l" "vs_ok e (vcache s4, l)" using l by (simp_all add: s4_def)
  from inode_record_write_ok [OF this wv w(3,2) b, of rjunk] obtain r vc l' where
    rec: "inode_record_write e s4 lblk pblk len st rjunk = Some (r, s4\<lparr>vcache := vc, i_log_vfs_inode := Some l'\<rparr>)"
    and ok': "vs_ok e (vc, l')" and h: "log_records l' = log_records l @ (if w \<le> MAX_VERSIONS
        then [make_record (int w) lblk pblk len rjunk] else [])" by blast
  have "newest (log_records l') \<le> w"
    using h w(3) by (auto simp: make_record_def nat_le_iff zmod_le_nonneg_dividend)
  then have "inode_ok e (s4\<lparr>vcache := vc, i_log_vfs_inode := Some l'\<rparr>)"
    using ok' v4 l(3) w(1) by (auto simp: inode_ok_def inode_hist_def)
  with rec v4 h w(1) l(5) show ?thesis
    unfolding s4_def [symmetric]
    by (intro exI [of _ r] exI [of _ "s4\<lparr>vcache := vc, i_log_vfs_inode := Some l'\<rparr>"])
      (auto simp: inode_hist_def s4_def)
qed

lemma write_see_thru_effect:
  assumes ok: "inode_ok e s" and fits: "write_fits s pos count"
    and ver: "version s < 2 ^ 31 - 1" and can: "can_write s f"
    and cp: "see_thru_copies e junk (data s) pos count (orig_size s) (write_source s pos)
               (page_align (i_size (data s))) = (failed, d)"
  shows "\<exists>ret s'. scorw_write_see_thru_ro e junk rjunk intr s f pos count = Ret (ret, s') \<and>
    inode_ok e s' \<and> orig_size s' = orig_size s \<and> data s' = d \<and>
    (if failed then ret = int pos \<and> version s' = version s \<and> inode_hist s' = inode_hist s \<and>
       t_locks s' = \<lparr>locked = True, owner = Some f, transaction = txn_status s f\<rparr>
     else ret = int (page_align (i_size (data s)) + pos mod PAGE_SIZE) \<and>
       inode_hist s' = inode_hist s @ write_records s pos count rjunk \<and>
       version s' = (if txn_status s f = SET_TRANSACTION then version s else version s + 1) \<and>
       t_locks s' = (if txn_status s f = SET_TRANSACTION then t_locks s
         else \<lparr>locked = False, owner = None, transaction = UNSET_TRANSACTION\<rparr>))"
proof -
  let ?st = "txn_status s f" and ?app = "page_align (i_size (data s)) div PAGE_SIZE"
  let ?s1 = "s\<lparr>t_locks := \<lparr>locked = True, owner = Some f, transaction = ?st\<rparr>\<rparr>"
  have st: "(if scorw_self_transaction_status (Some s) f = SET_TRANSACTION then SET_TRANSACTION
      else SET_NORMAL_WRITE) = ?st" by (simp add: txn_status_def)
  obtain vc l where lk: "inode_lookup e ?s1 (pos div PAGE_SIZE) =
      Some (write_source s pos, ?s1\<lparr>vcache := vc, i_log_vfs_inode := Some l\<rparr>)"
    and ok2: "inode_ok e (?s1\<lparr>vcache := vc, i_log_vfs_inode := Some l\<rparr>)"
    and hist: "log_records l = inode_hist s"
    using inode_lookup_ok [of e ?s1 "pos div PAGE_SIZE"] ok by (auto simp: write_source_def)
  define s3 where "s3 = ?s1\<lparr>vcache := vc, i_log_vfs_inode := Some l, data := d\<rparr>"
  have ok3: "inode_ok e s3" "inode_hist s3 = inode_hist s" "version s3 = version s"
    using ok2 hist by (simp_all add: s3_def inode_hist_def)
  have cnt: "0 < count" "pos + count < 2 ^ 43" using fits by (simp_all add: write_fits_def)
  note wb = blocks_of_write_bounds [OF cnt] and unf = scorw_write_see_thru_ro_def Let_def write_acquire [OF can] st
  show ?thesis
  proof (cases failed)
    case True
    with cp have "scorw_write_see_thru_ro e junk rjunk intr s f pos count = Ret (int pos, s3)"
      unfolding unf by (simp add: lk s3_def)
    with ok3 True show ?thesis by (auto simp: s3_def)
  next
    case False
    have pb: "?app + blocks_of_write pos count \<le> 2 ^ 63"
      using page_align_blocks [of "i_size (data s)"] wb(3) fits by (simp add: write_fits_def)
    obtain r s5 where rec: "inode_record_write e
          (if ?st = SET_NORMAL_WRITE then s3\<lparr>version := s32 (version s3 + 1)\<rparr> else s3)
          (pos div PAGE_SIZE) ?app (blocks_of_write pos count) ?st rjunk = Some (r, s5)"
      and s5: "inode_ok e s5" "inode_hist s5 = inode_hist s @ write_records s pos count rjunk"
        "version s5 = (if ?st = SET_TRANSACTION then version s else version s + 1)"
        "data s5 = d" "t_locks s5 = t_locks ?s1" "orig_size s5 = orig_size s"
      using write_bump_record [OF ok3(1) _ txn_status_cases wb(2) pb, of s f rjunk] ver ok3
      by (auto simp: write_records_def s3_def)
    let ?s6 = "if ?st = SET_NORMAL_WRITE
      then s5\<lparr>t_locks := \<lparr>locked = False, owner = None, transaction = UNSET_TRANSACTION\<rparr>\<rparr> else s5"
    have "?st = SET_NORMAL_WRITE \<Longrightarrow> scorw_set_transaction intr (Some s5) f UNSET_TRANSACTION =
        Ret (0, s5\<lparr>t_locks := \<lparr>locked = False, owner = None, transaction = UNSET_TRANSACTION\<rparr>\<rparr>)"
      using s5(5) by (simp add: scorw_set_transaction_def)
    then have "scorw_write_see_thru_ro e junk rjunk intr s f pos count =
        Ret (int (page_align (i_size (data s)) + pos mod PAGE_SIZE), ?s6)"
      using cp False rec lk unfolding unf wb(1)
      by (cases "?st = SET_NORMAL_WRITE") (simp_all add: s3_def)
    moreover have "t_locks s = t_locks ?s1" if "?st = SET_TRANSACTION"
      using that can by (cases "t_locks s")
        (auto simp: can_write_def txn_status_def scorw_self_transaction_status_def split: if_splits)
    ultimately show ?thesis using False s5 txn_status_cases [of s f] by auto
  qed
qed

section \<open>Runs of a versioned parent\<close>

text \<open>
  The operations any number of processes interleave on a versioned parent:
  begin, commit and give up of a transaction, redirected writes, lookups by
  readers of any version, and the data written into the file. Each is a
  complete call that returned; a call that waits for the lock is not a step.
\<close>

inductive ver_step :: "kenv \<Rightarrow> ver_inode \<Rightarrow> ver_inode \<Rightarrow> bool" for e where
  begin_txn: "scorw_set_transaction intr (Some s) f SET_TRANSACTION = Ret (r, s') \<Longrightarrow> ver_step e s s'"
| end_txn: "version s < 2 ^ 31 - 1 \<Longrightarrow>
    scorw_set_transaction intr (Some s) f UNSET_TRANSACTION = Ret (r, s') \<Longrightarrow> ver_step e s s'"
| abort_txn: "scorw_set_transaction_error (Some s) f = (r, Some s') \<Longrightarrow> ver_step e s s'"
| redirect: "version s < 2 ^ 31 - 1 \<Longrightarrow> write_fits s pos count \<Longrightarrow>
    scorw_write_see_thru_ro e junk rjunk intr s f pos count = Ret (r, s') \<Longrightarrow> ver_step e s s'"
| lookup: "scorw_lookup_physical_block e v (orig_size s) (i_log_vfs_inode s) (vcache s) blk = Some (p, vc, log) \<Longrightarrow>
    ver_step e s (s\<lparr>vcache := vc, i_log_vfs_inode := log\<rparr>)"
| fill: "ver_step e s (s\<lparr>data := d\<rparr>)"

text \<open>What every step keeps: the history only grows, by records of the next
  version.\<close>

definition grows :: "kenv \<Rightarrow> ver_inode \<Rightarrow> ver_inode \<Rightarrow> bool" where
  "grows e s s' \<longleftrightarrow> inode_ok e s' \<and> orig_size s' = orig_size s \<and> version s \<le> version s' \<and>
     (\<exists>rs. inode_hist s' = inode_hist s @ rs \<and> (\<forall>r\<in>set rs. version s < int (version_num r)))"

lemma growsI_same:
  "inode_ok e s' \<Longrightarrow> orig_size s' = orig_size s \<Longrightarrow> version s \<le> version s' \<Longrightarrow>
   inode_hist s' = inode_hist s \<Longrightarrow> grows e s s'"
  by (simp add: grows_def)

lemma grows_trans: "grows e s s' \<Longrightarrow> grows e s' s'' \<Longrightarrow> grows e s s''"
  unfolding grows_def by (force intro: order_trans)

lemma set_transaction_grows:
  assumes "inode_ok e s" and "version s < 2 ^ 31 - 1 \<or> val \<noteq> UNSET_TRANSACTION"
    and "scorw_set_transaction intr (Some s) f val = Ret (r, s')"
  shows "grows e s s'"
proof -
  obtain l where l: "i_log_vfs_inode s = Some l" "vs_ok e (vcache s, l)" "0 \<le> version s"
    "int (newest (log_records l)) \<le> version s + 1" "inode_hist s = log_records l"
    using assms(1) by (rule inode_okE)
  have wb: "log_records (writeback_all l) = log_records l" "vs_ok e (vcache s, writeback_all l)"
    using l(2) same_view_log [OF same_view_writeback_all, of l] by (simp_all add: vs_ok_def)
  have "version s < 2 ^ 31 - 1 \<Longrightarrow> s32 (version s + 1) = version s + 1"
    using l(3) by (intro s32_id) simp_all
  with assms l wb show ?thesis
    by (auto simp: scorw_set_transaction_def Let_def inode_ok_def inode_hist_def
        intro!: growsI_same split: if_splits)
qed

lemma write_records_version:
  assumes "r \<in> set (write_records s pos count rjunk)" and "0 \<le> version s"
  shows "int (version_num r) = version s + 1"
  using assms by (auto simp: write_records_def make_record_def split: if_splits)

lemma redirect_grows:
  assumes "inode_ok e s" and "write_fits s pos count" and "version s < 2 ^ 31 - 1"
    and "scorw_write_see_thru_ro e junk rjunk intr s f pos count = Ret (r, s')"
  shows "grows e s s'"
proof (cases "can_write s f")
  case True
  have v: "0 \<le> version s" using assms(1) by (simp add: inode_ok_def)
  obtain failed d where "see_thru_copies e junk (data s) pos count (orig_size s) (write_source s pos)
      (page_align (i_size (data s))) = (failed, d)" by fastforce
  from write_see_thru_effect [OF assms(1-3) True this, of rjunk intr] assms(4) show ?thesis
    using write_records_version [OF _ v] by (fastforce simp: grows_def split: if_splits)
next
  case False
  from write_refused [OF this, of e junk rjunk intr pos count] assms show ?thesis
    by (auto intro: growsI_same)
qed

lemma ver_step_grows:
  assumes "ver_step e s s'" and "inode_ok e s"
  shows "grows e s s'"
  using assms(1)
proof cases
  case (begin_txn intr f r)
  then show ?thesis by (rule set_transaction_grows [OF assms(2) disjI2, rotated]) simp
next
  case (end_txn intr f r)
  then show ?thesis by (blast intro: set_transaction_grows [OF assms(2)])
next
  case (abort_txn f r)
  then show ?thesis using assms(2)
    by (auto simp: scorw_set_transaction_error_def intro!: growsI_same split: if_splits)
next
  case (redirect pos count junk rjunk intr f r)
  then show ?thesis by (blast intro: redirect_grows [OF assms(2)])
next
  case (lookup v blk p vc log)
  obtain l where l: "i_log_vfs_inode s = Some l" "vs_ok e (vcache s, l)" "0 \<le> version s"
    "int (newest (log_records l)) \<le> version s + 1" "inode_hist s = log_records l"
    using assms(2) by (rule inode_okE)
  with lookup_physical_block_resolve [of "vcache s" l e v "orig_size s" blk] lookup
  obtain l' where l': "log = Some l'" "same_view l l'" by (auto simp: vs_ok_def)
  with lookup l vs_ok_lookup [OF l(2), of v "orig_size s" blk p vc l'] show ?thesis
    by (auto simp: inode_ok_def inode_hist_def same_view_log intro!: growsI_same)
next
  case (fill d)
  with assms(2) show ?thesis by (auto intro!: growsI_same)
qed

lemma ver_steps_grow:
  assumes "(ver_step e)\<^sup>*\<^sup>* s s'" and "inode_ok e s"
  shows "grows e s s'"
  using assms
proof (induction rule: rtranclp_induct)
  case base
  then show ?case by (simp add: growsI_same)
next
  case (step s1 s2)
  then have "inode_ok e s1" by (simp add: grows_def)
  with step ver_step_grows grows_trans show ?case by blast
qed

lemma resolve_later:
  assumes "\<forall>r\<in>set rs. n < version_num r"
  shows "resolve (recs @ rs) n orig blk = resolve recs n orig blk"
  using assms by (induction rs rule: rev_induct) (auto simp: resolve_append append_assoc [symmetric] simp del: append_assoc)

section \<open>A sample parent\<close>

definition sample_data :: "file" where
  "sample_data = empty_file\<lparr>i_size := 12288\<rparr>"

definition sample_inode :: ver_inode where
  "sample_inode = init_Transaction_locks
     \<lparr>version = 2, vcache = empty_cache, i_log_vfs_inode = Some sample_log,
      t_locks = \<lparr>locked = True, owner = None, transaction = 0\<rparr>, is_see_thru_ro = True,
      data = sample_data, orig_size = 8192\<rparr>"

lemma sample_inode_simps [simp]:
  "version sample_inode = 2" "vcache sample_inode = empty_cache"
  "i_log_vfs_inode sample_inode = Some sample_log" "data sample_inode = sample_data"
  "orig_size sample_inode = 8192" "is_see_thru_ro sample_inode"
  "t_locks sample_inode = \<lparr>locked = False, owner = None, transaction = -1\<rparr>"
  by (simp_all add: sample_inode_def init_Transaction_locks_def)

lemma sample_inode_ok: "inode_ok good_env sample_inode"
  using sample_vs_ok
  by (simp add: inode_ok_def inode_hist_def sample_log_records newest_def sample_records_def make_record_def)

section \<open>Transactions\<close>

lemma copy_one_page:
  assumes "dest mod PAGE_SIZE = 0"
  shows "scorw_internal_copy_blocks e junk f src dest PAGE_SIZE st =
    (case read_mapping_page f (pgoff src) of
       (None, f1) \<Rightarrow> (- EIO, f1)
     | (Some p, f1) \<Rightarrow>
         (case write_begin e junk f1 dest PAGE_SIZE of
            None \<Rightarrow> (- ENOMEM, f1)
          | Some q \<Rightarrow> (int PAGE_SIZE, write_end f1 (dest div PAGE_SIZE) dest PAGE_SIZE
              (memcpy_page q 0 (page_bytes p (src mod PAGE_SIZE) PAGE_SIZE)))))"
  using assms
  by (subst scorw_internal_copy_blocks.simps)
    (auto simp: Let_def scorw_internal_copy_blocks.simps [where len = 0] split: option.split prod.split)

text \<open>Which blocks the readers find once the record of a write is in the log.\<close>

lemma write_records_resolve:
  assumes ok: "0 \<le> version s" and fits: "write_fits s pos count" and ver: "version s + 1 \<le> int MAX_VERSIONS"
  shows "int n \<le> version s \<Longrightarrow>
      resolve (inode_hist s @ write_records s pos count rjunk) (min n MAX_VERSIONS) orig blk =
      resolve (inode_hist s) (min n MAX_VERSIONS) orig blk"
    and "version s < int n \<Longrightarrow> i < blocks_of_write pos count \<Longrightarrow>
      resolve (inode_hist s @ write_records s pos count rjunk) (min n MAX_VERSIONS) orig (pos div PAGE_SIZE + i) =
      page_align (i_size (data s)) div PAGE_SIZE + i"
proof -
  have cnt: "0 < count" "pos + count < 2 ^ 43" using fits by (simp_all add: write_fits_def)
  define r where "r = make_record (version s + 1) (pos div PAGE_SIZE)
      (page_align (i_size (data s)) div PAGE_SIZE) (blocks_of_write pos count) rjunk"
  have bnd: "nat (version s + 1) < 2 ^ 32" "page_align (i_size (data s)) div PAGE_SIZE < 2 ^ 64"
    using assms page_align_blocks [of "i_size (data s)"] by (simp_all add: write_fits_def nat_less_iff)
  note r = make_record_fields [OF bnd(1) blocks_of_write_bounds(2) [OF cnt] bnd(2), of rjunk]
  have rs: "write_records s pos count rjunk = [r]" using ver by (simp add: write_records_def r_def)
  have rf: "version_num r = nat (version s + 1)" "logical_start_blk r = pos div PAGE_SIZE"
    "physical_start_blk r = page_align (i_size (data s)) div PAGE_SIZE" "len_blks r = blocks_of_write pos count"
    using r ok by (simp_all add: r_def)
  show "resolve (inode_hist s @ write_records s pos count rjunk) (min n MAX_VERSIONS) orig blk =
      resolve (inode_hist s) (min n MAX_VERSIONS) orig blk" if "int n \<le> version s"
    unfolding rs using that rf by (intro resolve_later) simp
  have "1 \<le> nat (version s + 1)" using ok by simp
  moreover have "nat (version s + 1) \<le> min n MAX_VERSIONS" if "version s < int n" using that ver by auto
  ultimately show "resolve (inode_hist s @ write_records s pos count rjunk) (min n MAX_VERSIONS) orig (pos div PAGE_SIZE + i) =
      page_align (i_size (data s)) div PAGE_SIZE + i"
    if "version s < int n" "i < blocks_of_write pos count"
    unfolding rs using that rf by (simp add: resolve_append covers_def target_def)
qed

lemma commit_effect:
  assumes "inode_ok e s" and "version s < 2 ^ 31 - 1"
    and "t_locks s = \<lparr>locked = True, owner = Some f, transaction = SET_TRANSACTION\<rparr>"
  shows "\<exists>s'. scorw_set_transaction intr (Some s) f UNSET_TRANSACTION = Ret (0, s') \<and>
    version s' = version s + 1 \<and> inode_ok e s' \<and> inode_hist s' = inode_hist s \<and>
    orig_size s' = orig_size s \<and> (\<exists>l. i_log_vfs_inode s' = Some l \<and> (\<forall>i. disk l i = view l i))"
proof -
  obtain l where l: "i_log_vfs_inode s = Some l" "0 \<le> version s" "inode_hist s = log_records l"
    using assms(1) by (rule inode_okE)
  let ?s = "s\<lparr>version := version s + 1, i_log_vfs_inode := Some (writeback_all l),
    t_locks := \<lparr>locked = False, owner = None, transaction = UNSET_TRANSACTION\<rparr>\<rparr>"
  have c: "scorw_set_transaction intr (Some s) f UNSET_TRANSACTION = Ret (0, ?s)"
    using assms l s32_id [of "version s + 1"] by (simp add: scorw_set_transaction_def)
  with set_transaction_grows [OF assms(1) _ c] assms(2) l same_view_log(1) [OF same_view_writeback_all, of l]
  show ?thesis by (intro exI [of _ ?s]) (simp add: grows_def inode_hist_def)
qed

lemma txn_write_effect:
  assumes "inode_ok e s" and "write_fits s pos count" and "version s + 1 \<le> int MAX_VERSIONS"
    and "t_locks s = \<lparr>locked = True, owner = Some f, transaction = SET_TRANSACTION\<rparr>"
    and "see_thru_copies e junk (data s) pos count (orig_size s) (write_source s pos)
           (page_align (i_size (data s))) = (False, d)"
  shows "\<exists>s1. scorw_write_see_thru_ro e junk rjunk intr s f pos count =
      Ret (int (page_align (i_size (data s)) + pos mod PAGE_SIZE), s1) \<and>
    inode_ok e s1 \<and> orig_size s1 = orig_size s \<and> version s1 = version s \<and> t_locks s1 = t_locks s \<and>
    inode_hist s1 = inode_hist s @ write_records s pos count rjunk"
proof -
  have v: "version s < 2 ^ 31 - 1" using assms(3) by simp
  have can: "can_write s f" and st: "txn_status s f = SET_TRANSACTION"
    using assms(4) by (simp_all add: can_write_def txn_status_def scorw_self_transaction_status_def)
  show ?thesis
    using write_see_thru_effect [OF assms(1,2) v can assms(5), of rjunk intr] st by auto
qed

lemma sample_txn_write:
  fixes s defines "s \<equiv> sample_inode\<lparr>t_locks := \<lparr>locked = True, owner = Some 7, transaction = SET_TRANSACTION\<rparr>\<rparr>"
  shows "inode_ok good_env s" "write_fits s 100 10" "version s + 1 \<le> int MAX_VERSIONS"
    "t_locks s = \<lparr>locked = True, owner = Some 7, transaction = SET_TRANSACTION\<rparr>"
    "see_thru_copies good_env zero_page (data s) 100 10 (orig_size s) (write_source s 100)
      (page_align (i_size (data s))) = (False, snd (see_thru_copies good_env zero_page (data s) 100 10
        (orig_size s) (write_source s 100) (page_align (i_size (data s)))))"
proof -
  have src: "write_source s 100 = 5"
    by (simp add: write_source_def s_def inode_hist_def sample_log_records resolve_def sample_records_def
        make_record_def covers_def target_def)
  have p: "page_align 12288 = 12288" by (simp add: page_align_def)
  show "see_thru_copies good_env zero_page (data s) 100 10 (orig_size s) (write_source s 100)
      (page_align (i_size (data s))) = (False, snd (see_thru_copies good_env zero_page (data s) 100 10
        (orig_size s) (write_source s 100) (page_align (i_size (data s)))))"
    unfolding src
    by (simp add: s_def sample_data_def p see_thru_copies_def copy_one_page pgoff_def read_mapping_page_def
        write_begin_def empty_file_def BLK_NOT_FOUND_def)
qed (use sample_inode_ok in \<open>simp_all add: s_def write_fits_def sample_data_def\<close>)

section \<open>Properties\<close>

text \<open>C2: a reader of a version the parent has reached finds the same physical
  blocks for ever: no interleaving of transactions, redirected writes, lookups
  and data writes by any number of processes changes what it finds.\<close>

theorem committed_version_immutable:
  assumes "(ver_step e)\<^sup>*\<^sup>* s s'" and "inode_ok e s" and "int n \<le> version s"
  shows "reader_block e s' n blk = reader_block e s n blk"
proof -
  from ver_steps_grow [OF assms(1,2)] obtain rs where
    g: "inode_ok e s'" "orig_size s' = orig_size s" "inode_hist s' = inode_hist s @ rs"
      "\<forall>r\<in>set rs. version s < int (version_num r)" by (auto simp: grows_def)
  then have "\<forall>r\<in>set rs. min n MAX_VERSIONS < version_num r" using assms(3) by fastforce
  with g assms(2) show ?thesis by (simp add: reader_block_resolve resolve_later)
qed

theorem committed_version_immutable_witness:
  "\<exists>s'. (ver_step good_env)\<^sup>*\<^sup>* sample_inode s' \<and> version s' = 3 \<and>
    reader_block good_env s' 2 1 = reader_block good_env sample_inode 2 1"
proof -
  let ?s1 = "sample_inode\<lparr>t_locks := \<lparr>locked = True, owner = Some 7, transaction = SET_TRANSACTION\<rparr>\<rparr>"
  let ?s2 = "sample_inode\<lparr>version := 3, i_log_vfs_inode := Some (writeback_all sample_log),
    t_locks := \<lparr>locked = False, owner = None, transaction = UNSET_TRANSACTION\<rparr>\<rparr>"
  have "ver_step good_env sample_inode ?s1"
    by (rule begin_txn [of False _ 7 0]) (simp add: scorw_set_transaction_def scorw_self_transaction_status_def)
  moreover have "ver_step good_env ?s1 ?s2"
    by (rule end_txn [of _ False 7 0]) (simp_all add: scorw_set_transaction_def s32_def)
  ultimately have r: "(ver_step good_env)\<^sup>*\<^sup>* sample_inode ?s2" by simp
  from committed_version_immutable [OF r sample_inode_ok, of 2 1] r show ?thesis
    by (intro exI [of _ ?s2]) simp
qed

text \<open>C6: a transaction is atomic. A write made inside an open transaction is
  found by no reader of the version the parent is at; the commit moves the
  parent to the next version, at which every block of the write is found in the
  fresh blocks at the end of the file, and the log is on disk.\<close>

theorem transaction_commit_atomic:
  assumes "inode_ok e s" and "write_fits s pos count" and "version s + 1 \<le> int MAX_VERSIONS"
    and "t_locks s = \<lparr>locked = True, owner = Some f, transaction = SET_TRANSACTION\<rparr>"
    and "see_thru_copies e junk (data s) pos count (orig_size s) (write_source s pos)
           (page_align (i_size (data s))) = (False, d)"
  shows "\<exists>s1 s2. scorw_write_see_thru_ro e junk rjunk intr s f pos count =
      Ret (int (page_align (i_size (data s)) + pos mod PAGE_SIZE), s1) \<and>
    (\<forall>n blk. int n \<le> version s \<longrightarrow> reader_block e s1 n blk = reader_block e s n blk) \<and>
    scorw_set_transaction intr (Some s1) f UNSET_TRANSACTION = Ret (0, s2) \<and>
    version s2 = version s + 1 \<and>
    (\<forall>i < blocks_of_write pos count. reader_block e s2 (nat (version s2)) (pos div PAGE_SIZE + i) =
       Some (page_align (i_size (data s)) div PAGE_SIZE + i)) \<and>
    (\<forall>n blk. int n \<le> version s \<longrightarrow> reader_block e s2 n blk = reader_block e s n blk) \<and>
    (\<exists>l. i_log_vfs_inode s2 = Some l \<and> (\<forall>i. disk l i = view l i))"
proof -
  have v: "0 \<le> version s" "version s < 2 ^ 31 - 1" using assms(1,3) by (simp_all add: inode_ok_def)
  obtain s1 where w: "scorw_write_see_thru_ro e junk rjunk intr s f pos count =
      Ret (int (page_align (i_size (data s)) + pos mod PAGE_SIZE), s1)"
    and s1: "inode_ok e s1" "orig_size s1 = orig_size s" "version s1 = version s" "t_locks s1 = t_locks s"
      "inode_hist s1 = inode_hist s @ write_records s pos count rjunk"
    using txn_write_effect [OF assms] by blast
  obtain s2 where c: "scorw_set_transaction intr (Some s1) f UNSET_TRANSACTION = Ret (0, s2)"
    "version s2 = version s + 1" "inode_ok e s2" "inode_hist s2 = inode_hist s1"
    "orig_size s2 = orig_size s" "\<exists>l. i_log_vfs_inode s2 = Some l \<and> (\<forall>i. disk l i = view l i)"
    using commit_effect [OF s1(1), of f intr] s1 assms(4) v by auto
  note res = write_records_resolve [OF v(1) assms(2,3)]
  show ?thesis
    using w c s1 assms(1) v res by (auto simp: reader_block_resolve)
qed

theorem transaction_commit_atomic_witness:
  "\<exists>s s1 s2. s = sample_inode\<lparr>t_locks := \<lparr>locked = True, owner = Some 7, transaction = SET_TRANSACTION\<rparr>\<rparr> \<and>
    scorw_write_see_thru_ro good_env zero_page 0 False s 7 100 10 = Ret (12388, s1) \<and>
    scorw_set_transaction False (Some s1) 7 UNSET_TRANSACTION = Ret (0, s2) \<and> version s2 = 3 \<and>
    reader_block good_env s2 3 0 = Some 3 \<and>
    reader_block good_env s2 2 0 = reader_block good_env s 2 0"
proof -
  let ?s = "sample_inode\<lparr>t_locks := \<lparr>locked = True, owner = Some 7, transaction = SET_TRANSACTION\<rparr>\<rparr>"
  from transaction_commit_atomic [OF sample_txn_write, of 0 False] obtain s1 s2 where
    "scorw_write_see_thru_ro good_env zero_page 0 False ?s 7 100 10 = Ret (12388, s1)"
    "scorw_set_transaction False (Some s1) 7 UNSET_TRANSACTION = Ret (0, s2)" "version s2 = 3"
    "\<forall>i < blocks_of_write 100 10. reader_block good_env s2 (nat (version s2)) (100 div PAGE_SIZE + i) = Some (3 + i)"
    "\<forall>n blk. int n \<le> 2 \<longrightarrow> reader_block good_env s2 n blk = reader_block good_env ?s n blk"
    by (auto simp: sample_data_def page_align_def)
  moreover have "blocks_of_write 100 10 = 1" by (simp add: blocks_of_write_def)
  ultimately show ?thesis by auto
qed

text \<open>C35: giving a transaction up does not undo it. The blocks written in it are
  found by the readers of the next version as soon as any other transaction,
  even an empty one, commits.\<close>

theorem aborted_transaction_exposed:
  assumes "inode_ok e s" and "write_fits s pos count" and "version s + 1 \<le> int MAX_VERSIONS"
    and "t_locks s = \<lparr>locked = True, owner = Some f, transaction = SET_TRANSACTION\<rparr>"
    and "see_thru_copies e junk (data s) pos count (orig_size s) (write_source s pos)
           (page_align (i_size (data s))) = (False, d)"
  shows "\<exists>s1 s2 s3 s4. scorw_write_see_thru_ro e junk rjunk intr s f pos count =
      Ret (int (page_align (i_size (data s)) + pos mod PAGE_SIZE), s1) \<and>
    scorw_set_transaction_error (Some s1) f = (0, Some s2) \<and> version s2 = version s \<and>
    scorw_set_transaction intr (Some s2) g SET_TRANSACTION = Ret (0, s3) \<and>
    scorw_set_transaction intr (Some s3) g UNSET_TRANSACTION = Ret (0, s4) \<and>
    (\<forall>i < blocks_of_write pos count. reader_block e s4 (nat (version s4)) (pos div PAGE_SIZE + i) =
       Some (page_align (i_size (data s)) div PAGE_SIZE + i))"
proof -
  have v: "0 \<le> version s" "version s < 2 ^ 31 - 1" using assms(1,3) by (simp_all add: inode_ok_def)
  obtain s1 where w: "scorw_write_see_thru_ro e junk rjunk intr s f pos count =
      Ret (int (page_align (i_size (data s)) + pos mod PAGE_SIZE), s1)"
    and s1: "inode_ok e s1" "orig_size s1 = orig_size s" "version s1 = version s" "t_locks s1 = t_locks s"
      "inode_hist s1 = inode_hist s @ write_records s pos count rjunk"
    using txn_write_effect [OF assms] by blast
  let ?s2 = "s1\<lparr>t_locks := \<lparr>locked = False, owner = None, transaction = UNSET_TRANSACTION\<rparr>\<rparr>"
  let ?s3 = "s1\<lparr>t_locks := \<lparr>locked = True, owner = Some g, transaction = SET_TRANSACTION\<rparr>\<rparr>"
  have ab: "scorw_set_transaction_error (Some s1) f = (0, Some ?s2)"
    using s1(4) assms(4) by (simp add: scorw_set_transaction_error_def)
  have bg: "scorw_set_transaction intr (Some ?s2) g SET_TRANSACTION = Ret (0, ?s3)"
    by (simp add: scorw_set_transaction_def scorw_self_transaction_status_def)
  have "inode_ok e ?s3" "version ?s3 < 2 ^ 31 - 1" using s1 v by simp_all
  then obtain s4 where c: "scorw_set_transaction intr (Some ?s3) g UNSET_TRANSACTION = Ret (0, s4)"
    "version s4 = version s + 1" "inode_ok e s4" "inode_hist s4 = inode_hist s1" "orig_size s4 = orig_size s"
    using commit_effect [of e ?s3 g intr] s1 by auto
  note res = write_records_resolve [OF v(1) assms(2,3)]
  show ?thesis
    by (rule exI [of _ s1], rule exI [of _ ?s2], rule exI [of _ ?s3], rule exI [of _ s4])
      (use w ab bg c s1 v res in \<open>auto simp: reader_block_resolve\<close>)
qed

theorem aborted_transaction_exposed_witness:
  "\<exists>s1 s2 s3 s4. scorw_write_see_thru_ro good_env zero_page 0 False
      (sample_inode\<lparr>t_locks := \<lparr>locked = True, owner = Some 7, transaction = SET_TRANSACTION\<rparr>\<rparr>) 7 100 10 = Ret (12388, s1) \<and>
    scorw_set_transaction_error (Some s1) 7 = (0, Some s2) \<and>
    scorw_set_transaction False (Some s2) 8 SET_TRANSACTION = Ret (0, s3) \<and>
    scorw_set_transaction False (Some s3) 8 UNSET_TRANSACTION = Ret (0, s4) \<and>
    reader_block good_env s4 (nat (version s4)) 0 = Some 3"
proof -
  have "blocks_of_write 100 10 = 1" by (simp add: blocks_of_write_def)
  with aborted_transaction_exposed [OF sample_txn_write, of 0 False 8] show ?thesis
    by (auto simp: sample_data_def page_align_def)
qed

text \<open>C15: while one open file holds the transaction lock, another one can neither begin, commit
  or give up a transaction nor write through the write path: beginning and writing wait or return
  an error, committing and giving up return an error, and all of them leave the inode as it is.
  The vectored write of \<open>scorw_ioctl_see_thru_writev\<close> does not ask for the lock and is not among
  these calls.\<close>

theorem transaction_exclusive:
  assumes "locked (t_locks s)" and "owner (t_locks s) = Some f" and "g \<noteq> f"
  shows "scorw_set_transaction intr (Some s) g SET_TRANSACTION \<in> {Blocks, Ret (-67, s)} \<and>
    scorw_set_transaction intr (Some s) g UNSET_TRANSACTION = Ret (-25, s) \<and>
    scorw_set_transaction_error (Some s) g = (- EPERM, Some s) \<and>
    scorw_write_see_thru_ro e junk rjunk intr s g pos count \<in> {Blocks, Ret (- EIO, s)}"
proof -
  have "\<not> can_write s g" using assms by (auto simp: can_write_def)
  from write_refused [OF this] assms show ?thesis
    by (auto simp: scorw_set_transaction_def scorw_set_transaction_error_def scorw_self_transaction_status_def)
qed

theorem transaction_exclusive_witness:
  "scorw_set_transaction True (Some (sample_inode\<lparr>t_locks :=
      \<lparr>locked = True, owner = Some 7, transaction = SET_TRANSACTION\<rparr>\<rparr>)) 8 UNSET_TRANSACTION =
    Ret (-25, sample_inode\<lparr>t_locks := \<lparr>locked = True, owner = Some 7, transaction = SET_TRANSACTION\<rparr>\<rparr>)"
  using transaction_exclusive [of "sample_inode\<lparr>t_locks :=
      \<lparr>locked = True, owner = Some 7, transaction = SET_TRANSACTION\<rparr>\<rparr>" 7 8] by simp

text \<open>C27: when the copy of the old block fails, a write outside a transaction
  returns the position it was called with, so that the data goes over the old
  block in place, and keeps the lock: from then on every write, by this open
  file or any other one, waits or fails, and the close of the file, which
  gives up only transactions, does not free the lock.\<close>

theorem failed_copy_keeps_lock:
  assumes "inode_ok e s" and "write_fits s pos count" and "version s < 2 ^ 31 - 1"
    and "\<not> locked (t_locks s)"
    and "see_thru_copies e junk (data s) pos count (orig_size s) (write_source s pos)
           (page_align (i_size (data s))) = (True, d)"
  shows "\<exists>s1. scorw_write_see_thru_ro e junk rjunk intr s f pos count = Ret (int pos, s1) \<and>
    inode_hist s1 = inode_hist s \<and> version s1 = version s \<and>
    scorw_self_transaction_status (Some s1) f \<noteq> SET_TRANSACTION \<and>
    (\<forall>g intr' pos' count'. scorw_write_see_thru_ro e junk rjunk intr' s1 g pos' count' \<in> {Blocks, Ret (- EIO, s1)})"
proof -
  have can: "can_write s f" and st: "txn_status s f = SET_NORMAL_WRITE"
    using assms(4) by (simp_all add: can_write_def txn_status_def scorw_self_transaction_status_def)
  obtain s1 where s1: "scorw_write_see_thru_ro e junk rjunk intr s f pos count = Ret (int pos, s1)"
    "inode_hist s1 = inode_hist s" "version s1 = version s"
    "t_locks s1 = \<lparr>locked = True, owner = Some f, transaction = SET_NORMAL_WRITE\<rparr>"
    using write_see_thru_effect [OF assms(1,2,3) can assms(5), of rjunk intr] st by auto
  then have "\<not> can_write s1 g" for g by (simp add: can_write_def)
  from write_refused [OF this] s1 show ?thesis
    by (intro exI [of _ s1]) (simp add: scorw_self_transaction_status_def)
qed

theorem failed_copy_keeps_lock_witness:
  "\<exists>s1. scorw_write_see_thru_ro good_env zero_page 0 False
      (sample_inode\<lparr>data := sample_data\<lparr>disk := (\<lambda>_. None)\<rparr>\<rparr>) 7 100 10 = Ret (100, s1) \<and>
    scorw_write_see_thru_ro good_env zero_page 0 True s1 7 0 1 \<in> {Blocks, Ret (- EIO, s1)}"
proof -
  let ?s = "sample_inode\<lparr>data := sample_data\<lparr>disk := (\<lambda>_. None)\<rparr>\<rparr>"
  have src: "write_source ?s 100 = 5"
    by (simp add: write_source_def inode_hist_def sample_log_records resolve_def sample_records_def
        make_record_def covers_def target_def)
  have p: "page_align 12288 = 12288" by (simp add: page_align_def)
  have c: "see_thru_copies good_env zero_page (data ?s) 100 10 (orig_size ?s) (write_source ?s 100)
      (page_align (i_size (data ?s))) = (True, data ?s)"
    unfolding src
    by (simp add: sample_data_def p see_thru_copies_def copy_one_page pgoff_def read_mapping_page_def
        empty_file_def BLK_NOT_FOUND_def)
  have "inode_ok good_env ?s" "write_fits ?s 100 10" "version ?s < 2 ^ 31 - 1" "\<not> locked (t_locks ?s)"
    using sample_inode_ok by (simp_all add: write_fits_def sample_data_def)
  from failed_copy_keeps_lock [OF this c, of 0 False 7] show ?thesis by auto
qed

end
