(* ===== verification/Vectored_Writes.thy ===== *)
theory Vectored_Writes
  imports Isolation
begin

text \<open>
  The vectored write \<open>scorw_ioctl_see_thru_writev\<close> of
  \<open>src/ext4-module/corw_sparse.c\<close>: what its two phases do to the file, the log
  and the version store, and where the next version finds the data.
\<close>

section \<open>Phase 1\<close>

lemma i_size_write_end [simp]: "i_size (write_end f i pos n p) = max (i_size f) (pos + n)"
  by (simp add: write_end_def)

lemma copy_one_page_size:
  assumes "dest mod PAGE_SIZE = 0" and "scorw_internal_copy_blocks e junk f src dest PAGE_SIZE st = (r, f1)"
    and "0 \<le> r"
  shows "i_size f1 = max (i_size f) (dest + PAGE_SIZE)"
proof -
  obtain q g where rd: "read_mapping_page f (pgoff src) = (q, g)" by fastforce
  have "i_size g = i_size f" using read_mapping_page_frame(1) [of f "pgoff src"] unfolding rd by simp
  with assms(2,3) show ?thesis
    by (auto simp: copy_one_page [OF assms(1)] rd split: option.splits)
qed

lemma write_kernel_data_size:
  assumes "scorw_write_kernel_data e junk f (base + off) buf = Ret (r, f1)" and "0 \<le> r"
    and "base mod PAGE_SIZE = 0" and "off < PAGE_SIZE"
  shows "i_size f1 = max (i_size f) (base + off + length buf) \<and> off + length buf \<le> PAGE_SIZE"
proof -
  have "(base + off) mod PAGE_SIZE = off"
    using assms(3,4) by (metis add_0 mod_add_left_eq mod_less)
  with assms(1,2) show ?thesis
    by (auto simp: scorw_write_kernel_data_def split: option.splits if_splits)
qed

lemma writev_phase1_size:
  assumes "writev_phase1 e junk f append_pos vs = Ret (r, d)" and "0 \<le> r"
    and "append_pos mod PAGE_SIZE = 0" and "i_size f \<le> append_pos" and "vs \<noteq> []"
  shows "i_size d = append_pos + length vs * PAGE_SIZE"
  using assms
proof (induction vs arbitrary: f append_pos)
  case (Cons v vs)
  from Cons.prems(1,2) obtain buf r1 f1 r2 f2 where
    c: "scorw_internal_copy_blocks e junk f (logical_offset v div PAGE_SIZE * PAGE_SIZE) append_pos PAGE_SIZE 0 = (r1, f1)"
      "0 \<le> r1" and
    w: "scorw_write_kernel_data e junk f1 (append_pos + logical_offset v mod PAGE_SIZE) (take (vlen v) buf) = Ret (r2, f2)"
      "0 \<le> r2" and rest: "writev_phase1 e junk f2 (append_pos + PAGE_SIZE) vs = Ret (r, d)"
    by (auto split: if_splits option.splits prod.splits outcome.splits)
  have off: "logical_offset v mod PAGE_SIZE < PAGE_SIZE" by simp
  have s1: "i_size f1 = append_pos + PAGE_SIZE"
    using copy_one_page_size [OF Cons.prems(3) c] Cons.prems(4) by simp
  then have s2: "i_size f2 = append_pos + PAGE_SIZE"
    using write_kernel_data_size [OF w Cons.prems(3) off] by simp
  show ?case
  proof (cases "vs = []")
    case True
    with rest s2 show ?thesis by simp
  next
    case False
    have "(append_pos + PAGE_SIZE) mod PAGE_SIZE = 0" using Cons.prems(3) by simp
    from Cons.IH [OF rest Cons.prems(2) this _ False] s2 show ?thesis by simp
  qed
qed simp

lemma offset_block_bound: "off < 2 ^ 43 \<Longrightarrow> off div PAGE_SIZE + 1 < 2 ^ 32"
proof -
  assume "off < 2 ^ 43"
  then have "off div PAGE_SIZE < 2 ^ 31" by (intro less_mult_imp_div_less) simp
  then show ?thesis by simp
qed

text \<open>Phase 2 appends one record per vector, at consecutive blocks.\<close>

definition writev_records :: "nat \<Rightarrow> int \<Rightarrow> nat \<Rightarrow> scorw_io_vec list \<Rightarrow> scorw_log_record list" where
  "writev_records rjunk v pblk vs =
     map (\<lambda>i. make_record v (logical_offset (vs ! i) div PAGE_SIZE) (pblk + i) 1 rjunk) [0..<length vs]"

lemma writev_records_Cons:
  "writev_records rjunk v pblk (x # xs) =
    make_record v (logical_offset x div PAGE_SIZE) pblk 1 rjunk # writev_records rjunk v (pblk + 1) xs"
  by (simp add: writev_records_def map_upt_Suc_shift del: upt_Suc)

lemma writev_phase2_ok:
  assumes "cache_inv vc (log_records l)" and "log_ok l" and "pages_env_ok e"
    and "1 \<le> v" "v \<le> MAX_VERSIONS" and "version_states vc (v - 1) \<noteq> None"
    and "append_pos mod PAGE_SIZE = 0" and "append_pos div PAGE_SIZE + i + length vs < 2 ^ 63"
    and "\<forall>x\<in>set vs. logical_offset x < 2 ^ 43"
  shows "\<exists>vc' l'. writev_phase2 e rjunk (int v) (v - 1) append_pos i vs (vc, Some l) = Some (vc', Some l') \<and>
    cache_inv vc' (log_records l') \<and> log_ok l' \<and>
    log_records l' = log_records l @ writev_records rjunk (int v) (append_pos div PAGE_SIZE + i) vs"
  using assms
proof (induction vs arbitrary: vc l i)
  case Nil
  then show ?case by (simp add: writev_records_def)
next
  case (Cons x xs)
  let ?lblk = "logical_offset x div PAGE_SIZE" and ?pblk = "append_pos div PAGE_SIZE + i"
  let ?r = "make_record (int v) ?lblk ?pblk 1 rjunk"
  have pb: "(append_pos + i * PAGE_SIZE) div PAGE_SIZE = ?pblk" by simp
  have lb: "?lblk + 1 < 2 ^ 32" using Cons.prems(9) by (intro offset_block_bound) simp
  have bnd: "v < 2 ^ 32" "?pblk < 2 ^ 64" using Cons.prems(5,8) by simp_all
  note r = make_record_fields [OF bnd(1) lb bnd(2), of rjunk]
  let ?g = "\<lambda>dm. dm(?lblk \<mapsto> xa_mk_value ?pblk)"
  have g: "?g = store_extent ?lblk ?pblk 1"
    using lb bnd by (auto simp: store_extent_def fun_eq_iff)
  have inv: "cache_inv (upd_delta vc (v - 1) ?g) (log_records l @ [?r])"
    using Cons.prems(1,4,6) by (intro cache_inv_record) (simp_all add: r g del: One_nat_def)
  obtain l1 where l1: "append_record e l ?r = Some l1" "log_ok l1" "log_records l1 = log_records l @ [?r]"
    using scorw_log.append_one [OF Cons.prems(3,2) record_ok_make_record [of "int v" ?lblk ?pblk 1 rjunk]] by blast
  have "version_states (upd_delta vc (v - 1) ?g) (v - 1) \<noteq> None"
    using Cons.prems(6) by (auto simp: upd_delta_def set_version_state_def)
  with Cons.IH [of "upd_delta vc (v - 1) ?g" l1 "i + 1"] Cons.prems inv l1
  obtain vc' l' where "writev_phase2 e rjunk (int v) (v - 1) append_pos (i + 1) xs (upd_delta vc (v - 1) ?g, Some l1) =
      Some (vc', Some l')" "cache_inv vc' (log_records l')" "log_ok l'"
    "log_records l' = log_records l @ [?r] @ writev_records rjunk (int v) (?pblk + 1) xs"
    by auto
  with l1 show ?case by (auto simp: pb writev_records_Cons)
qed

lemma resolve_appended:
  assumes "\<exists>r\<in>set rs. 1 \<le> version_num r \<and> version_num r \<le> n \<and> covers r blk"
  shows "\<exists>r\<in>set rs. covers r blk \<and> resolve (recs @ rs) n orig blk = target r blk"
  using assms
proof (induction rs rule: rev_induct)
  case (snoc r rs)
  show ?case
  proof (cases "1 \<le> version_num r \<and> version_num r \<le> n \<and> covers r blk")
    case True
    then show ?thesis
      by (intro bexI [of _ r]) (simp_all add: resolve_append append_assoc [symmetric] del: append_assoc)
  next
    case False
    with snoc obtain r' where "r' \<in> set rs" "covers r' blk" "resolve (recs @ rs) n orig blk = target r' blk"
      by auto
    with False show ?thesis
      by (intro bexI [of _ r']) (auto simp: resolve_append append_assoc [symmetric] simp del: append_assoc)
  qed
qed simp

lemma newest_append_list:
  assumes "\<forall>r\<in>set rs. P r \<and> version_num r = v" and "newest recs \<le> v"
  shows "newest (recs @ rs) \<le> v"
  using assms by (cases "rs = []") (auto simp: newest_def)

lemma history_ok_append_list:
  "history_ok recs \<Longrightarrow> \<forall>r\<in>set rs. extent_ok r \<and> version_num r = v \<Longrightarrow> newest recs \<le> v \<Longrightarrow>
   history_ok (recs @ rs)"
proof (induction rs rule: rev_induct)
  case (snoc r rs)
  then have "newest (recs @ rs) \<le> v" by (intro newest_append_list [where P = extent_ok]) auto
  with snoc history_ok_append [of "recs @ rs" r] show ?case by simp
qed simp

lemma writev_records_fields:
  assumes "r \<in> set (writev_records rjunk (int v) pblk vs)" and "v < 2 ^ 32" "pblk + length vs < 2 ^ 63"
    and "\<forall>x\<in>set vs. logical_offset x < 2 ^ 43"
  shows "version_num r = v \<and> extent_ok r \<and> pblk \<le> physical_start_blk r"
proof -
  obtain i where i: "i < length vs" and r: "r = make_record (int v) (logical_offset (vs ! i) div PAGE_SIZE) (pblk + i) 1 rjunk"
    using assms(1) by (auto simp: writev_records_def)
  have b: "logical_offset (vs ! i) div PAGE_SIZE + 1 < 2 ^ 32" "pblk + i < 2 ^ 64"
    using assms(3,4) i offset_block_bound [of "logical_offset (vs ! i)"] by auto
  show ?thesis
    using make_record_fields [OF assms(2) b, of rjunk] b assms(3) i unfolding r extent_ok_def
    by (simp del: One_nat_def)
qed

lemma writev_records_covers:
  assumes "x \<in> set vs" and "v < 2 ^ 32" "pblk + length vs < 2 ^ 63" and "\<forall>x\<in>set vs. logical_offset x < 2 ^ 43"
  shows "\<exists>r\<in>set (writev_records rjunk (int v) pblk vs). covers r (logical_offset x div PAGE_SIZE)"
proof -
  obtain i where i: "i < length vs" "x = vs ! i" using assms(1) by (auto simp: in_set_conv_nth)
  have b: "logical_offset (vs ! i) div PAGE_SIZE + 1 < 2 ^ 32" "pblk + i < 2 ^ 64"
    using assms(3,4) i offset_block_bound [of "logical_offset (vs ! i)"] by auto
  let ?r = "make_record (int v) (logical_offset (vs ! i) div PAGE_SIZE) (pblk + i) 1 rjunk"
  have "covers ?r (logical_offset x div PAGE_SIZE)"
    using make_record_fields [OF assms(2) b, of rjunk] i by (simp add: covers_def del: One_nat_def)
  with i show ?thesis unfolding writev_records_def by (intro bexI [of _ ?r]) simp_all
qed

lemma writev_records_other:
  assumes "v < 2 ^ 32" "pblk + length vs < 2 ^ 63" and "\<forall>x\<in>set vs. logical_offset x < 2 ^ 43"
    and "\<forall>x\<in>set vs. logical_offset x div PAGE_SIZE \<noteq> blk"
  shows "\<forall>r\<in>set (writev_records rjunk (int v) pblk vs). \<not> covers r blk"
proof
  fix r assume "r \<in> set (writev_records rjunk (int v) pblk vs)"
  then obtain i where i: "i < length vs" and r: "r = make_record (int v) (logical_offset (vs ! i) div PAGE_SIZE) (pblk + i) 1 rjunk"
    by (auto simp: writev_records_def)
  have b: "logical_offset (vs ! i) div PAGE_SIZE + 1 < 2 ^ 32" "pblk + i < 2 ^ 64"
    using assms(2,3) i offset_block_bound [of "logical_offset (vs ! i)"] by auto
  have "logical_offset (vs ! i) div PAGE_SIZE \<noteq> blk" using assms(4) i by simp
  then show "\<not> covers r blk" using make_record_fields [OF assms(1) b, of rjunk] by (simp add: r covers_def del: One_nat_def)
qed

lemma writev_effect:
  assumes ok: "inode_ok e s" and ro: "is_see_thru_ro s" and n: "length vecs = count" "0 < count" "count \<le> 1024"
    and ver: "version s + 1 \<le> int MAX_VERSIONS"
    and p1: "writev_phase1 e junk (data s) (page_align (i_size (data s))) vecs = Ret (r, d)" "0 \<le> r"
    and dm: "i_size d mod PAGE_SIZE = 0" and bb: "i_size d div PAGE_SIZE + length vecs < 2 ^ 63"
    and sz: "\<forall>x\<in>set vecs. logical_offset x < 2 ^ 43"
  shows "\<exists>s'. scorw_ioctl_see_thru_writev e junk rjunk (Some s) count (Some vecs) = Ret (int count, Some s') \<and>
    version s' = version s + 1 \<and> inode_ok e s' \<and> orig_size s' = orig_size s \<and> data s' = d \<and> t_locks s' = t_locks s \<and>
    inode_hist s' = inode_hist s @ writev_records rjunk (version s + 1) (i_size d div PAGE_SIZE) vecs"
proof -
  obtain l where l: "i_log_vfs_inode s = Some l" "vs_ok e (vcache s, l)" "0 \<le> version s"
    "int (newest (log_records l)) \<le> version s + 1" "inode_hist s = log_records l"
    using ok by (rule inode_okE)
  from l(2) have e: "kzalloc_ok e" "pages_env_ok e" and inv: "cache_inv (vcache s) (log_records l)" "log_ok l"
    "history_ok (log_records l)" by (simp_all add: vs_ok_def)
  define v where "v = nat (version s + 1)"
  have v: "int v = version s + 1" "1 \<le> v" "v \<le> MAX_VERSIONS" "v < 2 ^ 32" using l(3) ver by (simp_all add: v_def)
  have s32: "s32 (version s + 1) = int v" using l(3) ver v(1) s32_id [of "version s + 1"] by simp
  obtain vc1 l1 sv where g: "scorw_get_or_create_version e (Some l) (vcache s) (int v) = Some (Some (v - 1), vc1, Some l1)"
    "same_view l l1" "cache_inv vc1 (log_records l)" "version_states vc1 (v - 1) = Some sv"
    using get_or_create_ok [OF inv(1,2) e(1) v(2,3)] by blast
  have l1: "log_ok l1" "log_records l1 = log_records l" using g(2) inv by (simp_all add: same_view_log)
  let ?rs = "writev_records rjunk (int v) (i_size d div PAGE_SIZE) vecs"
  have c1: "cache_inv vc1 (log_records l1)" and st: "version_states vc1 (v - 1) \<noteq> None"
    and b0: "i_size d div PAGE_SIZE + 0 + length vecs < 2 ^ 63" using g l1 bb by simp_all
  obtain vc2 l2 where p2: "writev_phase2 e rjunk (int v) (v - 1) (i_size d) 0 vecs (vc1, Some l1) = Some (vc2, Some l2)"
    "cache_inv vc2 (log_records l2)" "log_ok l2" "log_records l2 = log_records l @ ?rs"
    using writev_phase2_ok [OF c1 l1(1) e(2) v(2,3) st dm b0 sz, of rjunk] l1 by auto
  define s' where "s' = s\<lparr>data := d, vcache := vc2, i_log_vfs_inode := Some l2, version := int v\<rparr>"
  have run: "scorw_ioctl_see_thru_writev e junk rjunk (Some s) count (Some vecs) = Ret (int count, Some s')"
    using ro n e(1) p1 l(1) g(1) p2(1) page_align_id [OF dm]
    by (simp add: scorw_ioctl_see_thru_writev_def Let_def s32 s'_def del: One_nat_def)
  note rs = writev_records_fields [OF _ v(4) bb sz, of _ rjunk]
  have new: "newest (log_records l) \<le> v" using l(4) v(1) by simp
  have rv: "\<forall>r\<in>set ?rs. extent_ok r \<and> version_num r = v" using rs by blast
  from history_ok_append_list [OF inv(3) this new] have "history_ok (log_records l @ ?rs)" .
  moreover have "newest (log_records l @ ?rs) \<le> v" using newest_append_list [OF rv new] .
  ultimately have "inode_ok e s'"
    using p2 e by (simp add: inode_ok_def s'_def inode_hist_def vs_ok_def)
  with run v(1) l(5) p2(4) show ?thesis by (intro exI [of _ s']) (simp add: s'_def inode_hist_def)
qed

text \<open>Where phase 1 leaves the end of the file, and room for the block numbers after it.\<close>

lemma writev_end:
  assumes "writev_phase1 e junk (data s) (page_align (i_size (data s))) vecs = Ret (r, d)" and "0 \<le> r"
    and "length vecs = count" "0 < count" "count \<le> 1024" and "i_size (data s) < 2 ^ 62"
  shows "i_size d mod PAGE_SIZE = 0" and "i_size d div PAGE_SIZE + length vecs < 2 ^ 63"
proof -
  let ?app = "page_align (i_size (data s))"
  have "vecs \<noteq> []" using assms(3,4) by auto
  then have d: "i_size d = ?app + count * PAGE_SIZE"
    using writev_phase1_size [OF assms(1,2) page_align_mod page_align_ge] assms(3) by simp
  then show "i_size d mod PAGE_SIZE = 0" using page_align_mod [of "i_size (data s)"] by simp
  have "i_size d div PAGE_SIZE = ?app div PAGE_SIZE + count" unfolding d by simp
  then show "i_size d div PAGE_SIZE + length vecs < 2 ^ 63" using assms(3,5) page_align_blocks [OF assms(6)] by simp
qed

text \<open>The records of the newest version are found before those of older ones.\<close>

lemma resolve_newest:
  assumes "sorted (map version_num recs)" and "\<forall>r\<in>set recs. version_num r \<le> v" and "1 \<le> v"
    and "\<exists>r\<in>set recs. version_num r = v \<and> covers r blk"
  shows "\<exists>r\<in>set recs. version_num r = v \<and> covers r blk \<and> resolve recs v orig blk = target r blk"
  using assms
proof (induction recs rule: rev_induct)
  case (snoc x recs)
  show ?case
  proof (cases "covers x blk")
    case True
    have "\<forall>r\<in>set recs. version_num r \<le> version_num x" using snoc.prems(1) by (auto simp: sorted_append)
    with snoc.prems have "version_num x = v" by force
    with True snoc.prems(3) show ?thesis by (intro bexI [of _ x]) (simp_all add: resolve_append)
  next
    case False
    with snoc.prems have "\<exists>r\<in>set recs. version_num r = v \<and> covers r blk" by auto
    with snoc obtain r where "r \<in> set recs" "version_num r = v" "covers r blk" "resolve recs v orig blk = target r blk"
      by (auto simp: sorted_append)
    with False show ?thesis by (intro bexI [of _ r]) (simp_all add: resolve_append)
  qed
qed simp

lemma inode_hist_sorted: "inode_ok e s \<Longrightarrow> sorted (map version_num (inode_hist s))"
  by (erule inode_okE) (simp add: vs_ok_def history_ok_def)

lemma inode_hist_newest:
  assumes "inode_ok e s" and "q \<in> set (inode_hist s)"
  shows "int (version_num q) \<le> version s + 1"
proof -
  obtain xs x where x: "inode_hist s = xs @ [x]" using assms(2) by (cases "inode_hist s" rule: rev_cases) auto
  then have "version_num q \<le> version_num x" using assms(2) inode_hist_sorted [OF assms(1)] by (auto simp: sorted_append)
  moreover have "int (version_num x) \<le> version s + 1" using assms(1) x by (simp add: inode_ok_def newest_def)
  ultimately show ?thesis by simp
qed

lemma resolve_append_other:
  "\<forall>r\<in>set rs. \<not> covers r blk \<Longrightarrow> resolve (recs @ rs) n orig blk = resolve recs n orig blk"
  by (induction rs rule: rev_induct) (simp_all add: resolve_append append_assoc [symmetric] del: append_assoc)

text \<open>C36: a vectored write loses its data. When all vectors have been written to
  fresh blocks, the end of the file is computed again, past those blocks: the
  next version finds the block of each vector at or after the end of the
  file.\<close>

theorem writev_records_past_end:
  assumes ok: "inode_ok e s" and ro: "is_see_thru_ro s" and n: "length vecs = count" "0 < count" "count \<le> 1024"
    and ver: "version s + 1 \<le> int MAX_VERSIONS"
    and p1: "writev_phase1 e junk (data s) (page_align (i_size (data s))) vecs = Ret (r, d)" "0 \<le> r"
    and sz: "i_size (data s) < 2 ^ 62" "\<forall>x\<in>set vecs. logical_offset x < 2 ^ 43"
  shows "\<exists>s'. scorw_ioctl_see_thru_writev e junk rjunk (Some s) count (Some vecs) = Ret (int count, Some s') \<and>
    version s' = version s + 1 \<and>
    (\<forall>x\<in>set vecs. \<exists>p. reader_block e s' (nat (version s')) (logical_offset x div PAGE_SIZE) = Some p \<and>
       i_size (data s') \<le> p * PAGE_SIZE)"
proof -
  let ?b = "i_size d div PAGE_SIZE"
  define v where "v = nat (version s + 1)"
  have v: "int v = version s + 1" "1 \<le> v" "v < 2 ^ 32" "v \<le> MAX_VERSIONS"
    using ok ver by (auto simp: inode_ok_def v_def)
  note dm = writev_end(1) [OF p1 n sz(1)] and bb = writev_end(2) [OF p1 n sz(1)]
  let ?rs = "writev_records rjunk (version s + 1) ?b vecs"
  obtain s' where run: "scorw_ioctl_see_thru_writev e junk rjunk (Some s) count (Some vecs) = Ret (int count, Some s')"
    and s': "version s' = version s + 1" "inode_ok e s'" "orig_size s' = orig_size s" "data s' = d"
      "inode_hist s' = inode_hist s @ ?rs"
    using writev_effect [OF ok ro n ver p1 dm bb sz(2), of rjunk] by blast
  have "\<exists>p. reader_block e s' (nat (version s')) (logical_offset x div PAGE_SIZE) = Some p \<and>
      i_size (data s') \<le> p * PAGE_SIZE" if x: "x \<in> set vecs" for x
  proof -
    note rs = writev_records_fields [OF _ v(3) bb sz(2), of _ rjunk, unfolded v(1)]
    from writev_records_covers [OF x v(3) bb sz(2), of rjunk] rs v
    have "\<exists>r\<in>set ?rs. 1 \<le> version_num r \<and> version_num r \<le> v \<and> covers r (logical_offset x div PAGE_SIZE)" by auto
    from resolve_appended [OF this] obtain r where r: "r \<in> set ?rs"
      "resolve (inode_hist s @ ?rs) v (orig_size s) (logical_offset x div PAGE_SIZE) =
        target r (logical_offset x div PAGE_SIZE)" by blast
    have "i_size d = ?b * PAGE_SIZE" using div_mult_mod_eq [of "i_size d" PAGE_SIZE] dm by linarith
    also have "\<dots> \<le> target r (logical_offset x div PAGE_SIZE) * PAGE_SIZE"
      using rs [OF r(1)] by (intro mult_le_mono1) (simp add: target_def)
    finally show ?thesis
      using r(2) s' v by (simp add: reader_block_resolve v_def)
  qed
  with run s' show ?thesis by blast
qed

theorem writev_records_past_end_witness:
  "\<exists>s' p. scorw_ioctl_see_thru_writev good_env zero_page 0 (Some sample_inode) 1
      (Some [\<lparr>logical_offset = 100, vlen = 3, vbuf = Some [1, 2, 3]\<rparr>]) = Ret (1, Some s') \<and>
    version s' = 3 \<and> reader_block good_env s' 3 0 = Some p \<and> i_size (data s') \<le> p * PAGE_SIZE"
proof -
  let ?vs = "[\<lparr>logical_offset = 100, vlen = 3, vbuf = Some [1, 2, 3]\<rparr>]"
  have p: "page_align 12288 = 12288" by (simp add: page_align_def)
  obtain r d where p1: "writev_phase1 good_env zero_page (data sample_inode)
      (page_align (i_size (data sample_inode))) ?vs = Ret (r, d)" "0 \<le> r"
    by (simp add: sample_data_def p copy_one_page pgoff_def read_mapping_page_def write_begin_def
        scorw_write_kernel_data_def write_end_def put_dirty_def empty_file_def)
  have "length ?vs = 1" "0 < (1::nat)" "(1::nat) \<le> 1024" "version sample_inode + 1 \<le> int MAX_VERSIONS"
    "i_size (data sample_inode) < 2 ^ 62" "\<forall>x\<in>set ?vs. logical_offset x < 2 ^ 43"
    by (simp_all add: sample_data_def)
  from writev_records_past_end [OF sample_inode_ok _ this(1-4) p1 this(5,6), of 0]
  show ?thesis by auto
qed

text \<open>C37: a vectored write does not look at the transaction lock. While an open file holds the
  lock for its transaction, whose writes are recorded under the next version, a vectored write
  returns success, moves the parent to that version and leaves the lock as it is: a block of the
  transaction that no vector touches is then found where the transaction has put it, by the
  readers of the version that the parent is at, although the transaction has not been
  committed.\<close>

theorem writev_exposes_transaction:
  assumes ok: "inode_ok e s" and ro: "is_see_thru_ro s" and n: "length vecs = count" "0 < count" "count \<le> 1024"
    and ver: "version s + 1 \<le> int MAX_VERSIONS"
    and p1: "writev_phase1 e junk (data s) (page_align (i_size (data s))) vecs = Ret (r, d)" "0 \<le> r"
    and sz: "i_size (data s) < 2 ^ 62" "\<forall>x\<in>set vecs. logical_offset x < 2 ^ 43"
    and txn: "t_locks s = \<lparr>locked = True, owner = Some f, transaction = SET_TRANSACTION\<rparr>"
      "\<exists>q\<in>set (inode_hist s). int (version_num q) = version s + 1 \<and> covers q blk"
    and other: "\<forall>x\<in>set vecs. logical_offset x div PAGE_SIZE \<noteq> blk"
  shows "\<exists>s'. scorw_ioctl_see_thru_writev e junk rjunk (Some s) count (Some vecs) = Ret (int count, Some s') \<and>
    version s' = version s + 1 \<and> t_locks s' = t_locks s \<and>
    (\<exists>q\<in>set (inode_hist s). int (version_num q) = version s + 1 \<and> covers q blk \<and>
       reader_block e s' (nat (version s')) blk = Some (target q blk))"
proof -
  define v where "v = nat (version s + 1)"
  have v: "int v = version s + 1" "1 \<le> v" "v < 2 ^ 32" "v \<le> MAX_VERSIONS"
    using ok ver by (auto simp: inode_ok_def v_def)
  note dm = writev_end(1) [OF p1 n sz(1)] and bb = writev_end(2) [OF p1 n sz(1)]
  let ?rs = "writev_records rjunk (version s + 1) (i_size d div PAGE_SIZE) vecs"
  obtain s' where run: "scorw_ioctl_see_thru_writev e junk rjunk (Some s) count (Some vecs) = Ret (int count, Some s')"
    and s': "version s' = version s + 1" "inode_ok e s'" "orig_size s' = orig_size s" "t_locks s' = t_locks s"
      "inode_hist s' = inode_hist s @ ?rs"
    using writev_effect [OF ok ro n ver p1 dm bb sz(2), of rjunk] by blast
  have h: "sorted (map version_num (inode_hist s))" "\<forall>q\<in>set (inode_hist s). version_num q \<le> v"
    using inode_hist_sorted [OF ok] inode_hist_newest [OF ok] by (auto simp: v(1) [symmetric])
  have "\<exists>q\<in>set (inode_hist s). version_num q = v \<and> covers q blk" using txn(2) by (simp add: v(1) [symmetric])
  from resolve_newest [OF h v(2) this] obtain q where
    q: "q \<in> set (inode_hist s)" "version_num q = v" "covers q blk" "resolve (inode_hist s) v (orig_size s) blk = target q blk"
    by blast
  have "\<forall>q\<in>set ?rs. \<not> covers q blk"
    using writev_records_other [OF v(3) bb sz(2) other, of rjunk] by (simp add: v(1))
  from resolve_append_other [OF this] q(4)
  have "reader_block e s' (nat (version s')) blk = Some (target q blk)"
    using s' v by (simp add: reader_block_resolve v_def)
  with run s' q v(1) show ?thesis by auto
qed

theorem writev_exposes_transaction_witness:
  "\<exists>s'. scorw_ioctl_see_thru_writev good_env zero_page 0 (Some (sample_inode\<lparr>version := 1,
      t_locks := \<lparr>locked = True, owner = Some 7, transaction = SET_TRANSACTION\<rparr>\<rparr>)) 1
      (Some [\<lparr>logical_offset = 8192, vlen = 3, vbuf = Some [1, 2, 3]\<rparr>]) = Ret (1, Some s') \<and>
    version s' = 2 \<and> owner (t_locks s') = Some 7 \<and> reader_block good_env s' 2 1 = Some 7"
proof -
  let ?s = "sample_inode\<lparr>version := 1, t_locks := \<lparr>locked = True, owner = Some 7, transaction = SET_TRANSACTION\<rparr>\<rparr>"
  let ?vs = "[\<lparr>logical_offset = 8192, vlen = 3, vbuf = Some [1, 2, 3]\<rparr>]"
  have p: "page_align 12288 = 12288" by (simp add: page_align_def)
  obtain r d where p1: "writev_phase1 good_env zero_page (data ?s) (page_align (i_size (data ?s))) ?vs = Ret (r, d)" "0 \<le> r"
    by (simp add: sample_data_def p copy_one_page pgoff_def read_mapping_page_def write_begin_def
        scorw_write_kernel_data_def write_end_def put_dirty_def empty_file_def)
  have ok: "inode_ok good_env ?s" and h: "inode_hist ?s = sample_records"
    using sample_inode_ok by (simp_all add: inode_ok_def inode_hist_def sample_log_records newest_def sample_records_def make_record_def)
  show ?thesis
    using writev_exposes_transaction [OF ok _ _ _ _ _ p1, of 1 7 1 0] h
    by (auto simp: sample_data_def sample_records_def make_record_def covers_def target_def)
qed

end
