(* ===== verification/Garbage_Collection.thy ===== *)
theory Garbage_Collection
  imports Version_Refinement "HOL-Library.Multiset"
begin

text \<open>
  Garbage collection of a versioned parent: \<open>scorw_gc_blocks\<close> of
  \<open>src/ext4-module/corw_sparse.c\<close> collects the versions that are still read,
  scans the log for blocks that no reader of such a version can reach, and
  punches them out of the parent. The mapping of the parent's blocks
  (\<open>ext4_map_blocks\<close> and the removal of extents) is the file system's; the
  model has the set of mapped blocks and, as a parameter, what
  \<open>ext4_map_blocks\<close> answers.
\<close>

section \<open>Active versions\<close>

text \<open>Append a child's version unless it is listed: the \<open>int\<close> entries are compared
  with an \<open>unsigned long\<close>.\<close>

definition gc_add_child :: "nat \<Rightarrow> int list \<Rightarrow> int list" where
  "gc_add_child v vers =
     (if \<exists>a\<in>set vers. a mod 2 ^ 64 = int v then vers
      else vers @ [(int v + 2 ^ 31) mod 2 ^ 32 - 2 ^ 31])"

definition gc_add_parent :: "int \<Rightarrow> int list \<Rightarrow> int list" where
  "gc_add_parent v vers = (if v \<in> set vers then vers else vers @ [v])"

text \<open>\<open>children\<close> lists, in slot order, the versions of the children of the parent
  that could be read.\<close>

definition gc_collect :: "nat list \<Rightarrow> int \<Rightarrow> int list" where
  "gc_collect children par_version = gc_add_parent par_version (fold gc_add_child children [0])"

text \<open>The exchange sort of the array of versions.\<close>

definition gc_exchange :: "nat \<Rightarrow> nat \<Rightarrow> int list \<Rightarrow> int list" where
  "gc_exchange i j vers = (if vers ! i > vers ! j then vers[i := vers ! j, j := vers ! i] else vers)"

definition gc_sort_inner :: "nat \<Rightarrow> int list \<Rightarrow> int list" where
  "gc_sort_inner i vers = fold (gc_exchange i) [i + 1..<length vers] vers"

definition gc_sort :: "int list \<Rightarrow> int list" where
  "gc_sort vers = fold gc_sort_inner [0..<length vers - 1] vers"

definition scorw_gc_find_next_active :: "int \<Rightarrow> int list \<Rightarrow> int" where
  "scorw_gc_find_next_active target_ver active_vers =
     (case find (\<lambda>a. a \<ge> target_ver) active_vers of Some a \<Rightarrow> a | None \<Rightarrow> -1)"

text \<open>\<open>scorw_gc_closest_active\<close> is the same function a second time.\<close>

definition scorw_gc_closest_active :: "int \<Rightarrow> int list \<Rightarrow> int" where
  "scorw_gc_closest_active target_ver active_vers =
     (case find (\<lambda>a. a \<ge> target_ver) active_vers of Some a \<Rightarrow> a | None \<Rightarrow> -1)"

section \<open>The scan of the log\<close>

record gc_block_state =
  gc_version :: nat
  physical_block :: nat

type_synonym gc_state = "(nat \<rightharpoonup> gc_block_state) \<times> nat set"

text \<open>One block of a record: is the block it replaces still read by someone?\<close>

definition gc_block :: "kenv \<Rightarrow> int list \<Rightarrow> scorw_log_record \<Rightarrow> nat \<Rightarrow> gc_state \<Rightarrow> gc_state" where
  "gc_block e active_vers r k st =
     (case st of (state_map, garbage_blocks) \<Rightarrow>
        let l = (logical_start_blk r + k) mod 2 ^ 32;
            p_new = (physical_start_blk r + k) mod 2 ^ 64;
            old_state = state_map l;
            v_prev = (case old_state of
                        Some s \<Rightarrow> (int (gc_version s) + 2 ^ 31) mod 2 ^ 32 - 2 ^ 31
                      | None \<Rightarrow> 0);
            p_prev = (case old_state of Some s \<Rightarrow> physical_block s | None \<Rightarrow> l);
            a_next = scorw_gc_find_next_active v_prev active_vers;
            garbage' = (if a_next = -1 \<or> int (version_num r) \<le> a_next mod 2 ^ 32
                        then insert p_prev garbage_blocks else garbage_blocks);
            map' = (if old_state = None \<and> \<not> kzalloc_ok e then state_map
                    else state_map(l \<mapsto> \<lparr>gc_version = version_num r, physical_block = p_new\<rparr>))
        in (map', garbage'))"

definition gc_record :: "kenv \<Rightarrow> int list \<Rightarrow> scorw_log_record \<Rightarrow> gc_state \<Rightarrow> gc_state" where
  "gc_record e active_vers r st =
     (if 0 < version_num r then fold (gc_block e active_vers r) [0..<len_blks r] st else st)"

section \<open>Punching holes\<close>

text \<open>
  \<open>scorw_punch_hole_range\<close> on the set of mapped blocks of the parent.
  \<open>map_blocks mapped cur len\<close> is what \<open>ext4_map_blocks\<close> answers: its return
  value, the length it sets and the \<open>EXT4_MAP_MAPPED\<close> flag; \<open>remove_ok\<close> says
  whether removing an extent succeeds. A mapped extent of length 0 would make
  the loop run forever (\<^const>\<open>None\<close>).
\<close>

type_synonym map_blocks = "nat set \<Rightarrow> nat \<Rightarrow> nat \<Rightarrow> int \<times> nat \<times> bool"

function punch_loop :: "map_blocks \<Rightarrow> (nat \<Rightarrow> bool) \<Rightarrow> nat set \<Rightarrow> nat \<Rightarrow> nat \<Rightarrow> nat set option" where
  "punch_loop map_blocks remove_ok mapped cur lend =
     (if cur < lend then
        case map_blocks mapped cur (lend - cur) of
          (ret, m_len, m_mapped) \<Rightarrow>
            if ret < 0 then Some mapped
            else if ret = 0 \<or> \<not> m_mapped then
              punch_loop map_blocks remove_ok mapped (cur + (if m_len \<noteq> 0 then m_len else 1)) lend
            else if \<not> remove_ok cur then Some mapped
            else if m_len = 0 then None
            else punch_loop map_blocks remove_ok (mapped - {cur..<cur + m_len}) (cur + m_len) lend
      else Some mapped)"
  by pat_completeness auto

termination
  by (relation "measure (\<lambda>(mb, rm, mapped, cur, lend). lend - cur)") (auto split: if_splits)

declare punch_loop.simps [simp del]

definition scorw_punch_hole_range ::
    "map_blocks \<Rightarrow> (nat \<Rightarrow> bool) \<Rightarrow> nat set \<Rightarrow> nat \<Rightarrow> nat \<Rightarrow> nat set option" where
  "scorw_punch_hole_range map_blocks remove_ok mapped start_lblk nblks =
     punch_loop map_blocks remove_ok mapped (start_lblk mod 2 ^ 32)
       ((start_lblk mod 2 ^ 32 + nblks) mod 2 ^ 32)"

section \<open>Garbage collection\<close>

definition scorw_gc_blocks ::
    "kenv \<Rightarrow> map_blocks \<Rightarrow> (nat \<Rightarrow> bool) \<Rightarrow> nat list \<Rightarrow> int \<Rightarrow> file option \<Rightarrow> nat set \<Rightarrow>
      (file option \<times> nat set) option" where
  "scorw_gc_blocks e map_blocks remove_ok children par_version log mapped =
     (case log of
        None \<Rightarrow> Some (None, mapped)
      | Some f \<Rightarrow>
          (let active_vers = gc_sort (gc_collect children par_version) in
           case scan_loop (gc_record e active_vers) (i_size f) f 0 (Map.empty, {}) of
             None \<Rightarrow> None
           | Some ((_, garbage_blocks), f') \<Rightarrow>
               map_option (\<lambda>m. (Some f', m))
                 (ofold (\<lambda>m p_idx. scorw_punch_hole_range map_blocks remove_ok m p_idx 1)
                    (sorted_list_of_set garbage_blocks) mapped)))"

section \<open>The sort\<close>

lemma gc_exchange_length [simp]: "length (gc_exchange i j xs) = length xs"
  by (simp add: gc_exchange_def)

lemma gc_exchange_mset:
  "i < length xs \<Longrightarrow> j < length xs \<Longrightarrow> mset (gc_exchange i j xs) = mset xs"
  by (simp add: gc_exchange_def mset_swap)

lemma gc_exchange_nth:
  assumes "i < j" "j < length xs" "k < length xs"
  shows "gc_exchange i j xs ! k = (if k = i then min (xs ! i) (xs ! j)
    else if k = j then max (xs ! i) (xs ! j) else xs ! k)"
  using assms by (auto simp: gc_exchange_def)

text \<open>After the inner loop, position \<open>i\<close> holds the least element of the rest.\<close>

lemma exchange_upto:
  assumes "i < length xs" "n \<le> length xs" "i < n"
  shows "let ys = fold (gc_exchange i) [i + 1..<n] xs in
    length ys = length xs \<and> mset ys = mset xs \<and> (\<forall>k<i. ys ! k = xs ! k) \<and>
    (\<forall>k. i \<le> k \<longrightarrow> k < n \<longrightarrow> ys ! i \<le> ys ! k) \<and> (\<forall>k. n \<le> k \<longrightarrow> k < length xs \<longrightarrow> ys ! k = xs ! k)"
  using assms
proof (induction n)
  case (Suc n)
  show ?case
  proof (cases "i < n")
    case False
    with Suc.prems have "i = n" by simp
    then show ?thesis by (auto simp: less_Suc_eq)
  next
    case True
    define ys where "ys = fold (gc_exchange i) [i + 1..<n] xs"
    have IH: "length ys = length xs" "mset ys = mset xs" "\<forall>k<i. ys ! k = xs ! k"
      "\<forall>k. i \<le> k \<longrightarrow> k < n \<longrightarrow> ys ! i \<le> ys ! k" "\<forall>k. n \<le> k \<longrightarrow> k < length xs \<longrightarrow> ys ! k = xs ! k"
      using Suc.IH [OF Suc.prems(1)] True Suc.prems by (simp_all add: Let_def ys_def)
    have eq: "fold (gc_exchange i) [i + 1..<Suc n] xs = gc_exchange i n ys" using True by (simp add: ys_def)
    have n: "n < length ys" using IH(1) Suc.prems by simp
    note nth = gc_exchange_nth [OF True n]
    have "\<forall>k. i \<le> k \<longrightarrow> k < Suc n \<longrightarrow> gc_exchange i n ys ! i \<le> gc_exchange i n ys ! k"
    proof (intro allI impI)
      fix k assume k: "i \<le> k" "k < Suc n"
      then have "k < length ys" "i < length ys" using n by simp_all
      with k IH(4) True show "gc_exchange i n ys ! i \<le> gc_exchange i n ys ! k"
        by (auto simp: nth less_Suc_eq)
    qed
    moreover have "\<forall>k<i. gc_exchange i n ys ! k = xs ! k" "\<forall>k. Suc n \<le> k \<longrightarrow> k < length xs \<longrightarrow> gc_exchange i n ys ! k = xs ! k"
      using IH n True by (auto simp: nth)
    ultimately show ?thesis
      unfolding eq Let_def using IH(1,2) n True by (simp add: gc_exchange_mset)
  qed
qed simp

lemma gc_sort_inner_spec:
  assumes "i < length xs"
  shows "length (gc_sort_inner i xs) = length xs" "mset (gc_sort_inner i xs) = mset xs"
    "k < i \<Longrightarrow> gc_sort_inner i xs ! k = xs ! k"
    "i \<le> k \<Longrightarrow> k < length xs \<Longrightarrow> gc_sort_inner i xs ! i \<le> gc_sort_inner i xs ! k"
  using exchange_upto [OF assms, of "length xs"] assms by (auto simp: gc_sort_inner_def Let_def)

text \<open>After \<open>m\<close> rounds the first \<open>m\<close> elements are in order and below the rest.\<close>

lemma sort_upto:
  assumes "m < length xs"
  shows "let ys = fold gc_sort_inner [0..<m] xs in
    length ys = length xs \<and> mset ys = mset xs \<and> (\<forall>i<m. \<forall>k. i \<le> k \<longrightarrow> k < length xs \<longrightarrow> ys ! i \<le> ys ! k)"
  using assms
proof (induction m)
  case (Suc m)
  let ?ys = "fold gc_sort_inner [0..<m] xs" and ?zs = "gc_sort_inner m (fold gc_sort_inner [0..<m] xs)"
  have IH: "length ?ys = length xs" "mset ?ys = mset xs"
    "\<forall>i<m. \<forall>k. i \<le> k \<longrightarrow> k < length xs \<longrightarrow> ?ys ! i \<le> ?ys ! k"
    using Suc by (simp_all add: Let_def)
  have m: "m < length ?ys" using IH(1) Suc.prems by simp
  note sp = gc_sort_inner_spec [OF m]
  have "?zs ! i \<le> ?zs ! k" if "i < Suc m" "i \<le> k" "k < length xs" for i k
  proof (cases "i = m")
    case True
    with sp(4) that IH(1) show ?thesis by simp
  next
    case False
    with that have i: "i < m" by simp
    have "?zs ! k \<in> set ?zs" using that IH(1) sp(1) by simp
    show ?thesis
    proof (cases "k < m")
      case True
      with i sp(3) IH(3) that show ?thesis by simp
    next
      case False
      have "\<forall>x\<in>set (drop m ?ys). ?ys ! i \<le> x"
        using IH(1,3) i by (auto simp: in_set_conv_nth)
      moreover have "mset (drop m ?zs) = mset (drop m ?ys)"
      proof -
        have "take m ?zs = take m ?ys" using sp(1,3) by (intro nth_take_lemma) (use m in auto)
        then show ?thesis using sp(2)
          by (metis append_take_drop_id mset_append add_left_cancel)
      qed
      then have "set (drop m ?zs) = set (drop m ?ys)" by (metis set_mset_mset)
      moreover have "?zs ! k \<in> set (drop m ?zs)"
        using False that sp(1) IH(1) by (auto simp: in_set_conv_nth intro!: exI [of _ "k - m"])
      ultimately show ?thesis using sp(3) [OF i] by auto
    qed
  qed
  then show ?case using IH sp(1,2) by (simp add: Let_def)
qed simp

lemma gc_sort_mset: "mset (gc_sort xs) = mset xs"
  and gc_sort_sorted: "sorted (gc_sort xs)"
proof -
  have "mset (gc_sort xs) = mset xs \<and> sorted (gc_sort xs)"
  proof (cases "xs = []")
    case False
    then have m: "length xs - 1 < length xs" by simp
    from sort_upto [OF m] have g: "length (gc_sort xs) = length xs" "mset (gc_sort xs) = mset xs"
      "\<forall>i<length xs - 1. \<forall>k. i \<le> k \<longrightarrow> k < length xs \<longrightarrow> gc_sort xs ! i \<le> gc_sort xs ! k"
      by (simp_all add: gc_sort_def Let_def)
    then show ?thesis by (auto simp: sorted_iff_nth_mono_less)
  qed (simp add: gc_sort_def)
  then show "mset (gc_sort xs) = mset xs" "sorted (gc_sort xs)" by simp_all
qed

lemma gc_sort_set [simp]: "set (gc_sort xs) = set xs"
  by (metis gc_sort_mset set_mset_mset)

section \<open>Block writes\<close>

text \<open>The log as a sequence of block writes: logical block, version, physical
  block.\<close>

definition block_writes :: "scorw_log_record \<Rightarrow> (nat \<times> nat \<times> nat) list" where
  "block_writes r =
     (if 0 < version_num r
      then map (\<lambda>k. (logical_start_blk r + k, version_num r, physical_start_blk r + k)) [0..<len_blks r]
      else [])"

definition log_writes :: "scorw_log_record list \<Rightarrow> (nat \<times> nat \<times> nat) list" where
  "log_writes recs = concat (map block_writes recs)"

definition last_write :: "(nat \<times> nat \<times> nat) list \<Rightarrow> nat \<Rightarrow> nat \<Rightarrow> (nat \<times> nat \<times> nat) option" where
  "last_write ws n blk = find (\<lambda>(l, v, p). l = blk \<and> v \<le> n) (rev ws)"

lemma last_write_append:
  "last_write (ws @ ws') n blk = (case last_write ws' n blk of Some w \<Rightarrow> Some w | None \<Rightarrow> last_write ws n blk)"
  unfolding last_write_def rev_append find_append by (rule refl)

lemma last_writeD: "last_write ws n blk = Some (l, v, p) \<Longrightarrow> (l, v, p) \<in> set ws \<and> l = blk \<and> v \<le> n"
  unfolding last_write_def by (drule find_SomeD) auto

lemma last_write_block:
  "last_write (block_writes r) n blk =
    (if 1 \<le> version_num r \<and> version_num r \<le> n \<and> covers r blk then Some (blk, version_num r, target r blk) else None)"
proof -
  let ?w = "\<lambda>k. (logical_start_blk r + k, version_num r, physical_start_blk r + k)"
  let ?P = "\<lambda>(l, v, p). l = blk \<and> v \<le> n"
  have "find ?P (rev (map ?w [0..<m])) =
      (if version_num r \<le> n \<and> logical_start_blk r \<le> blk \<and> blk < logical_start_blk r + m
       then Some (blk, version_num r, target r blk) else None)" for m
    by (induction m) (auto simp: target_def)
  then show ?thesis by (auto simp: last_write_def block_writes_def covers_def)
qed

lemma resolve_last_write:
  "resolve recs n orig blk =
    (case last_write (log_writes recs) n blk of
       Some (l, v, p) \<Rightarrow> p
     | None \<Rightarrow> if blk < orig div PAGE_SIZE then blk else BLK_NOT_FOUND)"
proof (induction recs rule: rev_induct)
  case Nil
  then show ?case by (simp add: resolve_def log_writes_def last_write_def)
next
  case (snoc r recs)
  have "log_writes (recs @ [r]) = log_writes recs @ block_writes r" by (simp add: log_writes_def)
  with snoc show ?case by (simp add: resolve_append last_write_append last_write_block)
qed

section \<open>What the scan marks\<close>

text \<open>A physical block is superseded when a later write to the same logical block
  follows and no active version lies between the two.\<close>

definition superseded :: "int set \<Rightarrow> (nat \<times> nat \<times> nat) list \<Rightarrow> nat \<Rightarrow> bool" where
  "superseded act ws p \<longleftrightarrow> (\<exists>xs ys zs l v v' q. ws = xs @ (l, v, p) # ys @ (l, v', q) # zs \<and>
     (\<forall>a\<in>act. \<not> (int v \<le> a \<and> a < int v')))"

definition gc_inv :: "int set \<Rightarrow> (nat \<times> nat \<times> nat) list \<Rightarrow> gc_state \<Rightarrow> bool" where
  "gc_inv act ws st \<longleftrightarrow>
     (\<forall>l s. fst st l = Some s \<longrightarrow> (l, gc_version s, physical_block s) \<in> set ws) \<and>
     (\<forall>p\<in>snd st. superseded act ws p)"

lemma superseded_append: "superseded act ws p \<Longrightarrow> superseded act (ws @ ws') p"
  unfolding superseded_def by (metis append_assoc append_Cons)

lemma find_next_active_spec:
  assumes "sorted act"
  shows "scorw_gc_find_next_active t act = -1 \<and> (\<forall>a\<in>set act. a < t) \<or>
    scorw_gc_find_next_active t act \<in> set act \<and> t \<le> scorw_gc_find_next_active t act \<and>
    (\<forall>a\<in>set act. t \<le> a \<longrightarrow> scorw_gc_find_next_active t act \<le> a)"
  using assms
proof (induction act)
  case (Cons x act)
  have "scorw_gc_find_next_active t (x # act) = (if t \<le> x then x else scorw_gc_find_next_active t act)"
    by (simp add: scorw_gc_find_next_active_def)
  with Cons show ?case by auto
qed (simp add: scorw_gc_find_next_active_def)

lemma gc_block_inv:
  assumes inv: "gc_inv (set act) ws st"
    and act: "sorted act" "0 \<in> set act" "\<forall>a\<in>set act. a < 2 ^ 31"
    and r: "extent_ok r" "0 < version_num r" "version_num r < 2 ^ 31" and k: "k < len_blks r"
    and ws: "\<forall>(l, v, p)\<in>set ws. v < 2 ^ 31"
  shows "gc_inv (set act) (ws @ [(logical_start_blk r + k, version_num r, physical_start_blk r + k)])
    (gc_block e act r k st)"
proof -
  obtain m g where st: "st = (m, g)" by fastforce
  let ?l = "logical_start_blk r + k" and ?w = "(logical_start_blk r + k, version_num r, physical_start_blk r + k)"
  have l: "(logical_start_blk r + k) mod 2 ^ 32 = ?l" "(physical_start_blk r + k) mod 2 ^ 64 = physical_start_blk r + k"
    using r k by (simp_all add: extent_ok_def)
  let ?vp = "case m ?l of Some s \<Rightarrow> (int (gc_version s) + 2 ^ 31) mod 2 ^ 32 - 2 ^ 31 | None \<Rightarrow> 0"
  let ?pp = "case m ?l of Some s \<Rightarrow> physical_block s | None \<Rightarrow> ?l"
  let ?an = "scorw_gc_find_next_active ?vp act"
  have new: "superseded (set act) (ws @ [?w]) ?pp" if g: "?an = -1 \<or> int (version_num r) \<le> ?an mod 2 ^ 32"
  proof (cases "m ?l")
    case None
    then have vp: "?vp = 0" by simp
    have "?an = 0" unfolding vp using find_next_active_spec [OF act(1), of 0] act(2) by auto
    with g r show ?thesis by simp
  next
    case (Some s)
    then have s: "(?l, gc_version s, physical_block s) \<in> set ws" using inv st by (simp add: gc_inv_def)
    then have v: "?vp = int (gc_version s)" using ws Some by auto
    have "\<not> (int (gc_version s) \<le> a \<and> a < int (version_num r))" if a: "a \<in> set act" for a
    proof
      assume b: "int (gc_version s) \<le> a \<and> a < int (version_num r)"
      then have "?an \<in> set act" "0 \<le> ?an" "?an \<le> a"
        using find_next_active_spec [OF act(1), of ?vp] a v by auto
      then have "?an mod 2 ^ 32 = ?an" using act(3) by (intro mod_pos_pos_trivial) auto
      with g b \<open>?an \<le> a\<close> \<open>0 \<le> ?an\<close> show False by simp
    qed
    moreover obtain xs ys where "ws = xs @ (?l, gc_version s, physical_block s) # ys"
      using split_list [OF s] by blast
    then have "ws @ [?w] = xs @ (?l, gc_version s, physical_block s) # ys @ ?w # []" by simp
    moreover have pp: "?pp = physical_block s" using Some by simp
    ultimately show ?thesis unfolding pp superseded_def by blast
  qed
  have eq: "gc_block e act r k st =
      (if m ?l = None \<and> \<not> kzalloc_ok e then m
       else m(?l \<mapsto> \<lparr>gc_version = version_num r, physical_block = physical_start_blk r + k\<rparr>),
       if ?an = -1 \<or> int (version_num r) \<le> ?an mod 2 ^ 32 then insert ?pp g else g)"
    unfolding gc_block_def st prod.case Let_def l by (rule refl)
  have "\<forall>p\<in>g. superseded (set act) (ws @ [?w]) p"
    using inv superseded_append unfolding st gc_inv_def by auto
  with new have "\<forall>p\<in>snd (gc_block e act r k st). superseded (set act) (ws @ [?w]) p"
    unfolding eq snd_conv by (simp split: if_split)
  moreover have "\<forall>l' s. m l' = Some s \<longrightarrow> (l', gc_version s, physical_block s) \<in> set ws"
    using inv unfolding st gc_inv_def by simp
  then have "\<forall>l' s. fst (gc_block e act r k st) l' = Some s \<longrightarrow>
      (l', gc_version s, physical_block s) \<in> set (ws @ [?w])"
    unfolding eq fst_conv by auto
  ultimately show ?thesis by (simp add: gc_inv_def)
qed

lemma gc_record_inv:
  assumes inv: "gc_inv (set act) ws st"
    and act: "sorted act" "0 \<in> set act" "\<forall>a\<in>set act. a < 2 ^ 31"
    and r: "extent_ok r" "version_num r < 2 ^ 31" and ws: "\<forall>(l, v, p)\<in>set ws. v < 2 ^ 31"
  shows "gc_inv (set act) (ws @ block_writes r) (gc_record e act r st)"
proof (cases "0 < version_num r")
  case True
  let ?w = "\<lambda>k. (logical_start_blk r + k, version_num r, physical_start_blk r + k)"
  have "gc_inv (set act) (ws @ map ?w [0..<m]) (fold (gc_block e act r) [0..<m] st)" if "m \<le> len_blks r" for m
    using that
  proof (induction m)
    case (Suc m)
    have "\<forall>(l, v, p)\<in>set (ws @ map ?w [0..<m]). v < 2 ^ 31" using ws r by auto
    with Suc gc_block_inv [OF _ act r(1) True r(2), of "ws @ map ?w [0..<m]" _ m e] show ?case by simp
  qed (simp add: inv)
  from this [OF order_refl] True show ?thesis by (simp add: gc_record_def block_writes_def)
qed (use inv in \<open>simp add: gc_record_def block_writes_def\<close>)

lemma gc_scan_inv:
  assumes act: "sorted act" "0 \<in> set act" "\<forall>a\<in>set act. a < 2 ^ 31"
    and recs: "\<forall>r\<in>set recs. extent_ok r \<and> version_num r < 2 ^ 31"
  shows "gc_inv (set act) (log_writes recs) (fold (gc_record e act) recs (Map.empty, {}))"
  using recs
proof (induction recs rule: rev_induct)
  case Nil
  then show ?case by (simp add: gc_inv_def log_writes_def)
next
  case (snoc r recs)
  have "\<forall>(l, v, p)\<in>set (log_writes recs). v < 2 ^ 31"
    using snoc.prems by (auto simp: log_writes_def block_writes_def split: if_splits)
  with snoc gc_record_inv [OF _ act, of "log_writes recs" _ r e] show ?case
    by (simp add: log_writes_def)
qed

text \<open>A block that a reader of an active version finds is not superseded.\<close>

lemma superseded_not_found:
  assumes "superseded act ws p" and "int a \<in> act" and "distinct (map (\<lambda>w. snd (snd w)) ws)"
    and "last_write ws a blk = Some (l, v, p)"
  shows False
proof -
  obtain xs ys zs l1 v1 v2 q where ws: "ws = xs @ (l1, v1, p) # ys @ (l1, v2, q) # zs"
    and na: "\<not> (v1 \<le> a \<and> a < v2)" using assms(1,2) unfolding superseded_def by force
  have lw: "(l, v, p) \<in> set ws" "l = blk" "v \<le> a"
    using last_writeD [OF assms(4)] by blast+
  have "(l1, v1, p) \<in> set ws" using ws by simp
  moreover have "inj_on (\<lambda>w. snd (snd w)) (set ws)" using assms(3) by (simp add: distinct_map)
  ultimately have "l1 = l" "v1 = v"
    using inj_onD [of "\<lambda>w. snd (snd w)" "set ws" "(l, v, p)" "(l1, v1, p)"] lw(1) by simp_all
  with na lw have "v2 \<le> a" by simp
  moreover have "last_write ws a blk = (case last_write ((l1, v2, q) # zs) a blk of Some w \<Rightarrow> Some w
      | None \<Rightarrow> last_write (xs @ (l1, v1, p) # ys) a blk)"
    using last_write_append [of "xs @ (l1, v1, p) # ys" "(l1, v2, q) # zs" a blk] ws by simp
  moreover have "last_write ((l1, v2, q) # zs) a blk \<noteq> None"
    using \<open>l1 = l\<close> lw(2) \<open>v2 \<le> a\<close> by (auto simp: last_write_def find_None_iff)
  ultimately obtain w where "last_write ((l1, v2, q) # zs) a blk = Some w" "w = (l, v, p)" using assms(4) by auto
  then have "(l, v, p) \<in> set ((l1, v2, q) # zs)" using last_writeD by blast
  then have "p \<in> (\<lambda>w. snd (snd w)) ` set (ys @ (l1, v2, q) # zs)" by force
  with assms(3) ws show False by auto
qed

section \<open>Collecting the versions\<close>

lemma gc_add_child_set:
  assumes "\<forall>a\<in>set vers. 0 \<le> a \<and> a < 2 ^ 31" and "v < 2 ^ 31"
  shows "set (gc_add_child v vers) = insert (int v) (set vers)"
proof -
  have "a mod 2 ^ 64 = a" if "a \<in> set vers" for a
    using assms(1) that by (intro mod_pos_pos_trivial) force+
  then have "(\<exists>a\<in>set vers. a mod 2 ^ 64 = int v) \<longleftrightarrow> int v \<in> set vers" by auto
  moreover have "(int v + 2 ^ 31) mod 2 ^ 32 - 2 ^ 31 = int v" using assms(2) by simp
  ultimately show ?thesis unfolding gc_add_child_def by auto
qed

lemma gc_collect_set:
  assumes "\<forall>v\<in>set children. v < 2 ^ 31"
  shows "set (gc_collect children pv) = insert 0 (insert pv (int ` set children))"
proof -
  have "set (fold gc_add_child cs vers) = set vers \<union> int ` set cs"
    if "\<forall>a\<in>set vers. 0 \<le> a \<and> a < 2 ^ 31" "\<forall>v\<in>set cs. v < 2 ^ 31" for cs vers
    using that
  proof (induction cs arbitrary: vers)
    case (Cons c cs)
    have c: "set (gc_add_child c vers) = insert (int c) (set vers)"
      using Cons.prems by (intro gc_add_child_set) auto
    then have "\<forall>a\<in>set (gc_add_child c vers). 0 \<le> a \<and> a < 2 ^ 31" using Cons.prems by auto
    from Cons.IH [OF this] Cons.prems(2) c show ?case by auto
  qed simp
  from this [of "[0]" children] assms show ?thesis
    by (auto simp: gc_collect_def gc_add_parent_def)
qed

section \<open>Punching\<close>

text \<open>What the code relies on from \<open>ext4_map_blocks\<close>: a mapped answer covers at
  least one block and no more than were asked for.\<close>

definition map_blocks_ok :: "map_blocks \<Rightarrow> bool" where
  "map_blocks_ok mb \<longleftrightarrow> (\<forall>mapped cur n ret m_len. mb mapped cur n = (ret, m_len, True) \<longrightarrow>
     0 < ret \<longrightarrow> 0 < m_len \<and> m_len \<le> n)"

lemma punch_loop_range:
  assumes "map_blocks_ok mb"
  shows "\<exists>m'. punch_loop mb rm mapped cur lend = Some m' \<and> mapped - {cur..<lend} \<subseteq> m' \<and> m' \<subseteq> mapped"
  using assms
proof (induction mb rm mapped cur lend rule: punch_loop.induct)
  case (1 mb rm mapped cur lend)
  note IH = 1(1,2) and ok = 1(3)
  show ?case
  proof (cases "cur < lend")
    case False
    then show ?thesis by (simp add: punch_loop.simps)
  next
    case True
    obtain ret ml b where mb: "mb mapped cur (lend - cur) = (ret, ml, b)" by (metis prod_cases3)
    consider "ret < 0 \<or> 0 < ret \<and> b \<and> \<not> rm cur" | "ret = 0 \<or> 0 < ret \<and> \<not> b" | "0 < ret \<and> b \<and> rm cur"
      by fastforce
    then show ?thesis
    proof cases
      case 1
      then have "punch_loop mb rm mapped cur lend = Some mapped"
        using True mb by (subst punch_loop.simps) auto
      then show ?thesis by auto
    next
      case 2
      let ?c = "cur + (if ml \<noteq> 0 then ml else 1)"
      have eq: "punch_loop mb rm mapped cur lend = punch_loop mb rm mapped ?c lend"
        using 2 True mb by (subst punch_loop.simps) auto
      have "\<exists>m'. punch_loop mb rm mapped ?c lend = Some m' \<and> mapped - {?c..<lend} \<subseteq> m' \<and> m' \<subseteq> mapped"
        using IH(1) [OF True mb [symmetric] refl] 2 ok by auto
      then show ?thesis unfolding eq by fastforce
    next
      case 3
      then have ml: "0 < ml" "ml \<le> lend - cur" using ok mb by (auto simp: map_blocks_ok_def)
      let ?m = "mapped - {cur..<cur + ml}"
      have eq: "punch_loop mb rm mapped cur lend = punch_loop mb rm ?m (cur + ml) lend"
        using 3 True mb ml by (subst punch_loop.simps) auto
      have "\<exists>m'. punch_loop mb rm ?m (cur + ml) lend = Some m' \<and> ?m - {cur + ml..<lend} \<subseteq> m' \<and> m' \<subseteq> ?m"
        using IH(2) [OF True mb [symmetric] refl] 3 ml ok by auto
      then show ?thesis unfolding eq using ml by fastforce
    qed
  qed
qed

lemma punch_one:
  assumes "map_blocks_ok mb" and "p < 2 ^ 32"
  shows "\<exists>m'. scorw_punch_hole_range mb rm mapped p 1 = Some m' \<and> mapped - {p} \<subseteq> m' \<and> m' \<subseteq> mapped"
proof -
  have "p mod 2 ^ 32 = p" using assms(2) by simp
  moreover have "{p..<(p + 1) mod 2 ^ 32} \<subseteq> {p}"
    using assms(2) by (cases "p + 1 = 2 ^ 32") auto
  ultimately show ?thesis
    using punch_loop_range [OF assms(1), of rm mapped p "(p + 1) mod 2 ^ 32"]
    by (auto simp: scorw_punch_hole_range_def)
qed

lemma punch_all:
  assumes "map_blocks_ok mb" and "\<forall>p\<in>set ps. p < 2 ^ 32"
  shows "\<exists>m'. ofold (\<lambda>m p. scorw_punch_hole_range mb rm m p 1) ps mapped = Some m' \<and>
    mapped - set ps \<subseteq> m' \<and> m' \<subseteq> mapped"
  using assms(2)
proof (induction ps arbitrary: mapped)
  case (Cons p ps)
  obtain m1 where m1: "scorw_punch_hole_range mb rm mapped p 1 = Some m1" "mapped - {p} \<subseteq> m1" "m1 \<subseteq> mapped"
    using punch_one [OF assms(1), of p rm mapped] Cons.prems by auto
  obtain m' where m': "ofold (\<lambda>m p. scorw_punch_hole_range mb rm m p 1) ps m1 = Some m'" "m1 - set ps \<subseteq> m'" "m' \<subseteq> m1"
    using Cons.IH [of m1] Cons.prems by auto
  with m1 show ?case by (intro exI [of _ m']) auto
qed simp

section \<open>Properties\<close>

text \<open>The versions are sorted: the exchange sort returns the same versions in
  ascending order, so that the search for the next active version finds the
  smallest one at or above its target.\<close>

theorem gc_active_versions_sorted:
  "mset (gc_sort vers) = mset vers \<and> sorted (gc_sort vers) \<and>
   (scorw_gc_find_next_active t (gc_sort vers) =
      (if \<exists>a\<in>set vers. t \<le> a then Min {a \<in> set vers. t \<le> a} else -1))"
proof -
  let ?n = "scorw_gc_find_next_active t (gc_sort vers)"
  have "?n = (if \<exists>a\<in>set vers. t \<le> a then Min {a \<in> set vers. t \<le> a} else -1)"
  proof (cases "\<exists>a\<in>set vers. t \<le> a")
    case True
    then have "?n \<in> set vers" "t \<le> ?n" "\<forall>a\<in>set vers. t \<le> a \<longrightarrow> ?n \<le> a"
      using find_next_active_spec [OF gc_sort_sorted, of t vers] by auto
    then have "Min {a \<in> set vers. t \<le> a} = ?n" by (intro Min_eqI) auto
    with True show ?thesis by simp
  next
    case False
    then show ?thesis using find_next_active_spec [OF gc_sort_sorted, of t vers] by auto
  qed
  with gc_sort_mset gc_sort_sorted show ?thesis by blast
qed

text \<open>Every physical block of the log is given out once, after the blocks of the
  original file, and inside the range of block numbers of the file system.\<close>

definition alloc_ok :: "scorw_log_record list \<Rightarrow> nat \<Rightarrow> bool" where
  "alloc_ok recs orig \<longleftrightarrow> distinct (map (\<lambda>w. snd (snd w)) (log_writes recs)) \<and>
     (\<forall>(l, v, p)\<in>set (log_writes recs). orig div PAGE_SIZE \<le> p \<and> p < 2 ^ 32) \<and>
     (\<forall>r\<in>set recs. version_num r \<le> MAX_VERSIONS)"

lemma log_writes_version:
  "(l, v, p) \<in> set (log_writes recs) \<Longrightarrow> \<exists>r\<in>set recs. version_num r = v"
  by (auto simp: log_writes_def block_writes_def split: if_splits)

lemma superseded_mem: "superseded act ws p \<Longrightarrow> \<exists>l v. (l, v, p) \<in> set ws"
  unfolding superseded_def by (metis in_set_conv_decomp)

lemma last_write_min:
  assumes "\<forall>(l, v, p)\<in>set ws. v \<le> m"
  shows "last_write ws (min a m) blk = last_write ws a blk"
proof -
  have "find (\<lambda>(l, v, p). l = blk \<and> v \<le> min a m) xs = find (\<lambda>(l, v, p). l = blk \<and> v \<le> a) xs"
    if "\<forall>(l, v, p)\<in>set xs. v \<le> m" for xs :: "(nat \<times> nat \<times> nat) list"
    using that by (induction xs) auto
  from this [of "rev ws"] assms show ?thesis by (simp add: last_write_def)
qed

lemma garbage_not_found:
  assumes inv: "gc_inv act (log_writes recs) st" and al: "alloc_ok recs orig" and a: "int a \<in> act"
    and p: "resolve recs (min a MAX_VERSIONS) orig blk = p" "p \<noteq> BLK_NOT_FOUND"
  shows "p \<notin> snd st"
proof
  assume "p \<in> snd st"
  with inv have sup: "superseded act (log_writes recs) p" by (simp add: gc_inv_def)
  have "\<forall>(l, v, p)\<in>set (log_writes recs). v \<le> MAX_VERSIONS"
    using al log_writes_version unfolding alloc_ok_def by fastforce
  note mn = last_write_min [OF this, of a blk]
  show False
  proof (cases "last_write (log_writes recs) a blk")
    case None
    with p mn have "p < orig div PAGE_SIZE" by (auto simp: resolve_last_write split: if_splits)
    moreover obtain l v where "(l, v, p) \<in> set (log_writes recs)" using superseded_mem [OF sup] by blast
    ultimately show False using al by (auto simp: alloc_ok_def)
  next
    case (Some w)
    obtain l v q where w: "w = (l, v, q)" by (metis prod_cases3)
    with Some p mn have "q = p" by (simp add: resolve_last_write)
    with Some w superseded_not_found [OF sup a _, of blk l v] al show False by (simp add: alloc_ok_def)
  qed
qed

text \<open>C8: garbage collection never removes a block that is still read. For every
  version that is active (the base version 0, the version of a child, the
  parent's current one), the block that a reader of that version finds is
  still mapped in the parent afterwards; nothing is mapped anew and the log is
  left as it is.\<close>

theorem scorw_gc_blocks_sound:
  assumes log: "log_ok f" and recs: "history_ok (log_records f)" and al: "alloc_ok (log_records f) orig"
    and mb: "map_blocks_ok map_blocks"
    and ver: "0 \<le> par_version" "par_version < 2 ^ 31" "\<forall>v\<in>set children. v < 2 ^ 31"
    and a: "int a \<in> insert 0 (insert par_version (int ` set children))"
    and p: "resolve (log_records f) (min a MAX_VERSIONS) orig blk = p" "p \<noteq> BLK_NOT_FOUND" "p \<in> mapped"
  shows "\<exists>f' mapped'. scorw_gc_blocks e map_blocks remove_ok children par_version (Some f) mapped = Some (Some f', mapped') \<and>
    p \<in> mapped' \<and> mapped' \<subseteq> mapped \<and> log_records f' = log_records f"
proof -
  let ?act = "gc_sort (gc_collect children par_version)" and ?recs = "log_records f"
  define st where "st = fold (gc_record e ?act) ?recs (Map.empty, {})"
  have act: "set ?act = insert 0 (insert par_version (int ` set children))"
    using gc_collect_set [OF ver(3)] by simp
  then have act2: "sorted ?act" "0 \<in> set ?act" "\<forall>a\<in>set ?act. a < 2 ^ 31"
    using ver gc_sort_sorted by auto
  have "\<forall>r\<in>set ?recs. extent_ok r \<and> version_num r < 2 ^ 31"
    using recs al by (fastforce simp: history_ok_def list_all_iff alloc_ok_def)
  from gc_scan_inv [OF act2 this, of e] have inv: "gc_inv (set ?act) (log_writes ?recs) st"
    by (simp add: st_def)
  obtain f' where scan: "scan_loop (gc_record e ?act) (i_size f) f 0 (Map.empty, {}) = Some (st, f')" "same_view f f'"
    using scan_loop_ok [of f 0 "gc_record e ?act" "(Map.empty, {})"] log by (auto simp: log_ok_def st_def)
  have np: "p \<notin> snd st" using garbage_not_found [OF inv al _ p(1,2)] a act by simp
  have gp: "q < 2 ^ 32 \<and> q \<in> (\<lambda>w. snd (snd w)) ` set (log_writes ?recs)" if "q \<in> snd st" for q
  proof -
    from inv that have "superseded (set ?act) (log_writes ?recs) q" by (simp add: gc_inv_def)
    from superseded_mem [OF this] obtain l v where q: "(l, v, q) \<in> set (log_writes ?recs)" by blast
    with al have "q < 2 ^ 32" by (auto simp: alloc_ok_def)
    with q show ?thesis by (auto intro!: image_eqI [of _ _ "(l, v, q)"])
  qed
  then have fin: "finite (snd st)" by (intro finite_subset [of "snd st" "(\<lambda>w. snd (snd w)) ` set (log_writes ?recs)"]) auto
  then obtain m' where m': "ofold (\<lambda>m p. scorw_punch_hole_range map_blocks remove_ok m p 1)
      (sorted_list_of_set (snd st)) mapped = Some m'" "mapped - snd st \<subseteq> m'" "m' \<subseteq> mapped"
    using punch_all [OF mb, of "sorted_list_of_set (snd st)" remove_ok mapped] gp by auto
  have "scorw_gc_blocks e map_blocks remove_ok children par_version (Some f) mapped = Some (Some f', m')"
    using scan(1) m'(1) by (cases st) (simp add: scorw_gc_blocks_def Let_def)
  with m' np p(3) scan(2) show ?thesis by (auto simp: same_view_log)
qed

theorem scorw_gc_blocks_sound_witness:
  "\<exists>f' mapped'. scorw_gc_blocks good_env
      (\<lambda>mapped cur n. if cur \<in> mapped \<and> n \<noteq> 0 then (1, 1, True) else (0, 1, False))
      (\<lambda>_. True) [1] 2 (Some sample_log) {..<8} = Some (Some f', mapped') \<and> 6 \<in> mapped'"
proof -
  have al: "alloc_ok (log_records sample_log) 12288"
    by (simp add: alloc_ok_def sample_log_records sample_records_def log_writes_def block_writes_def
        make_record_def upt_rec)
  have p: "resolve (log_records sample_log) (min 1 MAX_VERSIONS) 12288 1 = 6"
    by (simp add: sample_log_records sample_records_def resolve_def make_record_def covers_def target_def)
  have mb: "map_blocks_ok (\<lambda>mapped cur n. if cur \<in> mapped \<and> n \<noteq> 0 then (1, 1, True) else (0, 1, False))"
    by (auto simp: map_blocks_ok_def)
  have "int 1 \<in> insert 0 (insert 2 (int ` set [1]))" "(0::int) \<le> 2" "(2::int) < 2 ^ 31" "\<forall>v\<in>set [1]. v < (2::nat) ^ 31"
    "(6::nat) \<noteq> BLK_NOT_FOUND" "6 \<in> {..<8::nat}" by (simp_all add: BLK_NOT_FOUND_def)
  from scorw_gc_blocks_sound [OF sample_log_records(1) _ al mb this(2,3,4,1) p this(5,6), of good_env "\<lambda>_. True"]
  show ?thesis by (auto simp: sample_log_records)
qed

end
