(* ===== verification/Log_Recovery.thy ===== *)
theory Log_Recovery
  imports Isolation
begin

text \<open>
  Recovery of a versioned parent when it is opened after a crash:
  \<open>scorw_truncate_log_to_version\<close> drops the records of versions that were not
  committed, \<open>scorw_do_recovery\<close> drops the versions whose blocks never reached
  the parent and cuts the parent back to what the log accounts for.
  Source: \<open>src/ext4-module/corw_sparse.c\<close>.
\<close>

section \<open>Truncating the log to a version\<close>

text \<open>The inner loop, over the records of one page: whether a record of a later
  version was met, the valid size, the offset and the bytes left. The comparison
  is between a \<open>__u32\<close> and an \<open>int\<close>, hence unsigned.\<close>

fun trunc_page :: "int \<Rightarrow> page \<Rightarrow> nat \<Rightarrow> nat \<Rightarrow> nat \<Rightarrow> nat \<Rightarrow> bool \<times> nat \<times> nat \<times> nat" where
  "trunc_page ver kaddr rec bytes_to_read offset valid_size =
     (if RECORD_SIZE \<le> bytes_to_read then
        if int (version_num (decode_record (page_bytes kaddr rec RECORD_SIZE))) > ver mod 2 ^ 32
        then (True, valid_size, offset, bytes_to_read)
        else trunc_page ver kaddr (rec + RECORD_SIZE) (bytes_to_read - RECORD_SIZE)
               (offset + RECORD_SIZE) (valid_size + RECORD_SIZE)
      else (False, valid_size, offset, bytes_to_read))"

declare trunc_page.simps [simp del]

partial_function (option) trunc_loop ::
    "int \<Rightarrow> nat \<Rightarrow> file \<Rightarrow> nat \<Rightarrow> nat \<Rightarrow> (nat \<times> file) option" where
  "trunc_loop ver log_size f offset valid_size =
     (if offset < log_size then
        (case read_mapping_page f (offset div PAGE_SIZE) of
           (None, f1) \<Rightarrow> Some (valid_size, f1)
         | (Some kaddr, f1) \<Rightarrow>
             (case trunc_page ver kaddr (offset mod PAGE_SIZE)
                     (min (PAGE_SIZE - offset mod PAGE_SIZE) (log_size - offset)) offset valid_size of
                (future, valid1, offset1, bytes1) \<Rightarrow>
                  if future then Some (valid1, f1)
                  else if 0 < bytes1 \<and> log_size \<le> offset1 + bytes1 then Some (valid1, f1)
                  else trunc_loop ver log_size f1 offset1 valid1))
      else Some (valid_size, f))"

definition scorw_truncate_log_to_version :: "ver_inode \<Rightarrow> ver_inode option" where
  "scorw_truncate_log_to_version s =
     (case i_log_vfs_inode s of
        None \<Rightarrow> Some s
      | Some f \<Rightarrow>
          if i_size f = 0 then Some s
          else (case trunc_loop (version s) (i_size f) f 0 0 of
                  None \<Rightarrow> None
                | Some (valid_size, f1) \<Rightarrow>
                    Some (s\<lparr>i_log_vfs_inode := Some (if valid_size < i_size f
                        then truncate_setsize f1 valid_size else f1)\<rparr>)))"

section \<open>Recovery\<close>

text \<open>\<open>ext4_truncate\<close>: what lies past the size is gone from disk.\<close>

definition ext4_truncate :: "file \<Rightarrow> file" where
  "ext4_truncate f = f\<lparr>disk := (\<lambda>i. if i_size f \<le> i * PAGE_SIZE then Some zero_page
     else map_option (\<lambda>p k. if i_size f \<le> i * PAGE_SIZE + k then 0 else p k) (disk f i))\<rparr>"

text \<open>
  The backward scan: \<open>k\<close> records are still to be looked at. \<open>present\<close> says whether
  \<open>ext4_map_blocks\<close> finds the blocks of an extent mapped. The result is the
  version to roll back (0: none), the end of the valid log, and the file. The version
  number of a record is a \<open>__u32\<close> and becomes an \<open>int\<close> when it is stored.
\<close>

fun back_scan :: "(nat \<Rightarrow> nat \<Rightarrow> bool) \<Rightarrow> nat \<Rightarrow> file \<Rightarrow> int \<Rightarrow> nat \<Rightarrow> int \<times> nat \<times> file" where
  "back_scan present 0 f rollback_version valid_log_end = (rollback_version, valid_log_end, f)"
| "back_scan present (Suc k) f rollback_version valid_log_end =
     (let offset = RECORD_SIZE * k in
      case read_mapping_page f (offset div PAGE_SIZE) of
        (None, f1) \<Rightarrow> (rollback_version, valid_log_end, f1)
      | (Some p, f1) \<Rightarrow>
          let rec = decode_record (page_bytes p (offset mod PAGE_SIZE) RECORD_SIZE) in
          if 0 < rollback_version \<and> rollback_version \<le> int (version_num rec)
          then back_scan present k f1 rollback_version offset
          else if \<not> present (physical_start_blk rec mod 2 ^ 32) (len_blks rec)
          then back_scan present k f1 (s32 (int (version_num rec))) offset
          else (rollback_version, valid_log_end, f1))"

text \<open>The end of a record's blocks as a signed 64 bit byte offset. It is only
  compared with sizes, so an end that wrapped below zero counts as 0.\<close>

definition rec_end :: "scorw_log_record \<Rightarrow> nat" where
  "rec_end r = nat (s64 (int ((physical_start_blk r + len_blks r) * PAGE_SIZE)))"

text \<open>The forward scans over the records at \<open>[0..<n]\<close>; a page that cannot be read
  is skipped.\<close>

definition forward_scan :: "(nat \<Rightarrow> scorw_log_record \<Rightarrow> 'a \<Rightarrow> 'a) \<Rightarrow> nat \<Rightarrow> file \<Rightarrow> 'a \<Rightarrow> 'a \<times> file" where
  "forward_scan g n f a =
     fold (\<lambda>i (x, f). let offset = RECORD_SIZE * i in
       case read_mapping_page f (offset div PAGE_SIZE) of
         (None, f1) \<Rightarrow> (x, f1)
       | (Some p, f1) \<Rightarrow> (g offset (decode_record (page_bytes p (offset mod PAGE_SIZE) RECORD_SIZE)) x, f1))
     [0..<n] (a, f)"

definition trim_step :: "nat \<Rightarrow> nat \<Rightarrow> scorw_log_record \<Rightarrow> nat \<times> int \<Rightarrow> nat \<times> int" where
  "trim_step expected_end offset r t =
     (if rec_end r \<le> expected_end then (offset + RECORD_SIZE, s32 (int (version_num r))) else t)"

text \<open>Step 4: the parent is longer than expected.\<close>

definition recover_parent :: "nat \<Rightarrow> nat \<Rightarrow> ver_inode \<Rightarrow> nat \<Rightarrow> file \<Rightarrow> ver_inode \<times> nat" where
  "recover_parent expected_end valid_log_end s curr_attr f =
     (if expected_end < i_size (data s) then
        case forward_scan (trim_step expected_end) (valid_log_end div RECORD_SIZE) f (0, 0) of
          ((trimmed_log_end, trimmed_version), f1) \<Rightarrow>
            let cut = trimmed_log_end < valid_log_end;
                f2 = (if cut then truncate_setsize f1 trimmed_log_end else f1);
                upd = cut \<and> 0 < trimmed_version
            in (s\<lparr>i_log_vfs_inode := Some f2,
                   version := (if upd then trimmed_version else version s),
                   data := ext4_truncate (truncate_setsize (data s) expected_end)\<rparr>,
                if upd then nat trimmed_version else curr_attr)
      else (s\<lparr>i_log_vfs_inode := Some f\<rparr>, curr_attr))"

text \<open>\<open>scorw_do_recovery\<close>: the inode and the parent's \<open>CURR_VERSION\<close> attribute.\<close>

definition scorw_do_recovery :: "(nat \<Rightarrow> nat \<Rightarrow> bool) \<Rightarrow> ver_inode \<Rightarrow> nat \<Rightarrow> ver_inode \<times> nat" where
  "scorw_do_recovery present s curr_attr =
     (case i_log_vfs_inode s of
        None \<Rightarrow> (s, curr_attr)
      | Some f \<Rightarrow>
          if i_size f = 0 then (s, curr_attr)
          else
            let n = i_size f div RECORD_SIZE in
            if i_size f mod RECORD_SIZE \<noteq> 0 \<and> n = 0
            then (s\<lparr>i_log_vfs_inode := Some (truncate_setsize f 0)\<rparr>, curr_attr)
            else
              case back_scan present n f 0 (RECORD_SIZE * n) of
                (rollback_version, valid_log_end, f1) \<Rightarrow>
                  let rolled = 0 < rollback_version;
                      recovered_version = max 1 (rollback_version - 1);
                      f2 = (if rolled then truncate_setsize f1 valid_log_end else f1);
                      s2 = (if rolled then s\<lparr>version := recovered_version\<rparr> else s);
                      attr2 = (if rolled then nat recovered_version else curr_attr)
                  in case forward_scan (\<lambda>_ r x. max x (rec_end r)) (valid_log_end div RECORD_SIZE) f2
                            (orig_size s) of
                       (expected_end, f3) \<Rightarrow> recover_parent expected_end valid_log_end s2 attr2 f3)"

section \<open>Truncation and the records\<close>

lemma view_truncate:
  assumes "i * PAGE_SIZE + k < n" and "view f i = Some p"
  shows "\<exists>q. view (truncate_setsize f n) i = Some q \<and> (\<forall>j\<le>k. q j = p j)"
proof -
  have "\<not> n \<le> i * PAGE_SIZE" "\<And>j. j \<le> k \<Longrightarrow> \<not> n \<le> i * PAGE_SIZE + j" using assms(1) by simp_all
  with assms(2) show ?thesis by (auto simp: view_def truncate_setsize_def split: option.splits)
qed

lemma record_at_truncate:
  assumes "off mod RECORD_SIZE = 0" and "off + RECORD_SIZE \<le> n" and "view f (off div PAGE_SIZE) = Some p"
  shows "record_at (truncate_setsize f n) off = record_at f off"
proof -
  let ?i = "off div PAGE_SIZE" and ?o = "off mod PAGE_SIZE"
  have "?i * PAGE_SIZE + (?o + RECORD_SIZE - 1) < n"
    using assms(2) div_mult_mod_eq [of off PAGE_SIZE] by linarith
  from view_truncate [OF this assms(3)] obtain q where
    q: "view (truncate_setsize f n) ?i = Some q" "\<forall>j\<le>?o + RECORD_SIZE - 1. q j = p j" by blast
  then have "page_bytes q ?o RECORD_SIZE = page_bytes p ?o RECORD_SIZE" by (auto simp: page_bytes_def)
  with q(1) assms(3) show ?thesis by (simp add: record_at_def)
qed

lemma record_inside:
  assumes "k < length (log_records f)"
  shows "RECORD_SIZE * k + RECORD_SIZE \<le> i_size f"
proof -
  have "k + 1 \<le> i_size f div RECORD_SIZE" using assms by simp
  then have "(k + 1) * RECORD_SIZE \<le> i_size f div RECORD_SIZE * RECORD_SIZE" by (intro mult_le_mono1)
  also have "\<dots> \<le> i_size f" by simp
  finally show ?thesis by simp
qed

lemma record_page_readable:
  assumes "pages_ok f" and "k < length (log_records f)"
  shows "\<exists>p. view f (RECORD_SIZE * k div PAGE_SIZE) = Some p \<and>
    decode_record (page_bytes p (RECORD_SIZE * k mod PAGE_SIZE) RECORD_SIZE) = log_records f ! k"
proof -
  have "RECORD_SIZE * k div PAGE_SIZE * PAGE_SIZE < i_size f"
    using record_inside [OF assms(2)] div_times_less_eq_dividend [of "RECORD_SIZE * k" PAGE_SIZE] by linarith
  with assms(1) obtain p where "view f (RECORD_SIZE * k div PAGE_SIZE) = Some p" by (auto simp: pages_ok_def)
  then show ?thesis using assms(2) by (simp add: log_records_nth record_at_def)
qed

lemma log_records_truncate:
  assumes "pages_ok f" and "m \<le> length (log_records f)"
  shows "log_records (truncate_setsize f (RECORD_SIZE * m)) = take m (log_records f)"
proof (rule nth_equalityI)
  show "length (log_records (truncate_setsize f (RECORD_SIZE * m))) = length (take m (log_records f))"
    using assms(2) by simp
  fix k assume "k < length (log_records (truncate_setsize f (RECORD_SIZE * m)))"
  then have k: "k < m" "k < length (log_records f)" using assms(2) by simp_all
  obtain p where p: "view f (RECORD_SIZE * k div PAGE_SIZE) = Some p"
    using record_page_readable [OF assms(1) k(2)] by blast
  have "RECORD_SIZE * k + RECORD_SIZE \<le> RECORD_SIZE * m" using k(1) by simp
  from record_at_truncate [OF _ this p] k show "log_records (truncate_setsize f (RECORD_SIZE * m)) ! k = take m (log_records f) ! k"
    by (simp add: log_records_nth)
qed

lemma pages_ok_truncate:
  assumes "pages_ok f" and "n \<le> i_size f"
  shows "pages_ok (truncate_setsize f n)"
proof -
  have "view (truncate_setsize f n) i \<noteq> None" if "i * PAGE_SIZE < n" for i
  proof -
    from assms that obtain p where "view f i = Some p" by (fastforce simp: pages_ok_def)
    with view_truncate [of i 0 n f p] that show ?thesis by auto
  qed
  then show ?thesis by (simp add: pages_ok_def)
qed

section \<open>The scans of the records\<close>

text \<open>The backward scan as a function of the records, newest first.\<close>

fun roll :: "(scorw_log_record \<Rightarrow> bool) \<Rightarrow> scorw_log_record list \<Rightarrow> nat \<Rightarrow> nat \<Rightarrow> nat \<times> nat" where
  "roll pres [] rb n = (rb, n)"
| "roll pres (r # rs) rb n =
     (if 0 < rb \<and> rb \<le> version_num r then roll pres rs rb (length rs)
      else if \<not> pres r then roll pres rs (version_num r) (length rs)
      else (rb, n))"

definition on_parent :: "(nat \<Rightarrow> nat \<Rightarrow> bool) \<Rightarrow> scorw_log_record \<Rightarrow> bool" where
  "on_parent present r = present (physical_start_blk r mod 2 ^ 32) (len_blks r)"

lemma back_scan_roll:
  assumes "pages_ok f" and "k \<le> length (log_records f)" and "\<forall>r\<in>set (log_records f). version_num r < 2 ^ 31"
  shows "\<exists>f'. back_scan present k f (int rb) (RECORD_SIZE * n) =
      (int (fst (roll (on_parent present) (rev (take k (log_records f))) rb n)),
       RECORD_SIZE * snd (roll (on_parent present) (rev (take k (log_records f))) rb n), f') \<and> same_view f f'"
  using assms
proof (induction k arbitrary: f rb n)
  case (Suc k)
  let ?r = "log_records f ! k"
  obtain p where p: "view f (RECORD_SIZE * k div PAGE_SIZE) = Some p"
    "decode_record (page_bytes p (RECORD_SIZE * k mod PAGE_SIZE) RECORD_SIZE) = ?r"
    using record_page_readable [of f k] Suc.prems by auto
  obtain f1 where f1: "read_mapping_page f (RECORD_SIZE * k div PAGE_SIZE) = (Some p, f1)"
    using p read_mapping_page_fst [of f "RECORD_SIZE * k div PAGE_SIZE"] by (metis prod.collapse)
  have sv: "same_view f f1"
    using same_view_read_mapping_page [of f "RECORD_SIZE * k div PAGE_SIZE"] f1 by simp
  have len: "length (rev (take k (log_records f))) = k" using Suc.prems(2) by simp
  have v: "s32 (int (version_num ?r)) = int (version_num ?r)"
    using Suc.prems(2) bspec [OF Suc.prems(3), of ?r] by (simp add: s32_id)
  have step: "back_scan present (Suc k) f (int rb) ve =
      (if 0 < rb \<and> rb \<le> version_num ?r then back_scan present k f1 (int rb) (RECORD_SIZE * k)
       else if \<not> on_parent present ?r then back_scan present k f1 (int (version_num ?r)) (RECORD_SIZE * k)
       else (int rb, ve, f1))" for ve
    by (simp only: back_scan.simps Let_def f1 p(2) prod.case option.case on_parent_def v of_nat_0_less_iff of_nat_le_iff)
  have t: "rev (take (Suc k) (log_records f)) = ?r # rev (take k (log_records f))"
    using Suc.prems(2) by (simp add: take_Suc_conv_app_nth)
  have IH: "\<exists>f'. back_scan present k f1 (int rb') (RECORD_SIZE * k) =
      (int (fst (roll (on_parent present) (rev (take k (log_records f))) rb' k)),
       RECORD_SIZE * snd (roll (on_parent present) (rev (take k (log_records f))) rb' k), f') \<and> same_view f f'" for rb'
    using Suc.IH [of f1 rb' k] Suc.prems sv same_view_trans [OF sv] by (fastforce simp: same_view_log same_viewD)
  from IH [of rb] IH [of "version_num ?r"] sv show ?case
    unfolding t step roll.simps len by auto
qed simp

lemma roll_spec:
  assumes "sorted (map version_num xs)" and "\<forall>x\<in>set xs. rb = 0 \<or> version_num x \<le> rb"
    and "roll pres (rev xs) rb (length xs) = (rb', n)"
  shows "n \<le> length xs \<and> (n = 0 \<or> pres (xs ! (n - 1))) \<and>
    rb' = (if n < length xs then version_num (xs ! n) else rb) \<and>
    (0 < n \<longrightarrow> 0 < rb' \<longrightarrow> version_num (xs ! (n - 1)) < rb')"
  using assms
proof (induction xs arbitrary: rb rule: rev_induct)
  case (snoc x xs)
  have so: "sorted (map version_num xs)" "\<forall>y\<in>set xs. version_num y \<le> version_num x"
    using snoc.prems(1) by (auto simp: sorted_append)
  have nth: "n < length xs \<Longrightarrow> (xs @ [x]) ! n = xs ! n" "(xs @ [x]) ! length xs = x"
    "0 < n \<Longrightarrow> n \<le> length xs \<Longrightarrow> (xs @ [x]) ! (n - 1) = xs ! (n - 1)"
    by (auto simp: nth_append)
  consider "0 < rb \<and> rb \<le> version_num x" | "\<not> (0 < rb \<and> rb \<le> version_num x)" "\<not> pres x"
    | "\<not> (0 < rb \<and> rb \<le> version_num x)" "pres x" by blast
  then show ?case
  proof cases
    case 1
    with snoc.prems(2) have rb: "rb = version_num x" by force
    from 1 snoc.prems(3) have "roll pres (rev xs) rb (length xs) = (rb', n)" by simp
    from snoc.IH [OF so(1) _ this] snoc.prems(2) rb nth show ?thesis by (cases "n = 0"; cases "n < length xs") auto
  next
    case 2
    with snoc.prems(3) have "roll pres (rev xs) (version_num x) (length xs) = (rb', n)" by auto
    from snoc.IH [OF so(1) _ this] so(2) nth show ?thesis by (cases "n = 0"; cases "n < length xs") auto
  next
    case 3
    with snoc.prems(3) have "rb' = rb" "n = Suc (length xs)" by (auto split: if_splits)
    with 3 show ?thesis by auto
  qed
qed simp

lemma roll_cause:
  assumes "sorted (map version_num xs)" and "\<forall>x\<in>set xs. rb = 0 \<or> version_num x \<le> rb"
    and "roll pres (rev xs) rb (length xs) = (rb', n)" and "n < length xs"
  shows "(0 < rb \<and> rb' = rb) \<or> (\<exists>r\<in>set (drop n xs). version_num r = rb' \<and> \<not> pres r)"
  using assms
proof (induction xs arbitrary: rb rule: rev_induct)
  case (snoc x xs)
  have so: "sorted (map version_num xs)" "\<forall>y\<in>set xs. version_num y \<le> version_num x"
    using snoc.prems(1) by (auto simp: sorted_append)
  have n: "n \<le> length xs" using snoc.prems(4) by simp
  consider "0 < rb \<and> rb \<le> version_num x" | "\<not> (0 < rb \<and> rb \<le> version_num x)" "\<not> pres x"
    using snoc.prems(3,4) by (auto split: if_splits)
  then show ?case
  proof cases
    case 1
    then have r: "roll pres (rev xs) rb (length xs) = (rb', n)" using snoc.prems(3) by simp
    have b: "\<forall>y\<in>set xs. rb = 0 \<or> version_num y \<le> rb" using snoc.prems(2) by auto
    show ?thesis
    proof (cases "n < length xs")
      case True
      from snoc.IH [OF so(1) b r True] n show ?thesis by auto
    next
      case False
      with roll_spec [OF so(1) b r] 1 show ?thesis by simp
    qed
  next
    case 2
    then have r: "roll pres (rev xs) (version_num x) (length xs) = (rb', n)" using snoc.prems(3) by auto
    have b: "\<forall>y\<in>set xs. version_num x = 0 \<or> version_num y \<le> version_num x" using so(2) by simp
    show ?thesis
    proof (cases "n < length xs")
      case True
      from snoc.IH [OF so(1) b r True] n 2(2) show ?thesis by auto
    next
      case False
      with roll_spec [OF so(1) b r] 2 n show ?thesis by simp
    qed
  qed
qed simp

lemma forward_scan_spec:
  assumes "pages_ok f" and "n \<le> length (log_records f)"
  shows "\<exists>f'. forward_scan g n f a = (fold (\<lambda>i. g (RECORD_SIZE * i) (log_records f ! i)) [0..<n] a, f') \<and>
    same_view f f' \<and> (\<forall>i<n. cache f' (RECORD_SIZE * i div PAGE_SIZE) \<noteq> None)"
  using assms(2)
proof (induction n)
  case 0
  then show ?case by (simp add: forward_scan_def)
next
  case (Suc n)
  then obtain f1 where f1: "forward_scan g n f a = (fold (\<lambda>i. g (RECORD_SIZE * i) (log_records f ! i)) [0..<n] a, f1)"
    and sv: "same_view f f1" and c: "\<forall>i<n. cache f1 (RECORD_SIZE * i div PAGE_SIZE) \<noteq> None" by auto
  have "pages_ok f1" "n < length (log_records f1)" using sv assms(1) Suc.prems by (simp_all add: same_view_log same_viewD)
  from record_page_readable [OF this] obtain p where p: "view f1 (RECORD_SIZE * n div PAGE_SIZE) = Some p"
    "decode_record (page_bytes p (RECORD_SIZE * n mod PAGE_SIZE) RECORD_SIZE) = log_records f ! n"
    using sv by (auto simp: same_view_log)
  obtain f2 where f2: "read_mapping_page f1 (RECORD_SIZE * n div PAGE_SIZE) = (Some p, f2)"
    using p read_mapping_page_fst [of f1 "RECORD_SIZE * n div PAGE_SIZE"] by (metis prod.collapse)
  have sv2: "same_view f1 f2" using same_view_read_mapping_page [of f1 "RECORD_SIZE * n div PAGE_SIZE"] f2 by simp
  have "same_view f f2" by (rule same_view_trans [OF sv sv2])
  moreover have "cache f2 (RECORD_SIZE * i div PAGE_SIZE) \<noteq> None" if "i < Suc n" for i
  proof (cases "i = n")
    case True
    with f2 show ?thesis by (auto simp: read_mapping_page_def split: option.splits)
  next
    case False
    with that c sv2 show ?thesis by (auto simp: same_view_def)
  qed
  ultimately show ?case using f1 f2 p by (simp add: forward_scan_def Let_def)
qed

text \<open>The size the parent has when it holds its original contents and the blocks
  of the given records, and nothing else.\<close>

definition expected_size :: "nat \<Rightarrow> scorw_log_record list \<Rightarrow> nat" where
  "expected_size orig recs = fold (\<lambda>r x. max x (rec_end r)) recs orig"

lemma fold_nth_take:
  "n \<le> length xs \<Longrightarrow> fold (\<lambda>i. g (xs ! i)) [0..<n] a = fold g (take n xs) a"
proof (induction n)
  case (Suc n)
  then show ?case by (simp add: take_Suc_conv_app_nth)
qed simp

lemma expected_size_ge:
  "orig \<le> expected_size orig recs" "r \<in> set recs \<Longrightarrow> rec_end r \<le> expected_size orig recs"
proof -
  have "x \<le> fold (\<lambda>r x. max x (rec_end r)) rs x \<and> (\<forall>r\<in>set rs. rec_end r \<le> fold (\<lambda>r x. max x (rec_end r)) rs x)" for rs x
  proof (induction rs arbitrary: x)
    case (Cons r rs)
    from Cons.IH [of "max x (rec_end r)"] show ?case by auto
  qed simp
  then show "orig \<le> expected_size orig recs" "r \<in> set recs \<Longrightarrow> rec_end r \<le> expected_size orig recs"
    by (simp_all add: expected_size_def)
qed

lemma fold_trim:
  assumes "\<forall>r\<in>set (take n recs). rec_end r \<le> E" and "n \<le> length recs"
  shows "fst (fold (\<lambda>i. trim_step E (RECORD_SIZE * i) (recs ! i)) [0..<n] (0, 0)) = RECORD_SIZE * n"
  using assms by (induction n) (auto simp: trim_step_def take_Suc_conv_app_nth)

text \<open>The records that are kept never reach past the expected size, so the last
  step cuts the parent and leaves the log alone.\<close>

lemma recover_parent_effect:
  assumes "pages_ok f" and "n = length (log_records f)" and "E = expected_size orig (log_records f)"
  shows "\<exists>l'. recover_parent E (RECORD_SIZE * n) s attr f =
      (s\<lparr>i_log_vfs_inode := Some l', data := (if E < i_size (data s)
          then ext4_truncate (truncate_setsize (data s) E) else data s)\<rparr>, attr) \<and> same_view f l'"
proof -
  obtain f1 where f1: "forward_scan (trim_step E) n f (0, 0) =
      (fold (\<lambda>i. trim_step E (RECORD_SIZE * i) (log_records f ! i)) [0..<n] (0, 0), f1)" "same_view f f1"
    using forward_scan_spec [OF assms(1), of n "trim_step E" "(0, 0)"] assms(2) by auto
  let ?t = "fold (\<lambda>i. trim_step E (RECORD_SIZE * i) (log_records f ! i)) [0..<n] (0, 0)"
  have "\<forall>r\<in>set (take n (log_records f)). rec_end r \<le> E"
    using assms(2,3) expected_size_ge(2) by simp
  from fold_trim [OF this] assms(2) have t: "fst ?t = RECORD_SIZE * n" by simp
  have d: "RECORD_SIZE * n div RECORD_SIZE = n" by simp
  show ?thesis
  proof (cases "E < i_size (data s)")
    case True
    have "recover_parent E (RECORD_SIZE * n) s attr f =
        (s\<lparr>i_log_vfs_inode := Some f1, data := ext4_truncate (truncate_setsize (data s) E)\<rparr>, attr)"
      using True t by (cases ?t) (simp add: recover_parent_def f1 Let_def)
    with True f1(2) show ?thesis by auto
  next
    case False
    then show ?thesis by (auto simp: recover_parent_def)
  qed
qed

lemma do_recovery_effect:
  assumes log: "i_log_vfs_inode s = Some f" "pages_ok f" "i_size f = 0 \<or> RECORD_SIZE \<le> i_size f"
    and recs: "recs = log_records f" "sorted (map version_num recs)" "\<forall>r\<in>set recs. 1 \<le> version_num r \<and> version_num r < 2 ^ 31"
  shows "\<exists>s' attr' l' n. scorw_do_recovery present s attr = (s', attr') \<and> i_log_vfs_inode s' = Some l' \<and>
    pages_ok l' \<and> log_records l' = take n recs \<and> n \<le> length recs \<and>
    n = snd (roll (on_parent present) (rev recs) 0 (length recs)) \<and>
    i_size l' = (if n < length recs then RECORD_SIZE * n else i_size f) \<and>
    (n = 0 \<or> on_parent present (recs ! (n - 1))) \<and> (\<forall>i<n. cache l' (RECORD_SIZE * i div PAGE_SIZE) \<noteq> None) \<and>
    (if n < length recs
     then version s' = int (max 1 (version_num (recs ! n) - 1)) \<and> int attr' = version s' \<and>
       (0 < n \<longrightarrow> version_num (recs ! (n - 1)) < version_num (recs ! n)) \<and>
       (\<exists>r\<in>set (drop n recs). version_num r = version_num (recs ! n) \<and> \<not> on_parent present r)
     else version s' = version s \<and> attr' = attr) \<and>
    i_size (data s') = (if recs = [] then i_size (data s)
      else min (i_size (data s)) (expected_size (orig_size s) (take n recs)))"
proof (cases "i_size f = 0")
  case True
  then have "recs = []" by (simp add: recs(1) log_records_def)
  moreover have "scorw_do_recovery present s attr = (s, attr)" using log True by (simp add: scorw_do_recovery_def)
  ultimately show ?thesis using log True recs(1) by (intro exI [of _ s] exI [of _ attr] exI [of _ f] exI [of _ 0]) simp
next
  case False
  define m where "m = length recs"
  have m: "m = i_size f div RECORD_SIZE" by (simp add: m_def recs(1))
  have m0: "m \<noteq> 0" using log(3) False by (simp add: m div_eq_0_iff)
  then have ne: "recs \<noteq> []" by (auto simp: m_def)
  obtain rb n where rl: "roll (on_parent present) (rev recs) 0 m = (rb, n)" by fastforce
  have sp: "n \<le> m" "n = 0 \<or> on_parent present (recs ! (n - 1))"
    "rb = (if n < m then version_num (recs ! n) else 0)" "0 < n \<Longrightarrow> 0 < rb \<Longrightarrow> version_num (recs ! (n - 1)) < rb"
    using roll_spec [OF recs(2) _ rl [unfolded m_def]] by (auto simp: m_def split: if_splits)
  have cause: "\<exists>r\<in>set (drop n recs). version_num r = version_num (recs ! n) \<and> \<not> on_parent present r" if "n < m"
    using roll_cause [OF recs(2) _ rl [unfolded m_def]] that sp(3) by (simp add: m_def)
  obtain f1 where bs: "back_scan present m f 0 (RECORD_SIZE * m) = (int rb, RECORD_SIZE * n, f1)" and sv1: "same_view f f1"
    using back_scan_roll [OF log(2), of m present 0 m] rl recs(3) by (auto simp: m_def recs(1))
  have ok1: "pages_ok f1" "log_records f1 = recs" "i_size f1 = i_size f"
    using sv1 log(2) recs(1) by (simp_all add: same_view_log same_viewD)
  have roll: "0 < rb \<longleftrightarrow> n < m" using sp(3) recs(3) by (force simp: m_def in_set_conv_nth)
  define f2 where "f2 = (if 0 < rb then truncate_setsize f1 (RECORD_SIZE * n) else f1)"
  have "RECORD_SIZE * n \<le> i_size f1" if "n < m"
    using record_inside [of n f1] that ok1(2) by (simp add: m_def)
  then have ok2: "pages_ok f2" "log_records f2 = take n recs" "i_size f2 = (if n < m then RECORD_SIZE * n else i_size f)"
    "length (log_records f2) = n"
    using ok1 sp(1) roll log_records_truncate [OF ok1(1), of n] pages_ok_truncate [OF ok1(1), of "RECORD_SIZE * n"]
    by (auto simp: f2_def m_def recs(1))
  let ?E = "expected_size (orig_size s) (take n recs)"
  obtain f3 where fs: "forward_scan (\<lambda>_ r x. max x (rec_end r)) n f2 (orig_size s) = (?E, f3)" and sv3: "same_view f2 f3"
    and c3: "\<forall>i<n. cache f3 (RECORD_SIZE * i div PAGE_SIZE) \<noteq> None"
    using forward_scan_spec [OF ok2(1), of n "\<lambda>_ r x. max x (rec_end r)" "orig_size s"] ok2(4)
      fold_nth_take [of n "take n recs" "\<lambda>r x. max x (rec_end r)" "orig_size s"] sp(1)
    by (auto simp: ok2(2) expected_size_def m_def)
  have ok3: "pages_ok f3" "n = length (log_records f3)" "?E = expected_size (orig_size s) (log_records f3)"
    using ok2 sv3 by (simp_all only: same_view_log)
  define s2 where "s2 = (if 0 < rb then s\<lparr>version := int (max 1 (rb - 1))\<rparr> else s)"
  obtain l' where rp: "recover_parent ?E (RECORD_SIZE * n) s2 (if 0 < rb then max 1 (rb - 1) else attr) f3 =
      (s2\<lparr>i_log_vfs_inode := Some l', data := (if ?E < i_size (data s2)
          then ext4_truncate (truncate_setsize (data s2) ?E) else data s2)\<rparr>, if 0 < rb then max 1 (rb - 1) else attr)"
    and sv4: "same_view f3 l'" using recover_parent_effect [OF ok3] by blast
  have nat_pred: "max 1 (int rb - 1) = int (max 1 (rb - 1))" by simp
  have run: "scorw_do_recovery present s attr = recover_parent ?E (RECORD_SIZE * n) s2 (if 0 < rb then max 1 (rb - 1) else attr) f3"
    using False m0 bs fs m f2_def nat_pred
    by (simp add: scorw_do_recovery_def log(1) Let_def s2_def)
  define s3 where "s3 = s2\<lparr>i_log_vfs_inode := Some l', data := (if ?E < i_size (data s2)
    then ext4_truncate (truncate_setsize (data s2) ?E) else data s2)\<rparr>"
  have l': "pages_ok l'" "log_records l' = take n recs" "i_size l' = (if n < m then RECORD_SIZE * n else i_size f)"
    using sv3 sv4 ok2 by (simp_all add: same_view_log same_viewD)
  have c': "\<forall>i<n. cache l' (RECORD_SIZE * i div PAGE_SIZE) \<noteq> None" using c3 sv4 by (auto simp: same_view_def)
  have s3: "i_log_vfs_inode s3 = Some l'" "version s3 = (if n < m then int (max 1 (rb - 1)) else version s)"
    "i_size (data s3) = min (i_size (data s)) ?E"
    using roll by (simp_all add: s3_def s2_def ext4_truncate_def)
  have "scorw_do_recovery present s attr = (s3, if n < m then max 1 (rb - 1) else attr)"
    unfolding s3_def roll [symmetric] run by (rule rp)
  moreover have "if n < m then version s3 = int (max 1 (version_num (recs ! n) - 1)) \<and>
      int (if n < m then max 1 (rb - 1) else attr) = version s3 \<and>
      (0 < n \<longrightarrow> version_num (recs ! (n - 1)) < version_num (recs ! n)) \<and>
      (\<exists>r\<in>set (drop n recs). version_num r = version_num (recs ! n) \<and> \<not> on_parent present r)
    else version s3 = version s \<and> (if n < m then max 1 (rb - 1) else attr) = attr"
    using s3(2) sp(3,4) roll cause by (cases "n < m") simp_all
  ultimately show ?thesis unfolding m_def [symmetric]
    using l' c' s3(1,3) sp(1,2) ne rl by (simp only: if_False snd_conv) blast
qed

section \<open>Truncation to the committed version\<close>

lemma trunc_page_spec:
  assumes "k < RECORD_SIZE" and "0 \<le> ver" "ver < 2 ^ 32"
    and "rs = map (\<lambda>j. decode_record (page_bytes p (rec + RECORD_SIZE * j) RECORD_SIZE)) [0..<n]"
    and "m = length (takeWhile (\<lambda>r. int (version_num r) \<le> ver) rs)"
  shows "trunc_page ver p rec (RECORD_SIZE * n + k) off valid =
    (m < n, valid + RECORD_SIZE * m, off + RECORD_SIZE * m, RECORD_SIZE * (n - m) + k)"
  using assms(4,5)
proof (induction n arbitrary: rec off valid rs m)
  case 0
  with assms(1) show ?case by (subst trunc_page.simps) simp
next
  case (Suc n)
  let ?r = "decode_record (page_bytes p rec RECORD_SIZE)"
  let ?rs = "map (\<lambda>j. decode_record (page_bytes p (rec + RECORD_SIZE + RECORD_SIZE * j) RECORD_SIZE)) [0..<n]"
  have rs: "rs = ?r # ?rs"
    using Suc.prems(1) by (simp add: map_upt_Suc_shift algebra_simps del: upt_Suc)
  have v: "ver mod 2 ^ 32 = ver" using assms by simp
  have step: "trunc_page ver p rec (RECORD_SIZE * Suc n + k) off valid =
      (if int (version_num ?r) > ver then (True, valid, off, RECORD_SIZE * Suc n + k)
       else trunc_page ver p (rec + RECORD_SIZE) (RECORD_SIZE * n + k) (off + RECORD_SIZE) (valid + RECORD_SIZE))"
    by (subst trunc_page.simps, subst v) simp
  show ?case
  proof (cases "int (version_num ?r) > ver")
    case True
    with Suc.prems(2) rs have "m = 0" by simp
    with True step show ?thesis by simp
  next
    case False
    with Suc.prems(2) rs have "m = Suc (length (takeWhile (\<lambda>r. int (version_num r) \<le> ver) ?rs))" by simp
    then obtain m' where m': "m = Suc m'" "m' = length (takeWhile (\<lambda>r. int (version_num r) \<le> ver) ?rs)" by blast
    from Suc.IH [OF refl m'(2)] False step m'(1) show ?thesis by simp
  qed
qed

lemma length_takeWhile_append:
  "length (takeWhile P (xs @ ys)) =
    (if length (takeWhile P xs) < length xs then length (takeWhile P xs) else length xs + length (takeWhile P ys))"
  by (induction xs) auto

text \<open>One page of the loop: the records from \<open>off\<close> on, and what is left of the
  bytes after them.\<close>

lemma chunk_split:
  assumes "off mod RECORD_SIZE = 0" and "off < s"
  shows "\<exists>n k. min (PAGE_SIZE - off mod PAGE_SIZE) (s - off) = RECORD_SIZE * n + k \<and> k < RECORD_SIZE \<and>
    off mod PAGE_SIZE + RECORD_SIZE * n \<le> PAGE_SIZE \<and> off + RECORD_SIZE * n \<le> s \<and>
    (if k = 0 then 0 < n else off + RECORD_SIZE * n + k = s)"
proof -
  define m where "m = off mod PAGE_SIZE"
  define b where "b = min (PAGE_SIZE - m) (s - off)"
  define n k where "n = b div RECORD_SIZE" and "k = b mod RECORD_SIZE"
  have b: "b = RECORD_SIZE * n + k" unfolding n_def k_def by simp
  have m: "m < PAGE_SIZE" unfolding m_def by simp
  have k: "k < RECORD_SIZE" unfolding k_def by simp
  have pos: "0 < b" "b \<le> PAGE_SIZE - m" "b \<le> s - off" using assms(2) m unfolding b_def by simp_all
  have n: "m + RECORD_SIZE * n \<le> PAGE_SIZE" "off + RECORD_SIZE * n \<le> s"
    using b pos m assms(2) by linarith+
  have "off + RECORD_SIZE * n + k = s" if "k \<noteq> 0"
  proof -
    have "RECORD_SIZE dvd off" using assms(1) by (simp only: mod_eq_0_iff_dvd)
    then have "RECORD_SIZE dvd PAGE_SIZE - m" unfolding m_def by (auto intro!: dvd_diff_nat simp: dvd_mod_iff)
    with that have "b \<noteq> PAGE_SIZE - m" unfolding k_def by (metis dvd_imp_mod_0)
    then have "b = s - off" unfolding b_def by (simp split: if_splits add: min_def)
    with b assms(2) show ?thesis by linarith
  qed
  moreover have "0 < n" if "k = 0" using b pos(1) that by simp
  ultimately show ?thesis
    unfolding m_def [symmetric] b_def [symmetric]
    by (intro exI [of _ n] exI [of _ k] conjI) (use b k n in simp_all)
qed

lemma cached_upto:
  assumes "\<forall>i. i * PAGE_SIZE < off \<longrightarrow> cache f i \<noteq> None" and "off mod PAGE_SIZE + RECORD_SIZE * n \<le> PAGE_SIZE"
    and "m \<le> n" and f1: "read_mapping_page f (off div PAGE_SIZE) = (Some p, f1)" "same_view f f1"
    and i: "i * PAGE_SIZE < off + RECORD_SIZE * m"
  shows "cache f1 i \<noteq> None"
proof (cases "i * PAGE_SIZE < off")
  case True
  with assms(1) f1(2) show ?thesis by (auto simp: same_view_def)
next
  case False
  define q r where "q = off div PAGE_SIZE" and "r = off mod PAGE_SIZE"
  have o: "off = q * PAGE_SIZE + r" unfolding q_def r_def by simp
  have "r + RECORD_SIZE * m \<le> PAGE_SIZE" using assms(2,3) unfolding r_def [symmetric] by simp
  then have "i * PAGE_SIZE < (q + 1) * PAGE_SIZE" using i o by simp
  then have "i < q + 1" by (simp only: mult_less_cancel2)
  moreover have "q \<le> i" using False div_le_mono [of off "i * PAGE_SIZE" PAGE_SIZE] unfolding q_def by simp
  ultimately have "i = off div PAGE_SIZE" unfolding q_def by simp
  with f1(1) show ?thesis by (auto simp: read_mapping_page_def split: option.splits)
qed

lemma trunc_loop_ok:
  assumes "pages_ok f" and "0 \<le> ver" "ver < 2 ^ 32"
    and "off mod RECORD_SIZE = 0" and "off \<le> i_size f" and "\<forall>i. i * PAGE_SIZE < off \<longrightarrow> cache f i \<noteq> None"
  shows "\<exists>f' v. trunc_loop ver (i_size f) f off valid = Some (valid + v, f') \<and>
    v = RECORD_SIZE * length (takeWhile (\<lambda>r. int (version_num r) \<le> ver) (drop (off div RECORD_SIZE) (log_records f))) \<and>
    same_view f f' \<and> (\<forall>i. i * PAGE_SIZE < off + v \<longrightarrow> cache f' i \<noteq> None)"
  using assms
proof (induction "i_size f - off" arbitrary: f off valid rule: less_induct)
  case less
  let ?s = "i_size f" and ?P = "\<lambda>r. int (version_num r) \<le> ver"
  show ?case
  proof (cases "off < ?s")
    case False
    with less.prems have "off = ?s" by simp
    with less.prems(6) show ?thesis by (subst trunc_loop.simps) auto
  next
    case True
    obtain n k where b: "min (PAGE_SIZE - off mod PAGE_SIZE) (?s - off) = RECORD_SIZE * n + k" "k < RECORD_SIZE"
      and n: "off mod PAGE_SIZE + RECORD_SIZE * n \<le> PAGE_SIZE" "off + RECORD_SIZE * n \<le> ?s"
      and k: "if k = 0 then 0 < n else off + RECORD_SIZE * n + k = ?s"
      using chunk_split [OF less.prems(4) True] by blast
    obtain p f1 where p: "view f (off div PAGE_SIZE) = Some p"
      and f1: "read_mapping_page f (off div PAGE_SIZE) = (Some p, f1)" and sv: "same_view f f1"
      using less.prems(1) True by (rule pages_okE)
    define rs where "rs = map (\<lambda>j. record_at f (off + RECORD_SIZE * j)) [0..<n]"
    define m where "m = length (takeWhile ?P rs)"
    have "length rs = n" by (simp add: rs_def)
    then have mn: "m \<le> n" using length_takeWhile_le [of ?P rs] by (simp add: m_def)
    have page: "trunc_page ver p (off mod PAGE_SIZE) (RECORD_SIZE * n + k) off valid =
        (m < n, valid + RECORD_SIZE * m, off + RECORD_SIZE * m, RECORD_SIZE * (n - m) + k)"
      using chunk_records [OF less.prems(4) n(1) p]
      by (intro trunc_page_spec [OF b(2) less.prems(2,3)]) (simp_all add: rs_def m_def)
    have cached: "\<forall>i. i * PAGE_SIZE < off + RECORD_SIZE * m \<longrightarrow> cache f1 i \<noteq> None"
      using cached_upto [OF less.prems(6) n(1) mn f1 sv] by blast
    have dr: "length (takeWhile ?P (drop (off div RECORD_SIZE) (log_records f))) =
        (if m < n then m else n + length (takeWhile ?P (drop ((off + RECORD_SIZE * n) div RECORD_SIZE) (log_records f))))"
      unfolding log_records_drop [OF less.prems(4) n(2)] length_takeWhile_append
      by (simp only: rs_def [symmetric] m_def [symmetric] \<open>length rs = n\<close>)
    have step: "trunc_loop ver ?s f off valid =
        (if m < n then Some (valid + RECORD_SIZE * m, f1)
         else if 0 < k then Some (valid + RECORD_SIZE * n, f1)
         else trunc_loop ver ?s f1 (off + RECORD_SIZE * n) (valid + RECORD_SIZE * n))"
    proof (cases "m < n")
      case True
      with \<open>off < ?s\<close> show ?thesis
        by (subst trunc_loop.simps) (simp only: if_True f1 prod.case option.case b(1) page)
    next
      case False
      with mn have mn: "m = n" by simp
      have "0 < k \<and> ?s \<le> off + RECORD_SIZE * n + (RECORD_SIZE * (n - n) + k) \<longleftrightarrow> 0 < k" using k by auto
      with \<open>off < ?s\<close> mn show ?thesis
        by (subst trunc_loop.simps) (simp add: f1 b(1) page)
    qed
    show ?thesis
    proof (cases "m = n \<and> k = 0")
      case False
      let ?v = "RECORD_SIZE * m"
      have "m = length (takeWhile ?P (drop (off div RECORD_SIZE) (log_records f)))"
      proof (cases "m < n")
        case False
        with mn \<open>\<not> (m = n \<and> k = 0)\<close> k have e: "m = n" "off + RECORD_SIZE * n + k = ?s" by (auto split: if_splits)
        obtain q where q: "off = RECORD_SIZE * q" using less.prems(4) by auto
        have "?s div RECORD_SIZE = q + n" "(off + RECORD_SIZE * n) div RECORD_SIZE = q + n"
          unfolding e(2) [symmetric] q using b(2) by simp_all
        then have "drop ((off + RECORD_SIZE * n) div RECORD_SIZE) (log_records f) = []" by simp
        with dr e(1) show ?thesis by simp
      qed (use dr in simp)
      moreover have "trunc_loop ver ?s f off valid = Some (valid + ?v, f1)" using False mn step by auto
      ultimately show ?thesis using sv cached by auto
    next
      case True
      let ?f1 = f1 and ?o = "off + RECORD_SIZE * n"
      have "i_size f1 - ?o < ?s - off" using k True n(2) sv \<open>off < ?s\<close> by (simp add: same_viewD)
      moreover have "?o mod RECORD_SIZE = 0" using less.prems(4) by simp
      moreover have "\<forall>i. i * PAGE_SIZE < ?o \<longrightarrow> cache f1 i \<noteq> None" using cached True by simp
      ultimately obtain f' v where f': "trunc_loop ver (i_size f1) f1 ?o (valid + RECORD_SIZE * n) = Some (valid + RECORD_SIZE * n + v, f')"
        "v = RECORD_SIZE * length (takeWhile ?P (drop (?o div RECORD_SIZE) (log_records f1)))" "same_view f1 f'"
        "\<forall>i. i * PAGE_SIZE < ?o + v \<longrightarrow> cache f' i \<noteq> None"
        using less.hyps [of f1 ?o "valid + RECORD_SIZE * n"] less.prems(1-3) n(2) sv by (auto simp: same_view_log same_viewD)
      have "trunc_loop ver ?s f off valid = Some (valid + (RECORD_SIZE * n + v), f')"
        using step True f'(1) sv by (simp add: same_viewD add.assoc)
      moreover have "RECORD_SIZE * n + v = RECORD_SIZE * length (takeWhile ?P (drop (off div RECORD_SIZE) (log_records f)))"
        using dr True f'(2) sv by (simp add: same_view_log)
      ultimately show ?thesis
        using f'(3,4) same_view_trans [OF sv] by (intro exI [of _ f'] exI [of _ "RECORD_SIZE * n + v"]) (simp add: add.assoc)
    qed
  qed
qed

text \<open>What the cut after \<open>m\<close> records leaves of a log whose pages below the cut are
  cached.\<close>

lemma cut_log:
  assumes "pages_ok f" and "m \<le> length (log_records f)"
    and "\<forall>i. i * PAGE_SIZE < RECORD_SIZE * m \<longrightarrow> cache f i \<noteq> None"
  defines "l \<equiv> (if RECORD_SIZE * m < i_size f then truncate_setsize f (RECORD_SIZE * m) else f)"
  shows "log_ok l" and "log_records l = take m (log_records f)"
proof -
  from assms(2) have "m * RECORD_SIZE \<le> i_size f div RECORD_SIZE * RECORD_SIZE" by (intro mult_le_mono1) simp
  also have "\<dots> \<le> i_size f" by simp
  finally have le: "RECORD_SIZE * m \<le> i_size f" by (simp add: mult.commute)
  then have sz: "i_size l = RECORD_SIZE * m" by (auto simp: l_def)
  have "cache l (i_size l div PAGE_SIZE) \<noteq> None" if "i_size l mod PAGE_SIZE \<noteq> 0"
  proof -
    have lt: "i_size l div PAGE_SIZE * PAGE_SIZE < RECORD_SIZE * m"
      using that sz div_mult_mod_eq [of "i_size l" PAGE_SIZE] by linarith
    with assms(3) have "cache f (i_size l div PAGE_SIZE) \<noteq> None" by blast
    with lt show ?thesis by (auto simp: l_def truncate_setsize_def)
  qed
  moreover have "pages_ok l" using assms(1) le pages_ok_truncate [of f "RECORD_SIZE * m"] by (simp add: l_def)
  ultimately show "log_ok l" unfolding log_ok_def using sz by auto
  show "log_records l = take m (log_records f)"
  proof (cases "RECORD_SIZE * m < i_size f")
    case True
    with log_records_truncate [OF assms(1,2)] show ?thesis by (simp add: l_def)
  next
    case False
    with le have "i_size f = RECORD_SIZE * m" by simp
    then have "length (log_records f) = m" by simp
    with False show ?thesis by (simp add: l_def)
  qed
qed

lemma truncated_log:
  assumes "i_log_vfs_inode s = Some f" and "pages_ok f" and "0 \<le> version s" "version s < 2 ^ 31"
  shows "\<exists>l'. scorw_truncate_log_to_version s = Some (s\<lparr>i_log_vfs_inode := Some l'\<rparr>) \<and> log_ok l' \<and>
    log_records l' = takeWhile (\<lambda>r. int (version_num r) \<le> version s) (log_records f)"
proof (cases "i_size f = 0")
  case True
  with assms have "scorw_truncate_log_to_version s = Some (s\<lparr>i_log_vfs_inode := Some f\<rparr>)"
    by (cases s) (simp add: scorw_truncate_log_to_version_def)
  moreover have "log_ok f" "log_records f = []" using True by (simp_all add: log_ok_def pages_ok_def log_records_def)
  ultimately show ?thesis by (intro exI [of _ f]) simp
next
  case False
  let ?P = "\<lambda>r. int (version_num r) \<le> version s"
  define m where "m = length (takeWhile ?P (log_records f))"
  have v: "version s < 2 ^ 32" using assms(4) by simp
  obtain f1 where f1: "trunc_loop (version s) (i_size f) f 0 0 = Some (RECORD_SIZE * m, f1)" "same_view f f1"
    "\<forall>i. i * PAGE_SIZE < RECORD_SIZE * m \<longrightarrow> cache f1 i \<noteq> None"
    using trunc_loop_ok [OF assms(2,3) v, of 0 0] by (auto simp: m_def)
  have s1: "pages_ok f1" "log_records f1 = log_records f" "i_size f1 = i_size f"
    using f1(2) assms(2) by (simp_all add: same_view_log same_viewD)
  define l where "l = (if RECORD_SIZE * m < i_size f1 then truncate_setsize f1 (RECORD_SIZE * m) else f1)"
  have m: "m \<le> length (log_records f1)" unfolding m_def s1(2) by (rule length_takeWhile_le)
  have "scorw_truncate_log_to_version s = Some (s\<lparr>i_log_vfs_inode := Some l\<rparr>)"
    using assms(1) False f1(1) s1(3) by (simp add: scorw_truncate_log_to_version_def l_def)
  moreover have "take m (log_records f) = takeWhile ?P (log_records f)"
    unfolding m_def by (rule takeWhile_eq_take [symmetric])
  ultimately show ?thesis
    using cut_log [OF s1(1) m f1(3), folded l_def] s1(2) by (intro exI [of _ l]) simp
qed

text \<open>A whole number of records, and a log whose last record was just read.\<close>

lemma whole_log_size:
  assumes "log_ok l"
  shows "i_size l = RECORD_SIZE * length (log_records l)" and "i_size l = 0 \<or> RECORD_SIZE \<le> i_size l"
proof -
  have "i_size l mod RECORD_SIZE = 0" using assms by (simp add: log_ok_def)
  then show "i_size l = RECORD_SIZE * length (log_records l)"
    using mult_div_mod_eq [of RECORD_SIZE "i_size l"] by (simp only: length_log_records)
  then show "i_size l = 0 \<or> RECORD_SIZE \<le> i_size l" by (cases "length (log_records l)") simp_all
qed

lemma appendable_log:
  assumes "pages_ok l" and "i_size l = RECORD_SIZE * n" and "\<forall>i<n. cache l (RECORD_SIZE * i div PAGE_SIZE) \<noteq> None"
  shows "log_ok l"
proof -
  have "cache l (i_size l div PAGE_SIZE) \<noteq> None" if "i_size l mod PAGE_SIZE \<noteq> 0"
  proof -
    have "n \<noteq> 0" using that assms(2) by (intro notI) simp
    then obtain k where k: "n = Suc k" by (cases n) auto
    have "n \<noteq> 128 * q" for q
    proof
      assume "n = 128 * q"
      then have "i_size l = PAGE_SIZE * q" using assms(2) by simp
      with that show False by simp
    qed
    then have "Suc k mod 128 \<noteq> 0" by (auto simp: k mod_eq_0_iff_dvd dvd_def)
    then have "k div 128 = Suc k div 128" by (simp add: div_Suc)
    then have "RECORD_SIZE * k div PAGE_SIZE = RECORD_SIZE * n div PAGE_SIZE" by (simp add: k)
    with assms(2) have e: "i_size l div PAGE_SIZE = RECORD_SIZE * k div PAGE_SIZE" by (simp only:)
    show ?thesis unfolding e using assms(3) k by blast
  qed
  with assms show ?thesis by (auto simp: log_ok_def)
qed

section \<open>Properties\<close>

text \<open>C19: truncating the log to the committed version keeps exactly the records
  before the first one of a later version, drops a partial record at the end,
  and leaves a log that can be appended to.\<close>

theorem truncate_log_to_version_spec:
  assumes "i_log_vfs_inode s = Some f" and "pages_ok f" and "0 \<le> version s" "version s < 2 ^ 31"
  shows "\<exists>l'. scorw_truncate_log_to_version s = Some (s\<lparr>i_log_vfs_inode := Some l'\<rparr>) \<and> log_ok l' \<and>
    log_records l' = takeWhile (\<lambda>r. int (version_num r) \<le> version s) (log_records f)"
  using truncated_log [OF assms] .

theorem truncate_log_to_version_spec_witness:
  "\<exists>l'. scorw_truncate_log_to_version (sample_inode\<lparr>version := 1\<rparr>) =
      Some (sample_inode\<lparr>version := 1, i_log_vfs_inode := Some l'\<rparr>) \<and> log_ok l' \<and>
    log_records l' = [make_record 1 0 5 2 0]"
proof -
  have p: "pages_ok sample_log" using sample_log_records(1) by (simp add: log_ok_def)
  from truncate_log_to_version_spec [of "sample_inode\<lparr>version := 1\<rparr>" sample_log] p show ?thesis
    by (simp add: sample_log_records sample_records_def make_record_def)
qed

text \<open>C9: recovery drops whole versions. In a log whose records have version numbers from 1 to
  \<open>2\<^sup>3\<^sup>1 - 1\<close> in ascending order it keeps a prefix whose last record has its blocks on the
  parent; if it drops anything, then the version it drops first has a record whose blocks never
  reached the parent, every record of that version is dropped, the inode and its attribute move
  to the version before it, and the parent is cut to the size that its original contents and the
  kept records account for. If the blocks of the last record are on the parent, log and version
  stay as they are.\<close>

theorem do_recovery_whole_versions:
  assumes "i_log_vfs_inode s = Some f" and "pages_ok f" and "i_size f = 0 \<or> RECORD_SIZE \<le> i_size f"
    and "sorted (map version_num (log_records f))"
    and "\<forall>r\<in>set (log_records f). 1 \<le> version_num r \<and> version_num r < 2 ^ 31"
  shows "\<exists>s' attr' l' n. scorw_do_recovery present s attr = (s', attr') \<and> i_log_vfs_inode s' = Some l' \<and>
    log_records l' = take n (log_records f) \<and> n \<le> length (log_records f) \<and>
    (n = 0 \<or> present (physical_start_blk (log_records f ! (n - 1)) mod 2 ^ 32) (len_blks (log_records f ! (n - 1)))) \<and>
    (if n < length (log_records f)
     then version s' = int (max 1 (version_num (log_records f ! n) - 1)) \<and> int attr' = version s' \<and>
       (\<forall>r\<in>set (log_records l'). version_num r < version_num (log_records f ! n)) \<and>
       (\<exists>r\<in>set (drop n (log_records f)). version_num r = version_num (log_records f ! n) \<and>
          \<not> present (physical_start_blk r mod 2 ^ 32) (len_blks r))
     else version s' = version s \<and> attr' = attr) \<and>
    (\<forall>r\<in>set (log_records l'). i_size (data s') = i_size (data s) \<or> rec_end r \<le> i_size (data s'))"
proof -
  let ?recs = "log_records f"
  obtain s' attr' l' n where r: "scorw_do_recovery present s attr = (s', attr')" "i_log_vfs_inode s' = Some l'"
    "log_records l' = take n ?recs" "n \<le> length ?recs" "n = 0 \<or> on_parent present (?recs ! (n - 1))"
    and v: "if n < length ?recs then version s' = int (max 1 (version_num (?recs ! n) - 1)) \<and> int attr' = version s' \<and>
        (0 < n \<longrightarrow> version_num (?recs ! (n - 1)) < version_num (?recs ! n)) \<and>
        (\<exists>r\<in>set (drop n ?recs). version_num r = version_num (?recs ! n) \<and> \<not> on_parent present r)
      else version s' = version s \<and> attr' = attr"
    and d: "i_size (data s') = (if ?recs = [] then i_size (data s)
      else min (i_size (data s)) (expected_size (orig_size s) (take n ?recs)))"
    using do_recovery_effect [OF assms(1-3) refl assms(4,5), of present attr] by blast
  have kept: "version_num r < version_num (?recs ! n)"
    if n: "n < length ?recs" and "r \<in> set (take n ?recs)" for r
  proof -
    from that(2) obtain i where i: "i < n" "r = ?recs ! i" using n by (auto simp: in_set_conv_nth)
    then have "version_num r \<le> version_num (?recs ! (n - 1))"
      using sorted_nth_mono [OF assms(4), of i "n - 1"] n by simp
    moreover have "version_num (?recs ! (n - 1)) < version_num (?recs ! n)" using v n i by auto
    ultimately show ?thesis by simp
  qed
  have "i_size (data s') = i_size (data s) \<or> rec_end r \<le> i_size (data s')" if "r \<in> set (take n ?recs)" for r
    using d expected_size_ge(2) [OF that, of "orig_size s"] by (auto simp: min_def split: if_splits)
  with r v kept show ?thesis unfolding on_parent_def
    by (rule_tac x = s' in exI, rule_tac x = attr' in exI, rule_tac x = l' in exI, rule_tac x = n in exI)
      (cases "n < length ?recs", simp_all)
qed

theorem do_recovery_whole_versions_witness:
  "\<exists>s' attr' l'. scorw_do_recovery (\<lambda>blk len. blk < 7) sample_inode 2 = (s', attr') \<and>
    i_log_vfs_inode s' = Some l' \<and> log_records l' = [make_record 1 0 5 2 0] \<and> version s' = 1 \<and> attr' = 1"
proof -
  let ?present = "\<lambda>blk len :: nat. blk < (7 :: nat)"
  have f: "pages_ok sample_log" "sorted (map version_num (log_records sample_log))"
    "\<forall>r\<in>set (log_records sample_log). 1 \<le> version_num r \<and> version_num r < 2 ^ 31" "log_records sample_log = sample_records"
    "length sample_records = 2"
    using sample_log_records by (auto simp: log_ok_def sample_records_def make_record_def)
  have z: "i_size sample_log = 0 \<or> RECORD_SIZE \<le> i_size sample_log"
    using f(5) length_log_records [of sample_log, unfolded f(4)] by (cases "i_size sample_log < RECORD_SIZE") auto
  from do_recovery_whole_versions [OF sample_inode_simps(3) f(1) z f(2,3), of ?present 2]
  obtain s' attr' l' n where r: "scorw_do_recovery ?present sample_inode 2 = (s', attr')" "i_log_vfs_inode s' = Some l'"
    "log_records l' = take n sample_records"
    "n \<le> 2" "n = 0 \<or> physical_start_blk (sample_records ! (n - 1)) mod 2 ^ 32 < 7"
    "if n < 2 then version s' = int (max 1 (version_num (sample_records ! n) - 1)) \<and> int attr' = version s' \<and>
       (\<forall>r\<in>set (log_records l'). version_num r < version_num (sample_records ! n)) \<and>
       (\<exists>r\<in>set (drop n sample_records). version_num r = version_num (sample_records ! n) \<and>
          \<not> physical_start_blk r mod 2 ^ 32 < 7)
     else version s' = version sample_inode \<and> attr' = 2"
    unfolding f(4) f(5) by blast
  consider "n = 0" | "n = 1" | "n = 2" using r(4) by linarith
  then show ?thesis
  proof cases
    case 1
    with r(6) show ?thesis by (simp add: sample_records_def make_record_def)
  next
    case 2
    with r show ?thesis by (intro exI [of _ s'] exI [of _ attr'] exI [of _ l']) (simp add: sample_records_def make_record_def)
  next
    case 3
    with r(5) show ?thesis by (simp add: sample_records_def make_record_def)
  qed
qed

text \<open>C12: opening a parent after a crash truncates the log to the committed version and then
  recovers. Whatever is left of the last writes, together they leave a prefix of the log
  that has no partial record and can be appended to, no record of it is later than the version
  of the inode, that version is not above the committed one, and inode and attribute agree.\<close>

theorem open_recovery_consistent:
  assumes "i_log_vfs_inode s = Some f" and "pages_ok f" and "1 \<le> version s" "version s < 2 ^ 31" "int attr = version s"
    and "sorted (map version_num (log_records f))" and "\<forall>r\<in>set (log_records f). 1 \<le> version_num r"
  shows "\<exists>s1 s' attr' l' n. scorw_truncate_log_to_version s = Some s1 \<and> scorw_do_recovery present s1 attr = (s', attr') \<and>
    i_log_vfs_inode s' = Some l' \<and> log_ok l' \<and> log_records l' = take n (log_records f) \<and>
    (\<forall>r\<in>set (log_records l'). int (version_num r) \<le> version s') \<and>
    1 \<le> version s' \<and> version s' \<le> version s \<and> int attr' = version s'"
proof -
  let ?recs = "takeWhile (\<lambda>r. int (version_num r) \<le> version s) (log_records f)"
  obtain l where l: "scorw_truncate_log_to_version s = Some (s\<lparr>i_log_vfs_inode := Some l\<rparr>)" "log_ok l" "log_records l = ?recs"
    using truncated_log [OF assms(1,2)] assms(3,4) by auto
  have so: "sorted (map version_num ?recs)" using assms(6) by (subst takeWhile_eq_take) (simp only: take_map [symmetric] sorted_wrt_take)
  have b: "1 \<le> version_num r \<and> version_num r < 2 ^ 31" "int (version_num r) \<le> version s" if "r \<in> set ?recs" for r
    using set_takeWhileD [OF that] assms(4,7) by auto
  obtain s' attr' l' n where r: "scorw_do_recovery present (s\<lparr>i_log_vfs_inode := Some l\<rparr>) attr = (s', attr')"
    "i_log_vfs_inode s' = Some l'" "pages_ok l'" "log_records l' = take n ?recs" "n \<le> length ?recs"
    "i_size l' = (if n < length ?recs then RECORD_SIZE * n else i_size l)"
    "\<forall>i<n. cache l' (RECORD_SIZE * i div PAGE_SIZE) \<noteq> None"
    and v: "if n < length ?recs then version s' = int (max 1 (version_num (?recs ! n) - 1)) \<and> int attr' = version s' \<and>
        (0 < n \<longrightarrow> version_num (?recs ! (n - 1)) < version_num (?recs ! n))
      else version s' = version s \<and> attr' = attr"
  proof -
    have h: "i_log_vfs_inode (s\<lparr>i_log_vfs_inode := Some l\<rparr>) = Some l" "pages_ok l" using l(2) by (simp_all add: log_ok_def)
    have "\<forall>r\<in>set ?recs. 1 \<le> version_num r \<and> version_num r < 2 ^ 31" using b(1) by blast
    from do_recovery_effect [OF h whole_log_size(2) [OF l(2)] l(3) [symmetric] so this, of present attr]
    obtain s' attr' l' n where *: "scorw_do_recovery present (s\<lparr>i_log_vfs_inode := Some l\<rparr>) attr = (s', attr')"
      "i_log_vfs_inode s' = Some l'" "pages_ok l'" "log_records l' = take n ?recs" "n \<le> length ?recs"
      "i_size l' = (if n < length ?recs then RECORD_SIZE * n else i_size l)"
      "\<forall>i<n. cache l' (RECORD_SIZE * i div PAGE_SIZE) \<noteq> None"
      "if n < length ?recs then version s' = int (max 1 (version_num (?recs ! n) - 1)) \<and> int attr' = version s' \<and>
        (0 < n \<longrightarrow> version_num (?recs ! (n - 1)) < version_num (?recs ! n)) \<and>
        (\<exists>r\<in>set (drop n ?recs). version_num r = version_num (?recs ! n) \<and> \<not> on_parent present r)
      else version s' = version (s\<lparr>i_log_vfs_inode := Some l\<rparr>) \<and> attr' = attr" by blast
    from that [OF *(1-7)] *(8) show ?thesis by (simp split: if_splits)
  qed
  have z: "i_size l' = RECORD_SIZE * n" using r(5,6) whole_log_size [OF l(2)] l(3) by auto
  have kept: "int (version_num r) \<le> version s'" if "r \<in> set (take n ?recs)" for r
  proof (cases "n < length ?recs")
    case True
    from that obtain i where i: "i < n" "r = ?recs ! i" using True by (auto simp: in_set_conv_nth)
    then have "version_num r \<le> version_num (?recs ! (n - 1))" using sorted_nth_mono [OF so, of i "n - 1"] True by simp
    with v True i show ?thesis by auto
  next
    case False
    with v b(2) that show ?thesis by (auto dest: in_set_takeD)
  qed
  have "1 \<le> version s' \<and> version s' \<le> version s \<and> int attr' = version s'"
    using v b(2) [of "?recs ! n"] assms(3,5) nth_mem [of n ?recs] by (cases "n < length ?recs") auto
  moreover have "log_ok l'" using appendable_log [OF r(3) z r(7)] .
  moreover have "take n ?recs = take (min n (length ?recs)) (log_records f)"
    by (metis takeWhile_eq_take take_take)
  ultimately show ?thesis using l(1) r(1,2,4) kept by metis
qed

theorem open_recovery_consistent_witness:
  "\<exists>s1 s' attr' l' n. scorw_truncate_log_to_version sample_inode = Some s1 \<and>
    scorw_do_recovery (\<lambda>blk len. blk < 7) s1 2 = (s', attr') \<and> i_log_vfs_inode s' = Some l' \<and> log_ok l' \<and>
    log_records l' = take n sample_records \<and> (\<forall>r\<in>set (log_records l'). int (version_num r) \<le> version s') \<and>
    1 \<le> version s' \<and> version s' \<le> 2 \<and> int attr' = version s'"
proof -
  have f: "pages_ok sample_log" "sorted (map version_num (log_records sample_log))"
    "\<forall>r\<in>set (log_records sample_log). 1 \<le> version_num r" "log_records sample_log = sample_records"
    using sample_log_records by (auto simp: log_ok_def sample_records_def make_record_def)
  from open_recovery_consistent [of sample_inode sample_log 2 "\<lambda>blk len. blk < 7"] f show ?thesis by simp
qed

end
