(* ===== verification/Extent_Entry.thy ===== *)
theory Extent_Entry
  imports Prelude
begin

unbundle bit_operations_syntax

text \<open>
  An entry of the extent status tree of an inode and its status bits
  (\<open>src/ext4-module/extents_status.h\<close>).
\<close>

section \<open>Entries\<close>

record extent_status =
  es_lblk :: nat
  es_len :: nat
  es_pblk :: "64 word"

definition ES_SHIFT :: nat where
  [simp]: "ES_SHIFT = 59"

definition ES_MASK :: "64 word" where
  "ES_MASK = push_bit ES_SHIFT (- 1)"

definition EXTENT_STATUS_WRITTEN :: "64 word" where
  "EXTENT_STATUS_WRITTEN = 1"

definition EXTENT_STATUS_UNWRITTEN :: "64 word" where
  "EXTENT_STATUS_UNWRITTEN = 2"

definition EXTENT_STATUS_DELAYED :: "64 word" where
  "EXTENT_STATUS_DELAYED = 4"

definition EXTENT_STATUS_HOLE :: "64 word" where
  "EXTENT_STATUS_HOLE = 8"

definition EXTENT_STATUS_REFERENCED :: "64 word" where
  "EXTENT_STATUS_REFERENCED = 16"

definition ES_TYPE_MASK :: "64 word" where
  "ES_TYPE_MASK = EXTENT_STATUS_WRITTEN OR EXTENT_STATUS_UNWRITTEN OR EXTENT_STATUS_DELAYED OR EXTENT_STATUS_HOLE"

definition EXT_MAX_BLOCKS :: nat where
  "EXT_MAX_BLOCKS = 2 ^ 32 - 1"

definition ext4_es_status :: "extent_status \<Rightarrow> 64 word" where
  "ext4_es_status es = drop_bit ES_SHIFT (es_pblk es)"

definition ext4_es_type :: "extent_status \<Rightarrow> 64 word" where
  "ext4_es_type es = drop_bit ES_SHIFT (es_pblk es) AND ES_TYPE_MASK"

definition ext4_es_is_written :: "extent_status \<Rightarrow> bool" where
  "ext4_es_is_written es \<longleftrightarrow> ext4_es_type es AND EXTENT_STATUS_WRITTEN \<noteq> 0"

definition ext4_es_is_unwritten :: "extent_status \<Rightarrow> bool" where
  "ext4_es_is_unwritten es \<longleftrightarrow> ext4_es_type es AND EXTENT_STATUS_UNWRITTEN \<noteq> 0"

definition ext4_es_is_delayed :: "extent_status \<Rightarrow> bool" where
  "ext4_es_is_delayed es \<longleftrightarrow> ext4_es_type es AND EXTENT_STATUS_DELAYED \<noteq> 0"

definition ext4_es_is_hole :: "extent_status \<Rightarrow> bool" where
  "ext4_es_is_hole es \<longleftrightarrow> ext4_es_type es AND EXTENT_STATUS_HOLE \<noteq> 0"

definition ext4_es_is_mapped :: "extent_status \<Rightarrow> bool" where
  "ext4_es_is_mapped es \<longleftrightarrow> ext4_es_is_written es \<or> ext4_es_is_unwritten es"

definition ext4_es_set_referenced :: "extent_status \<Rightarrow> extent_status" where
  "ext4_es_set_referenced es = es\<lparr>es_pblk := es_pblk es OR push_bit ES_SHIFT EXTENT_STATUS_REFERENCED\<rparr>"

definition ext4_es_clear_referenced :: "extent_status \<Rightarrow> extent_status" where
  "ext4_es_clear_referenced es = es\<lparr>es_pblk := es_pblk es AND NOT (push_bit ES_SHIFT EXTENT_STATUS_REFERENCED)\<rparr>"

definition ext4_es_is_referenced :: "extent_status \<Rightarrow> bool" where
  "ext4_es_is_referenced es \<longleftrightarrow> ext4_es_status es AND EXTENT_STATUS_REFERENCED \<noteq> 0"

definition ext4_es_pblock :: "extent_status \<Rightarrow> 64 word" where
  "ext4_es_pblock es = es_pblk es AND NOT ES_MASK"

definition ext4_es_store_pblock :: "extent_status \<Rightarrow> 64 word \<Rightarrow> extent_status" where
  "ext4_es_store_pblock es pb = es\<lparr>es_pblk := (pb AND NOT ES_MASK) OR (es_pblk es AND ES_MASK)\<rparr>"

definition ext4_es_store_pblock_status :: "extent_status \<Rightarrow> 64 word \<Rightarrow> 64 word \<Rightarrow> extent_status" where
  "ext4_es_store_pblock_status es pb status = es\<lparr>es_pblk := (push_bit ES_SHIFT status AND ES_MASK) OR (pb AND NOT ES_MASK)\<rparr>"

definition make_es :: "nat \<Rightarrow> nat \<Rightarrow> 64 word \<Rightarrow> 64 word \<Rightarrow> extent_status" where
  "make_es lblk len pblk status = ext4_es_store_pblock_status \<lparr>es_lblk = lblk, es_len = len, es_pblk = 0\<rparr> pblk status"

definition ext4_es_end :: "extent_status \<Rightarrow> nat option" where
  "ext4_es_end es = (if (es_lblk es + es_len es) mod 2 ^ 32 < es_lblk es then None
     else Some ((es_lblk es + es_len es + 2 ^ 32 - 1) mod 2 ^ 32))"

definition ext4_es_must_keep :: "extent_status \<Rightarrow> bool" where
  "ext4_es_must_keep es = ext4_es_is_delayed es"

definition ext4_es_can_be_merged :: "extent_status \<Rightarrow> extent_status \<Rightarrow> bool" where
  "ext4_es_can_be_merged es1 es2 =
     (if ext4_es_type es1 \<noteq> ext4_es_type es2 then False
      else if EXT_MAX_BLOCKS < es_len es1 + es_len es2 then False
      else if es_lblk es1 + es_len es1 \<noteq> es_lblk es2 then False
      else if (ext4_es_is_written es1 \<or> ext4_es_is_unwritten es1) \<and>
              ext4_es_pblock es1 + of_nat (es_len es1) = ext4_es_pblock es2 then True
      else if ext4_es_is_hole es1 then True
      else ext4_es_is_delayed es1)"

end
