(* ===== verification/Friend_Bitmap.thy ===== *)
theory Friend_Bitmap
  imports Page_Cache Extent_Entry
begin

unbundle bit_operations_syntax

text \<open>
  The friend file of a child: one bit per block of the snapshot, set when the
  child has its own copy of the block. Reading and setting a bit, the creation
  of the file, and its reconstruction from the extents of the child after a
  crash. Source: \<open>src/ext4-module/corw_sparse.c\<close>.
\<close>

section \<open>Reading and setting a bit\<close>

text \<open>\<open>scorw_set_bit\<close>; a bit number above 7 is a \<open>BUG_ON\<close>.\<close>

definition scorw_set_bit :: "nat \<Rightarrow> byte \<Rightarrow> byte option" where
  "scorw_set_bit bitnum p = (if 7 < bitnum then None else Some (p OR push_bit bitnum 1))"

text \<open>\<open>scorw_is_block_copied\<close>: the bit in its place in the byte, or -1 when the page
  cannot be obtained. \<open>byte_value\<close> is a signed \<open>char\<close>; masking it with one bit
  of the lower eight gives the same as masking the byte.\<close>

definition scorw_is_block_copied :: "kenv \<Rightarrow> file \<Rightarrow> nat \<Rightarrow> int \<times> file" where
  "scorw_is_block_copied e f blk_num =
     (case scorw_get_page e f (blk_num div PAGE_BLOCKS) of
        (None, f1) \<Rightarrow> (- 1, f1)
      | (Some p, f1) \<Rightarrow>
          let b = blk_num mod PAGE_BLOCKS; byte_num = b div 8; bit_num = b mod 8
          in (int (unat (p byte_num AND push_bit bit_num 1)), f1))"

text \<open>\<open>scorw_set_block_copied\<close>: a missing page is only reported and then used, and
  a page that cannot be prepared is a \<open>BUG_ON\<close>.\<close>

definition scorw_set_block_copied :: "kenv \<Rightarrow> file \<Rightarrow> nat \<Rightarrow> file option" where
  "scorw_set_block_copied e f blk_num =
     (case scorw_get_page e f (blk_num div PAGE_BLOCKS) of
        (None, f1) \<Rightarrow> None
      | (Some p, f1) \<Rightarrow>
          if \<not> begin_ok e (blk_num div PAGE_BLOCKS) then None
          else
            let b = blk_num mod PAGE_BLOCKS; byte_num = b div 8; bit_num = b mod 8
            in map_option (\<lambda>x. put_dirty f1 (blk_num div PAGE_BLOCKS) (p(byte_num := x)))
                 (scorw_set_bit bit_num (p byte_num)))"

section \<open>Creating the file\<close>

text \<open>\<open>scorw_create_zero_page\<close>: whether it succeeded, and the file.\<close>

definition scorw_create_zero_page :: "kenv \<Rightarrow> page \<Rightarrow> file \<Rightarrow> nat \<Rightarrow> bool \<times> file" where
  "scorw_create_zero_page e junk f lblk =
     (case write_begin e junk f (lblk * PAGE_SIZE) PAGE_SIZE of
        None \<Rightarrow> (False, f)
      | Some _ \<Rightarrow> (True, write_end f lblk (lblk * PAGE_SIZE) PAGE_SIZE zero_page))"

text \<open>The number of pages, an \<open>unsigned\<close>: one bit per block of the snapshot.\<close>

definition friend_pages :: "nat \<Rightarrow> nat" where
  "friend_pages child_copy_size =
     (if child_copy_size mod (PAGE_BLOCKS * PAGE_SIZE) = 0
      then child_copy_size div (PAGE_BLOCKS * PAGE_SIZE)
      else child_copy_size div (PAGE_BLOCKS * PAGE_SIZE) + 1) mod 2 ^ 32"

definition zero_friend_pages :: "kenv \<Rightarrow> page \<Rightarrow> nat \<Rightarrow> file \<Rightarrow> file" where
  "zero_friend_pages e junk n f = fold (\<lambda>i f. snd (scorw_create_zero_page e junk f i)) [0..<n] f"

definition scorw_init_friend_file :: "kenv \<Rightarrow> page \<Rightarrow> file \<Rightarrow> nat \<Rightarrow> file" where
  "scorw_init_friend_file e junk f child_copy_size =
     (if i_size f = 0 then zero_friend_pages e junk (friend_pages child_copy_size) f else f)"

section \<open>Rebuilding the file\<close>

text \<open>The 64 bit little-endian word at \<open>base\<close> is or-ed with \<open>v\<close>.\<close>

definition or_8bytes :: "page \<Rightarrow> nat \<Rightarrow> 64 word \<Rightarrow> page" where
  "or_8bytes p base v =
     (\<lambda>i. if base \<le> i \<and> i < base + 8 then p i OR ucast (drop_bit (8 * (i - base)) v) else p i)"

text \<open>\<open>scorw_set_block_copied_8bytes\<close>. \<open>start_blk\<close> is reduced before the position is
  computed a second time, so \<open>write_end\<close> is always told position 0.\<close>

definition scorw_set_block_copied_8bytes :: "kenv \<Rightarrow> page \<Rightarrow> file \<Rightarrow> nat \<Rightarrow> 64 word \<Rightarrow> file" where
  "scorw_set_block_copied_8bytes e junk f start_blk value_8bytes =
     (let i = start_blk div PAGE_BLOCKS in
      case write_begin e junk f (i * PAGE_SIZE) PAGE_SIZE of
        None \<Rightarrow> f
      | Some p \<Rightarrow>
          let b = start_blk mod PAGE_BLOCKS; which_8bytes = b div 64
          in write_end f i (b div PAGE_BLOCKS * PAGE_SIZE) PAGE_SIZE
               (or_8bytes p (which_8bytes * 8) value_8bytes))"

definition copy_mask :: "nat \<Rightarrow> nat \<Rightarrow> 64 word" where
  "copy_mask a n = fold (\<lambda>copy_bit v. v OR push_bit copy_bit 1) [a..<a + n] 0"

text \<open>The loop over the blocks of one extent.\<close>

function rebuild_extent :: "kenv \<Rightarrow> page \<Rightarrow> nat \<Rightarrow> nat \<Rightarrow> file \<Rightarrow> file" where
  "rebuild_extent e junk start_blk pending_extent_blks f =
     (if pending_extent_blks = 0 then f
      else
        let num_bits_to_process =
              (if 64 - start_blk mod 64 < pending_extent_blks then 64 - start_blk mod 64
               else pending_extent_blks)
        in rebuild_extent e junk (start_blk + num_bits_to_process)
             (pending_extent_blks - num_bits_to_process)
             (scorw_set_block_copied_8bytes e junk f start_blk
                (copy_mask (start_blk mod 64) num_bits_to_process)))"
  by pat_completeness auto

termination
  by (relation "measure (\<lambda>(e, junk, start, pending, f). pending)") (auto simp: Let_def)

declare rebuild_extent.simps [simp del]

definition es_has_blocks :: "extent_status \<Rightarrow> bool" where
  "es_has_blocks es \<longleftrightarrow> ext4_es_status es AND EXTENT_STATUS_WRITTEN \<noteq> 0 \<or> ext4_es_status es AND EXTENT_STATUS_UNWRITTEN \<noteq> 0 \<or>
     ext4_es_status es AND EXTENT_STATUS_DELAYED \<noteq> 0"

text \<open>\<open>scorw_rebuild_friend_file\<close> over the extent status tree of the child, in tree
  order.\<close>

definition scorw_rebuild_friend_file :: "kenv \<Rightarrow> page \<Rightarrow> extent_status list \<Rightarrow> file \<Rightarrow> file" where
  "scorw_rebuild_friend_file e junk tree f =
     fold (\<lambda>es f. if es_has_blocks es then rebuild_extent e junk (es_lblk es) (es_len es) f else f) tree f"

definition scorw_recover_friend_file ::
    "kenv \<Rightarrow> page \<Rightarrow> extent_status list \<Rightarrow> file \<Rightarrow> nat \<Rightarrow> file" where
  "scorw_recover_friend_file e junk tree f child_copy_size =
     scorw_rebuild_friend_file e junk tree (zero_friend_pages e junk (friend_pages child_copy_size) f)"

section \<open>The bits of a friend file\<close>

definition copied :: "file \<Rightarrow> nat \<Rightarrow> bool" where
  "copied f blk = (case view f (blk div PAGE_BLOCKS) of
     None \<Rightarrow> False
   | Some p \<Rightarrow> bit (p (blk mod PAGE_BLOCKS div 8)) (blk mod PAGE_BLOCKS mod 8))"

text \<open>A friend file of \<open>n\<close> pages: they lie below its size and can be read.\<close>

definition friend_ok :: "nat \<Rightarrow> file \<Rightarrow> bool" where
  "friend_ok n f \<longleftrightarrow> n * PAGE_SIZE \<le> i_size f \<and> (\<forall>i<n. view f i \<noteq> None)"

lemma block_position:
  fixes b c :: nat
  assumes "b div PAGE_BLOCKS = c div PAGE_BLOCKS"
    and "b mod PAGE_BLOCKS div 8 = c mod PAGE_BLOCKS div 8"
    and "b mod PAGE_BLOCKS mod 8 = c mod PAGE_BLOCKS mod 8"
  shows "b = c"
  using assms by (metis div_mult_mod_eq)

lemma friend_page_inside:
  assumes "friend_ok n f" and "i < n"
  shows "i < i_size f div PAGE_SIZE"
proof -
  have "Suc i * PAGE_SIZE \<le> n * PAGE_SIZE" using assms(2) by (intro mult_le_mono1) simp
  with assms(1) have "Suc i * PAGE_SIZE \<le> i_size f" by (simp add: friend_ok_def)
  then show ?thesis by (simp add: less_eq_div_iff_mult_less_eq Suc_le_eq [symmetric] del: mult_Suc)
qed

lemma friend_get_page:
  assumes "friend_ok n f" and "i < n" and "alloc_page_ok e i"
  shows "\<exists>p f1. scorw_get_page e f i = (Some p, f1) \<and> view f i = Some p \<and> same_view f f1"
  using assms friend_page_inside [OF assms(1,2)]
  by (cases "cache f i"; cases "disk f i")
    (auto simp: scorw_get_page_def friend_ok_def same_view_def view_def split: option.splits)

lemma friend_ok_same_view: "same_view f g \<Longrightarrow> friend_ok n g = friend_ok n f"
  by (simp add: friend_ok_def same_viewD)

lemma copied_same_view: "same_view f g \<Longrightarrow> copied g b = copied f b"
  by (simp add: copied_def same_viewD)

lemma copied_put:
  assumes "view f i = Some p"
  shows "copied (put_dirty f i q) b =
    (if b div PAGE_BLOCKS = i then bit (q (b mod PAGE_BLOCKS div 8)) (b mod PAGE_BLOCKS mod 8) else copied f b)"
  by (simp add: copied_def)

lemma and_power_eq_0:
  fixes x :: byte
  assumes "n < 8"
  shows "uint (x AND 2 ^ n) = 0 \<longleftrightarrow> \<not> bit x n"
proof -
  have "x AND 2 ^ n = (if bit x n then 2 ^ n else 0)"
    by (rule bit_word_eqI) (auto simp: bit_simps)
  moreover have "bit (2 ^ n :: byte) n" using assms by (simp add: bit_exp_iff)
  then have "(2 ^ n :: byte) \<noteq> 0" by (metis bit_0_eq bot_apply bot_bool_def)
  ultimately show ?thesis by (metis uint_0_iff)
qed

text \<open>Reading a bit returns it, and leaves the file's contents alone.\<close>

lemma is_block_copied_ok:
  assumes "friend_ok n f" and "b < n * PAGE_BLOCKS" and "pages_env_ok e"
  shows "\<exists>r f'. scorw_is_block_copied e f b = (r, f') \<and> 0 \<le> r \<and> (r \<noteq> 0 \<longleftrightarrow> copied f b) \<and> same_view f f'"
proof -
  have i: "b div PAGE_BLOCKS < n" using assms(2) by (simp add: less_mult_imp_div_less)
  obtain p f1 where "scorw_get_page e f (b div PAGE_BLOCKS) = (Some p, f1)" "view f (b div PAGE_BLOCKS) = Some p"
    "same_view f f1" using friend_get_page [OF assms(1) i pages_env_okD(1) [OF assms(3)]] by blast
  then show ?thesis
    by (simp add: scorw_is_block_copied_def Let_def copied_def and_power_eq_0 del: PAGE_BLOCKS_def)
qed

text \<open>Setting a bit sets this bit and no other.\<close>

lemma set_block_copied_ok:
  assumes "friend_ok n f" and "b < n * PAGE_BLOCKS" and "pages_env_ok e"
  shows "\<exists>f'. scorw_set_block_copied e f b = Some f' \<and> friend_ok n f' \<and> i_size f' = i_size f \<and>
    (\<forall>c. copied f' c \<longleftrightarrow> c = b \<or> copied f c)"
proof -
  let ?i = "b div PAGE_BLOCKS" and ?by = "b mod PAGE_BLOCKS div 8" and ?bi = "b mod PAGE_BLOCKS mod 8"
  have i: "?i < n" using assms(2) by (simp add: less_mult_imp_div_less)
  obtain p f1 where g: "scorw_get_page e f ?i = (Some p, f1)" "view f ?i = Some p" "same_view f f1"
    using friend_get_page [OF assms(1) i pages_env_okD(1) [OF assms(3)]] by blast
  have bi: "?bi < 8" by simp
  let ?q = "p(?by := p ?by OR push_bit ?bi 1)"
  have run: "scorw_set_block_copied e f b = Some (put_dirty f1 ?i ?q)"
    using g(1) bi pages_env_okD(2) [OF assms(3)]
    by (simp add: scorw_set_block_copied_def Let_def scorw_set_bit_def del: PAGE_BLOCKS_def)
  have c: "copied (put_dirty f1 ?i ?q) c \<longleftrightarrow> c = b \<or> copied f c" for c
  proof (cases "c div PAGE_BLOCKS = ?i")
    case True
    have fc: "copied f c = bit (p (c mod PAGE_BLOCKS div 8)) (c mod PAGE_BLOCKS mod 8)"
      using True g(2) by (simp add: copied_def del: PAGE_BLOCKS_def)
    have "bit (p ?by OR push_bit ?bi 1) j \<longleftrightarrow> bit (p ?by) j \<or> j = ?bi" for j
      using bi by (auto simp: bit_simps)
    then show ?thesis
      using True fc block_position [of c b] by (auto simp: copied_def simp del: PAGE_BLOCKS_def)
  next
    case False
    then have "c \<noteq> b" by blast
    with False g(3) show ?thesis by (simp add: copied_def same_viewD del: PAGE_BLOCKS_def)
  qed
  moreover have "friend_ok n (put_dirty f1 ?i ?q)"
    using assms(1) g(3) by (simp add: friend_ok_def same_viewD del: PAGE_BLOCKS_def)
  moreover have "i_size (put_dirty f1 ?i ?q) = i_size f" using g(3) by (simp add: same_viewD)
  ultimately show ?thesis using run by (intro exI [of _ "put_dirty f1 ?i ?q"]) blast
qed

section \<open>The contract of a bitmap\<close>

text \<open>What the write paths rely on: bits below a limit that can be set one at a
  time.\<close>

locale copy_bits =
  fixes ok :: "'s \<Rightarrow> bool" and limit :: nat and bit_of :: "'s \<Rightarrow> nat \<Rightarrow> bool" and set_bit_of :: "'s \<Rightarrow> nat \<Rightarrow> 's option"
  assumes set_one: "ok s \<Longrightarrow> b < limit \<Longrightarrow>
    \<exists>s'. set_bit_of s b = Some s' \<and> ok s' \<and> (\<forall>c. bit_of s' c \<longleftrightarrow> c = b \<or> bit_of s c)"
begin

text \<open>Setting the bits of a list of blocks, in any order and with repetitions, adds
  these blocks to the copied ones.\<close>

lemma set_all:
  assumes "ok s" and "\<forall>b\<in>set bs. b < limit"
  shows "\<exists>s'. ofold set_bit_of bs s = Some s' \<and> ok s' \<and> (\<forall>c. bit_of s' c \<longleftrightarrow> c \<in> set bs \<or> bit_of s c)"
  using assms
proof (induction bs arbitrary: s)
  case (Cons b bs)
  then obtain s1 where s1: "set_bit_of s b = Some s1" "ok s1" "\<forall>c. bit_of s1 c \<longleftrightarrow> c = b \<or> bit_of s c"
    using set_one [of s b] by auto
  from Cons.IH [OF s1(2)] Cons.prems(2) s1 show ?case by auto
qed simp

end

interpretation friend: copy_bits "\<lambda>f. friend_ok n f \<and> pages_env_ok e" "n * PAGE_BLOCKS" copied "scorw_set_block_copied e"
  for n e
  using set_block_copied_ok by unfold_locales blast

section \<open>Creating and rebuilding\<close>

lemma zero_friend_pages_ok:
  assumes "pages_env_ok e"
  shows "cache (zero_friend_pages e junk n f) i = (if i < n then Some zero_page else cache f i)"
    and "i_size (zero_friend_pages e junk n f) = max (i_size f) (n * PAGE_SIZE)"
proof -
  have "cache (zero_friend_pages e junk n f) i = (if i < n then Some zero_page else cache f i) \<and>
    i_size (zero_friend_pages e junk n f) = max (i_size f) (n * PAGE_SIZE)"
  proof (induction n)
    case (Suc n)
    let ?f = "zero_friend_pages e junk n f"
    have "scorw_create_zero_page e junk ?f n = (True, write_end ?f n (n * PAGE_SIZE) PAGE_SIZE zero_page)"
      using pages_env_okD(2) [OF assms] by (simp add: scorw_create_zero_page_def write_begin_def split: option.splits)
    then have "zero_friend_pages e junk (Suc n) f = write_end ?f n (n * PAGE_SIZE) PAGE_SIZE zero_page"
      by (simp add: zero_friend_pages_def)
    with Suc show ?case by (simp add: write_end_def put_dirty_def)
  qed (simp add: zero_friend_pages_def)
  then show "cache (zero_friend_pages e junk n f) i = (if i < n then Some zero_page else cache f i)"
    "i_size (zero_friend_pages e junk n f) = max (i_size f) (n * PAGE_SIZE)" by blast+
qed

lemma zero_friend_pages_bits:
  assumes "pages_env_ok e" and "b < n * PAGE_BLOCKS"
  shows "\<not> copied (zero_friend_pages e junk n f) b"
proof -
  have "b div PAGE_BLOCKS < n" using assms(2) by (simp add: less_mult_imp_div_less)
  then show ?thesis using zero_friend_pages_ok(1) [OF assms(1), of junk n f "b div PAGE_BLOCKS"]
    by (simp add: copied_def view_def zero_page_def del: PAGE_BLOCKS_def)
qed

lemma bit_copy_mask: "a + n \<le> 64 \<Longrightarrow> bit (copy_mask a n) j \<longleftrightarrow> a \<le> j \<and> j < a + n"
proof (induction n)
  case (Suc n)
  then show ?case by (auto simp: copy_mask_def bit_simps)
qed (simp add: copy_mask_def)

lemma bit_or_8bytes:
  "bit (or_8bytes p (w * 8) v (k div 8)) (k mod 8) \<longleftrightarrow>
   bit (p (k div 8)) (k mod 8) \<or> (k div 64 = w \<and> bit v (k mod 64))"
proof -
  define a c where "a = k div 8" and "c = k mod 8"
  have k: "k = 8 * a + c" "c < 8" by (simp_all add: a_def c_def)
  have q: "k div 64 = a div 8" unfolding a_def by (simp add: div_mult2_eq [symmetric])
  have m: "k mod 64 = 8 * (a mod 8) + c" using k(2) mod_mult2_eq [of k 8 8] by (simp add: a_def c_def)
  have "w * 8 \<le> a \<and> a < w * 8 + 8 \<longleftrightarrow> a div 8 = w" by auto
  moreover have "a div 8 = w \<Longrightarrow> 8 * (a - w * 8) + c = 8 * (a mod 8) + c"
    by (metis minus_div_mult_eq_mod)
  ultimately show ?thesis using k(2) unfolding a_def [symmetric] c_def [symmetric] q m
    by (auto simp: or_8bytes_def bit_simps add.commute)
qed

lemma same_word:
  fixes b c :: nat
  shows "b div PAGE_BLOCKS = c div PAGE_BLOCKS \<and> b mod PAGE_BLOCKS div 64 = c mod PAGE_BLOCKS div 64 \<longleftrightarrow>
    b div 64 = c div 64"
proof -
  have p: "x div PAGE_BLOCKS = x div 64 div 512" "x mod PAGE_BLOCKS div 64 = x div 64 mod 512" for x :: nat
    using mod_mult2_eq [of x 64 512] by (simp_all add: div_mult2_eq [symmetric])
  show ?thesis unfolding p by (metis div_mult_mod_eq)
qed

lemma inside_word:
  fixes b s m :: nat
  assumes "s mod 64 + m \<le> 64"
  shows "b div 64 = s div 64 \<and> s mod 64 \<le> b mod 64 \<and> b mod 64 < s mod 64 + m \<longleftrightarrow> s \<le> b \<and> b < s + m"
proof -
  have s: "s div 64 * 64 + s mod 64 = s" and b: "b div 64 * 64 + b mod 64 = b" by simp_all
  have "b div 64 = s div 64" if "s \<le> b" "b < s + m"
  proof -
    define a r where "a = s div 64" and "r = s mod 64"
    have "64 * a + r = s" "r + m \<le> 64" using s assms by (simp_all add: a_def r_def)
    with that have "64 * a \<le> b" "b < 64 * Suc a" by simp_all
    then show ?thesis unfolding a_def by (rule div_nat_eqI)
  qed
  moreover have "(s \<le> b \<longleftrightarrow> s mod 64 \<le> b mod 64) \<and> (b < s + m \<longleftrightarrow> b mod 64 < s mod 64 + m)" if "b div 64 = s div 64"
  proof -
    define a r t where "a = s div 64" and "r = s mod 64" and "t = b mod 64"
    have "s = a * 64 + r" "b = a * 64 + t" using s b that by (metis a_def r_def, metis a_def t_def)
    then show ?thesis unfolding r_def [symmetric] t_def [symmetric] by simp
  qed
  ultimately show ?thesis by blast
qed

text \<open>Or-ing a mask into a word sets the bits of the mask. A page that is not cached
  is not read first, so this holds for the bits of cached pages.\<close>

lemma set_8bytes_ok:
  assumes "pages_env_ok e" and "\<forall>i<n. cache f i \<noteq> None" and "PAGE_SIZE \<le> i_size f"
    and "s mod 64 + m \<le> 64"
  shows "\<exists>q. scorw_set_block_copied_8bytes e junk f s (copy_mask (s mod 64) m) = put_dirty f (s div PAGE_BLOCKS) q \<and>
    (\<forall>b < n * PAGE_BLOCKS. copied (put_dirty f (s div PAGE_BLOCKS) q) b \<longleftrightarrow> copied f b \<or> (s \<le> b \<and> b < s + m))"
proof -
  let ?i = "s div PAGE_BLOCKS"
  define p where "p = (case cache f ?i of Some p \<Rightarrow> p | None \<Rightarrow> junk)"
  let ?q = "or_8bytes p (s mod PAGE_BLOCKS div 64 * 8) (copy_mask (s mod 64) m)"
  have "s mod PAGE_BLOCKS div PAGE_BLOCKS = 0" by simp
  then have run: "scorw_set_block_copied_8bytes e junk f s (copy_mask (s mod 64) m) = put_dirty f ?i ?q"
    using assms(3) pages_env_okD(2) [OF assms(1)]
    by (simp add: scorw_set_block_copied_8bytes_def write_begin_def write_end_def put_dirty_def Let_def max_def p_def
        split: option.splits del: PAGE_BLOCKS_def)
  have m64: "b mod PAGE_BLOCKS mod 64 = b mod 64" for b :: nat by (simp add: mod_mod_cancel)
  have "copied (put_dirty f ?i ?q) b \<longleftrightarrow> copied f b \<or> (s \<le> b \<and> b < s + m)" if "b < n * PAGE_BLOCKS" for b
  proof (cases "b div PAGE_BLOCKS = ?i")
    case True
    have "b div PAGE_BLOCKS < n" using that by (rule less_mult_imp_div_less)
    then have fc: "copied f b = bit (p (b mod PAGE_BLOCKS div 8)) (b mod PAGE_BLOCKS mod 8)"
      using True assms(2) by (auto simp: copied_def view_def p_def simp del: PAGE_BLOCKS_def)
    have "copied (put_dirty f ?i ?q) b = bit (?q (b mod PAGE_BLOCKS div 8)) (b mod PAGE_BLOCKS mod 8)"
      using True by (simp add: copied_def del: PAGE_BLOCKS_def)
    also have "\<dots> \<longleftrightarrow> copied f b \<or> (b mod PAGE_BLOCKS div 64 = s mod PAGE_BLOCKS div 64 \<and>
        s mod 64 \<le> b mod 64 \<and> b mod 64 < s mod 64 + m)"
      unfolding bit_or_8bytes fc bit_copy_mask [OF assms(4)] m64 ..
    finally show ?thesis using True same_word [of b s] inside_word [OF assms(4), of b] by blast
  next
    case False
    then have "\<not> (s \<le> b \<and> b < s + m)" using same_word [of b s] inside_word [OF assms(4), of b] by blast
    with False show ?thesis by (auto simp: copied_def simp del: PAGE_BLOCKS_def)
  qed
  with run show ?thesis by blast
qed

lemma rebuild_extent_ok:
  assumes "pages_env_ok e" and "\<forall>i<n. cache f i \<noteq> None" and "PAGE_SIZE \<le> i_size f"
  shows "(\<forall>i<n. cache (rebuild_extent e junk s k f) i \<noteq> None) \<and> i_size (rebuild_extent e junk s k f) = i_size f \<and>
    (\<forall>b < n * PAGE_BLOCKS. copied (rebuild_extent e junk s k f) b \<longleftrightarrow> copied f b \<or> (s \<le> b \<and> b < s + k))"
  using assms(2-)
proof (induction k arbitrary: s f rule: less_induct)
  case (less k)
  show ?case
  proof (cases "k = 0")
    case True
    then show ?thesis using less.prems by (auto simp: rebuild_extent.simps)
  next
    case False
    define m where "m = (if 64 - s mod 64 < k then 64 - s mod 64 else k)"
    have "s mod 64 < 64" by simp
    then have m: "0 < m" "m \<le> k" "s mod 64 + m \<le> 64" using False by (auto simp: m_def)
    from set_8bytes_ok [OF assms(1) less.prems m(3)] obtain q where
      q: "scorw_set_block_copied_8bytes e junk f s (copy_mask (s mod 64) m) = put_dirty f (s div PAGE_BLOCKS) q"
      "\<forall>b < n * PAGE_BLOCKS. copied (put_dirty f (s div PAGE_BLOCKS) q) b \<longleftrightarrow> copied f b \<or> (s \<le> b \<and> b < s + m)" by blast
    let ?g = "put_dirty f (s div PAGE_BLOCKS) q"
    have step: "rebuild_extent e junk s k f = rebuild_extent e junk (s + m) (k - m) ?g"
      using False q(1) by (subst rebuild_extent.simps) (simp add: m_def [symmetric] Let_def)
    have "k - m < k" using m False by simp
    moreover have "\<forall>i<n. cache ?g i \<noteq> None" "PAGE_SIZE \<le> i_size ?g"
      using less.prems(1,2) by (auto simp: put_dirty_def)
    ultimately have "(\<forall>i<n. cache (rebuild_extent e junk (s + m) (k - m) ?g) i \<noteq> None) \<and>
      i_size (rebuild_extent e junk (s + m) (k - m) ?g) = i_size ?g \<and>
      (\<forall>b < n * PAGE_BLOCKS. copied (rebuild_extent e junk (s + m) (k - m) ?g) b \<longleftrightarrow>
        copied ?g b \<or> (s + m \<le> b \<and> b < s + m + (k - m)))"
      using less.IH by blast
    then show ?thesis unfolding step using q(2) m by auto
  qed
qed

lemma rebuild_friend_file_ok:
  assumes "pages_env_ok e" and "\<forall>i<n. cache f i \<noteq> None" and "PAGE_SIZE \<le> i_size f"
  shows "(\<forall>i<n. cache (scorw_rebuild_friend_file e junk tree f) i \<noteq> None) \<and>
    i_size (scorw_rebuild_friend_file e junk tree f) = i_size f \<and>
    (\<forall>b < n * PAGE_BLOCKS. copied (scorw_rebuild_friend_file e junk tree f) b \<longleftrightarrow> copied f b \<or>
       (\<exists>es\<in>set tree. es_has_blocks es \<and> es_lblk es \<le> b \<and> b < es_lblk es + es_len es))"
  using assms(2-)
proof (induction tree arbitrary: f)
  case (Cons es tree)
  let ?g = "if es_has_blocks es then rebuild_extent e junk (es_lblk es) (es_len es) f else f"
  have "(\<forall>i<n. cache ?g i \<noteq> None) \<and> i_size ?g = i_size f \<and>
    (\<forall>b < n * PAGE_BLOCKS. copied ?g b \<longleftrightarrow> copied f b \<or> (es_has_blocks es \<and> es_lblk es \<le> b \<and> b < es_lblk es + es_len es))"
    using rebuild_extent_ok [OF assms(1) Cons.prems(1,2), where s = "es_lblk es" and k = "es_len es" and junk = junk] Cons.prems by simp
  moreover from this have "PAGE_SIZE \<le> i_size ?g" using Cons.prems(2) by linarith
  moreover have "scorw_rebuild_friend_file e junk (es # tree) f = scorw_rebuild_friend_file e junk tree ?g"
    by (simp add: scorw_rebuild_friend_file_def)
  ultimately show ?case using Cons.IH [of ?g] by auto
qed (simp add: scorw_rebuild_friend_file_def)

lemma friend_pages_cover:
  assumes "sz < 2 ^ 58" and "b * PAGE_SIZE < sz"
  shows "b < friend_pages sz * PAGE_BLOCKS"
proof -
  let ?u = "PAGE_BLOCKS * PAGE_SIZE"
  have u: "0 < ?u" "?u = 2 ^ 27" by simp_all
  define q r where "q = sz div ?u" and "r = sz mod ?u"
  have sz: "sz = q * ?u + r" by (simp add: q_def r_def)
  have "q < 2 ^ 31" unfolding q_def u(2) using assms(1) by (intro less_mult_imp_div_less) simp
  then have fp: "friend_pages sz = (if r = 0 then q else q + 1)"
    unfolding friend_pages_def q_def [symmetric] r_def [symmetric] by simp
  have "r < ?u" unfolding r_def using u(1) by (intro mod_less_divisor)
  then have "sz \<le> friend_pages sz * ?u" unfolding fp using sz by (auto simp del: PAGE_BLOCKS_def)
  with assms(2) have "b * PAGE_SIZE < friend_pages sz * PAGE_BLOCKS * PAGE_SIZE" by (simp add: mult.assoc)
  then show ?thesis by (simp only: mult_less_cancel2)
qed

text \<open>After recovery the copy bits are exactly the blocks the tree says the child has: the bit of
  a block of the snapshot is set if and only if an entry that is written, unwritten or
  delayed covers it, whatever the friend file held before.\<close>

lemma recover_friend_file_exact:
  assumes "pages_env_ok e" and "sz < 2 ^ 58" and "b * PAGE_SIZE < sz"
  shows "\<exists>r f'. scorw_is_block_copied e (scorw_recover_friend_file e junk tree f sz) b = (r, f') \<and>
    (r \<noteq> 0 \<longleftrightarrow> (\<exists>es\<in>set tree. es_has_blocks es \<and>
       es_lblk es \<le> b \<and> b < es_lblk es + es_len es))"
proof -
  define n where "n = friend_pages sz"
  let ?z = "zero_friend_pages e junk n f" and ?f = "scorw_recover_friend_file e junk tree f sz"
  have b: "b < n * PAGE_BLOCKS" unfolding n_def by (rule friend_pages_cover [OF assms(2,3)])
  then have "1 \<le> n" by (cases n) simp_all
  then have z: "\<forall>i<n. cache ?z i \<noteq> None" "PAGE_SIZE \<le> i_size ?z" "n * PAGE_SIZE \<le> i_size ?z"
    using zero_friend_pages_ok [OF assms(1), of junk n f] by (simp_all add: le_max_iff_disj)
  have f: "?f = scorw_rebuild_friend_file e junk tree ?z" by (simp add: scorw_recover_friend_file_def n_def)
  have r: "\<forall>i<n. cache ?f i \<noteq> None" "i_size ?f = i_size ?z"
    "copied ?f b \<longleftrightarrow> (\<exists>es\<in>set tree. es_has_blocks es \<and> es_lblk es \<le> b \<and> b < es_lblk es + es_len es)"
    using rebuild_friend_file_ok [OF assms(1) z(1,2), of junk tree] b zero_friend_pages_bits [OF assms(1) b]
    unfolding f by blast+
  have "friend_ok n ?f" using r(1,2) z(3) by (auto simp: friend_ok_def view_def split: option.splits)
  from is_block_copied_ok [OF this b assms(1)] r(3) show ?thesis by auto
qed

section \<open>Properties\<close>

text \<open>C22: a fresh friend file says that no block is copied; setting the bits of any
  blocks of the snapshot, in any order, never fails and makes exactly these
  blocks copied.\<close>

theorem friend_bits_roundtrip:
  assumes "pages_env_ok e" and "sz < 2 ^ 58" and "i_size f = 0" and "\<forall>b\<in>set bs. b * PAGE_SIZE < sz"
    and "c * PAGE_SIZE < sz"
  shows "\<exists>f' r f''. ofold (scorw_set_block_copied e) bs (scorw_init_friend_file e junk f sz) = Some f' \<and>
    scorw_is_block_copied e f' c = (r, f'') \<and> (r \<noteq> 0 \<longleftrightarrow> c \<in> set bs)"
proof -
  define n where "n = friend_pages sz"
  have c: "c < n * PAGE_BLOCKS" and bs: "\<forall>b\<in>set bs. b < n * PAGE_BLOCKS"
    using friend_pages_cover [OF assms(2)] assms(4,5) unfolding n_def by blast+
  let ?z = "zero_friend_pages e junk n f"
  have z: "friend_ok n ?z \<and> pages_env_ok e"
    using zero_friend_pages_ok [OF assms(1), of junk n f] assms(1) by (simp add: friend_ok_def view_def)
  have i: "scorw_init_friend_file e junk f sz = ?z" using assms(3) by (simp add: scorw_init_friend_file_def n_def)
  obtain f' where f': "ofold (scorw_set_block_copied e) bs ?z = Some f'" "friend_ok n f'"
    "\<forall>b. copied f' b \<longleftrightarrow> b \<in> set bs \<or> copied ?z b"
    using friend.set_all [OF z bs] by blast
  from is_block_copied_ok [OF f'(2) c assms(1)] f'(1,3) zero_friend_pages_bits [OF assms(1) c] i show ?thesis by auto
qed

theorem friend_bits_roundtrip_witness:
  "\<exists>f' r f''. ofold (scorw_set_block_copied good_env) [3, 40, 3] (scorw_init_friend_file good_env zero_page empty_file 409600) = Some f' \<and>
    scorw_is_block_copied good_env f' 40 = (r, f'') \<and> r \<noteq> 0"
  using friend_bits_roundtrip [of good_env 409600 empty_file "[3, 40, 3]" 40 zero_page]
  by (auto simp: empty_file_def)

end
