(* ===== verification/Active_Map.thy ===== *)
theory Active_Map
  imports Prelude
begin

unbundle bit_operations_syntax

text \<open>
  The map of active blocks of a child: a hash table of the blocks that a thread
  is working on, used as a lock per block. A thread gets a block for a kind of
  processing, waits while the kinds that hold it are not compatible, and puts
  it back; an entry that nobody holds or waits for is removed. Each operation
  runs under the spinlock of its bucket, so it is one step; the wait in
  \<open>scorw_get_uncopied_block\<close> splits that function in two.
  Source: \<open>src/ext4-module/corw_sparse.c\<close> and \<open>corw_sparse.h\<close>.
\<close>

section \<open>State\<close>

text \<open>The kinds of processing are flags of an \<open>int\<close>.\<close>

type_synonym ptype = "32 word"

definition NOP :: ptype where
  [simp]: "NOP = 0x0"

definition READING :: ptype where
  [simp]: "READING = 0x1"

definition COPYING_EXCL :: ptype where
  [simp]: "COPYING_EXCL = 0x10"

definition COPYING :: ptype where
  [simp]: "COPYING = 0x100"

record uncopied_block =
  block_num :: nat
  processing_type :: ptype
  num_readers :: int
  num_waiting :: int

text \<open>\<open>i_uncopied_blocks_list\<close> and \<open>i_hash_table_size\<close> of the child: one list per
  bucket, new entries at the head.\<close>

record active_map =
  i_hash_table_size :: nat
  i_uncopied_blocks_list :: "nat \<Rightarrow> uncopied_block list"

fun ilog2 :: "nat \<Rightarrow> nat" where
  "ilog2 n = (if n < 2 then 0 else ilog2 (n div 2) + 1)"

declare ilog2.simps [simp del]

text \<open>\<open>hash_min\<close> of an \<open>unsigned\<close> key: \<open>hash_32\<close>.\<close>

definition hash_min :: "nat \<Rightarrow> nat \<Rightarrow> nat" where
  "hash_min key bits = key * 0x61C88647 mod 2 ^ 32 div 2 ^ (32 - bits)"

definition bucket :: "active_map \<Rightarrow> nat \<Rightarrow> nat" where
  "bucket m key = hash_min key (ilog2 (i_hash_table_size m))"

section \<open>Operations\<close>

definition scorw_find_uncopied_block_list :: "active_map \<Rightarrow> nat \<Rightarrow> uncopied_block option" where
  "scorw_find_uncopied_block_list m key =
     find (\<lambda>cur. block_num cur = key) (i_uncopied_blocks_list m (bucket m key))"

definition scorw_is_compatible_processing_type :: "ptype \<Rightarrow> ptype \<Rightarrow> bool" where
  "scorw_is_compatible_processing_type pt1 pt2 \<longleftrightarrow>
     (pt1 AND READING \<noteq> 0 \<and> pt2 AND COPYING \<noteq> 0) \<or>
     (pt1 AND COPYING \<noteq> 0 \<and> pt2 AND READING \<noteq> 0) \<or>
     (pt1 AND READING \<noteq> 0 \<and> pt2 AND READING \<noteq> 0) \<or>
     pt1 = NOP \<or> pt2 = NOP"

definition scorw_add_uncopied_blocks_list :: "active_map \<Rightarrow> uncopied_block \<Rightarrow> active_map" where
  "scorw_add_uncopied_blocks_list m u =
     m\<lparr>i_uncopied_blocks_list := (i_uncopied_blocks_list m)
         (bucket m (block_num u) := u # i_uncopied_blocks_list m (bucket m (block_num u)))\<rparr>"

text \<open>Change the entry that the search for a key finds, or take it out of its list
  (\<open>scorw_remove_uncopied_blocks_list\<close>).\<close>

fun upd_first :: "nat \<Rightarrow> (uncopied_block \<Rightarrow> uncopied_block) \<Rightarrow> uncopied_block list \<Rightarrow> uncopied_block list" where
  "upd_first key g [] = []"
| "upd_first key g (u # us) = (if block_num u = key then g u # us else u # upd_first key g us)"

definition upd_block :: "active_map \<Rightarrow> nat \<Rightarrow> (uncopied_block \<Rightarrow> uncopied_block) \<Rightarrow> active_map" where
  "upd_block m key g =
     m\<lparr>i_uncopied_blocks_list := (i_uncopied_blocks_list m)
         (bucket m key := upd_first key g (i_uncopied_blocks_list m (bucket m key)))\<rparr>"

fun del_first :: "nat \<Rightarrow> uncopied_block list \<Rightarrow> uncopied_block list" where
  "del_first key [] = []"
| "del_first key (u # us) = (if block_num u = key then us else u # del_first key us)"

definition scorw_remove_uncopied_blocks_list :: "active_map \<Rightarrow> nat \<Rightarrow> active_map" where
  "scorw_remove_uncopied_blocks_list m key =
     m\<lparr>i_uncopied_blocks_list := (i_uncopied_blocks_list m)
         (bucket m key := del_first key (i_uncopied_blocks_list m (bucket m key)))\<rparr>"

text \<open>Take a compatible block: its kind is added, and a reader is counted.\<close>

definition take_block :: "ptype \<Rightarrow> uncopied_block \<Rightarrow> uncopied_block" where
  "take_block pt u =
     u\<lparr>processing_type := processing_type u OR pt,
       num_readers := (if pt = READING then num_readers u + 1 else num_readers u)\<rparr>"

text \<open>
  \<open>scorw_get_uncopied_block\<close>: up to the wait, and the turn of its loop after a
  wait (a wake-up or the timeout of ten seconds). \<open>NoMemory\<close> is the NULL pointer.
  An entry that is waited for is not freed, so the loop may go on using it.
\<close>

datatype get_result = Acquired | Waiting | NoMemory

definition new_block :: "nat \<Rightarrow> ptype \<Rightarrow> uncopied_block" where
  "new_block key pt =
     \<lparr>block_num = key, processing_type = pt, num_readers = (if pt = READING then 1 else 0), num_waiting = 0\<rparr>"

definition scorw_get_uncopied_block :: "bool \<Rightarrow> active_map \<Rightarrow> nat \<Rightarrow> ptype \<Rightarrow> get_result \<times> active_map" where
  "scorw_get_uncopied_block alloc_ok m key pt =
     (case scorw_find_uncopied_block_list m key of
        Some u \<Rightarrow>
          if scorw_is_compatible_processing_type (processing_type u) pt
          then (Acquired, upd_block m key (take_block pt))
          else (Waiting, upd_block m key (\<lambda>u. u\<lparr>num_waiting := num_waiting u + 1\<rparr>))
      | None \<Rightarrow>
          if alloc_ok then (Acquired, scorw_add_uncopied_blocks_list m (new_block key pt))
          else (NoMemory, m))"

definition get_after_wait :: "active_map \<Rightarrow> nat \<Rightarrow> ptype \<Rightarrow> get_result \<times> active_map" where
  "get_after_wait m key pt =
     (let m1 = upd_block m key (\<lambda>u. u\<lparr>num_waiting := num_waiting u - 1\<rparr>) in
      case scorw_find_uncopied_block_list m1 key of
        None \<Rightarrow> (NoMemory, m1)
      | Some u \<Rightarrow>
          if scorw_is_compatible_processing_type (processing_type u) pt
          then (Acquired, upd_block m1 key (take_block pt))
          else (Waiting, upd_block m1 key (\<lambda>u. u\<lparr>num_waiting := num_waiting u + 1\<rparr>)))"

text \<open>\<open>scorw_put_uncopied_block\<close>: the result also says whether the waiters are woken.\<close>

definition put_block :: "ptype \<Rightarrow> uncopied_block \<Rightarrow> uncopied_block" where
  "put_block pt u =
     (let u1 = (if pt = READING then u\<lparr>num_readers := num_readers u - 1\<rparr> else u) in
      if pt = READING \<and> 0 < num_readers u1 then u1
      else u1\<lparr>processing_type := NOT pt AND processing_type u1\<rparr>)"

definition scorw_put_uncopied_block :: "active_map \<Rightarrow> nat \<Rightarrow> ptype \<Rightarrow> int \<times> bool \<times> active_map" where
  "scorw_put_uncopied_block m key pt =
     (case scorw_find_uncopied_block_list m key of
        None \<Rightarrow> (- 1, False, m)
      | Some u \<Rightarrow>
          (0, \<not> (pt = READING \<and> 0 < num_readers u - 1) \<and>
              processing_type (put_block pt u) = NOP \<and> num_waiting u \<noteq> 0,
           upd_block m key (put_block pt)))"

definition scorw_remove_uncopied_block :: "active_map \<Rightarrow> nat \<Rightarrow> active_map" where
  "scorw_remove_uncopied_block m key =
     (case scorw_find_uncopied_block_list m key of
        None \<Rightarrow> m
      | Some u \<Rightarrow>
          if processing_type u = NOP \<and> num_waiting u = 0
          then scorw_remove_uncopied_blocks_list m key else m)"

section \<open>The table as a map\<close>

lemma ilog2_power: "0 < n \<Longrightarrow> 2 ^ ilog2 n \<le> n"
proof (induction n rule: ilog2.induct)
  case (1 n)
  show ?case
  proof (cases "n < 2")
    case True
    with 1 show ?thesis by (simp add: ilog2.simps)
  next
    case False
    then have "2 ^ ilog2 (n div 2) \<le> n div 2" using 1 by simp
    with False show ?thesis by (subst ilog2.simps) simp
  qed
qed

lemma hash_min_less: "bits \<le> 32 \<Longrightarrow> hash_min key bits < 2 ^ bits"
proof -
  assume "bits \<le> 32"
  then have "(2 :: nat) ^ 32 = 2 ^ bits * 2 ^ (32 - bits)" by (simp add: power_add [symmetric])
  then show ?thesis unfolding hash_min_def
    by (metis less_mult_imp_div_less mod_less_divisor zero_less_numeral zero_less_power)
qed

lemma bucket_simps [simp]:
  "bucket (upd_block m k g) key = bucket m key"
  "bucket (scorw_add_uncopied_blocks_list m u) key = bucket m key"
  "bucket (scorw_remove_uncopied_blocks_list m k) key = bucket m key"
  by (simp_all add: bucket_def upd_block_def scorw_add_uncopied_blocks_list_def scorw_remove_uncopied_blocks_list_def)

definition keeps_key :: "(uncopied_block \<Rightarrow> uncopied_block) \<Rightarrow> bool" where
  "keeps_key g \<longleftrightarrow> (\<forall>u. block_num (g u) = block_num u)"

lemma keeps_key_simps [simp]:
  "keeps_key (take_block pt)" "keeps_key (put_block pt)" "keeps_key (\<lambda>u. u\<lparr>num_waiting := f u\<rparr>)"
  by (simp_all add: keeps_key_def take_block_def put_block_def Let_def)

lemma find_upd_first:
  "keeps_key g \<Longrightarrow> find (\<lambda>u. block_num u = k) (upd_first key g us) =
    (if k = key then map_option g (find (\<lambda>u. block_num u = k) us) else find (\<lambda>u. block_num u = k) us)"
  by (induction us) (auto simp: keeps_key_def)

lemma find_upd_block:
  "keeps_key g \<Longrightarrow> scorw_find_uncopied_block_list (upd_block m key g) k =
    (if k = key then map_option g (scorw_find_uncopied_block_list m k) else scorw_find_uncopied_block_list m k)"
  by (simp add: scorw_find_uncopied_block_list_def upd_block_def find_upd_first bucket_def)

lemma find_add_block:
  "scorw_find_uncopied_block_list (scorw_add_uncopied_blocks_list m u) k =
    (if k = block_num u then Some u else scorw_find_uncopied_block_list m k)"
  by (simp add: scorw_find_uncopied_block_list_def scorw_add_uncopied_blocks_list_def bucket_def)

text \<open>At most one entry per block.\<close>

definition amap_wf :: "active_map \<Rightarrow> bool" where
  "amap_wf m \<longleftrightarrow> (\<forall>i. distinct (map block_num (i_uncopied_blocks_list m i)))"

lemma find_del_first:
  "distinct (map block_num us) \<Longrightarrow> find (\<lambda>u. block_num u = k) (del_first key us) =
    (if k = key then None else find (\<lambda>u. block_num u = k) us)"
  by (induction us) (auto simp: find_None_iff image_iff)

lemma find_remove_block:
  "amap_wf m \<Longrightarrow> scorw_find_uncopied_block_list (scorw_remove_uncopied_blocks_list m key) k =
    (if k = key then None else scorw_find_uncopied_block_list m k)"
  by (simp add: scorw_find_uncopied_block_list_def scorw_remove_uncopied_blocks_list_def amap_wf_def
      find_del_first bucket_def)

lemma map_upd_first: "keeps_key g \<Longrightarrow> map block_num (upd_first key g us) = map block_num us"
  by (induction us) (auto simp: keeps_key_def)

lemma set_del_first: "set (map block_num (del_first key us)) \<subseteq> set (map block_num us)"
  by (induction us) auto

lemma distinct_del_first: "distinct (map block_num us) \<Longrightarrow> distinct (map block_num (del_first key us))"
  using set_del_first by (induction us) fastforce+

lemma amap_wf_ops:
  "amap_wf m \<Longrightarrow> keeps_key g \<Longrightarrow> amap_wf (upd_block m key g)"
  "amap_wf m \<Longrightarrow> amap_wf (scorw_remove_uncopied_blocks_list m key)"
  "amap_wf m \<Longrightarrow> scorw_find_uncopied_block_list m (block_num u) = None \<Longrightarrow> amap_wf (scorw_add_uncopied_blocks_list m u)"
  by (auto simp: amap_wf_def upd_block_def map_upd_first scorw_remove_uncopied_blocks_list_def distinct_del_first
      scorw_add_uncopied_blocks_list_def scorw_find_uncopied_block_list_def find_None_iff)

section \<open>Threads\<close>

text \<open>What a thread is doing: nothing, waiting for or holding a block, going on without
  the block although no entry could be allocated for it, or about to remove the entry of a
  block it has put back.\<close>

datatype tstate = Idle | Waits nat ptype | Holds nat ptype | Lacks nat ptype | Leaves nat

type_synonym amap_world = "active_map \<times> (nat \<Rightarrow> tstate)"

text \<open>The steps of any number of threads that use the kinds of processing in
  \<open>types\<close>. A thread whose allocation fails may give up. When \<open>fails\<close> holds it may also do
  what \<open>scorw_write_child_blocks_begin\<close>, \<open>scorw_page_copy_thread_fn\<close> and
  \<open>scorw_prepare_page_copy\<close> do with the NULL pointer: go on, and later put and remove the block
  by its number as if it had it.\<close>

inductive amap_step :: "bool \<Rightarrow> ptype set \<Rightarrow> amap_world \<Rightarrow> amap_world \<Rightarrow> bool" for fails types where
  get_now: "th t = Idle \<Longrightarrow> pt \<in> types \<Longrightarrow> scorw_get_uncopied_block a m b pt = (Acquired, m') \<Longrightarrow>
    amap_step fails types (m, th) (m', th(t := Holds b pt))"
| get_wait: "th t = Idle \<Longrightarrow> pt \<in> types \<Longrightarrow> scorw_get_uncopied_block a m b pt = (Waiting, m') \<Longrightarrow>
    amap_step fails types (m, th) (m', th(t := Waits b pt))"
| get_fail: "th t = Idle \<Longrightarrow> pt \<in> types \<Longrightarrow> scorw_get_uncopied_block a m b pt = (NoMemory, m') \<Longrightarrow>
    amap_step fails types (m, th) (m', th)"
| get_lacking: "fails \<Longrightarrow> th t = Idle \<Longrightarrow> pt \<in> types \<Longrightarrow> scorw_get_uncopied_block a m b pt = (NoMemory, m') \<Longrightarrow>
    amap_step fails types (m, th) (m', th(t := Lacks b pt))"
| wait_done: "th t = Waits b pt \<Longrightarrow> get_after_wait m b pt = (Acquired, m') \<Longrightarrow>
    amap_step fails types (m, th) (m', th(t := Holds b pt))"
| wait_on: "th t = Waits b pt \<Longrightarrow> get_after_wait m b pt = (Waiting, m') \<Longrightarrow>
    amap_step fails types (m, th) (m', th)"
| put: "th t = Holds b pt \<Longrightarrow> scorw_put_uncopied_block m b pt = (r, woken, m') \<Longrightarrow>
    amap_step fails types (m, th) (m', th(t := Leaves b))"
| put_lacking: "fails \<Longrightarrow> th t = Lacks b pt \<Longrightarrow> scorw_put_uncopied_block m b pt = (r, woken, m') \<Longrightarrow>
    amap_step fails types (m, th) (m', th(t := Leaves b))"
| leave: "th t = Leaves b \<Longrightarrow> amap_step fails types (m, th) (scorw_remove_uncopied_block m b, th(t := Idle))"

inductive_cases amap_stepE: "amap_step fails types w w'"

definition holders :: "(nat \<Rightarrow> tstate) \<Rightarrow> nat \<Rightarrow> (nat \<times> ptype) set" where
  "holders th b = {(t, pt). th t = Holds b pt}"

definition waiters :: "(nat \<Rightarrow> tstate) \<Rightarrow> nat \<Rightarrow> nat set" where
  "waiters th b = {t. \<exists>pt. th t = Waits b pt}"

text \<open>The kinds used must not mix reading with shared copying: a reader would let a second
  copier in.\<close>

definition types_ok :: "ptype set \<Rightarrow> bool" where
  "types_ok types \<longleftrightarrow> types \<subseteq> {READING, COPYING, COPYING_EXCL} \<and> \<not> {READING, COPYING} \<subseteq> types"

text \<open>An entry against the threads that hold and wait for its block.\<close>

fun block_inv :: "uncopied_block option \<Rightarrow> (nat \<times> ptype) set \<Rightarrow> nat \<Rightarrow> bool" where
  "block_inv None H nw \<longleftrightarrow> H = {} \<and> nw = 0"
| "block_inv (Some u) H nw \<longleftrightarrow>
     num_waiting u = int nw \<and> num_readers u = int (card {h\<in>H. snd h = READING}) \<and>
     (H = {} \<longrightarrow> processing_type u = NOP) \<and>
     (\<forall>h\<in>H. processing_type u = snd h \<and> (snd h = READING \<or> H = {h}))"

definition amap_inv :: "ptype set \<Rightarrow> amap_world \<Rightarrow> bool" where
  "amap_inv types w \<longleftrightarrow> amap_wf (fst w) \<and> finite {t. snd w t \<noteq> Idle} \<and>
     (\<forall>t b pt. snd w t = Holds b pt \<or> snd w t = Waits b pt \<longrightarrow> pt \<in> types) \<and>
     (\<forall>b. block_inv (scorw_find_uncopied_block_list (fst w) b) (holders (snd w) b) (card (waiters (snd w) b)))"

lemma holders_upd:
  "holders (th(t := s)) b = (case s of Holds b' pt \<Rightarrow> (if b' = b then {(t, pt)} else {}) | _ \<Rightarrow> {}) \<union>
    {h\<in>holders th b. fst h \<noteq> t}"
  by (auto simp: holders_def split: tstate.splits if_splits)

lemma waiters_upd:
  "waiters (th(t := s)) b = (case s of Waits b' pt \<Rightarrow> (if b' = b then {t} else {}) | _ \<Rightarrow> {}) \<union>
    (waiters th b - {t})"
  by (auto simp: waiters_def split: tstate.splits if_splits)

lemma finite_roles:
  assumes "finite {t. th t \<noteq> Idle}"
  shows "finite (holders th b)" "finite (waiters th b)"
proof -
  have "holders th b \<subseteq> (\<lambda>t. (t, case th t of Holds b pt \<Rightarrow> pt | _ \<Rightarrow> 0)) ` {t. th t \<noteq> Idle}"
    by (force simp: holders_def image_iff split: tstate.splits)
  then show "finite (holders th b)" using assms by (meson finite_imageI finite_subset)
  show "finite (waiters th b)" by (rule finite_subset [OF _ assms]) (auto simp: waiters_def)
qed

lemma compatible_same:
  assumes "types_ok types" and "p \<in> types" and "q \<in> types" and "scorw_is_compatible_processing_type p q"
  shows "p = READING \<and> q = READING"
  using assms by (auto simp: types_ok_def scorw_is_compatible_processing_type_def)

lemma block_inv_take:
  assumes "block_inv (Some u) H nw" and "finite H" and "\<forall>h\<in>H. snd h \<in> types" and "pt \<in> types" and "types_ok types"
    and "scorw_is_compatible_processing_type (processing_type u) pt" and "\<forall>h\<in>H. fst h \<noteq> t"
  shows "block_inv (Some (take_block pt u)) (insert (t, pt) H) nw"
proof (cases "H = {}")
  case True
  have "{h. (h = (t, pt)) \<and> snd h = READING} = (if pt = READING then {(t, pt)} else {})" by auto
  with True assms(1) show ?thesis by (auto simp: take_block_def)
next
  case False
  then obtain h where h: "h \<in> H" "processing_type u = snd h" using assms(1) by auto
  with compatible_same [OF assms(5) _ assms(4)] assms(3,6) have r: "processing_type u = READING" "pt = READING" by metis+
  then have all: "\<forall>h\<in>H. snd h = READING" using assms(1) by auto
  then have "{h\<in>H. snd h = READING} = H" "{h. (h = (t, pt) \<or> h \<in> H) \<and> snd h = READING} = insert (t, pt) H" using r by auto
  moreover have "(t, pt) \<notin> H" using assms(7) by auto
  ultimately show ?thesis using assms(1,2) r all by (auto simp: take_block_def)
qed

lemma block_inv_put:
  assumes "block_inv (Some u) H nw" and "finite H" and "(t, pt) \<in> H" and "pt \<in> types" "types_ok types"
    and "\<forall>h\<in>H. fst h = t \<longrightarrow> h = (t, pt)"
  shows "block_inv (Some (put_block pt u)) (H - {(t, pt)}) nw"
proof -
  have p: "processing_type u = pt" "pt = READING \<or> H = {(t, pt)}" using assms(1,3) by auto
  show ?thesis
  proof (cases "pt = READING")
    case True
    then have all: "\<forall>h\<in>H. snd h = READING" using assms(1) p(1) by auto
    then have c: "{h\<in>H. snd h = READING} = H" "{h\<in>H - {(t, pt)}. snd h = READING} = H - {(t, pt)}" by auto
    have n: "num_readers u = int (card H)" "num_waiting u = int nw" using assms(1) c by auto
    have d: "card (H - {(t, pt)}) = card H - 1" "0 < card H" using assms(2,3) by (auto simp: card_gt_0_iff)
    show ?thesis
    proof (cases "H = {(t, pt)}")
      case True
      with n p(1) \<open>pt = READING\<close> show ?thesis by (auto simp: put_block_def Let_def)
    next
      case False
      have "H - {(t, pt)} \<noteq> {}" using False assms(3) by blast
      then have "0 < card (H - {(t, pt)})" using assms(2) by (simp add: card_gt_0_iff)
      with n d p(1) c all \<open>pt = READING\<close> \<open>H - {(t, pt)} \<noteq> {}\<close> show ?thesis
        by (auto simp: put_block_def Let_def of_nat_diff)
    qed
  next
    case False
    then have "H = {(t, pt)}" using p(2) by blast
    then show ?thesis using False p(1) assms(1) by (auto simp: put_block_def Let_def)
  qed
qed

text \<open>A step at block \<open>b\<close> of thread \<open>t\<close> has to be checked at \<open>b\<close> only.\<close>

lemma amap_inv_at:
  assumes "amap_inv types (m, th)" and "amap_wf m'"
    and "\<forall>k. k \<noteq> b \<longrightarrow> scorw_find_uncopied_block_list m' k = scorw_find_uncopied_block_list m k"
    and old: "\<forall>k pt. th t = Holds k pt \<or> th t = Waits k pt \<longrightarrow> k = b"
    and new: "\<forall>k pt. s = Holds k pt \<or> s = Waits k pt \<longrightarrow> k = b \<and> pt \<in> types"
    and here: "block_inv (scorw_find_uncopied_block_list m' b) (holders (th(t := s)) b) (card (waiters (th(t := s)) b))"
  shows "amap_inv types (m', th(t := s))"
proof -
  have "finite (insert t {u. th u \<noteq> Idle})" using assms(1) by (simp add: amap_inv_def)
  then have fin: "finite {u. (th(t := s)) u \<noteq> Idle}" by (rule finite_subset [rotated]) auto
  have "holders (th(t := s)) k = holders th k" "waiters (th(t := s)) k = waiters th k" if "k \<noteq> b" for k
    using that old new by (auto simp: holders_def waiters_def split: if_splits)
  with assms fin show ?thesis by (simp add: amap_inv_def) metis
qed

lemma amap_invD:
  assumes "amap_inv types (m, th)"
  shows "amap_wf m" "finite (holders th b)" "finite (waiters th b)" "\<forall>h\<in>holders th b. snd h \<in> types"
    "th t = Waits b pt \<Longrightarrow> pt \<in> types"
    "block_inv (scorw_find_uncopied_block_list m b) (holders th b) (card (waiters th b))"
  using assms finite_roles [of th b] by (auto simp: amap_inv_def holders_def)

lemma block_inv_waiting:
  "block_inv (Some u) H nw \<Longrightarrow> num_waiting u' = int nw' \<Longrightarrow> num_readers u' = num_readers u \<Longrightarrow>
    processing_type u' = processing_type u \<Longrightarrow> block_inv (Some u') H nw'"
  by simp

lemma get_step_inv:
  assumes inv: "amap_inv types (m, th)" and ok: "types_ok types" and t: "th t = Idle" and pt: "pt \<in> types"
    and get: "scorw_get_uncopied_block a m b pt = (r, m')"
  shows "r = Acquired \<Longrightarrow> amap_inv types (m', th(t := Holds b pt))"
    and "r = Waiting \<Longrightarrow> amap_inv types (m', th(t := Waits b pt))"
    and "r = NoMemory \<Longrightarrow> m' = m"
proof -
  note D = amap_invD(1) [OF inv] amap_invD(2-4) [OF inv, where b = b] amap_invD(5) [OF inv] amap_invD(6) [OF inv, where b = b]
  have nt: "\<forall>h\<in>holders th b. fst h \<noteq> t" "t \<notin> waiters th b" using t by (auto simp: holders_def waiters_def)
  then have H: "holders (th(t := Holds b pt)) b = insert (t, pt) (holders th b)"
    "waiters (th(t := Holds b pt)) b = waiters th b"
    "holders (th(t := Waits b pt)) b = holders th b" "waiters (th(t := Waits b pt)) b = insert t (waiters th b)"
    by (auto simp: holders_upd waiters_upd)
  show "amap_inv types (m', th(t := Holds b pt))" if "r = Acquired"
  proof (cases "scorw_find_uncopied_block_list m b")
    case None
    then have m': "m' = scorw_add_uncopied_blocks_list m (new_block b pt)"
      using get that by (auto simp: scorw_get_uncopied_block_def split: if_splits)
    have "holders th b = {}" "card (waiters th b) = 0" using D(6) None by simp_all
    moreover have "{h. h = (t, pt) \<and> snd h = READING} = (if pt = READING then {(t, pt)} else {})" by auto
    ultimately have "block_inv (Some (new_block b pt)) (insert (t, pt) (holders th b)) (card (waiters th b))"
      by (simp add: new_block_def)
    moreover have "amap_wf m'" "scorw_find_uncopied_block_list m' b = Some (new_block b pt)"
      "\<forall>k. k \<noteq> b \<longrightarrow> scorw_find_uncopied_block_list m' k = scorw_find_uncopied_block_list m k"
      using D(1) None unfolding m' by (simp_all add: amap_wf_ops find_add_block new_block_def)
    ultimately show ?thesis using inv t pt H
      by (intro amap_inv_at [where b = b and m = m]) (simp_all del: block_inv.simps)
  next
    case (Some u)
    then have c: "scorw_is_compatible_processing_type (processing_type u) pt" and m': "m' = upd_block m b (take_block pt)"
      using get that by (auto simp: scorw_get_uncopied_block_def split: if_splits)
    have "amap_wf m'" "scorw_find_uncopied_block_list m' b = Some (take_block pt u)"
      "\<forall>k. k \<noteq> b \<longrightarrow> scorw_find_uncopied_block_list m' k = scorw_find_uncopied_block_list m k"
      using D(1) Some unfolding m' by (simp_all add: amap_wf_ops find_upd_block)
    with block_inv_take [OF D(6) [unfolded Some] D(2,4) pt ok c nt(1)] inv t pt H show ?thesis
      by (intro amap_inv_at [where b = b and m = m]) (simp_all del: block_inv.simps)
  qed
  show "amap_inv types (m', th(t := Waits b pt))" if w: "r = Waiting"
  proof -
    obtain u where u: "scorw_find_uncopied_block_list m b = Some u"
      and m': "m' = upd_block m b (\<lambda>u. u\<lparr>num_waiting := num_waiting u + 1\<rparr>)"
      using get w by (auto simp: scorw_get_uncopied_block_def split: option.splits if_splits)
    have "block_inv (Some (u\<lparr>num_waiting := num_waiting u + 1\<rparr>)) (holders th b) (card (insert t (waiters th b)))"
      using D(3) nt(2) D(6) u by simp
    moreover have "amap_wf m'" "scorw_find_uncopied_block_list m' b = Some (u\<lparr>num_waiting := num_waiting u + 1\<rparr>)"
      "\<forall>k. k \<noteq> b \<longrightarrow> scorw_find_uncopied_block_list m' k = scorw_find_uncopied_block_list m k"
      using D(1) u unfolding m' by (simp_all add: amap_wf_ops find_upd_block)
    ultimately show ?thesis using inv t pt H
      by (intro amap_inv_at [where b = b and m = m]) (simp_all del: block_inv.simps)
  qed
  show "m' = m" if "r = NoMemory"
    using get that by (auto simp: scorw_get_uncopied_block_def split: option.splits if_splits)
qed

lemma wait_step_inv:
  assumes inv: "amap_inv types (m, th)" and ok: "types_ok types" and t: "th t = Waits b pt"
    and get: "get_after_wait m b pt = (r, m')"
  shows "r = Acquired \<Longrightarrow> amap_inv types (m', th(t := Holds b pt))"
    and "r = Waiting \<Longrightarrow> amap_inv types (m', th)"
    and "r \<noteq> NoMemory"
proof -
  note D = amap_invD(1) [OF inv] amap_invD(2-4) [OF inv, where b = b] amap_invD(5) [OF inv] amap_invD(6) [OF inv, where b = b]
  have pt: "pt \<in> types" using D(5) t by blast
  have tw: "t \<in> waiters th b" and nt: "\<forall>h\<in>holders th b. fst h \<noteq> t" using t by (auto simp: holders_def waiters_def)
  then have c0: "0 < card (waiters th b)" using D(3) by (auto simp: card_gt_0_iff)
  then obtain u where u: "scorw_find_uncopied_block_list m b = Some u"
    using D(6) by (cases "scorw_find_uncopied_block_list m b") simp_all
  let ?dec = "\<lambda>u. u\<lparr>num_waiting := num_waiting u - 1\<rparr>" and ?inc = "\<lambda>u. u\<lparr>num_waiting := num_waiting u + 1\<rparr>"
  let ?c = "scorw_is_compatible_processing_type (processing_type u) pt"
  have f1: "scorw_find_uncopied_block_list (upd_block m b ?dec) b = Some (?dec u)" using u by (simp add: find_upd_block)
  have res: "r = (if ?c then Acquired else Waiting)"
    "m' = upd_block (upd_block m b ?dec) b (if ?c then take_block pt else ?inc)"
    using get f1 by (auto simp: get_after_wait_def Let_def split: if_splits)
  then show "r \<noteq> NoMemory" by simp
  have wf: "amap_wf m'" unfolding res(2) using D(1) by (simp add: amap_wf_ops)
  have inv1: "block_inv (Some (?dec u)) (holders th b) (card (waiters th b) - 1)" using D(6) u c0 by simp
  show "amap_inv types (m', th(t := Holds b pt))" if "r = Acquired"
  proof -
    have c: ?c using that res(1) by (simp split: if_splits)
    have "holders (th(t := Holds b pt)) b = insert (t, pt) (holders th b)"
      "waiters (th(t := Holds b pt)) b = waiters th b - {t}" using nt by (auto simp: holders_upd waiters_upd)
    moreover have "scorw_find_uncopied_block_list m' b = Some (take_block pt (?dec u))"
      "\<forall>k. k \<noteq> b \<longrightarrow> scorw_find_uncopied_block_list m' k = scorw_find_uncopied_block_list m k"
      unfolding res(2) using c u by (simp_all add: find_upd_block)
    moreover have "block_inv (Some (take_block pt (?dec u))) (insert (t, pt) (holders th b)) (card (waiters th b - {t}))"
      using block_inv_take [OF inv1 D(2,4) pt ok _ nt] c tw by (simp del: block_inv.simps)
    ultimately show ?thesis using inv wf t pt
      by (intro amap_inv_at [where b = b and m = m]) (simp_all del: block_inv.simps)
  qed
  show "amap_inv types (m', th)" if "r = Waiting"
  proof -
    have c: "\<not> ?c" using that res(1) by (simp split: if_splits)
    have "scorw_find_uncopied_block_list m' k = scorw_find_uncopied_block_list m k" for k
      unfolding res(2) using c u by (simp add: find_upd_block)
    with wf inv show ?thesis by (simp add: amap_inv_def)
  qed
qed

lemma put_step_inv:
  assumes inv: "amap_inv types (m, th)" and ok: "types_ok types" and t: "th t = Holds b pt"
    and put: "scorw_put_uncopied_block m b pt = (r, woken, m')"
  shows "amap_inv types (m', th(t := Leaves b))" and "r = 0"
proof -
  note D = amap_invD(1) [OF inv] amap_invD(2-4) [OF inv, where b = b] amap_invD(5) [OF inv] amap_invD(6) [OF inv, where b = b]
  have th: "(t, pt) \<in> holders th b" "\<forall>h\<in>holders th b. fst h = t \<longrightarrow> h = (t, pt)" using t by (auto simp: holders_def)
  have pt: "pt \<in> types" using bspec [OF D(4) th(1)] by simp
  obtain u where u: "scorw_find_uncopied_block_list m b = Some u"
    using D(6) th(1) by (cases "scorw_find_uncopied_block_list m b") auto
  then have m': "m' = upd_block m b (put_block pt)" and r: "r = 0" using put by (auto simp: scorw_put_uncopied_block_def)
  show "r = 0" by (rule r)
  have "holders (th(t := Leaves b)) b = holders th b - {(t, pt)}" "waiters (th(t := Leaves b)) b = waiters th b"
    using t by (auto simp: holders_def waiters_def split: if_splits)
  moreover have "amap_wf m'" "scorw_find_uncopied_block_list m' b = Some (put_block pt u)"
    "\<forall>k. k \<noteq> b \<longrightarrow> scorw_find_uncopied_block_list m' k = scorw_find_uncopied_block_list m k"
    using D(1) u unfolding m' by (simp_all add: amap_wf_ops find_upd_block)
  ultimately show "amap_inv types (m', th(t := Leaves b))"
    using inv t block_inv_put [OF D(6) [unfolded u] D(2) th(1) pt ok th(2)]
    by (intro amap_inv_at [where b = b and m = m]) (simp_all del: block_inv.simps)
qed

lemma leave_step_inv:
  assumes inv: "amap_inv types (m, th)" and ok: "types_ok types" and t: "th t = Leaves b"
  shows "amap_inv types (scorw_remove_uncopied_block m b, th(t := Idle))"
proof -
  note D = amap_invD(1) [OF inv] amap_invD(2-4) [OF inv, where b = b] amap_invD(5) [OF inv] amap_invD(6) [OF inv, where b = b]
  let ?m = "scorw_remove_uncopied_block m b"
  have H: "holders (th(t := Idle)) b = holders th b" "waiters (th(t := Idle)) b = waiters th b"
    using t by (auto simp: holders_def waiters_def split: if_splits)
  have "amap_wf ?m" using D(1) by (auto simp: scorw_remove_uncopied_block_def amap_wf_ops split: option.splits)
  moreover have "\<forall>k. k \<noteq> b \<longrightarrow> scorw_find_uncopied_block_list ?m k = scorw_find_uncopied_block_list m k"
    using D(1) by (auto simp: scorw_remove_uncopied_block_def find_remove_block split: option.splits)
  moreover have "block_inv (scorw_find_uncopied_block_list ?m b) (holders th b) (card (waiters th b))"
  proof (cases "\<exists>u. scorw_find_uncopied_block_list m b = Some u \<and> processing_type u = NOP \<and> num_waiting u = 0")
    case True
    then obtain u where u: "scorw_find_uncopied_block_list m b = Some u" "processing_type u = NOP" "num_waiting u = 0" by blast
    have "0 \<notin> types" using ok by (auto simp: types_ok_def)
    then have "holders th b = {}" using D(4,6) u(1,2) by force
    with u D(1,6) show ?thesis by (simp add: scorw_remove_uncopied_block_def find_remove_block)
  next
    case False
    then have "?m = m" by (auto simp: scorw_remove_uncopied_block_def split: option.splits)
    with D(6) show ?thesis by simp
  qed
  ultimately show ?thesis using inv H t by (intro amap_inv_at [where b = b and m = m]) (simp_all del: block_inv.simps)
qed

lemma amap_step_inv:
  assumes "amap_step False types w w'" and "amap_inv types w" and "types_ok types"
  shows "amap_inv types w'"
  using assms(1)
proof cases
  case (get_now th t pt a m b m')
  with get_step_inv(1) assms show ?thesis by blast
next
  case (get_wait th t pt a m b m')
  with get_step_inv(2) assms show ?thesis by blast
next
  case (get_fail th t pt a m b m')
  with get_step_inv(3) assms show ?thesis by blast
next
  case (get_lacking th t pt a m b m')
  then show ?thesis by simp
next
  case (wait_done th t b pt m m')
  with wait_step_inv(1) assms show ?thesis by blast
next
  case (wait_on th t b pt m m')
  with wait_step_inv(2) assms show ?thesis by blast
next
  case (put th t b pt m r woken m')
  with put_step_inv(1) assms show ?thesis by blast
next
  case (put_lacking th t b pt m r woken m')
  then show ?thesis by simp
next
  case (leave th t b m)
  with leave_step_inv assms show ?thesis by blast
qed

definition empty_amap :: "nat \<Rightarrow> active_map" where
  "empty_amap n = \<lparr>i_hash_table_size = n, i_uncopied_blocks_list = (\<lambda>_. [])\<rparr>"

lemma amap_inv_init: "amap_inv types (empty_amap n, \<lambda>_. Idle)"
  by (simp add: amap_inv_def amap_wf_def empty_amap_def scorw_find_uncopied_block_list_def holders_def waiters_def)

lemma amap_steps_inv:
  assumes "(amap_step False types)\<^sup>*\<^sup>* (empty_amap n, \<lambda>_. Idle) w" and "types_ok types"
  shows "amap_inv types w"
  using assms(1) by (induction rule: rtranclp_induct) (use amap_inv_init amap_step_inv assms(2) in blast)+

text \<open>An entry is there for the sake of a thread that holds, awaits or leaves its
  block.\<close>

fun block_of :: "tstate \<Rightarrow> nat option" where
  "block_of Idle = None"
| "block_of (Waits b pt) = Some b"
| "block_of (Holds b pt) = Some b"
| "block_of (Lacks b pt) = Some b"
| "block_of (Leaves b) = Some b"

definition amap_busy :: "amap_world \<Rightarrow> bool" where
  "amap_busy w \<longleftrightarrow> (\<forall>b. scorw_find_uncopied_block_list (fst w) b \<noteq> None \<longrightarrow> (\<exists>t. block_of (snd w t) = Some b))"

lemma amap_busy_upd:
  assumes "amap_busy (m, th)" and "block_of (th t) = None \<or> block_of (th t) = Some b" and "block_of s = Some b"
    and "\<And>k. k \<noteq> b \<Longrightarrow> scorw_find_uncopied_block_list m' k \<noteq> None \<Longrightarrow> scorw_find_uncopied_block_list m k \<noteq> None"
  shows "amap_busy (m', th(t := s))"
  unfolding amap_busy_def fst_conv snd_conv
proof (intro allI impI)
  fix k assume k: "scorw_find_uncopied_block_list m' k \<noteq> None"
  show "\<exists>t'. block_of ((th(t := s)) t') = Some k"
  proof (cases "k = b")
    case True
    with assms(3) show ?thesis by (intro exI [of _ t]) simp
  next
    case False
    from assms(4) [OF this k] assms(1) obtain t' where t': "block_of (th t') = Some k" unfolding amap_busy_def by force
    with False assms(2) have "t' \<noteq> t" by auto
    with t' show ?thesis by (intro exI [of _ t']) simp
  qed
qed

lemma get_frame:
  "scorw_get_uncopied_block a m b pt = (r, m') \<Longrightarrow> k \<noteq> b \<or> r = NoMemory \<Longrightarrow>
    scorw_find_uncopied_block_list m' k = scorw_find_uncopied_block_list m k"
  by (auto simp: scorw_get_uncopied_block_def find_upd_block find_add_block new_block_def split: option.splits if_splits)

lemma wait_frame:
  "get_after_wait m b pt = (r, m') \<Longrightarrow> (scorw_find_uncopied_block_list m' k = None) = (scorw_find_uncopied_block_list m k = None)"
  by (auto simp: get_after_wait_def Let_def find_upd_block split: option.splits if_splits)

lemma put_frame:
  "scorw_put_uncopied_block m b pt = (r, w, m') \<Longrightarrow>
    (scorw_find_uncopied_block_list m' k = None) = (scorw_find_uncopied_block_list m k = None)"
  by (auto simp: scorw_put_uncopied_block_def find_upd_block split: option.splits if_splits)

lemma leave_frame:
  assumes "amap_inv types (m, th)" and "scorw_find_uncopied_block_list (scorw_remove_uncopied_block m b) k \<noteq> None"
  shows "scorw_find_uncopied_block_list m k \<noteq> None \<and> (k = b \<longrightarrow> (\<exists>t pt. th t = Holds b pt \<or> th t = Waits b pt))"
proof -
  have wf: "amap_wf m" using assms(1) by (simp add: amap_inv_def)
  have k: "scorw_find_uncopied_block_list m k \<noteq> None" and
    u: "k = b \<Longrightarrow> \<exists>u. scorw_find_uncopied_block_list m b = Some u \<and> (processing_type u \<noteq> NOP \<or> num_waiting u \<noteq> 0)"
    using assms(2) wf
    by (auto simp: scorw_remove_uncopied_block_def find_remove_block split: option.splits if_splits)
  have "\<exists>t pt. th t = Holds b pt \<or> th t = Waits b pt" if e: "k = b"
  proof -
    from u [OF e] obtain u where u: "scorw_find_uncopied_block_list m b = Some u" "processing_type u \<noteq> NOP \<or> num_waiting u \<noteq> 0"
      by blast
    with amap_invD(6) [OF assms(1), of b] have "holders th b \<noteq> {} \<or> waiters th b \<noteq> {}" by auto
    then show ?thesis by (auto simp: holders_def waiters_def)
  qed
  with k show ?thesis by blast
qed

lemma amap_step_busy:
  assumes "amap_step False types w w'" and "amap_busy w" and "amap_inv types w"
  shows "amap_busy w'"
  using assms(1)
proof cases
  case (get_now th t pt a m b m')
  with get_frame [OF get_now(5)] assms(2) amap_busy_upd [of m th t b "Holds b pt" m'] show ?thesis by simp
next
  case (get_wait th t pt a m b m')
  with get_frame [OF get_wait(5)] assms(2) amap_busy_upd [of m th t b "Waits b pt" m'] show ?thesis by simp
next
  case (get_fail th t pt a m b m')
  with get_frame [OF get_fail(5)] assms(2) show ?thesis by (simp add: amap_busy_def)
next
  case (get_lacking th t pt a m b m')
  then show ?thesis by simp
next
  case (wait_done th t b pt m m')
  with wait_frame [OF wait_done(4)] assms(2) amap_busy_upd [of m th t b "Holds b pt" m'] show ?thesis by simp
next
  case (wait_on th t b pt m m')
  with wait_frame [OF wait_on(4)] assms(2) show ?thesis by (simp add: amap_busy_def)
next
  case (put th t b pt m r woken m')
  with put_frame [OF put(4)] assms(2) amap_busy_upd [of m th t b "Leaves b" m'] show ?thesis by simp
next
  case (put_lacking th t b pt m r woken m')
  with put_frame [OF put_lacking(5)] assms(2) amap_busy_upd [of m th t b "Leaves b" m'] show ?thesis by simp
next
  case (leave th t b m)
  have "\<exists>t'. block_of ((th(t := Idle)) t') = Some k"
    if k: "scorw_find_uncopied_block_list (scorw_remove_uncopied_block m b) k \<noteq> None" for k
  proof -
    from leave_frame [OF _ k] assms(3) leave have
      m: "scorw_find_uncopied_block_list m k \<noteq> None" "k = b \<longrightarrow> (\<exists>t pt. th t = Holds b pt \<or> th t = Waits b pt)" by blast+
    then obtain t' where "block_of (th t') = Some k" "t' \<noteq> t"
    proof (cases "k = b")
      case True
      with m(2) obtain t' pt where "th t' = Holds b pt \<or> th t' = Waits b pt" by blast
      with True leave(3) show ?thesis by (intro that [of t']) auto
    next
      case False
      from m(1) assms(2) leave(1) obtain t' where "block_of (th t') = Some k" unfolding amap_busy_def by auto
      with False leave(3) show ?thesis by (intro that [of t']) auto
    qed
    then show ?thesis by (intro exI [of _ t']) simp
  qed
  with leave show ?thesis by (simp add: amap_busy_def)
qed

lemma amap_steps_busy:
  assumes "(amap_step False types)\<^sup>*\<^sup>* (empty_amap n, \<lambda>_. Idle) w" and "types_ok types"
  shows "amap_busy w"
  using assms(1)
proof (induction rule: rtranclp_induct)
  case base
  show ?case by (simp add: amap_busy_def empty_amap_def scorw_find_uncopied_block_list_def)
next
  case (step w w')
  with amap_steps_inv [OF step(1) assms(2)] show ?case using amap_step_busy by blast
qed

text \<open>Single steps, seen at the entry of their block.\<close>

lemma step_fresh:
  assumes "scorw_find_uncopied_block_list m b = None" and "th t = Idle" and "pt \<in> types"
  shows "\<exists>m'. amap_step fails types (m, th) (m', th(t := Holds b pt)) \<and> scorw_find_uncopied_block_list m' b = Some (new_block b pt)"
  using assms get_now [where th = th and t = t and pt = pt and types = types and a = True and m = m and b = b and fails = fails]
  by (auto simp: scorw_get_uncopied_block_def find_add_block new_block_def)

lemma step_join:
  assumes "scorw_find_uncopied_block_list m b = Some u" and "th t = Idle" and "pt \<in> types"
    and "scorw_is_compatible_processing_type (processing_type u) pt"
  shows "\<exists>m'. amap_step fails types (m, th) (m', th(t := Holds b pt)) \<and> scorw_find_uncopied_block_list m' b = Some (take_block pt u)"
  using assms get_now [where th = th and t = t and pt = pt and types = types and a = True and m = m and b = b and fails = fails] by (auto simp: scorw_get_uncopied_block_def find_upd_block)

lemma step_wait:
  assumes "scorw_find_uncopied_block_list m b = Some u" and "th t = Idle" and "pt \<in> types"
    and "\<not> scorw_is_compatible_processing_type (processing_type u) pt"
  shows "\<exists>m'. amap_step fails types (m, th) (m', th(t := Waits b pt)) \<and>
    scorw_find_uncopied_block_list m' b = Some (u\<lparr>num_waiting := num_waiting u + 1\<rparr>)"
  using assms get_wait [where th = th and t = t and pt = pt and types = types and a = True and m = m and b = b and fails = fails] by (auto simp: scorw_get_uncopied_block_def find_upd_block)

lemma step_put:
  assumes "scorw_find_uncopied_block_list m b = Some u" and "th t = Holds b pt"
  shows "\<exists>m'. amap_step fails types (m, th) (m', th(t := Leaves b)) \<and> scorw_find_uncopied_block_list m' b = Some (put_block pt u)"
  using assms put [where th = th and t = t and b = b and pt = pt and m = m and m' = "upd_block m b (put_block pt)" and types = types and fails = fails]
  by (intro exI [of _ "upd_block m b (put_block pt)"]) (simp add: scorw_put_uncopied_block_def find_upd_block)

lemma step_lacks:
  assumes "scorw_find_uncopied_block_list m b = None" and "th t = Idle" and "pt \<in> types"
  shows "amap_step True types (m, th) (m, th(t := Lacks b pt))"
  using assms by (intro get_lacking [where a = False]) (simp_all add: scorw_get_uncopied_block_def)

lemma step_put_lacking:
  assumes "scorw_find_uncopied_block_list m b = Some u" and "th t = Lacks b pt"
  shows "\<exists>m'. amap_step True types (m, th) (m', th(t := Leaves b)) \<and> scorw_find_uncopied_block_list m' b = Some (put_block pt u)"
  using assms put_lacking [where th = th and t = t and b = b and pt = pt and m = m and m' = "upd_block m b (put_block pt)" and types = types and fails = True]
  by (intro exI [of _ "upd_block m b (put_block pt)"]) (simp add: scorw_put_uncopied_block_def find_upd_block)

lemma find_empty [simp]: "scorw_find_uncopied_block_list (empty_amap n) b = None"
  by (simp add: empty_amap_def scorw_find_uncopied_block_list_def)

section \<open>Properties\<close>

text \<open>C18: whatever threads do, as long as no thread goes on without the entry it could not
  allocate and reading and shared copying are not used together
  (the write and the page copy paths of the module use \<open>COPYING\<close> and \<open>COPYING_EXCL\<close> only), a
  thread that holds a block for anything but reading is the only one that holds it.\<close>

theorem active_block_exclusive:
  assumes "(amap_step False types)\<^sup>*\<^sup>* (empty_amap n, \<lambda>_. Idle) (m, th)" and "types_ok types"
    and "th t = Holds b pt" and "pt \<noteq> READING"
  shows "\<forall>t' pt'. th t' = Holds b pt' \<longrightarrow> t' = t"
proof (intro allI impI)
  fix t' pt' assume "th t' = Holds b pt'"
  have inv: "amap_inv types (m, th)" by (rule amap_steps_inv [OF assms(1,2)])
  have h: "(t, pt) \<in> holders th b" "(t', pt') \<in> holders th b"
    using assms(3) \<open>th t' = Holds b pt'\<close> by (simp_all add: holders_def)
  then obtain u where "scorw_find_uncopied_block_list m b = Some u"
    using amap_invD(6) [OF inv, of b] by (cases "scorw_find_uncopied_block_list m b") auto
  with amap_invD(6) [OF inv, of b] have "\<forall>h\<in>holders th b. snd h = READING \<or> holders th b = {h}" by simp
  with h assms(4) show "t' = t" by force
qed

theorem active_block_exclusive_witness:
  "\<exists>m th. (amap_step False {COPYING, COPYING_EXCL})\<^sup>*\<^sup>* (empty_amap 16, \<lambda>_. Idle) (m, th) \<and>
    th 1 = Holds 7 COPYING \<and> th 2 = Waits 7 COPYING_EXCL \<and> (\<forall>t' pt'. th t' = Holds 7 pt' \<longrightarrow> t' = 1)"
proof -
  let ?T = "{COPYING, COPYING_EXCL}" and ?th1 = "(\<lambda>_. Idle)(1 :: nat := Holds 7 COPYING)"
  obtain m1 where m1: "amap_step False ?T (empty_amap 16, \<lambda>_. Idle) (m1, ?th1)"
    "scorw_find_uncopied_block_list m1 7 = Some (new_block 7 COPYING)"
    using step_fresh [of "empty_amap 16" 7 "\<lambda>_. Idle" 1 COPYING ?T False] by auto
  obtain m2 where m2: "amap_step False ?T (m1, ?th1) (m2, ?th1(2 := Waits 7 COPYING_EXCL))"
    using step_wait [OF m1(2), of ?th1 2 COPYING_EXCL ?T False]
    by (auto simp: new_block_def scorw_is_compatible_processing_type_def)
  from m1(1) m2 have run: "(amap_step False ?T)\<^sup>*\<^sup>* (empty_amap 16, \<lambda>_. Idle) (m2, ?th1(2 := Waits 7 COPYING_EXCL))" by simp
  from active_block_exclusive [OF this, of 1 7 COPYING] run show ?thesis
    by (intro exI [of _ m2] exI [of _ "?th1(2 := Waits 7 COPYING_EXCL)"]) (simp add: types_ok_def)
qed

text \<open>C40: the callers of \<open>scorw_get_uncopied_block\<close> do not test its result, and
  \<open>scorw_put_uncopied_block\<close> finds the entry by the number of the block, so a failed
  allocation breaks the lock of another thread: from every state in which a block has no entry
  and three threads are idle, the first may fail to allocate the entry and go on, the second
  get the block for any kind of processing, and the first clear that kind when it puts the
  block, whereupon the third gets the block for any other kind while the second still holds it.
  Nobody else moves.\<close>

theorem failed_get_breaks_lock:
  assumes "scorw_find_uncopied_block_list m b = None" and "distinct [t1, t2, t3]"
    and "\<forall>t\<in>{t1, t2, t3}. th t = Idle" and "pt \<in> types" and "pt' \<in> types"
  shows "\<exists>m'. (amap_step True types)\<^sup>*\<^sup>* (m, th) (m', th(t1 := Leaves b, t2 := Holds b pt, t3 := Holds b pt'))"
proof -
  define th1 th2 th3 where "th1 = th(t1 := Lacks b pt)" and "th2 = th1(t2 := Holds b pt)" and "th3 = th2(t1 := Leaves b)"
  note th = th1_def th2_def th3_def
  have s1: "amap_step True types (m, th) (m, th1)" using step_lacks [of m b th t1 pt types] assms by (simp add: th)
  obtain m2 where m2: "amap_step True types (m, th1) (m2, th2)" "scorw_find_uncopied_block_list m2 b = Some (new_block b pt)"
    using step_fresh [OF assms(1), of th1 t2 pt types True] assms by (auto simp: th)
  obtain m3 where m3: "amap_step True types (m2, th2) (m3, th3)"
    "scorw_find_uncopied_block_list m3 b = Some (put_block pt (new_block b pt))"
    using step_put_lacking [OF m2(2), of th2 t1 pt types] assms(2) by (auto simp: th)
  have "processing_type (put_block pt (new_block b pt)) = NOP" by (simp add: put_block_def new_block_def Let_def)
  then obtain m4 where m4: "amap_step True types (m3, th3) (m4, th3(t3 := Holds b pt'))"
    using step_join [OF m3(2), of th3 t3 pt' types True] assms by (auto simp: th scorw_is_compatible_processing_type_def)
  have "th3(t3 := Holds b pt') = th(t1 := Leaves b, t2 := Holds b pt, t3 := Holds b pt')" using assms(2) by (auto simp: th)
  then show ?thesis using s1 m2(1) m3(1) m4 by (metis converse_rtranclp_into_rtranclp rtranclp.rtrancl_refl)
qed

theorem failed_get_breaks_lock_witness:
  "\<exists>m. (amap_step True {COPYING, COPYING_EXCL})\<^sup>*\<^sup>* (empty_amap 16, \<lambda>_. Idle)
    (m, (\<lambda>_. Idle)(1 := Leaves 7, 2 := Holds 7 COPYING_EXCL, 3 := Holds 7 COPYING))"
  using failed_get_breaks_lock [of "empty_amap 16" 7 1 2 3 "\<lambda>_. Idle" COPYING_EXCL "{COPYING, COPYING_EXCL}" COPYING]
  by simp

text \<open>The index of the bucket of every block lies inside the table, for any table
  that has at least one list.\<close>

theorem bucket_in_table:
  assumes "0 < i_hash_table_size m" and "i_hash_table_size m < 2 ^ 32"
  shows "bucket m key < i_hash_table_size m"
proof -
  have le: "2 ^ ilog2 (i_hash_table_size m) \<le> i_hash_table_size m" by (rule ilog2_power [OF assms(1)])
  with assms(2) have "(2 :: nat) ^ ilog2 (i_hash_table_size m) < 2 ^ 32" by linarith
  then have "ilog2 (i_hash_table_size m) < 32" by (rule power_less_imp_less_exp [rotated]) simp
  then have "ilog2 (i_hash_table_size m) \<le> 32" by simp
  from hash_min_less [OF this, of key] le show ?thesis by (simp add: bucket_def)
qed

theorem bucket_in_table_witness: "bucket (empty_amap 16) 12345 < 16"
  using bucket_in_table [of "empty_amap 16" 12345] by (simp add: empty_amap_def)

text \<open>Nobody starves on a free block: a waiting thread whose block nobody holds
  gets it at its next turn, which the timeout of the wait guarantees even when no
  wake-up comes.\<close>

theorem waiting_thread_proceeds:
  assumes "(amap_step False types)\<^sup>*\<^sup>* (empty_amap n, \<lambda>_. Idle) (m, th)" and "types_ok types"
    and "th t = Waits b pt" and "\<forall>t' pt'. th t' \<noteq> Holds b pt'"
  shows "\<exists>m'. get_after_wait m b pt = (Acquired, m') \<and> amap_step False types (m, th) (m', th(t := Holds b pt))"
proof -
  have inv: "amap_inv types (m, th)" by (rule amap_steps_inv [OF assms(1,2)])
  have tw: "t \<in> waiters th b" using assms(3) by (auto simp: waiters_def)
  then have "0 < card (waiters th b)" using amap_invD(3) [OF inv, of b] by (auto simp: card_gt_0_iff)
  then obtain u where u: "scorw_find_uncopied_block_list m b = Some u"
    using amap_invD(6) [OF inv, of b] by (cases "scorw_find_uncopied_block_list m b") simp_all
  have "holders th b = {}" using assms(4) by (simp add: holders_def)
  with amap_invD(6) [OF inv, of b] u have "processing_type u = NOP" by simp
  with u obtain m' where "get_after_wait m b pt = (Acquired, m')"
    by (simp add: get_after_wait_def find_upd_block scorw_is_compatible_processing_type_def)
  with assms(3) show ?thesis using wait_done [of th t b pt m m' False types] by blast
qed

theorem waiting_thread_proceeds_witness:
  "\<exists>m th m'. (amap_step False {COPYING, COPYING_EXCL})\<^sup>*\<^sup>* (empty_amap 16, \<lambda>_. Idle) (m, th) \<and>
    th 2 = Waits 7 COPYING_EXCL \<and> get_after_wait m 7 COPYING_EXCL = (Acquired, m')"
proof -
  let ?T = "{COPYING, COPYING_EXCL}" and ?th1 = "(\<lambda>_. Idle)(1 :: nat := Holds 7 COPYING)"
  let ?th2 = "?th1(2 := Waits 7 COPYING_EXCL)"
  obtain m1 where m1: "amap_step False ?T (empty_amap 16, \<lambda>_. Idle) (m1, ?th1)"
    "scorw_find_uncopied_block_list m1 7 = Some (new_block 7 COPYING)"
    using step_fresh [of "empty_amap 16" 7 "\<lambda>_. Idle" 1 COPYING ?T False] by auto
  obtain m2 u where m2: "amap_step False ?T (m1, ?th1) (m2, ?th2)" "scorw_find_uncopied_block_list m2 7 = Some u"
    using step_wait [OF m1(2), of ?th1 2 COPYING_EXCL ?T False]
    by (auto simp: new_block_def scorw_is_compatible_processing_type_def)
  obtain m3 where m3: "amap_step False ?T (m2, ?th2) (m3, ?th2(1 := Leaves 7))"
    using step_put [OF m2(2), of ?th2 1 COPYING False ?T] by auto
  have run: "(amap_step False ?T)\<^sup>*\<^sup>* (empty_amap 16, \<lambda>_. Idle) (m3, ?th2(1 := Leaves 7))"
    using m1(1) m2(1) m3 by (meson converse_rtranclp_into_rtranclp rtranclp.rtrancl_refl)
  have "\<forall>t' pt'. (?th2(1 := Leaves 7)) t' \<noteq> Holds 7 pt'" by (simp add: fun_upd_def)
  then have "\<exists>m'. get_after_wait m3 7 COPYING_EXCL = (Acquired, m')"
    using waiting_thread_proceeds [OF run _ _, of 2 7 COPYING_EXCL] by (auto simp: types_ok_def)
  then obtain m' where "get_after_wait m3 7 COPYING_EXCL = (Acquired, m')" ..
  with run show ?thesis by (intro exI [of _ m3] exI [of _ "?th2(1 := Leaves 7)"] exI [of _ m']) simp
qed

text \<open>C25: no entry is leaked: where threads put and remove what they hold and give up when an
  entry cannot be allocated, no block has an entry any more once every thread is done.\<close>

theorem active_map_no_leak:
  assumes "(amap_step False types)\<^sup>*\<^sup>* (empty_amap n, \<lambda>_. Idle) (m, \<lambda>_. Idle)" and "types_ok types"
  shows "scorw_find_uncopied_block_list m b = None"
  using amap_steps_busy [OF assms] unfolding amap_busy_def by force

theorem active_map_no_leak_witness:
  "\<exists>m1 th1 m. (amap_step False {COPYING, COPYING_EXCL})\<^sup>*\<^sup>* (empty_amap 16, \<lambda>_. Idle) (m1, th1) \<and>
    scorw_find_uncopied_block_list m1 7 \<noteq> None \<and>
    (amap_step False {COPYING, COPYING_EXCL})\<^sup>*\<^sup>* (m1, th1) (m, \<lambda>_. Idle) \<and> scorw_find_uncopied_block_list m 7 = None"
proof -
  let ?T = "{COPYING, COPYING_EXCL}" and ?th1 = "(\<lambda>_. Idle)(5 :: nat := Holds 7 COPYING)"
  obtain m1 where m1: "amap_step False ?T (empty_amap 16, \<lambda>_. Idle) (m1, ?th1)"
    "scorw_find_uncopied_block_list m1 7 = Some (new_block 7 COPYING)"
    using step_fresh [of "empty_amap 16" 7 "\<lambda>_. Idle" 5 COPYING ?T False] by auto
  obtain m2 where m2: "amap_step False ?T (m1, ?th1) (m2, ?th1(5 := Leaves 7))"
    using step_put [OF m1(2), of ?th1 5 COPYING False ?T] by auto
  have "(?th1(5 := Leaves 7))(5 := Idle) = (\<lambda>_. Idle)" by (rule ext) simp
  then have "amap_step False ?T (m2, ?th1(5 := Leaves 7)) (scorw_remove_uncopied_block m2 7, \<lambda>_. Idle)"
    using leave [of "?th1(5 := Leaves 7)" 5 7 False ?T m2] by simp
  then have run: "(amap_step False ?T)\<^sup>*\<^sup>* (m1, ?th1) (scorw_remove_uncopied_block m2 7, \<lambda>_. Idle)"
    using m2(1) by (meson converse_rtranclp_into_rtranclp rtranclp.rtrancl_refl)
  have "scorw_find_uncopied_block_list (scorw_remove_uncopied_block m2 7) 7 = None"
    using active_map_no_leak [of ?T 16, OF converse_rtranclp_into_rtranclp [OF m1(1) run]] by (simp add: types_ok_def)
  with run m1 show ?thesis
    by (intro exI [of _ m1] exI [of _ ?th1] exI [of _ "scorw_remove_uncopied_block m2 7"]) auto
qed

end
