(* ===== verification/Xattr_Store.thy ===== *)
theory Xattr_Store
  imports Prelude
begin

text \<open>
  The extended attributes in which the module keeps the relations between a
  parent, its children, their friend files and the log: the accessors of
  \<open>src/ext4-module/corw_sparse.c\<close> and the part of \<open>ext4_xattr_set\<close>
  (\<open>src/ext4-module/xattr.c\<close>) that turns two files into a parent and a child.
\<close>

section \<open>Attributes of an inode\<close>

type_synonym xattrs = "string \<rightharpoonup> byte list"

text \<open>\<open>ext4_xattr_get\<close> into a buffer of \<open>n\<close> bytes: the length of the value, and the
  value; or an error when there is no such attribute or it does not fit.\<close>

definition ext4_xattr_get :: "xattrs \<Rightarrow> string \<Rightarrow> nat \<Rightarrow> int \<times> byte list" where
  "ext4_xattr_get x name n =
     (case x name of
        None \<Rightarrow> (- ENODATA, [])
      | Some v \<Rightarrow> if n < length v then (- ERANGE, []) else (int (length v), v))"

text \<open>\<open>ext4_xattr_set\<close> on an attribute other than \<open>SCORW_PARENT\<close>. \<open>xok\<close> says whether
  the transaction succeeds.\<close>

definition xattr_set :: "bool \<Rightarrow> xattrs \<Rightarrow> string \<Rightarrow> byte list \<Rightarrow> xattrs" where
  "xattr_set xok x name v = (if xok then x(name \<mapsto> v) else x)"

definition xattr_remove :: "bool \<Rightarrow> xattrs \<Rightarrow> string \<Rightarrow> xattrs" where
  "xattr_remove xok x name = (if xok then x(name := None) else x)"

text \<open>Read an unsigned variable of \<open>n\<close> bytes that held \<open>junk\<close>; a value shorter than the
  variable leaves its upper bytes as they are. 0 when there is no value.\<close>

definition attr_val :: "xattrs \<Rightarrow> string \<Rightarrow> nat \<Rightarrow> nat \<Rightarrow> nat" where
  "attr_val x name n junk =
     (case ext4_xattr_get x name n of (buf_size, v) \<Rightarrow>
        if 0 < buf_size then le_val (v @ drop (length v) (le_bytes n junk)) else 0)"

section \<open>Names\<close>

definition digit_char :: "nat \<Rightarrow> char" where
  "digit_char d = char_of (48 + d)"

fun dec_digits :: "nat \<Rightarrow> string" where
  "dec_digits n = (if n < 10 then [digit_char n] else dec_digits (n div 10) @ [digit_char (n mod 10)])"

declare dec_digits.simps [simp del]

definition scorw_child :: string where "scorw_child = ''c_''"
definition scorw_range_start :: string where "scorw_range_start = ''r_start_''"
definition scorw_range_end :: string where "scorw_range_end = ''r_end_''"
definition scorw_child_frnd :: string where "scorw_child_frnd = ''SCORW_CHILD''"
definition scorw_parent :: string where "scorw_parent = ''SCORW_PARENT''"
definition scorw_friend :: string where "scorw_friend = ''SCORW_FRIEND''"
definition copy_size :: string where "copy_size = ''COPY_SIZE''"
definition blocks_to_copy :: string where "blocks_to_copy = ''BLOCKS_TO_COPY''"
definition num_ranges :: string where "num_ranges = ''NUM_RANGES''"
definition version_attr :: string where "version_attr = ''v''"
definition curr_version :: string where "curr_version = ''curr_version''"
definition par_org :: string where "par_org = ''PAR_ORGY''"
definition see_thru_ro :: string where "see_thru_ro = ''SEE_THRU_RO''"
definition last_open_time :: string where "last_open_time = ''LAST_OPEN_TIME''"
definition scorw_log :: string where "scorw_log = ''SCORW_LOG''"

lemmas attr_names = scorw_child_def scorw_range_start_def scorw_range_end_def scorw_child_frnd_def
  scorw_parent_def scorw_friend_def copy_size_def blocks_to_copy_def num_ranges_def version_attr_def
  curr_version_def par_org_def see_thru_ro_def last_open_time_def scorw_log_def

definition child_name :: "nat \<Rightarrow> string" where
  "child_name i = scorw_child @ dec_digits i"

definition range_name :: "nat \<Rightarrow> string" where
  "range_name i = scorw_range_start @ dec_digits i"

section \<open>Accessors\<close>

text \<open>Each reads one attribute into a local variable; \<open>junk\<close> is what an uninitialised
  variable held.\<close>

definition scorw_get_range_i_start_attr_val :: "xattrs \<Rightarrow> nat \<Rightarrow> nat" where
  "scorw_get_range_i_start_attr_val x i =
     (if MAX_RANGES_SUPPORTED \<le> i then 0 else attr_val x (range_name i) 4 0)"

definition scorw_get_range_i_end_attr_val :: "xattrs \<Rightarrow> nat \<Rightarrow> nat" where
  "scorw_get_range_i_end_attr_val x i =
     (if MAX_RANGES_SUPPORTED \<le> i then 0 else attr_val x (scorw_range_end @ dec_digits i) 4 0)"

definition scorw_get_num_ranges_attr_val :: "nat \<Rightarrow> xattrs \<Rightarrow> int" where
  "scorw_get_num_ranges_attr_val junk x = s32 (int (attr_val x num_ranges 4 junk))"

definition scorw_get_parent_attr_val :: "nat \<Rightarrow> xattrs \<Rightarrow> nat" where
  "scorw_get_parent_attr_val junk x = attr_val x scorw_parent 8 junk"

definition scorw_get_friend_attr_val :: "nat \<Rightarrow> xattrs \<Rightarrow> nat" where
  "scorw_get_friend_attr_val junk x = attr_val x scorw_friend 8 junk"

definition scorw_get_last_open_time :: "nat \<Rightarrow> xattrs \<Rightarrow> nat" where
  "scorw_get_last_open_time junk x = attr_val x last_open_time 4 junk"

text \<open>\<open>ext4_xattr_set\<close> returns 0 on success, so the result is 0 in any case.\<close>

definition scorw_set_last_open_time :: "bool \<Rightarrow> nat \<Rightarrow> xattrs \<Rightarrow> nat \<times> xattrs" where
  "scorw_set_last_open_time xok now x = (0, xattr_set xok x last_open_time (le_bytes 4 now))"

text \<open>The variable is an \<open>int\<close>, the buffer size passed is that of a \<open>long\<close>.\<close>

definition scorw_get_see_thru_attr_val :: "nat \<Rightarrow> xattrs \<Rightarrow> int" where
  "scorw_get_see_thru_attr_val junk x = s32 (int (attr_val x see_thru_ro 8 junk))"

definition scorw_get_log_attr_val :: "nat \<Rightarrow> xattrs \<Rightarrow> nat" where
  "scorw_get_log_attr_val junk x = attr_val x scorw_log 8 junk"

definition scorw_get_copy_size_attr_val :: "nat \<Rightarrow> xattrs \<Rightarrow> int" where
  "scorw_get_copy_size_attr_val junk x = s64 (int (attr_val x copy_size 8 junk))"

definition scorw_get_blocks_to_copy_attr_val :: "nat \<Rightarrow> xattrs \<Rightarrow> nat" where
  "scorw_get_blocks_to_copy_attr_val junk x = attr_val x blocks_to_copy 4 junk"

definition scorw_get_curr_version_attr_val :: "nat \<Rightarrow> xattrs \<Rightarrow> nat" where
  "scorw_get_curr_version_attr_val junk x = attr_val x curr_version 8 junk"

definition scorw_set_curr_version_attr_val :: "bool \<Rightarrow> xattrs \<Rightarrow> nat \<Rightarrow> xattrs" where
  "scorw_set_curr_version_attr_val xok x val = xattr_set xok x curr_version (le_bytes 8 val)"

definition scorw_get_original_parent_size :: "nat \<Rightarrow> xattrs \<Rightarrow> nat" where
  "scorw_get_original_parent_size junk x = attr_val x par_org 8 junk"

definition scorw_get_child_version_attr_val :: "nat \<Rightarrow> xattrs \<Rightarrow> nat" where
  "scorw_get_child_version_attr_val junk x = attr_val x version_attr 8 junk"

definition scorw_get_frnd_version_attr_val :: "nat \<Rightarrow> xattrs \<Rightarrow> nat" where
  "scorw_get_frnd_version_attr_val junk x = attr_val x version_attr 8 junk"

definition scorw_set_frnd_version_attr_val :: "bool \<Rightarrow> xattrs \<Rightarrow> nat \<Rightarrow> xattrs" where
  "scorw_set_frnd_version_attr_val xok x val = xattr_set xok x version_attr (le_bytes 8 val)"

definition scorw_set_child_version_attr_val :: "bool \<Rightarrow> xattrs \<Rightarrow> nat \<Rightarrow> xattrs" where
  "scorw_set_child_version_attr_val xok x val = xattr_set xok x version_attr (le_bytes 8 val)"

definition scorw_get_child_i_attr_val :: "nat \<Rightarrow> xattrs \<Rightarrow> nat \<Rightarrow> nat" where
  "scorw_get_child_i_attr_val junk x child_i =
     (if SCORW_MAX_CHILDS \<le> child_i then 0 else attr_val x (child_name child_i) 8 junk)"

definition scorw_set_blocks_to_copy_attr_val :: "bool \<Rightarrow> xattrs \<Rightarrow> nat \<Rightarrow> xattrs" where
  "scorw_set_blocks_to_copy_attr_val xok x n = xattr_set xok x blocks_to_copy (le_bytes 4 n)"

definition scorw_remove_child_i_attr :: "bool \<Rightarrow> xattrs \<Rightarrow> nat \<Rightarrow> xattrs" where
  "scorw_remove_child_i_attr xok x child_i = xattr_remove xok x (child_name child_i)"

section \<open>Ranges of a child\<close>

text \<open>The values of \<open>WriteCh\<close>; a range keeps whatever 16 bit value was stored.\<close>

definition SNAPX_FLAG_COW :: nat where [simp]: "SNAPX_FLAG_COW = 0"
definition SNAPX_FLAG_COW_RO :: nat where [simp]: "SNAPX_FLAG_COW_RO = 1"
definition SNAPX_FLAG_SEE_TH :: nat where [simp]: "SNAPX_FLAG_SEE_TH = 2"
definition SNAPX_FLAG_SEE_TH_RO :: nat where [simp]: "SNAPX_FLAG_SEE_TH_RO = 3"
definition SNAPX_FLAG_SHARED :: nat where [simp]: "SNAPX_FLAG_SHARED = 4"
definition SNAPX_FLAG_SHARED_RO :: nat where [simp]: "SNAPX_FLAG_SHARED_RO = 5"

record child_range =
  range_first :: int
  range_last :: int
  snapx_behavior :: nat

record child_range_xattr =
  crx_start :: nat
  crx_end :: nat
  crx_behavior :: nat

text \<open>The structure takes 12 bytes; the last two are padding.\<close>

definition crx_bytes :: "nat \<Rightarrow> child_range_xattr \<Rightarrow> byte list" where
  "crx_bytes junk r = le_bytes 4 (crx_start r) @ le_bytes 4 (crx_end r) @ le_bytes 2 (crx_behavior r) @ le_bytes 2 junk"

definition crx_of_bytes :: "byte list \<Rightarrow> child_range_xattr" where
  "crx_of_bytes bs = \<lparr>crx_start = le_val (take 4 bs), crx_end = le_val (take 4 (drop 4 bs)),
     crx_behavior = le_val (take 2 (drop 8 bs))\<rparr>"

text \<open>\<open>scorw_get_range_attr_val\<close>: the value returned and the structure filled in; \<open>old\<close>
  is what the structure held.\<close>

definition scorw_get_range_attr_val :: "xattrs \<Rightarrow> nat \<Rightarrow> child_range_xattr \<Rightarrow> int \<times> child_range_xattr" where
  "scorw_get_range_attr_val x i old =
     (if MAX_RANGES_SUPPORTED \<le> i then (0, old)
      else case ext4_xattr_get x (range_name i) 12 of (ret, v) \<Rightarrow>
        if 0 < ret then (ret, crx_of_bytes (v @ drop (length v) (crx_bytes 0 old))) else (ret, old))"

section \<open>Making a file the child of a parent\<close>

record helper_inodes =
  p_inode_num :: ino
  f_inode_num :: ino
  l_inode_num :: ino
  h_num_ranges :: int
  h_range :: "nat \<Rightarrow> child_range"

text \<open>The search for a free slot among \<open>c_0\<close> ... \<open>c_63\<close>: the first that cannot be
  read or holds 0. The inode number is read into an \<open>unsigned\<close>, of which the
  lower four bytes count. The result is 64 when there is none.\<close>

fun child_slot :: "xattrs \<Rightarrow> nat \<Rightarrow> nat \<Rightarrow> nat \<Rightarrow> nat" where
  "child_slot x num i 0 = i"
| "child_slot x num i (Suc k) =
     (case ext4_xattr_get x (child_name i) 8 of (buf_size, v) \<Rightarrow>
        let num1 = (if 0 < buf_size then le_val (take 4 (v @ drop (length v) (le_bytes 4 num))) else num) in
        if buf_size < 0 \<or> num1 = 0 then i else child_slot x num1 (i + 1) k)"

definition xattr_child_slot :: "xattrs \<Rightarrow> nat" where
  "xattr_child_slot x = child_slot x 0 0 SCORW_MAX_CHILDS"

definition crx_of_range :: "child_range \<Rightarrow> child_range_xattr" where
  "crx_of_range r = \<lparr>crx_start = nat (range_first r mod 2 ^ 32), crx_end = nat (range_last r mod 2 ^ 32),
     crx_behavior = snapx_behavior r mod 2 ^ 16\<rparr>"

text \<open>The loop over the ranges: the attributes of the child and \<open>is_see_thru\<close>.\<close>

definition set_range :: "(string \<Rightarrow> bool) \<Rightarrow> nat \<Rightarrow> helper_inodes \<Rightarrow> nat \<Rightarrow> xattrs \<times> nat \<Rightarrow> xattrs \<times> nat" where
  "set_range xok junk h j st =
     (case st of (x, is_see_thru) \<Rightarrow>
        let crx = crx_of_range (h_range h j)
        in (xattr_set (xok (range_name j)) x (range_name j) (crx_bytes junk crx),
            if crx_behavior crx = SNAPX_FLAG_SEE_TH_RO then 1 else is_see_thru))"

text \<open>
  The setting of \<open>SCORW_PARENT\<close> up to the attribute itself: error, or the slot
  taken and the attributes of parent, child and friend. \<open>xok\<close> says which
  settings succeed (their results are ignored), \<open>c\<close> is the inode number of the
  child and \<open>psize\<close> the size of the parent, which becomes the child's size.
\<close>

definition parent_original_size :: "nat \<Rightarrow> nat" where
  "parent_original_size psize = (if psize mod 4096 \<noteq> 0 then psize + (4096 - psize mod 4096) else psize)"

definition xattr_set_parent ::
    "(ino \<Rightarrow> string \<Rightarrow> bool) \<Rightarrow> nat \<Rightarrow> ino \<Rightarrow> helper_inodes \<Rightarrow> nat \<Rightarrow> xattrs \<Rightarrow> xattrs \<Rightarrow> xattrs \<Rightarrow>
      int + (nat \<times> xattrs \<times> xattrs \<times> xattrs)" where
  "xattr_set_parent xok junk c h psize px cx fx =
     (let p = p_inode_num h; f = f_inode_num h;
          setp = (\<lambda>x name v. xattr_set (xok p name) x name v);
          setc = (\<lambda>x name v. xattr_set (xok c name) x name v);
          setf = (\<lambda>x name v. xattr_set (xok f name) x name v)
      in
      if psize = 0 then Inl SCORW_PARENT_ERROR
      else
        let i = xattr_child_slot px in
        if i = SCORW_MAX_CHILDS then Inl SCORW_ERR_MAX_CHILDS_ALREADY_SET
        else
          let px1 = setp px (child_name i) (le_bytes 8 c);
              cx1 = setc cx copy_size (le_bytes 8 psize);
              cx2 = setc cx1 blocks_to_copy (le_bytes 4 ((psize - 1) div PAGE_SIZE + 1));
              cx3 = setc cx2 scorw_friend (le_bytes 8 f);
              fx1 = setf fx scorw_child_frnd (le_bytes 8 c);
              cx4 = setc cx3 version_attr (le_bytes 8 1);
              fx2 = setf fx1 version_attr (le_bytes 8 1);
              px2 = setp px1 scorw_log (le_bytes 8 (l_inode_num h));
              cx5 = setc cx4 curr_version (le_bytes 8 1);
              px3 = setp px2 curr_version (le_bytes 8 1);
              px4 = setp px3 par_org (le_bytes 8 (parent_original_size psize));
              cx6 = setc cx5 num_ranges (le_bytes 4 (nat (h_num_ranges h mod 2 ^ 32)))
          in case fold (set_range (xok c) junk h) [0..<nat (h_num_ranges h)] (cx6, 0) of
               (cx7, is_see_thru) \<Rightarrow>
                 Inr (i, setp px4 see_thru_ro (le_bytes 4 is_see_thru),
                      setc cx7 see_thru_ro (le_bytes 4 is_see_thru), fx2))"

section \<open>Lemmas\<close>

lemma attr_val_set [simp]:
  "0 < n \<Longrightarrow> v < 256 ^ n \<Longrightarrow> attr_val (x(name \<mapsto> le_bytes n v)) name n junk = v"
  by (simp add: attr_val_def ext4_xattr_get_def le_val_le_bytes)

lemma attr_val_other [simp]: "name \<noteq> name' \<Longrightarrow> attr_val (x(name \<mapsto> v)) name' n junk = attr_val x name' n junk"
  by (simp add: attr_val_def ext4_xattr_get_def)

lemma original_size_kept [simp]:
  "scorw_get_original_parent_size junk (scorw_set_child_version_attr_val xok x v) = scorw_get_original_parent_size junk x"
  "scorw_get_original_parent_size junk (xattr_set xok x ''curr_version'' b) = scorw_get_original_parent_size junk x"
  by (simp_all add: scorw_get_original_parent_size_def scorw_set_child_version_attr_val_def xattr_set_def attr_names)

lemma attr_val_absent: "x name = None \<Longrightarrow> attr_val x name n junk = 0"
  by (simp add: attr_val_def ext4_xattr_get_def)

lemma digit_value: "d < 10 \<Longrightarrow> of_char (digit_char d) - 48 = d"
  by (simp add: digit_char_def of_char_of)

lemma undec_dec [simp]: "foldl (\<lambda>n c. 10 * n + (of_char c - 48)) 0 (dec_digits n) = n"
proof (induction n rule: dec_digits.induct)
  case (1 n)
  then show ?case by (subst dec_digits.simps) (simp add: digit_value)
qed

lemma dec_digits_inj [simp]: "dec_digits i = dec_digits j \<longleftrightarrow> i = j"
  by (metis undec_dec)

lemma child_name_inj [simp]: "child_name i = child_name j \<longleftrightarrow> i = j"
  by (simp add: child_name_def)

lemma range_name_inj [simp]: "range_name i = range_name j \<longleftrightarrow> i = j"
  by (simp add: range_name_def)

declare attr_names [simp]

lemma crx_roundtrip:
  assumes "crx_start r < 2 ^ 32" and "crx_end r < 2 ^ 32" and "crx_behavior r < 2 ^ 16"
  shows "crx_of_bytes (crx_bytes junk r) = r"
  using assms by (simp add: crx_of_bytes_def crx_bytes_def le_val_le_bytes)

lemma length_crx_bytes [simp]: "length (crx_bytes junk r) = 12"
  by (simp add: crx_bytes_def)

lemma crx_of_range_bounds [simp]:
  "crx_start (crx_of_range r) < 2 ^ 32" "crx_end (crx_of_range r) < 2 ^ 32" "crx_behavior (crx_of_range r) < 2 ^ 16"
  by (simp_all add: crx_of_range_def nat_less_iff)

lemma set_ranges:
  assumes "fold (set_range xok junk h) [0..<n] (x, 0) = (x', st)"
  shows "(\<forall>j<n. xok (range_name j) \<longrightarrow> x' (range_name j) = Some (crx_bytes junk (crx_of_range (h_range h j)))) \<and>
    (\<forall>name. (\<forall>j. name \<noteq> range_name j) \<longrightarrow> x' name = x name) \<and>
    st = (if \<exists>j<n. snapx_behavior (h_range h j) mod 2 ^ 16 = SNAPX_FLAG_SEE_TH_RO then 1 else 0)"
  using assms
proof (induction n arbitrary: x' st)
  case (Suc n)
  obtain x1 s1 where f: "fold (set_range xok junk h) [0..<n] (x, 0) = (x1, s1)" by fastforce
  with Suc.prems have e: "set_range xok junk h n (x1, s1) = (x', st)" by simp
  from Suc.IH [OF f] e show ?case
    by (auto simp: set_range_def Let_def xattr_set_def crx_of_range_def less_Suc_eq split: if_splits)
qed simp

lemma child_slot_bounds: "i \<le> child_slot x num i k \<and> child_slot x num i k \<le> i + k"
proof (induction k arbitrary: i num)
  case (Suc k)
  have "child_slot x num i (Suc k) = i \<or> (\<exists>num'. child_slot x num i (Suc k) = child_slot x num' (i + 1) k)"
    by (auto simp: Let_def split: prod.splits)
  with Suc.IH [of "i + 1"] show ?case by (elim disjE exE) (simp_all, meson Suc_leD)
qed simp

declare child_slot.simps(2) [simp del]

text \<open>The children of a parent as the slots of its attributes: every attribute \<open>c_i\<close>
  that is there holds a 64 bit inode number whose lower half is not 0.\<close>

definition slots_ok :: "xattrs \<Rightarrow> bool" where
  "slots_ok x \<longleftrightarrow> (\<forall>i v. x (child_name i) = Some v \<longrightarrow> length v = 8 \<and> le_val v mod 2 ^ 32 \<noteq> 0)"

lemma le_val_take: "n \<le> length v \<Longrightarrow> le_val (take n v) = le_val v mod 256 ^ n"
  using le_val_append [of "take n v" "drop n v"] le_val_less [of "take n v"] by simp

lemma child_slot_first:
  assumes "slots_ok x"
  shows "(\<forall>j. i \<le> j \<and> j < child_slot x num i k \<longrightarrow> x (child_name j) \<noteq> None) \<and>
    (child_slot x num i k < i + k \<longrightarrow> x (child_name (child_slot x num i k)) = None)"
proof (induction k arbitrary: i num)
  case (Suc k)
  show ?case
  proof (cases "x (child_name i)")
    case None
    then have "child_slot x num i (Suc k) = i" by (simp add: child_slot.simps ext4_xattr_get_def)
    with None show ?thesis by (metis le_neq_implies_less less_irrefl order.trans leD)
  next
    case (Some v)
    then have v: "length v = 8" "le_val v mod 2 ^ 32 \<noteq> 0" using assms by (auto simp: slots_ok_def)
    let ?n = "le_val (take 4 (v @ drop (length v) (le_bytes 4 num)))"
    have "?n = le_val v mod 2 ^ 32" using v(1) le_val_take [of 4 v] by simp
    then have "child_slot x num i (Suc k) = child_slot x ?n (i + 1) k"
      using Some v by (simp add: child_slot.simps ext4_xattr_get_def Let_def)
    moreover have "x (child_name j) \<noteq> None" if "i \<le> j" "j < child_slot x ?n (i + 1) k" for j
      using Suc.IH [where i = "i + 1" and num = ?n] Some that by (cases "j = i") auto
    ultimately show ?thesis using Suc.IH [where i = "i + 1" and num = ?n] by simp
  qed
qed auto

lemma attr_read [simp]:
  "x name = Some (le_bytes n v) \<Longrightarrow> 0 < n \<Longrightarrow> attr_val x name n junk = v mod 256 ^ n"
  by (simp add: attr_val_def ext4_xattr_get_def le_val_le_bytes)

lemma attr_read_short:
  "x name = Some (le_bytes 4 v) \<Longrightarrow> attr_val x name 8 junk mod 2 ^ 32 = v mod 2 ^ 32"
  by (simp add: attr_val_def ext4_xattr_get_def le_val_append le_val_le_bytes)

lemma parent_original_size_align: "parent_original_size psize = page_align psize"
proof (cases "psize mod PAGE_SIZE = 0")
  case True
  then show ?thesis by (simp add: parent_original_size_def page_align_id)
next
  case False
  define q r where "q = psize div PAGE_SIZE" and "r = psize mod PAGE_SIZE"
  have p: "psize = PAGE_SIZE * q + r" "r < PAGE_SIZE" "0 < r" using False by (simp_all add: q_def r_def)
  have "(psize + (PAGE_SIZE - 1)) div PAGE_SIZE = Suc q" by (rule div_nat_eqI) (use p in simp_all)
  then have "page_align psize = Suc q * PAGE_SIZE" by (simp add: page_align_def)
  moreover have "parent_original_size psize = psize + (PAGE_SIZE - r)" using p(3) by (simp add: parent_original_size_def r_def)
  ultimately show ?thesis using p by simp
qed

lemma s32_cong: "x mod 2 ^ 32 = y mod 2 ^ 32 \<Longrightarrow> s32 x = s32 y"
  unfolding s32_def by (metis mod_add_left_eq)

lemma see_thru_read:
  assumes "x see_thru_ro = Some (le_bytes 4 v)" and "v = 0 \<or> v = 1"
  shows "scorw_get_see_thru_attr_val junk x = int v"
proof -
  have "attr_val x see_thru_ro 8 junk mod 2 ^ 32 = v"
    using attr_read_short [of x see_thru_ro v junk] assms(1) assms(2) by auto
  then have "int (attr_val x see_thru_ro 8 junk) mod 2 ^ 32 = int v mod 2 ^ 32"
    using assms(2) by (metis of_nat_mod of_nat_numeral of_nat_power mod_mod_trivial)
  then have "s32 (int (attr_val x see_thru_ro 8 junk)) = s32 (int v)" by (rule s32_cong)
  also have "\<dots> = int v" using assms(2) by (intro s32_id) auto
  finally show ?thesis by (simp add: scorw_get_see_thru_attr_val_def)
qed

text \<open>The attributes after the last step, as they are stored.\<close>

lemma create_child_stored:
  assumes "0 < psize" and "slots_ok px" and "xattr_child_slot px < SCORW_MAX_CHILDS" and "h_num_ranges h \<le> int MAX_RANGES_SUPPORTED"
  obtains i px' cx' fx' st where
    "xattr_set_parent (\<lambda>_ _. True) junk c h psize px cx fx = Inr (i, px', cx', fx')"
    "i < SCORW_MAX_CHILDS" "px (child_name i) = None" "\<forall>j<i. px (child_name j) \<noteq> None"
    "px' (child_name i) = Some (le_bytes 8 c)" "\<forall>j. j \<noteq> i \<longrightarrow> px' (child_name j) = px (child_name j)"
    "px' scorw_log = Some (le_bytes 8 (l_inode_num h))" "px' curr_version = Some (le_bytes 8 1)"
    "px' par_org = Some (le_bytes 8 (page_align psize))" "px' see_thru_ro = Some (le_bytes 4 st)"
    "cx' copy_size = Some (le_bytes 8 psize)" "cx' blocks_to_copy = Some (le_bytes 4 ((psize - 1) div PAGE_SIZE + 1))"
    "cx' scorw_friend = Some (le_bytes 8 (f_inode_num h))" "cx' version_attr = Some (le_bytes 8 1)"
    "cx' curr_version = Some (le_bytes 8 1)" "cx' num_ranges = Some (le_bytes 4 (nat (h_num_ranges h mod 2 ^ 32)))"
    "\<forall>j. int j < h_num_ranges h \<longrightarrow> cx' (range_name j) = Some (crx_bytes junk (crx_of_range (h_range h j)))"
    "fx' version_attr = Some (le_bytes 8 1)" "st = 0 \<or> st = 1"
    "st \<noteq> 0 \<longleftrightarrow> (\<exists>j. int j < h_num_ranges h \<and> snapx_behavior (h_range h j) mod 2 ^ 16 = SNAPX_FLAG_SEE_TH_RO)"
proof -
  define i n where "i = xattr_child_slot px" and "n = nat (h_num_ranges h)"
  define cx6 where "cx6 = cx(copy_size \<mapsto> le_bytes 8 psize, blocks_to_copy \<mapsto> le_bytes 4 ((psize - 1) div PAGE_SIZE + 1),
    scorw_friend \<mapsto> le_bytes 8 (f_inode_num h), version_attr \<mapsto> le_bytes 8 1, curr_version \<mapsto> le_bytes 8 1,
    num_ranges \<mapsto> le_bytes 4 (nat (h_num_ranges h mod 2 ^ 32)))"
  obtain cx7 st where f: "fold (set_range (\<lambda>_. True) junk h) [0..<n] (cx6, 0) = (cx7, st)" by fastforce
  note r = set_ranges [OF f]
  define px' where "px' = px(child_name i \<mapsto> le_bytes 8 c, scorw_log \<mapsto> le_bytes 8 (l_inode_num h), curr_version \<mapsto> le_bytes 8 1,
    par_org \<mapsto> le_bytes 8 (page_align psize), see_thru_ro \<mapsto> le_bytes 4 st)"
  define cx' where "cx' = cx7(see_thru_ro \<mapsto> le_bytes 4 st)"
  define fx' where "fx' = fx(scorw_child_frnd \<mapsto> le_bytes 8 c, version_attr \<mapsto> le_bytes 8 1)"
  have i: "i < SCORW_MAX_CHILDS" "px (child_name i) = None" "\<forall>j<i. px (child_name j) \<noteq> None"
    using assms(3) child_slot_first [OF assms(2), where i = 0 and num = 0 and k = SCORW_MAX_CHILDS]
    by (simp_all add: i_def xattr_child_slot_def)
  have run: "xattr_set_parent (\<lambda>_ _. True) junk c h psize px cx fx = Inr (i, px', cx', fx')"
    using assms(1) i(1) f parent_original_size_align
    by (simp add: xattr_set_parent_def Let_def xattr_set_def i_def [symmetric] cx6_def n_def px'_def cx'_def fx'_def)
  have c7: "cx' name = cx6 name" if "\<forall>j. name \<noteq> range_name j" "name \<noteq> see_thru_ro" for name
    using r that by (simp add: cx'_def)
  have rng: "\<forall>j. int j < h_num_ranges h \<longrightarrow> cx' (range_name j) = Some (crx_bytes junk (crx_of_range (h_range h j)))"
    using r by (simp add: n_def cx'_def range_name_def)
  have st: "st = 0 \<or> st = 1" "st \<noteq> 0 \<longleftrightarrow> (\<exists>j. int j < h_num_ranges h \<and> snapx_behavior (h_range h j) mod 2 ^ 16 = SNAPX_FLAG_SEE_TH_RO)"
    using r unfolding n_def zless_nat_eq_int_zless by simp_all
  show ?thesis
    by (rule that [OF run i _ _ _ _ _ _ _ _ _ _ _ _ rng _ st])
      (use c7 in \<open>simp_all add: range_name_def cx6_def px'_def child_name_def fx'_def\<close>)
qed

section \<open>Properties\<close>

text \<open>C23: making a file a child stores what opening it reads back. The first free slot
  of the parent gets the child and no other slot changes; child, friend and log
  are linked, the size of the snapshot and the number of its blocks are those of
  the parent, the versions start at 1, and the ranges come back as they were
  given.\<close>

theorem create_child_attrs_roundtrip:
  assumes "0 < psize" and "psize < 2 ^ 43" and "slots_ok px" and "xattr_child_slot px < SCORW_MAX_CHILDS"
    and "c < 2 ^ 64" and "f_inode_num h < 2 ^ 64" and "l_inode_num h < 2 ^ 64"
    and "0 \<le> h_num_ranges h" and "h_num_ranges h \<le> int MAX_RANGES_SUPPORTED"
  shows "\<exists>i px' cx' fx'. xattr_set_parent (\<lambda>_ _. True) junk c h psize px cx fx = Inr (i, px', cx', fx') \<and>
    i < SCORW_MAX_CHILDS \<and> px (child_name i) = None \<and> (\<forall>j<i. px (child_name j) \<noteq> None) \<and>
    scorw_get_child_i_attr_val junk px' i = c \<and> (\<forall>j. j \<noteq> i \<longrightarrow> px' (child_name j) = px (child_name j)) \<and>
    scorw_get_friend_attr_val junk cx' = f_inode_num h \<and>
    scorw_get_copy_size_attr_val junk cx' = int psize \<and>
    scorw_get_blocks_to_copy_attr_val junk cx' = (psize - 1) div PAGE_SIZE + 1 \<and>
    scorw_get_child_version_attr_val junk cx' = 1 \<and> scorw_get_frnd_version_attr_val junk fx' = 1 \<and>
    scorw_get_log_attr_val junk px' = l_inode_num h \<and> scorw_get_curr_version_attr_val junk px' = 1 \<and>
    scorw_get_curr_version_attr_val junk cx' = 1 \<and> scorw_get_original_parent_size junk px' = page_align psize \<and>
    scorw_get_num_ranges_attr_val junk cx' = h_num_ranges h \<and>
    (\<forall>j old. int j < h_num_ranges h \<longrightarrow> scorw_get_range_attr_val cx' j old = (12, crx_of_range (h_range h j))) \<and>
    (scorw_get_see_thru_attr_val junk px' \<noteq> 0 \<longleftrightarrow>
       (\<exists>j. int j < h_num_ranges h \<and> snapx_behavior (h_range h j) mod 2 ^ 16 = SNAPX_FLAG_SEE_TH_RO))"
proof -
  obtain i px' cx' fx' st where a:
    "xattr_set_parent (\<lambda>_ _. True) junk c h psize px cx fx = Inr (i, px', cx', fx')"
    "i < SCORW_MAX_CHILDS" "px (child_name i) = None" "\<forall>j<i. px (child_name j) \<noteq> None"
    "px' (child_name i) = Some (le_bytes 8 c)" "\<forall>j. j \<noteq> i \<longrightarrow> px' (child_name j) = px (child_name j)"
    "px' scorw_log = Some (le_bytes 8 (l_inode_num h))" "px' curr_version = Some (le_bytes 8 1)"
    "px' par_org = Some (le_bytes 8 (page_align psize))" "px' see_thru_ro = Some (le_bytes 4 st)"
    "cx' copy_size = Some (le_bytes 8 psize)" "cx' blocks_to_copy = Some (le_bytes 4 ((psize - 1) div PAGE_SIZE + 1))"
    "cx' scorw_friend = Some (le_bytes 8 (f_inode_num h))" "cx' version_attr = Some (le_bytes 8 1)"
    "cx' curr_version = Some (le_bytes 8 1)" "cx' num_ranges = Some (le_bytes 4 (nat (h_num_ranges h mod 2 ^ 32)))"
    "\<forall>j. int j < h_num_ranges h \<longrightarrow> cx' (range_name j) = Some (crx_bytes junk (crx_of_range (h_range h j)))"
    "fx' version_attr = Some (le_bytes 8 1)" "st = 0 \<or> st = 1"
    "st \<noteq> 0 \<longleftrightarrow> (\<exists>j. int j < h_num_ranges h \<and> snapx_behavior (h_range h j) mod 2 ^ 16 = SNAPX_FLAG_SEE_TH_RO)"
    by (rule create_child_stored [OF assms(1,3,4,9)])
  have bl: "(psize - 1) div PAGE_SIZE + 1 < 2 ^ 32"
  proof -
    have "(psize - 1) div PAGE_SIZE < 2 ^ 31" using assms(2) by (intro less_mult_imp_div_less) simp
    then show ?thesis by simp
  qed
  have po: "page_align psize < 2 ^ 64" using page_align_less [of psize] assms(2) by simp
  have rng: "scorw_get_range_attr_val cx' j old = (12, crx_of_range (h_range h j))" if "int j < h_num_ranges h" for j old
    using a(17) that assms(9)
    by (simp add: scorw_get_range_attr_val_def ext4_xattr_get_def crx_roundtrip [OF crx_of_range_bounds])
  have see: "scorw_get_see_thru_attr_val junk px' = int st" by (rule see_thru_read [of px' st, OF a(10) a(19)])
  have nr: "scorw_get_num_ranges_attr_val junk cx' = h_num_ranges h"
    using a(16) assms(8,9) by (simp add: scorw_get_num_ranges_attr_val_def s32_id)
  have sz: "scorw_get_copy_size_attr_val junk cx' = int psize"
    using a(11) assms(2) by (simp add: scorw_get_copy_size_attr_val_def s64_id)
  show ?thesis
    unfolding a(1)
    apply (rule exI [of _ i], rule exI [of _ px'], rule exI [of _ cx'], rule exI [of _ fx'])
    using a(2-18,20) po bl see nr sz rng assms(5,6,7)
    by (simp add: scorw_get_child_i_attr_val_def scorw_get_friend_attr_val_def scorw_get_blocks_to_copy_attr_val_def
        scorw_get_child_version_attr_val_def scorw_get_frnd_version_attr_val_def scorw_get_log_attr_val_def
        scorw_get_curr_version_attr_val_def scorw_get_original_parent_size_def)
qed

text \<open>A parent whose 64 slots are taken accepts no further child, and neither does
  an empty file; both are reported and no attribute changes.\<close>

theorem create_child_refused:
  assumes "slots_ok px" and "\<forall>j<SCORW_MAX_CHILDS. px (child_name j) \<noteq> None"
  shows "xattr_set_parent xok junk c h psize px cx fx =
    Inl (if psize = 0 then SCORW_PARENT_ERROR else SCORW_ERR_MAX_CHILDS_ALREADY_SET)"
proof -
  let ?i = "xattr_child_slot px"
  have "?i \<le> SCORW_MAX_CHILDS" using child_slot_bounds [of 0 px 0 SCORW_MAX_CHILDS] by (simp add: xattr_child_slot_def)
  moreover have "\<not> ?i < SCORW_MAX_CHILDS"
    using child_slot_first [OF assms(1), where i = 0 and num = 0 and k = SCORW_MAX_CHILDS] assms(2)
    by (auto simp: xattr_child_slot_def)
  ultimately have "?i = SCORW_MAX_CHILDS" by linarith
  then show ?thesis by (simp add: xattr_set_parent_def Let_def)
qed

definition sample_helper :: helper_inodes where
  "sample_helper = \<lparr>p_inode_num = 12, f_inode_num = 14, l_inode_num = 15, h_num_ranges = 1,
     h_range = (\<lambda>_. \<lparr>range_first = 0, range_last = 1, snapx_behavior = SNAPX_FLAG_SEE_TH_RO\<rparr>)\<rparr>"

theorem create_child_attrs_roundtrip_witness:
  "\<exists>i px' cx' fx'. xattr_set_parent (\<lambda>_ _. True) 0 13 sample_helper 5000 (\<lambda>_. None) (\<lambda>_. None) (\<lambda>_. None) = Inr (i, px', cx', fx') \<and>
    scorw_get_copy_size_attr_val 0 cx' = 5000 \<and> scorw_get_see_thru_attr_val 0 px' \<noteq> 0"
proof -
  have "slots_ok (\<lambda>_. None)" by (simp add: slots_ok_def)
  moreover have "xattr_child_slot (\<lambda>_. None) < SCORW_MAX_CHILDS"
    by (simp add: xattr_child_slot_def child_slot.simps ext4_xattr_get_def numeral_eq_Suc)
  moreover have "\<exists>j. int j < h_num_ranges sample_helper \<and> snapx_behavior (h_range sample_helper j) mod 2 ^ 16 = SNAPX_FLAG_SEE_TH_RO"
    by (simp add: sample_helper_def)
  moreover have "0 \<le> h_num_ranges sample_helper" "h_num_ranges sample_helper \<le> int MAX_RANGES_SUPPORTED"
    "f_inode_num sample_helper < 2 ^ 64" "l_inode_num sample_helper < 2 ^ 64" by (simp_all add: sample_helper_def)
  ultimately show ?thesis
    using create_child_attrs_roundtrip [of 5000 "\<lambda>_. None" 13 sample_helper 0 "\<lambda>_. None" "\<lambda>_. None"]
    by fastforce
qed

theorem create_child_refused_witness:
  "xattr_set_parent (\<lambda>_ _. True) 0 13 sample_helper 5000 (\<lambda>_. Some (le_bytes 8 7)) (\<lambda>_. None) (\<lambda>_. None) =
    Inl SCORW_ERR_MAX_CHILDS_ALREADY_SET"
  by (subst create_child_refused) (simp_all add: slots_ok_def le_val_le_bytes)

end
