(* ===== verification/Kernel_State.thy ===== *)
theory Kernel_State
  imports Active_Map Friend_Bitmap Xattr_Store Log_Recovery Garbage_Collection
begin

text \<open>
  The state the copy-on-write part of the module works on: VFS inodes with the
  fields the module adds to them, the scorw inodes attached to them, the page
  copies waiting to be processed, and the global lists. Source:
  \<open>src/ext4-module/corw_sparse.h\<close> and the small helpers of
  \<open>src/ext4-module/corw_sparse.c\<close>.

  Structures live in total functions from addresses (inode numbers for VFS
  inodes); a NULL pointer is \<^const>\<open>None\<close>. Reference counts of VFS inodes are left
  out: an inode that was looked up stays.
\<close>

section \<open>Outcomes in sequence\<close>

fun obind :: "'a outcome \<Rightarrow> ('a \<Rightarrow> 'b outcome) \<Rightarrow> 'b outcome" where
  "obind Oops g = Oops"
| "obind Blocks g = Blocks"
| "obind (Ret x) g = g x"

text \<open>A loop body run over a list.\<close>

fun oloop :: "('x \<Rightarrow> 's \<Rightarrow> 's outcome) \<Rightarrow> 'x list \<Rightarrow> 's \<Rightarrow> 's outcome" where
  "oloop body [] s = Ret s"
| "oloop body (x # xs) s = obind (body x s) (oloop body xs)"

definition of_opt :: "'a option \<Rightarrow> 'a outcome" where
  "of_opt x = (case x of None \<Rightarrow> Oops | Some y \<Rightarrow> Ret y)"

lemma of_opt_simps [simp]: "of_opt None = Oops" "of_opt (Some y) = Ret y"
  by (simp_all add: of_opt_def)

lemma obind_Ret_iff: "obind m g = Ret y \<longleftrightarrow> (\<exists>x. m = Ret x \<and> g x = Ret y)"
  by (cases m) auto

lemma obind_assoc [simp]: "obind (obind m g) h = obind m (\<lambda>x. obind (g x) h)"
  by (cases m) auto

lemma oloop_append: "oloop body (xs @ ys) s = obind (oloop body xs s) (oloop body ys)"
proof (induction xs arbitrary: s)
  case (Cons x xs)
  then show ?case by (cases "body x s") auto
qed simp

lemma oloop_Ret_induct:
  assumes "oloop body xs s = Ret t" and "P s"
    and "\<And>x s t. x \<in> set xs \<Longrightarrow> body x s = Ret t \<Longrightarrow> P s \<Longrightarrow> P t"
  shows "P t"
  using assms
proof (induction xs arbitrary: s)
  case (Cons x xs)
  then obtain u where "body x s = Ret u" "oloop body xs u = Ret t" by (auto simp: obind_Ret_iff)
  with Cons.prems Cons.IH [of u] show ?case by auto
qed simp

section \<open>Structures\<close>

record scorw_inode =
  i_ino_num :: ino
  i_process_usage_count :: nat
  i_vfs_inode :: ino
  i_par_vfs_inode :: "ino option"
  i_frnd_vfs_inode :: "ino option"
  i_copy_size :: int
  i_pending_copy_pages :: int
  i_lock :: int
  i_child_scorw_inode :: "nat \<Rightarrow> addr option"
  i_last_child_index :: int
  i_uncopied_blocks :: active_map
  i_ino_unlinked :: bool
  i_at_index :: int
  i_num_ranges :: int
  i_range :: "nat \<Rightarrow> child_range"
  added_to_page_copy :: nat
  removed_from_page_copy :: nat
  i_see_thru_ro :: int
  i_version :: int
  i_versions :: version_cache
  i_log :: "ino option"
  i_t_locks :: Transaction_locks

text \<open>\<open>i_lock\<close> is a read-write semaphore: the number of readers, or -1 for a writer.
  \<open>kzalloc\<close> returns zeroed memory.\<close>

definition zero_scorw :: scorw_inode where
  "zero_scorw = \<lparr>i_ino_num = 0, i_process_usage_count = 0, i_vfs_inode = 0, i_par_vfs_inode = None,
     i_frnd_vfs_inode = None, i_copy_size = 0, i_pending_copy_pages = 0, i_lock = 0,
     i_child_scorw_inode = (\<lambda>_. None), i_last_child_index = 0, i_uncopied_blocks = empty_amap 0,
     i_ino_unlinked = False, i_at_index = 0, i_num_ranges = 0,
     i_range = (\<lambda>_. \<lparr>range_first = 0, range_last = 0, snapx_behavior = SNAPX_FLAG_COW\<rparr>),
     added_to_page_copy = 0, removed_from_page_copy = 0, i_see_thru_ro = 0, i_version = 0,
     i_versions = empty_cache, i_log = None,
     i_t_locks = \<lparr>locked = False, owner = None, transaction = 0\<rparr>\<rparr>"

record page_copy =
  block_num :: nat
  pc_par :: addr
  data_page :: "page option"
  data_page_loaded :: bool
  is_target_child :: "nat \<Rightarrow> bool"

record pending_frnd_version_cnt_inc =
  pf_child :: ino
  pf_frnd :: ino
  iter_id :: nat

record wait_for_commit =
  wc_frnd :: ino
  child_staged_for_commit :: bool

text \<open>What the module adds to \<open>struct inode\<close>, with the contents of the file, its
  extended attributes and the blocks it has on disk.\<close>

record vfs_inode =
  i_data :: "file"
  i_xattrs :: xattrs
  i_mapped :: "nat set"
  i_scorw_inode :: "addr option"
  i_vfs_inode_lock :: bool
  i_vfs_inode_open_close_lock :: bool
  i_vfs_inode_writeback_sync_lock :: bool
  i_vfs_inode_open_count :: int
  i_cannot_update_child_version_cnt :: bool
  i_can_sync_frnd :: int

record world =
  inodes :: "ino \<Rightarrow> vfs_inode"
  scorws :: "addr \<Rightarrow> scorw_inode"
  next_addr :: addr
  scorw_inodes_list :: "addr list"
  page_copies :: "addr \<Rightarrow> page_copy"
  page_copy_llist :: "addr list"
  page_copy_hlist :: "nat \<Rightarrow> addr list"
  wait_for_commit_list :: "wait_for_commit list"
  pending_list :: "pending_frnd_version_cnt_inc list"
  pending_log_sync_list :: "ino list"
  frnd_version_cnt_lock :: bool

text \<open>What the kernel around the module decides: failures of page and memory
  allocation per file, of attribute transactions and of \<open>ext4_iget\<close>; the contents
  of uninitialised memory; the extents of a file; the clock and the time of the
  last mount; the mapping functions that garbage collection uses.\<close>

record kernel =
  fenv :: "ino \<Rightarrow> kenv"
  mem_ok :: bool
  xset_ok :: "ino \<Rightarrow> string \<Rightarrow> bool"
  iget_ok :: "ino \<Rightarrow> bool"
  begin_error :: int
  junk_page :: page
  junk_attr :: nat
  junk_crx :: child_range_xattr
  extents_of :: "ino \<Rightarrow> extent_status list"
  now :: nat
  s_mtime :: nat
  gc_map_blocks :: map_blocks
  gc_remove_ok :: "nat \<Rightarrow> bool"

section \<open>Updates\<close>

definition upd_scorw :: "addr \<Rightarrow> (scorw_inode \<Rightarrow> scorw_inode) \<Rightarrow> world \<Rightarrow> world" where
  "upd_scorw a g w = w\<lparr>scorws := (scorws w)(a := g (scorws w a))\<rparr>"

definition upd_ino :: "ino \<Rightarrow> (vfs_inode \<Rightarrow> vfs_inode) \<Rightarrow> world \<Rightarrow> world" where
  "upd_ino i g w = w\<lparr>inodes := (inodes w)(i := g (inodes w i))\<rparr>"

definition upd_pc :: "addr \<Rightarrow> (page_copy \<Rightarrow> page_copy) \<Rightarrow> world \<Rightarrow> world" where
  "upd_pc a g w = w\<lparr>page_copies := (page_copies w)(a := g (page_copies w a))\<rparr>"

abbreviation file_of :: "world \<Rightarrow> ino \<Rightarrow> file" where
  "file_of w i \<equiv> i_data (inodes w i)"

abbreviation attrs_of :: "world \<Rightarrow> ino \<Rightarrow> xattrs" where
  "attrs_of w i \<equiv> i_xattrs (inodes w i)"

abbreviation set_file :: "ino \<Rightarrow> file \<Rightarrow> world \<Rightarrow> world" where
  "set_file i f \<equiv> upd_ino i (\<lambda>v. v\<lparr>i_data := f\<rparr>)"

abbreviation set_attrs :: "ino \<Rightarrow> xattrs \<Rightarrow> world \<Rightarrow> world" where
  "set_attrs i x \<equiv> upd_ino i (\<lambda>v. v\<lparr>i_xattrs := x\<rparr>)"

lemma upd_simps [simp]:
  "scorws (upd_scorw a g w) = (scorws w)(a := g (scorws w a))"
  "inodes (upd_scorw a g w) = inodes w"
  "inodes (upd_ino i h w) = (inodes w)(i := h (inodes w i))"
  "scorws (upd_ino i h w) = scorws w"
  "page_copies (upd_scorw a g w) = page_copies w" "page_copies (upd_ino i h w) = page_copies w"
  "page_copy_llist (upd_scorw a g w) = page_copy_llist w" "page_copy_llist (upd_ino i h w) = page_copy_llist w"
  "page_copy_hlist (upd_scorw a g w) = page_copy_hlist w" "page_copy_hlist (upd_ino i h w) = page_copy_hlist w"
  "scorws (upd_pc a k w) = scorws w" "inodes (upd_pc a k w) = inodes w"
  "page_copies (upd_pc a k w) = (page_copies w)(a := k (page_copies w a))"
  "page_copy_llist (upd_pc a k w) = page_copy_llist w" "page_copy_hlist (upd_pc a k w) = page_copy_hlist w"
  by (simp_all add: upd_scorw_def upd_ino_def upd_pc_def)

lemma upd_simps2 [simp]:
  "next_addr (upd_scorw a g w) = next_addr w" "next_addr (upd_ino i h w) = next_addr w" "next_addr (upd_pc a k w) = next_addr w"
  "scorw_inodes_list (upd_scorw a g w) = scorw_inodes_list w" "scorw_inodes_list (upd_ino i h w) = scorw_inodes_list w"
  "scorw_inodes_list (upd_pc a k w) = scorw_inodes_list w"
  "wait_for_commit_list (upd_scorw a g w) = wait_for_commit_list w" "wait_for_commit_list (upd_ino i h w) = wait_for_commit_list w"
  "wait_for_commit_list (upd_pc a k w) = wait_for_commit_list w"
  "pending_list (upd_scorw a g w) = pending_list w" "pending_list (upd_ino i h w) = pending_list w" "pending_list (upd_pc a k w) = pending_list w"
  "pending_log_sync_list (upd_scorw a g w) = pending_log_sync_list w" "pending_log_sync_list (upd_ino i h w) = pending_log_sync_list w"
  "pending_log_sync_list (upd_pc a k w) = pending_log_sync_list w"
  "frnd_version_cnt_lock (upd_scorw a g w) = frnd_version_cnt_lock w" "frnd_version_cnt_lock (upd_ino i h w) = frnd_version_cnt_lock w"
  "frnd_version_cnt_lock (upd_pc a k w) = frnd_version_cnt_lock w"
  by (simp_all add: upd_scorw_def upd_ino_def upd_pc_def)

section \<open>Locks\<close>

text \<open>A mutex that is held makes the caller wait, also when the caller itself holds
  it.\<close>

definition lock_vfs :: "ino \<Rightarrow> world \<Rightarrow> world outcome" where
  "lock_vfs i w = (if i_vfs_inode_lock (inodes w i) then Blocks
     else Ret (upd_ino i (\<lambda>v. v\<lparr>i_vfs_inode_lock := True\<rparr>) w))"

definition unlock_vfs :: "ino \<Rightarrow> world \<Rightarrow> world" where
  "unlock_vfs i = upd_ino i (\<lambda>v. v\<lparr>i_vfs_inode_lock := False\<rparr>)"

definition lock_frnd :: "world \<Rightarrow> world outcome" where
  "lock_frnd w = (if frnd_version_cnt_lock w then Blocks else Ret (w\<lparr>frnd_version_cnt_lock := True\<rparr>))"

definition unlock_frnd :: "world \<Rightarrow> world" where
  "unlock_frnd w = w\<lparr>frnd_version_cnt_lock := False\<rparr>"

definition down_read :: "addr \<Rightarrow> world \<Rightarrow> world outcome" where
  "down_read a w = (if i_lock (scorws w a) < 0 then Blocks
     else Ret (upd_scorw a (\<lambda>s. s\<lparr>i_lock := i_lock s + 1\<rparr>) w))"

definition up_read :: "addr \<Rightarrow> world \<Rightarrow> world" where
  "up_read a = upd_scorw a (\<lambda>s. s\<lparr>i_lock := i_lock s - 1\<rparr>)"

definition down_write :: "addr \<Rightarrow> world \<Rightarrow> world outcome" where
  "down_write a w = (if i_lock (scorws w a) \<noteq> 0 then Blocks
     else Ret (upd_scorw a (\<lambda>s. s\<lparr>i_lock := - 1\<rparr>) w))"

definition up_write :: "addr \<Rightarrow> world \<Rightarrow> world" where
  "up_write a = upd_scorw a (\<lambda>s. s\<lparr>i_lock := 0\<rparr>)"

section \<open>Helpers of the module\<close>

definition scorw_find_inode :: "world \<Rightarrow> ino \<Rightarrow> addr option" where
  "scorw_find_inode w i = i_scorw_inode (inodes w i)"

definition scorw_is_child_inode :: "scorw_inode \<Rightarrow> bool" where
  "scorw_is_child_inode s \<longleftrightarrow> i_par_vfs_inode s \<noteq> None"

definition scorw_is_child_file :: "kernel \<Rightarrow> world \<Rightarrow> ino \<Rightarrow> bool \<Rightarrow> bool" where
  "scorw_is_child_file e w i consult_extended_attributes =
     (case scorw_find_inode w i of
        Some a \<Rightarrow> scorw_is_child_inode (scorws w a)
      | None \<Rightarrow> consult_extended_attributes \<and> 0 < scorw_get_parent_attr_val (junk_attr e) (attrs_of w i))"

definition scorw_is_par_file :: "kernel \<Rightarrow> world \<Rightarrow> ino \<Rightarrow> bool \<Rightarrow> bool" where
  "scorw_is_par_file e w i consult_extended_attributes =
     (case scorw_find_inode w i of
        Some a \<Rightarrow> \<not> scorw_is_child_inode (scorws w a)
      | None \<Rightarrow> consult_extended_attributes \<and>
          (\<exists>j\<in>set [0..<SCORW_MAX_CHILDS]. scorw_get_child_i_attr_val (junk_attr e) (attrs_of w i) j \<noteq> 0))"

definition scorw_inc_process_usage_count :: "addr \<Rightarrow> world \<Rightarrow> world" where
  "scorw_inc_process_usage_count a = upd_scorw a (\<lambda>s. s\<lparr>i_process_usage_count := i_process_usage_count s + 1\<rparr>)"

definition scorw_dec_process_usage_count :: "addr \<Rightarrow> world \<Rightarrow> world outcome" where
  "scorw_dec_process_usage_count a w =
     (if i_process_usage_count (scorws w a) \<le> 0 then Oops
      else Ret (upd_scorw a (\<lambda>s. s\<lparr>i_process_usage_count := i_process_usage_count s - 1\<rparr>) w))"

definition scorw_get_process_usage_count :: "world \<Rightarrow> addr \<Rightarrow> nat" where
  "scorw_get_process_usage_count w a = i_process_usage_count (scorws w a)"

definition scorw_dec_yet_to_copy_blocks_count :: "addr \<Rightarrow> nat \<Rightarrow> world \<Rightarrow> world" where
  "scorw_dec_yet_to_copy_blocks_count a n =
     upd_scorw a (\<lambda>s. s\<lparr>i_pending_copy_pages := s64 (i_pending_copy_pages s - int n)\<rparr>)"

definition scorw_add_inode_list :: "addr \<Rightarrow> world \<Rightarrow> world" where
  "scorw_add_inode_list a w = w\<lparr>scorw_inodes_list := scorw_inodes_list w @ [a]\<rparr>"

definition scorw_remove_inode_list :: "addr \<Rightarrow> world \<Rightarrow> world" where
  "scorw_remove_inode_list a w = w\<lparr>scorw_inodes_list := remove1 a (scorw_inodes_list w)\<rparr>"

definition scorw_search_inode_list :: "world \<Rightarrow> nat \<Rightarrow> addr option" where
  "scorw_search_inode_list w ino_num = find (\<lambda>a. i_ino_num (scorws w a) = ino_num) (scorw_inodes_list w)"

definition scorw_add_pending_frnd_version_cnt_inc_list :: "pending_frnd_version_cnt_inc \<Rightarrow> world \<Rightarrow> world" where
  "scorw_add_pending_frnd_version_cnt_inc_list r w = w\<lparr>pending_list := pending_list w @ [r]\<rparr>"

definition scorw_remove_pending_frnd_version_cnt_inc_list :: "pending_frnd_version_cnt_inc \<Rightarrow> world \<Rightarrow> world" where
  "scorw_remove_pending_frnd_version_cnt_inc_list r w = w\<lparr>pending_list := remove1 r (pending_list w)\<rparr>"

definition scorw_add_wait_for_commit_list :: "wait_for_commit \<Rightarrow> world \<Rightarrow> world" where
  "scorw_add_wait_for_commit_list c w = w\<lparr>wait_for_commit_list := wait_for_commit_list w @ [c]\<rparr>"

text \<open>A range covers a block.\<close>

definition in_crange :: "child_range \<Rightarrow> nat \<Rightarrow> bool" where
  "in_crange r blk \<longleftrightarrow> range_first r \<le> int blk \<and> int blk \<le> range_last r"

text \<open>\<open>scorw_is_in_range\<close>: whether the child keeps a snapshot of the block. The first
  range that covers it decides; without one it does.\<close>

definition scorw_is_in_range :: "scorw_inode \<Rightarrow> nat \<Rightarrow> bool" where
  "scorw_is_in_range s blk =
     (case find (\<lambda>i. in_crange (i_range s i) blk) [0..<nat (i_num_ranges s)] of
        Some i \<Rightarrow> \<not> SNAPX_FLAG_COW_RO < snapx_behavior (i_range s i)
      | None \<Rightarrow> True)"

end
