(* ===== verification/Lifecycle.thy ===== *)
theory Lifecycle
  imports Kernel_State
begin

text \<open>
  Opening and closing: the creation of the scorw inodes of a parent and of its
  children, their usage counts, and their release. Source:
  \<open>src/ext4-module/corw_sparse.c\<close> (\<open>scorw_get_inode\<close>, \<open>scorw_put_inode\<close> and what
  they call) and the parts of \<open>ext4_file_open\<close> and \<open>ext4_release_file\<close> in
  \<open>src/ext4-module/file.c\<close> that concern the module.
\<close>

section \<open>Preparing the scorw inode of a child\<close>

definition range_of_crx :: "child_range_xattr \<Rightarrow> child_range" where
  "range_of_crx c = \<lparr>range_first = int (crx_start c), range_last = int (crx_end c), snapx_behavior = crx_behavior c\<rparr>"

text \<open>One round of the loop over the ranges. \<open>BUG_ON(!...)\<close> catches a range past the
  supported ones; a missing attribute is a negative result, which it does not
  catch.\<close>

definition prepare_range :: "kernel \<Rightarrow> xattrs \<Rightarrow> nat \<Rightarrow> scorw_inode \<Rightarrow> scorw_inode outcome" where
  "prepare_range e x i s =
     (case scorw_get_range_attr_val x i (junk_crx e) of (r, crx) \<Rightarrow>
        if r = 0 then Oops
        else Ret (s\<lparr>i_range := (i_range s)(i := range_of_crx crx),
               i_see_thru_ro := (if crx_behavior crx = SNAPX_FLAG_SEE_TH_RO then 1 else i_see_thru_ro s)\<rparr>))"

text \<open>The friend file is rebuilt when its version is not that of the child and no
  change of the versions is under way.\<close>

definition recover_friend :: "kernel \<Rightarrow> ino \<Rightarrow> ino \<Rightarrow> int \<Rightarrow> world \<Rightarrow> world outcome" where
  "recover_friend e c f csize w =
     (if i_cannot_update_child_version_cnt (inodes w c) then Ret w
      else
        let child_version_val = scorw_get_child_version_attr_val (junk_attr e) (attrs_of w c);
            frnd_version_val = scorw_get_frnd_version_attr_val (junk_attr e) (attrs_of w f)
        in if child_version_val = 0 \<or> frnd_version_val = 0 then Oops
           else if child_version_val \<noteq> frnd_version_val then
             Ret (upd_ino f (\<lambda>v. v\<lparr>
                 i_data := writeback_all (scorw_recover_friend_file (fenv e f) (junk_page e) (extents_of e c) (i_data v) (nat csize)),
                 i_xattrs := scorw_set_frnd_version_attr_val (xset_ok e f version_attr) (i_xattrs v) child_version_val\<rparr>) w)
           else Ret w)"

definition free_t_locks :: Transaction_locks where
  "free_t_locks = \<lparr>locked = False, owner = None, transaction = - 1\<rparr>"

text \<open>The number of lists of the active map is 128, at least 16, rounded down to a power
  of two.\<close>

definition active_map_size :: nat where
  "active_map_size = 2 ^ ilog2 (max 128 16)"

text \<open>The results of \<open>ext4_iget\<close> for the parent and the friend are dereferenced without a
  test.\<close>

definition scorw_prepare_child_inode :: "kernel \<Rightarrow> addr \<Rightarrow> ino \<Rightarrow> world \<Rightarrow> world outcome" where
  "scorw_prepare_child_inode e a i w =
     (let x = attrs_of w i;
          p_ino_num = scorw_get_parent_attr_val (junk_attr e) x;
          f_ino_num = scorw_get_friend_attr_val (junk_attr e) x;
          curr = s32 (int (scorw_get_curr_version_attr_val (junk_attr e) x));
          csize = scorw_get_copy_size_attr_val (junk_attr e) x;
          n = scorw_get_num_ranges_attr_val (junk_attr e) x;
          s = (scorws w a)\<lparr>i_t_locks := free_t_locks, i_version := curr, i_ino_num := i, i_process_usage_count := 0,
                 i_ino_unlinked := False, i_vfs_inode := i, i_par_vfs_inode := Some p_ino_num,
                 i_frnd_vfs_inode := Some f_ino_num, i_copy_size := csize,
                 i_pending_copy_pages := int (scorw_get_blocks_to_copy_attr_val (junk_attr e) x),
                 i_at_index := - 1, i_num_ranges := n, i_see_thru_ro := 0\<rparr>
      in if p_ino_num = 0 \<or> f_ino_num = 0 \<or> curr = 0 \<or> \<not> iget_ok e p_ino_num \<or> \<not> iget_ok e f_ino_num then Oops
         else obind (oloop (prepare_range e x) [0..<nat n] s) (\<lambda>s.
           if \<not> mem_ok e then Oops
           else recover_friend e i f_ino_num csize
                  (upd_scorw a (\<lambda>_. s\<lparr>i_uncopied_blocks := empty_amap active_map_size\<rparr>) w)))"

section \<open>Preparing the scorw inode of a parent\<close>

text \<open>\<open>scorw_is_opened_first_time\<close>: whether the file was last opened before the file
  system was mounted. A file that was never opened only gets its time.\<close>

definition scorw_is_opened_first_time :: "kernel \<Rightarrow> ino \<Rightarrow> xattrs \<Rightarrow> bool \<times> xattrs" where
  "scorw_is_opened_first_time e i x =
     (let lopen = scorw_get_last_open_time (junk_attr e) x in
      if lopen = 0 then (False, snd (scorw_set_last_open_time (xset_ok e i last_open_time) (now e) x))
      else (lopen < s_mtime e, x))"

text \<open>The versions of the children, as garbage collection reads them.\<close>

definition child_gc_version :: "kernel \<Rightarrow> xattrs \<Rightarrow> nat" where
  "child_gc_version e x =
     (let v = scorw_get_curr_version_attr_val (junk_attr e) x
      in if v = 0 then scorw_get_child_version_attr_val (junk_attr e) x else v)"

definition gc_children :: "kernel \<Rightarrow> world \<Rightarrow> ino \<Rightarrow> nat list" where
  "gc_children e w p =
     map (\<lambda>c. child_gc_version e (attrs_of w c))
       (filter (\<lambda>c. c \<noteq> 0 \<and> iget_ok e c)
          (map (scorw_get_child_i_attr_val (junk_attr e) (attrs_of w p)) [0..<SCORW_MAX_CHILDS]))"

text \<open>The view that the version code has of a parent.\<close>

definition ver_of :: "kernel \<Rightarrow> world \<Rightarrow> addr \<Rightarrow> ver_inode" where
  "ver_of e w a =
     (let s = scorws w a in
      \<lparr>version = i_version s, vcache = i_versions s, i_log_vfs_inode = map_option (file_of w) (i_log s),
       t_locks = i_t_locks s, is_see_thru_ro = (i_see_thru_ro s \<noteq> 0), data = file_of w (i_vfs_inode s),
       orig_size = scorw_get_original_parent_size (junk_attr e) (attrs_of w (i_vfs_inode s))\<rparr>)"

text \<open>The consistency check of a versioned parent: the log is cut to the version of the
  parent, log and data are made to agree, and unreachable blocks are freed.\<close>

definition check_versions :: "kernel \<Rightarrow> addr \<Rightarrow> ino \<Rightarrow> ino \<Rightarrow> world \<Rightarrow> world outcome" where
  "check_versions e a i l w =
     obind (of_opt (scorw_truncate_log_to_version (ver_of e w a))) (\<lambda>v1.
       let mapped = i_mapped (inodes w i);
           attr = scorw_get_curr_version_attr_val (junk_attr e) (attrs_of w i)
       in case scorw_do_recovery (\<lambda>p n. \<forall>k\<in>set [0..<n]. p + k \<in> mapped) v1 attr of (v2, attr2) \<Rightarrow>
            let mapped2 = (if i_size (data v2) < i_size (data v1)
                           then {b \<in> mapped. b * PAGE_SIZE < i_size (data v2)} else mapped)
            in obind (of_opt (scorw_gc_blocks (fenv e l) (gc_map_blocks e) (gc_remove_ok e) (gc_children e w i)
                                (version v2) (i_log_vfs_inode v2) mapped2)) (\<lambda>(log3, mapped3).
                 Ret (upd_scorw a (\<lambda>s. s\<lparr>i_version := version v2\<rparr>)
                       (upd_ino i (\<lambda>v. v\<lparr>i_data := data v2, i_mapped := mapped3,
                            i_xattrs := (if attr2 = attr then i_xattrs v
                              else scorw_set_curr_version_attr_val (xset_ok e i curr_version) (i_xattrs v) attr2)\<rparr>)
                         (case log3 of None \<Rightarrow> w | Some f \<Rightarrow> set_file l f w)))))"

text \<open>A log that cannot be looked up leaves an error pointer in the scorw inode, which the
  next access to the log dereferences.\<close>

definition scorw_prepare_par_inode :: "kernel \<Rightarrow> addr \<Rightarrow> ino \<Rightarrow> world \<Rightarrow> world outcome" where
  "scorw_prepare_par_inode e a i w =
     (case scorw_is_opened_first_time e i (attrs_of w i) of (to_be_checked, x1) \<Rightarrow>
        let x = snd (scorw_set_last_open_time (xset_ok e i last_open_time) (now e) x1);
            see_thru = scorw_get_see_thru_attr_val (junk_attr e) x;
            log_ino_num = scorw_get_log_attr_val (junk_attr e) x;
            curr = s32 (int (scorw_get_curr_version_attr_val (junk_attr e) x));
            w1 = upd_scorw a (\<lambda>s. s\<lparr>i_see_thru_ro := see_thru, i_t_locks := free_t_locks, i_version := curr,
                   i_ino_num := i, i_process_usage_count := 0, i_vfs_inode := i, i_par_vfs_inode := None,
                   i_frnd_vfs_inode := None, i_log := Some log_ino_num, i_copy_size := 0, i_ino_unlinked := False,
                   i_at_index := - 1, i_num_ranges := 0,
                   i_range := (\<lambda>j. if j < MAX_RANGES_SUPPORTED
                     then (i_range s j)\<lparr>range_first := - 1, range_last := - 1\<rparr> else i_range s j)\<rparr>)
                 (set_attrs i x w)
        in if see_thru = - 1 \<or> log_ino_num = 0 \<or> curr = 0 \<or> scorw_get_original_parent_size (junk_attr e) x = 0
              \<or> \<not> iget_ok e log_ino_num then Oops
           else if to_be_checked then check_versions e a i log_ino_num w1 else Ret w1)"

section \<open>Getting a scorw inode\<close>

definition scorw_alloc_inode :: "world \<Rightarrow> addr \<times> world" where
  "scorw_alloc_inode w = (next_addr w, w\<lparr>next_addr := next_addr w + 1, scorws := (scorws w)(next_addr w := zero_scorw)\<rparr>)"

text \<open>The branch of a file that has a scorw inode: a usage more, also of its parent.\<close>

definition get_existing :: "bool \<Rightarrow> addr \<Rightarrow> world \<Rightarrow> addr option \<times> world" where
  "get_existing is_child a w =
     (if is_child \<and> i_ino_unlinked (scorws w a) then (None, w)
      else
        let w1 = scorw_inc_process_usage_count a w
        in (Some a, case i_par_vfs_inode (scorws w1 a) of
              None \<Rightarrow> w1
            | Some p \<Rightarrow> (case i_scorw_inode (inodes w1 p) of
                None \<Rightarrow> w1 | Some pa \<Rightarrow> scorw_inc_process_usage_count pa w1)))"

text \<open>A new scorw inode, used once, attached to its file.\<close>

definition attach_new :: "addr \<Rightarrow> ino \<Rightarrow> world \<Rightarrow> world" where
  "attach_new a i w = upd_ino i (\<lambda>v. v\<lparr>i_scorw_inode := Some a\<rparr>) (scorw_inc_process_usage_count a w)"

text \<open>\<open>scorw_get_inode\<close> for a child. Waiting for the mutex and out of memory leave
  no scorw inode.\<close>

definition scorw_get_child_inode :: "kernel \<Rightarrow> ino \<Rightarrow> world \<Rightarrow> (addr option \<times> world) outcome" where
  "scorw_get_child_inode e i w =
     obind (lock_vfs i w) (\<lambda>w.
       case i_scorw_inode (inodes w i) of
         Some a \<Rightarrow> (case get_existing True a w of (r, w1) \<Rightarrow> Ret (r, unlock_vfs i w1))
       | None \<Rightarrow>
           if \<not> mem_ok e then Ret (None, unlock_vfs i w)
           else case scorw_alloc_inode w of (a, w1) \<Rightarrow>
             obind (scorw_prepare_child_inode e a i w1) (\<lambda>w2.
               Ret (Some a, unlock_vfs i (scorw_add_inode_list a (attach_new a i w2)))))"

text \<open>One round of the loop over the slots of a new parent.\<close>

definition get_slot :: "kernel \<Rightarrow> addr \<Rightarrow> ino \<Rightarrow> nat \<Rightarrow> world \<Rightarrow> world outcome" where
  "get_slot e a i j w =
     (let c = scorw_get_child_i_attr_val (junk_attr e) (attrs_of w i) j in
      if c = 0 then Ret (upd_scorw a (\<lambda>s. s\<lparr>i_child_scorw_inode := (i_child_scorw_inode s)(j := None)\<rparr>) w)
      else if \<not> iget_ok e c \<or> \<not> scorw_is_child_file e w c True
      then Ret (set_attrs i (scorw_remove_child_i_attr (xset_ok e i (child_name j)) (attrs_of w i) j) w)
      else obind (scorw_get_child_inode e c w) (\<lambda>(ca, w1).
        let w2 = upd_scorw a (\<lambda>s. s\<lparr>i_child_scorw_inode := (i_child_scorw_inode s)(j := ca)\<rparr>) w1;
            w3 = (case ca of None \<Rightarrow> w2 | Some k \<Rightarrow>
                    upd_ino c (\<lambda>v. v\<lparr>i_scorw_inode := Some k\<rparr>) (upd_scorw k (\<lambda>s. s\<lparr>i_at_index := int j\<rparr>) w2))
        in Ret (upd_scorw a (\<lambda>s. s\<lparr>i_last_child_index := int j\<rparr>) w3)))"

text \<open>\<open>scorw_get_inode\<close> for a parent.\<close>

definition scorw_get_inode :: "kernel \<Rightarrow> ino \<Rightarrow> world \<Rightarrow> (addr option \<times> world) outcome" where
  "scorw_get_inode e i w =
     obind (lock_vfs i w) (\<lambda>w.
       case i_scorw_inode (inodes w i) of
         Some a \<Rightarrow> (case get_existing False a w of (r, w1) \<Rightarrow> Ret (r, unlock_vfs i w1))
       | None \<Rightarrow>
           if \<not> mem_ok e then Ret (None, unlock_vfs i w)
           else case scorw_alloc_inode w of (a, w1) \<Rightarrow>
             obind (scorw_prepare_par_inode e a i w1) (\<lambda>w2.
             obind (oloop (get_slot e a i) [0..<SCORW_MAX_CHILDS] (attach_new a i w2)) (\<lambda>w3.
               Ret (Some a, unlock_vfs i (scorw_add_inode_list a w3)))))"

section \<open>Putting a scorw inode\<close>

text \<open>The last child before slot \<open>n\<close>, -1 when there is none.\<close>

fun prev_child :: "(nat \<Rightarrow> addr option) \<Rightarrow> nat \<Rightarrow> int" where
  "prev_child ch 0 = - 1"
| "prev_child ch (Suc q) = (if ch q \<noteq> None then int q else prev_child ch q)"

definition clear_target :: "int \<Rightarrow> addr \<Rightarrow> world \<Rightarrow> world" where
  "clear_target at pc = upd_pc pc (\<lambda>p. p\<lparr>is_target_child := (is_target_child p)(nat at := False)\<rparr>)"

text \<open>The child is taken out of the slots of its parent.\<close>

definition detach_child :: "int \<Rightarrow> scorw_inode \<Rightarrow> scorw_inode" where
  "detach_child at p =
     (let ch = (i_child_scorw_inode p)(nat at := None)
      in p\<lparr>i_child_scorw_inode := ch,
           i_last_child_index := (if at = i_last_child_index p then prev_child ch (nat at) else i_last_child_index p)\<rparr>)"

definition remove_slot_attr :: "kernel \<Rightarrow> ino \<Rightarrow> ino \<Rightarrow> world \<Rightarrow> world" where
  "remove_slot_attr e p c w =
     (case find (\<lambda>j. scorw_get_child_i_attr_val (junk_attr e) (attrs_of w p) j = c) [0..<SCORW_MAX_CHILDS] of
        None \<Rightarrow> w
      | Some j \<Rightarrow> set_attrs p (scorw_remove_child_i_attr (xset_ok e p (child_name j)) (attrs_of w p) j) w)"

text \<open>The relation of an unlinked child to its parent ends. A child in a slot has a
  parent with a scorw inode, or the NULL pointer is used.\<close>

definition unlink_cleanup :: "kernel \<Rightarrow> ino \<Rightarrow> addr \<Rightarrow> world \<Rightarrow> world outcome" where
  "unlink_cleanup e i a w =
     (let s = scorws w a; at = i_at_index s in
      case i_par_vfs_inode s of
        None \<Rightarrow> Oops
      | Some p \<Rightarrow>
          obind (if at = - 1 then Ret w
                 else let w1 = fold (clear_target at) (page_copy_llist w) w in
                   case i_scorw_inode (inodes w p) of
                     None \<Rightarrow> Oops
                   | Some pa \<Rightarrow> obind (down_write pa w1) (\<lambda>w2. Ret (up_write pa (upd_scorw pa (detach_child at) w2))))
            (\<lambda>w3. Ret (remove_slot_attr e p i w3)))"

text \<open>\<open>scorw_child_copy_completion_cleanup\<close>. The removal of the attributes once all
  blocks are copied is commented out in the source.\<close>

definition scorw_child_copy_completion_cleanup :: "kernel \<Rightarrow> addr \<Rightarrow> world \<Rightarrow> world" where
  "scorw_child_copy_completion_cleanup e a w =
     (let s = scorws w a; i = i_vfs_inode s in
      if 0 < i_pending_copy_pages s
      then set_attrs i (scorw_set_blocks_to_copy_attr_val (xset_ok e i blocks_to_copy) (attrs_of w i)
             (nat (i_pending_copy_pages s mod 2 ^ 32))) w
      else w)"

definition save_version :: "kernel \<Rightarrow> addr \<Rightarrow> world \<Rightarrow> world" where
  "save_version e a w =
     (let s = scorws w a; i = i_vfs_inode s
      in set_attrs i (scorw_set_curr_version_attr_val (xset_ok e i curr_version) (attrs_of w i) (nat (i_version s mod 2 ^ 64))) w)"

definition scorw_unprepare_par_inode :: "kernel \<Rightarrow> addr \<Rightarrow> world \<Rightarrow> world" where
  "scorw_unprepare_par_inode e a w = save_version e a w"

text \<open>\<open>scorw_unprepare_child_inode\<close>: a child that was written is queued for the update of
  the version of its friend file, once.\<close>

definition scorw_unprepare_child_inode :: "kernel \<Rightarrow> addr \<Rightarrow> world \<Rightarrow> world outcome" where
  "scorw_unprepare_child_inode e a w =
     (let s = scorws w a; c = i_vfs_inode s; w1 = save_version e a w in
      if \<not> i_cannot_update_child_version_cnt (inodes w1 c) then Ret w1
      else if \<exists>r\<in>set (pending_list w1). pf_child r = c then Ret w1
      else if \<not> mem_ok e then Oops
      else case i_frnd_vfs_inode s of
          None \<Rightarrow> Oops
        | Some f \<Rightarrow> Ret (scorw_add_pending_frnd_version_cnt_inc_list \<lparr>pf_child = c, pf_frnd = f, iter_id = 0\<rparr> w1))"

definition scorw_free_inode :: "kernel \<Rightarrow> addr \<Rightarrow> world \<Rightarrow> world" where
  "scorw_free_inode e a w =
     (case scorw_cleanup_versions (mem_ok e) (i_versions (scorws w a)) (i_log (scorws w a)) of (vc, pend, l) \<Rightarrow>
        (upd_scorw a (\<lambda>s. s\<lparr>i_versions := vc, i_log := l\<rparr>) w)
          \<lparr>pending_log_sync_list := pending_log_sync_list w @ pend\<rparr>)"

text \<open>The last use of a scorw inode ends. \<open>put\<close> is \<open>scorw_put_inode\<close> for a child of the
  parent.\<close>

definition put_children :: "(ino \<Rightarrow> world \<Rightarrow> world outcome) \<Rightarrow> addr \<Rightarrow> world \<Rightarrow> world outcome" where
  "put_children put a =
     oloop (\<lambda>j w. case i_child_scorw_inode (scorws w a) j of
                     None \<Rightarrow> Ret w
                   | Some ca \<Rightarrow> put (i_vfs_inode (scorws w ca)) w) [0..<SCORW_MAX_CHILDS]"

definition put_last :: "(ino \<Rightarrow> world \<Rightarrow> world outcome) \<Rightarrow> kernel \<Rightarrow> bool \<Rightarrow> ino \<Rightarrow> addr \<Rightarrow> world \<Rightarrow> world outcome" where
  "put_last put e is_child i a w =
     obind (if \<not> is_child then Ret w
            else obind (if i_ino_unlinked (scorws w a) then unlink_cleanup e i a w else Ret w) (\<lambda>w.
                 scorw_unprepare_child_inode e a (scorw_child_copy_completion_cleanup e a w))) (\<lambda>w1.
     let w2 = upd_ino i (\<lambda>v. v\<lparr>i_scorw_inode := None\<rparr>) (scorw_remove_inode_list a w1)
     in obind (if is_child then Ret w2
               else obind (put_children put a w2) (\<lambda>w. Ret (scorw_unprepare_par_inode e a w)))
          (\<lambda>w3. Ret (scorw_free_inode e a w3)))"

text \<open>\<open>scorw_put_inode\<close>. It calls itself: a child puts its parent, a parent its
  children. The second argument bounds the depth of these calls, and the first one
  is the result of a call beyond the bound; \<open>put_depth\<close> below is enough, so that
  this result does not matter (\<open>put_depth_enough\<close>). On the way in the version is stored with the size of an \<open>int\<close>.\<close>

fun scorw_put_inode_depth :: "world outcome \<Rightarrow> nat \<Rightarrow> kernel \<Rightarrow> bool \<Rightarrow> bool \<Rightarrow> bool \<Rightarrow> ino \<Rightarrow> world \<Rightarrow> world outcome" where
  "scorw_put_inode_depth out 0 e is_child is_thread is_par_putting i w = out"
| "scorw_put_inode_depth out (Suc d) e is_child is_thread is_par_putting i w =
     obind (if is_child then lock_frnd w else Ret w) (\<lambda>w.
     obind (lock_vfs i w) (\<lambda>w.
     obind (case i_scorw_inode (inodes w i) of
              None \<Rightarrow> Ret w
            | Some a \<Rightarrow>
                let w1 = set_attrs i (xattr_set (xset_ok e i curr_version) (attrs_of w i) curr_version
                           (le_bytes 4 (nat (i_version (scorws w a) mod 2 ^ 32)))) w
                in obind (if is_thread
                          then Ret (upd_scorw a (\<lambda>s. s\<lparr>removed_from_page_copy := removed_from_page_copy s + 1\<rparr>) w1)
                          else obind (scorw_dec_process_usage_count a w1) (\<lambda>w2.
                            case i_par_vfs_inode (scorws w2 a) of
                              None \<Rightarrow> Ret w2
                            | Some p \<Rightarrow>
                                if is_child \<and> i_scorw_inode (inodes w2 p) \<noteq> None \<and> \<not> is_par_putting
                                then scorw_put_inode_depth out d e False False True p w2 else Ret w2)) (\<lambda>w3.
                   if scorw_get_process_usage_count w3 a = 0 \<and>
                      added_to_page_copy (scorws w3 a) = removed_from_page_copy (scorws w3 a)
                   then put_last (scorw_put_inode_depth out d e True False is_par_putting) e is_child i a w3
                   else Ret w3)) (\<lambda>w4.
     let w5 = unlock_vfs i w4 in Ret (if is_child then unlock_frnd w5 else w5))))"

definition put_depth :: nat where
  "put_depth = 4"

definition scorw_put_inode :: "kernel \<Rightarrow> bool \<Rightarrow> bool \<Rightarrow> bool \<Rightarrow> ino \<Rightarrow> world \<Rightarrow> world outcome" where
  "scorw_put_inode = scorw_put_inode_depth Oops put_depth"

section \<open>Opening, closing, creating and unlinking files\<close>

definition lock_open_close :: "ino \<Rightarrow> world \<Rightarrow> world outcome" where
  "lock_open_close i w = (if i_vfs_inode_open_close_lock (inodes w i) then Blocks
     else Ret (upd_ino i (\<lambda>v. v\<lparr>i_vfs_inode_open_close_lock := True\<rparr>) w))"

definition unlock_open_close :: "ino \<Rightarrow> world \<Rightarrow> world" where
  "unlock_open_close i = upd_ino i (\<lambda>v. v\<lparr>i_vfs_inode_open_close_lock := False\<rparr>)"

definition add_open_count :: "ino \<Rightarrow> int \<Rightarrow> world \<Rightarrow> world" where
  "add_open_count i n = upd_ino i (\<lambda>v. v\<lparr>i_vfs_inode_open_count := s32 (i_vfs_inode_open_count v + n)\<rparr>)"

text \<open>\<open>ext4_file_open\<close>: opening a child opens its parent, whose number is kept in an
  \<open>int\<close>. A parent that cannot be looked up is dereferenced all the same.\<close>

definition ext4_file_open :: "kernel \<Rightarrow> ino \<Rightarrow> world \<Rightarrow> world outcome" where
  "ext4_file_open e i w =
     (if scorw_is_child_file e w i True then
        obind (lock_open_close i w) (\<lambda>w.
          let w1 = add_open_count i 1 w;
              p = scorw_get_parent_attr_val (junk_attr e) (attrs_of w i)
          in if 2 ^ 31 \<le> p \<or> \<not> iget_ok e p then Oops
             else obind (scorw_get_inode e p w1) (\<lambda>(_, w2). Ret (unlock_open_close i w2)))
      else if scorw_is_par_file e w i True then
        obind (lock_open_close i w) (\<lambda>w.
          obind (scorw_get_inode e i (add_open_count i 1 w)) (\<lambda>(_, w2). Ret (unlock_open_close i w2)))
      else Ret w)"

text \<open>\<open>ext4_release_file\<close>: the file \<open>filp\<close> gives up its transaction. When that fails
  the function returns -25 with the mutex held.\<close>

definition ext4_release_file :: "kernel \<Rightarrow> addr \<Rightarrow> ino \<Rightarrow> world \<Rightarrow> (int \<times> world) outcome" where
  "ext4_release_file e filp i w =
     (if scorw_is_child_file e w i False then
        obind (lock_open_close i w) (\<lambda>w.
          let w1 = add_open_count i (- 1) w in
          case Option.bind (i_scorw_inode (inodes w1 i)) (\<lambda>a. i_par_vfs_inode (scorws w1 a)) of
            None \<Rightarrow> Oops
          | Some p \<Rightarrow> obind (scorw_put_inode e False False False p w1) (\<lambda>w2. Ret (0, unlock_open_close i w2)))
      else if scorw_is_par_file e w i False then
        obind (lock_open_close i w) (\<lambda>w.
          let w1 = add_open_count i (- 1) w;
              si = map_option (ver_of e w1) (i_scorw_inode (inodes w1 i));
              (err, si2) = (if scorw_self_transaction_status si filp = SET_TRANSACTION
                            then scorw_set_transaction_error si filp else (0, si));
              w2 = (case (i_scorw_inode (inodes w1 i), si2) of
                      (Some a, Some v) \<Rightarrow> upd_scorw a (\<lambda>s. s\<lparr>i_t_locks := t_locks v\<rparr>) w1
                    | _ \<Rightarrow> w1)
          in if err \<noteq> 0 then Ret (- 25, w2)
             else obind (scorw_put_inode e False False False i w2) (\<lambda>w3. Ret (0, unlock_open_close i w3)))
      else Ret (0, w))"

text \<open>\<open>special_open\<close>, at the end of making a child. It runs with the mutex of the parent
  held.\<close>

definition special_open :: "kernel \<Rightarrow> ino \<Rightarrow> ino \<Rightarrow> nat \<Rightarrow> world \<Rightarrow> world outcome" where
  "special_open e p c index w =
     (case i_scorw_inode (inodes w p) of
        Some pa \<Rightarrow>
          obind (scorw_get_child_inode e c w) (\<lambda>(r, w1).
            case r of
              None \<Rightarrow> Oops
            | Some ca \<Rightarrow>
                obind (down_write pa w1) (\<lambda>w2.
                let w3 = upd_scorw ca (\<lambda>s. s\<lparr>i_at_index := int index\<rparr>)
                      (upd_scorw pa (\<lambda>s. s\<lparr>i_child_scorw_inode := (i_child_scorw_inode s)(index := Some ca)\<rparr>) w2);
                    w4 = (if i_last_child_index (scorws w3 pa) < int index
                          then upd_scorw pa (\<lambda>s. s\<lparr>i_last_child_index := int index\<rparr>) w3 else w3)
                in obind (scorw_get_child_inode e c (up_write pa w4)) (\<lambda>(_, w5). Ret w5)))
      | None \<Rightarrow>
          if 1 < i_vfs_inode_open_count (inodes w p) then
            let n = i_vfs_inode_open_count (inodes w p) in
            obind (oloop (\<lambda>_ w. obind (scorw_get_inode e p w) (\<lambda>(_, w1). Ret w1)) [0..<nat n] (unlock_vfs p w)) (\<lambda>w1.
            obind (lock_vfs p w1) (\<lambda>w2.
            obind (scorw_get_child_inode e c w2) (\<lambda>(_, w3). Ret w3)))
          else Ret w)"

definition scorw_unlink_child_file :: "kernel \<Rightarrow> ino \<Rightarrow> world \<Rightarrow> (int \<times> world) outcome" where
  "scorw_unlink_child_file e c w =
     obind (lock_open_close c w) (\<lambda>w.
       let p = scorw_get_parent_attr_val (junk_attr e) (attrs_of w c) in
       if \<not> iget_ok e p then Ret (- 1, unlock_open_close c w)
       else obind (lock_open_close p w) (\<lambda>w.
         obind (case i_scorw_inode (inodes w c) of
                  Some ca \<Rightarrow>
                    let w1 = unlock_open_close c (upd_scorw ca (\<lambda>s. s\<lparr>i_ino_unlinked := True\<rparr>) w) in
                    if i_scorw_inode (inodes w1 p) \<noteq> None then scorw_put_inode e True False False c w1 else Ret w1
                | None \<Rightarrow> Ret (unlock_open_close c (remove_slot_attr e p c w)))
           (\<lambda>w2. Ret (0, unlock_open_close p w2))))"

end
