(* ===== verification/Page_Copy.thy ===== *)
theory Page_Copy
  imports Lifecycle
begin

text \<open>
  Page copies: the old contents of a block of the parent that a write is about
  to change, queued for the children that have no copy of the block yet, and the
  thread that hands them over. Source: \<open>src/ext4-module/corw_sparse.c\<close>.
\<close>

section \<open>The queue and the hash table\<close>

abbreviation PC_HASH_BITS :: nat where
  "PC_HASH_BITS \<equiv> 20"

definition scorw_add_page_copy_llist :: "addr \<Rightarrow> world \<Rightarrow> world" where
  "scorw_add_page_copy_llist a w = w\<lparr>page_copy_llist := page_copy_llist w @ [a]\<rparr>"

definition scorw_add_page_copy_hlist :: "addr \<Rightarrow> world \<Rightarrow> world" where
  "scorw_add_page_copy_hlist a w =
     (let b = hash_min (block_num (page_copies w a)) PC_HASH_BITS
      in w\<lparr>page_copy_hlist := (page_copy_hlist w)(b := a # page_copy_hlist w b)\<rparr>)"

definition scorw_remove_page_copy_llist :: "addr \<Rightarrow> world \<Rightarrow> world" where
  "scorw_remove_page_copy_llist a w = w\<lparr>page_copy_llist := remove1 a (page_copy_llist w)\<rparr>"

definition scorw_remove_page_copy_hlist :: "addr \<Rightarrow> world \<Rightarrow> world" where
  "scorw_remove_page_copy_hlist a w =
     (let b = hash_min (block_num (page_copies w a)) PC_HASH_BITS
      in w\<lparr>page_copy_hlist := (page_copy_hlist w)(b := remove1 a (page_copy_hlist w b))\<rparr>)"

definition pc_matches :: "world \<Rightarrow> nat \<Rightarrow> ino \<Rightarrow> nat \<Rightarrow> addr \<Rightarrow> bool" where
  "pc_matches w blk par_ino_num j a \<longleftrightarrow>
     (let p = page_copies w a
      in block_num p = blk \<and> i_ino_num (scorws w (pc_par p)) = par_ino_num \<and> is_target_child p j)"

definition scorw_find_page_copy :: "world \<Rightarrow> nat \<Rightarrow> ino \<Rightarrow> int \<Rightarrow> addr option outcome" where
  "scorw_find_page_copy w blk par_ino_num child_index =
     (if child_index = - 1 then Ret None
      else if \<not> (0 \<le> child_index \<and> child_index < int SCORW_MAX_CHILDS) then Oops
      else Ret (find (pc_matches w blk par_ino_num (nat child_index))
                  (page_copy_hlist w (hash_min blk PC_HASH_BITS))))"

definition scorw_get_page_copy_to_process :: "world \<Rightarrow> addr option" where
  "scorw_get_page_copy_to_process w =
     (case page_copy_llist w of [] \<Rightarrow> None | a # _ \<Rightarrow> Some a)"

section \<open>Filling a page copy\<close>

text \<open>\<open>scorw_copy_page_to_page_copy\<close>: the page is copied unless it is not up to date
  and is going to be overwritten whole. \<open>par_data_page\<close> is the page and whether it is up
  to date.\<close>

definition scorw_copy_page_to_page_copy ::
    "kernel \<Rightarrow> addr \<Rightarrow> bool \<Rightarrow> page \<times> bool \<Rightarrow> world \<Rightarrow> world outcome" where
  "scorw_copy_page_to_page_copy e a is_4KB_write par_data_page w =
     (case par_data_page of (p, uptodate) \<Rightarrow>
        if uptodate \<or> \<not> is_4KB_write then
          (if mem_ok e then Ret (upd_pc a (\<lambda>c. c\<lparr>data_page := Some p, data_page_loaded := True\<rparr>) w) else Oops)
        else Ret w)"

definition scorw_prepare_page_copy ::
    "kernel \<Rightarrow> nat \<Rightarrow> addr \<Rightarrow> addr \<Rightarrow> bool \<Rightarrow> page \<times> bool \<Rightarrow> (nat \<Rightarrow> bool) \<Rightarrow> world \<Rightarrow> world outcome" where
  "scorw_prepare_page_copy e blk pa a is_4KB_write par_data_page targets w =
     (let w1 = upd_pc a (\<lambda>c. c\<lparr>block_num := blk, pc_par := pa, data_page_loaded := False, data_page := None\<rparr>) w
      in obind (scorw_copy_page_to_page_copy e a is_4KB_write par_data_page w1) (\<lambda>w2.
        let w3 = upd_scorw pa (\<lambda>s. s\<lparr>added_to_page_copy := added_to_page_copy s + 1\<rparr>) w2;
            w4 = upd_pc a (\<lambda>c. c\<lparr>is_target_child := (\<lambda>j. int j \<le> i_last_child_index (scorws w3 pa) \<and> targets j)\<rparr>) w3
        in Ret (scorw_add_page_copy_hlist a (scorw_add_page_copy_llist a w4))))"

section \<open>Copying to a child\<close>

text \<open>The number of bytes of a block that belong to the snapshot. The block number is
  an \<open>unsigned\<close> in \<open>scorw_copy_page_from_page_copy\<close> and shifted as such, and a
  \<open>loff_t\<close> in \<open>scorw_copy_page\<close>; the difference is taken as an \<open>unsigned long\<close>.\<close>

definition copy_len :: "int \<Rightarrow> nat \<Rightarrow> nat" where
  "copy_len csize off = (let d = nat ((csize - int off) mod 2 ^ 64) in if PAGE_SIZE \<le> d then PAGE_SIZE else d)"

definition pc_copy_len :: "int \<Rightarrow> nat \<Rightarrow> nat" where
  "pc_copy_len csize lblk = copy_len csize (lblk * PAGE_SIZE mod 2 ^ 32)"

definition page_copy_len :: "int \<Rightarrow> nat \<Rightarrow> nat" where
  "page_copy_len csize lblk = copy_len csize (lblk * PAGE_SIZE)"

text \<open>A page with what follows the first \<open>n\<close> bytes zeroed.\<close>

definition cut_page :: "page \<Rightarrow> nat \<Rightarrow> page" where
  "cut_page p n = (\<lambda>k. if k < n then p k else 0)"

text \<open>The write of \<open>len\<close> bytes of a page to a file: the error of \<open>write_begin\<close>, or 0.\<close>

definition write_copy :: "kernel \<Rightarrow> ino \<Rightarrow> nat \<Rightarrow> nat \<Rightarrow> page \<Rightarrow> world \<Rightarrow> int \<times> world" where
  "write_copy e c lblk len p w =
     (case write_begin (fenv e c) (junk_page e) (file_of w c) (lblk * PAGE_SIZE) len of
        None \<Rightarrow> (begin_error e, w)
      | Some _ \<Rightarrow> (0, set_file c (write_end (file_of w c) lblk (lblk * PAGE_SIZE) len (cut_page p len)) w))"

text \<open>A page copy that is not loaded is read from the disk of the parent, past the end
  of the file as zeros.\<close>

definition load_page_copy :: "kernel \<Rightarrow> addr \<Rightarrow> ino \<Rightarrow> world \<Rightarrow> world outcome" where
  "load_page_copy e pc par w =
     (if data_page_loaded (page_copies w pc) then Ret w
      else if \<not> mem_ok e then Oops
      else
        let blk = block_num (page_copies w pc); f = file_of w par in
        case (if blk * PAGE_SIZE < i_size f then disk f blk else Some zero_page) of
          None \<Rightarrow> Oops
        | Some p \<Rightarrow> Ret (upd_pc pc (\<lambda>c. c\<lparr>data_page := Some p, data_page_loaded := True\<rparr>) w))"

definition scorw_copy_page_from_page_copy :: "kernel \<Rightarrow> addr \<Rightarrow> addr \<Rightarrow> world \<Rightarrow> (int \<times> world) outcome" where
  "scorw_copy_page_from_page_copy e pc a w =
     (let s = scorws w a; lblk = block_num (page_copies w pc); len = pc_copy_len (i_copy_size s) lblk in
      if len = 0 then Ret (0, w)
      else case i_par_vfs_inode s of
          None \<Rightarrow> Oops
        | Some par \<Rightarrow>
            obind (load_page_copy e pc par w) (\<lambda>w1.
              case data_page (page_copies w1 pc) of
                None \<Rightarrow> Oops
              | Some p \<Rightarrow> Ret (write_copy e (i_vfs_inode s) lblk len p w1)))"

text \<open>\<open>scorw_copy_page\<close>. A page that cannot be obtained is a NULL pointer used
  later.\<close>

definition scorw_copy_page :: "kernel \<Rightarrow> addr \<Rightarrow> nat \<Rightarrow> world \<Rightarrow> (int \<times> world) outcome" where
  "scorw_copy_page e a lblk w =
     (let s = scorws w a; len = page_copy_len (i_copy_size s) lblk in
      case i_par_vfs_inode s of
        None \<Rightarrow> Oops
      | Some par \<Rightarrow>
          (case scorw_get_page (fenv e par) (file_of w par) lblk of
             (None, _) \<Rightarrow> Oops
           | (Some p, f1) \<Rightarrow> Ret (write_copy e (i_vfs_inode s) lblk len p (set_file par f1 w))))"

section \<open>The version of a child\<close>

text \<open>\<open>scorw_child_version_cnt_inc\<close>: the first change to a child after its friend was
  brought up to date raises its version and forbids the friend to be synced.\<close>

definition scorw_child_version_cnt_inc :: "kernel \<Rightarrow> ino \<Rightarrow> world \<Rightarrow> world outcome" where
  "scorw_child_version_cnt_inc e i w =
     (if i_cannot_update_child_version_cnt (inodes w i) then Ret w
      else case Option.bind (i_scorw_inode (inodes w i)) (\<lambda>a. i_frnd_vfs_inode (scorws w a)) of
          None \<Rightarrow> Oops
        | Some f \<Rightarrow>
            let w1 = upd_ino f (\<lambda>v. v\<lparr>i_can_sync_frnd := - 1\<rparr>)
                       (upd_ino i (\<lambda>v. v\<lparr>i_cannot_update_child_version_cnt := True\<rparr>) w);
                v = scorw_get_child_version_attr_val (junk_attr e) (attrs_of w1 i)
            in if v = 0 \<or> \<not> mem_ok e then Oops
               else Ret (scorw_add_wait_for_commit_list \<lparr>wc_frnd = f, child_staged_for_commit = False\<rparr>
                 (set_attrs i (scorw_set_child_version_attr_val (xset_ok e i version_attr) (attrs_of w1 i)
                    ((v + 1) mod 2 ^ 64)) w1)))"

section \<open>The page copy thread\<close>

text \<open>Taking the lock of a block. Without memory for an entry there is no lock (the result
  is False) and the callers go on.\<close>

definition get_block_lock :: "kernel \<Rightarrow> addr \<Rightarrow> nat \<Rightarrow> ptype \<Rightarrow> world \<Rightarrow> (bool \<times> world) outcome" where
  "get_block_lock e a blk pt w =
     (case scorw_get_uncopied_block (mem_ok e) (i_uncopied_blocks (scorws w a)) blk pt of
        (Acquired, m) \<Rightarrow> Ret (True, upd_scorw a (\<lambda>s. s\<lparr>i_uncopied_blocks := m\<rparr>) w)
      | (Waiting, _) \<Rightarrow> Blocks
      | (NoMemory, _) \<Rightarrow> Ret (False, w))"

definition put_block_lock :: "addr \<Rightarrow> nat \<Rightarrow> ptype \<Rightarrow> world \<Rightarrow> world" where
  "put_block_lock a blk pt =
     upd_scorw a (\<lambda>s. s\<lparr>i_uncopied_blocks :=
       scorw_remove_uncopied_block (snd (snd (scorw_put_uncopied_block (i_uncopied_blocks s) blk pt))) blk\<rparr>)"

text \<open>The bit of a block in the friend file of a child. Reading it may bring the page
  into the cache.\<close>

definition block_copied :: "kernel \<Rightarrow> addr \<Rightarrow> nat \<Rightarrow> world \<Rightarrow> (bool \<times> world) outcome" where
  "block_copied e a blk w =
     (case i_frnd_vfs_inode (scorws w a) of
        None \<Rightarrow> Oops
      | Some f \<Rightarrow> (case scorw_is_block_copied (fenv e f) (file_of w f) blk of
          (r, g) \<Rightarrow> Ret (r \<noteq> 0, set_file f g w)))"

definition mark_copied :: "kernel \<Rightarrow> addr \<Rightarrow> nat \<Rightarrow> world \<Rightarrow> world outcome" where
  "mark_copied e a blk w =
     (case i_frnd_vfs_inode (scorws w a) of
        None \<Rightarrow> Oops
      | Some f \<Rightarrow> obind (of_opt (scorw_set_block_copied (fenv e f) (file_of w f) blk)) (\<lambda>g.
          Ret (scorw_dec_yet_to_copy_blocks_count a 1 (set_file f g w))))"

text \<open>One child of the loop: it gets the block unless it is no target, has the block, or
  the block is not in its snapshot.\<close>

definition copy_to_child :: "kernel \<Rightarrow> addr \<Rightarrow> addr \<Rightarrow> nat \<Rightarrow> world \<Rightarrow> world outcome" where
  "copy_to_child e pc pa j w =
     (case i_child_scorw_inode (scorws w pa) j of
        None \<Rightarrow> Ret w
      | Some c \<Rightarrow>
          let s = scorws w c; blk = block_num (page_copies w pc) in
          if \<not> is_target_child (page_copies w pc) j then Ret w
          else if (i_copy_size s - 1) div int PAGE_SIZE < s32 (int blk) then Ret w
          else
            obind (get_block_lock e c blk COPYING_EXCL w) (\<lambda>(_, w1).
            obind (block_copied e c blk w1) (\<lambda>(done, w2).
            obind (if done then Ret w2
                   else obind (scorw_child_version_cnt_inc e (i_vfs_inode s) w2) (\<lambda>w3.
                     obind (scorw_copy_page_from_page_copy e pc c w3) (\<lambda>(ret, w4).
                       if ret = 0 then mark_copied e c blk w4 else Ret w4))) (\<lambda>w5.
            Ret (put_block_lock c blk COPYING_EXCL w5)))))"

definition scorw_unprepare_page_copy :: "kernel \<Rightarrow> addr \<Rightarrow> world \<Rightarrow> world outcome" where
  "scorw_unprepare_page_copy e pc w =
     (let w1 = scorw_remove_page_copy_hlist pc (scorw_remove_page_copy_llist pc w)
      in scorw_put_inode e False True False (i_vfs_inode (scorws w1 (pc_par (page_copies w1 pc)))) w1)"

text \<open>What the thread does with the page copy at the head of the queue.\<close>

definition scorw_process_page_copy :: "kernel \<Rightarrow> addr \<Rightarrow> world \<Rightarrow> world outcome" where
  "scorw_process_page_copy e pc w =
     (let pa = pc_par (page_copies w pc) in
      obind (down_read pa w) (\<lambda>w1.
      obind (oloop (copy_to_child e pc pa) [0..<SCORW_MAX_CHILDS] w1) (\<lambda>w2.
        scorw_unprepare_page_copy e pc (up_read pa w2))))"

text \<open>\<open>scorw_free_all_page_copy\<close>, at unmount: the copies are dropped unprocessed. The
  number of rounds is the length of the queue.\<close>

definition scorw_free_all_page_copy :: "kernel \<Rightarrow> world \<Rightarrow> world outcome" where
  "scorw_free_all_page_copy e w =
     oloop (\<lambda>pc w. scorw_unprepare_page_copy e pc w) (page_copy_llist w) w"

text \<open>One round of the thread: the periodic work on the friend versions (\<open>periodic\<close>) when
  the time has come, the end when it was told to stop, else the next page copy.\<close>

datatype thread_round = Continue world | Stopped world

definition scorw_page_copy_thread_round ::
    "(world \<Rightarrow> world outcome) \<Rightarrow> kernel \<Rightarrow> bool \<Rightarrow> bool \<Rightarrow> world \<Rightarrow> thread_round outcome" where
  "scorw_page_copy_thread_round periodic e timeout stop w =
     (if timeout then obind (periodic w) (\<lambda>w. Ret (Continue w))
      else if stop then obind (scorw_free_all_page_copy e w) (\<lambda>w. Ret (Stopped w))
      else case scorw_get_page_copy_to_process w of
          None \<Rightarrow> Ret (Continue w)
        | Some pc \<Rightarrow> obind (scorw_process_page_copy e pc w) (\<lambda>w. Ret (Continue w)))"

end
