(* ===== verification/Cow_Writes.thy ===== *)
theory Cow_Writes
  imports Page_Copy
begin

text \<open>
  Writes to parents and children: the page copies a write to the parent leaves
  for its children, the read barrier around it, the preparation of the blocks of
  a child before a write and their bookkeeping after it, and the write loop
  itself. Source: \<open>src/ext4-module/corw_sparse.c\<close> and \<open>src/ext4-module/file.c\<close>.
\<close>

section \<open>Writes to a parent\<close>

text \<open>The last block a copy is made of, an \<open>unsigned\<close>.\<close>

definition last_block :: "int \<Rightarrow> nat" where
  "last_block csize = nat ((csize - 1) div int PAGE_SIZE mod 2 ^ 32)"

text \<open>One child of the search for targets: no target if it does not want a snapshot of
  the block, has a page copy waiting, or has the block.\<close>

definition find_target :: "kernel \<Rightarrow> ino \<Rightarrow> addr \<Rightarrow> nat \<Rightarrow> nat \<Rightarrow> (nat \<Rightarrow> bool) \<times> world \<Rightarrow> ((nat \<Rightarrow> bool) \<times> world) outcome" where
  "find_target e i pa blk j tw =
     (case tw of (targets, w) \<Rightarrow>
        case i_child_scorw_inode (scorws w pa) j of
          None \<Rightarrow> Ret (targets(j := False), w)
        | Some c \<Rightarrow>
            if \<not> scorw_is_in_range (scorws w c) blk then Ret (targets(j := False), w)
            else obind (scorw_find_page_copy w blk i (i_at_index (scorws w c))) (\<lambda>existing.
              if existing \<noteq> None then Ret (targets(j := False), w)
              else obind (block_copied e c blk w) (\<lambda>(done, w1). Ret (targets(j := \<not> done), w1))))"

definition child_slots :: "scorw_inode \<Rightarrow> nat list" where
  "child_slots s = [0..<nat (i_last_child_index s + 1)]"

text \<open>\<open>scorw_write_par_blocks\<close>. The page of the parent comes with whether it is up to
  date.\<close>

definition scorw_write_par_blocks :: "kernel \<Rightarrow> ino \<Rightarrow> nat \<Rightarrow> nat \<Rightarrow> page \<times> bool \<Rightarrow> world \<Rightarrow> world outcome" where
  "scorw_write_par_blocks e i offset len par_data_page w =
     (let blk = offset div PAGE_SIZE mod 2 ^ 32 in
      if len = 0 then Ret w
      else if last_block (int (i_size (file_of w i))) < blk then Ret w
      else case scorw_find_inode w i of
          None \<Rightarrow> Oops
        | Some pa \<Rightarrow>
            if i_vfs_inode (scorws w pa) \<noteq> i then Oops
            else obind (oloop (find_target e i pa blk) (child_slots (scorws w pa)) (\<lambda>_. False, w)) (\<lambda>(targets, w1).
              if \<not> (\<exists>j\<in>set (child_slots (scorws w pa)). targets j) then Ret w1
              else if \<not> mem_ok e then Oops
              else scorw_prepare_page_copy e blk pa (next_addr w1)
                     (offset \<le> blk * PAGE_SIZE \<and> blk * PAGE_SIZE + PAGE_SIZE \<le> offset + len)
                     par_data_page targets (w1\<lparr>next_addr := next_addr w1 + 1\<rparr>)))"

text \<open>The read barrier takes the block of every child that is used by more than its
  parent; which ones is kept for the end.\<close>

definition barrier_child :: "kernel \<Rightarrow> addr \<Rightarrow> nat \<Rightarrow> nat \<Rightarrow> (nat \<Rightarrow> bool) \<times> world \<Rightarrow> ((nat \<Rightarrow> bool) \<times> world) outcome" where
  "barrier_child e pa blk j uw =
     (case uw of (held, w) \<Rightarrow>
        case i_child_scorw_inode (scorws w pa) j of
          None \<Rightarrow> Ret (held, w)
        | Some c \<Rightarrow>
            if 1 < scorw_get_process_usage_count w c
            then obind (get_block_lock e c blk COPYING_EXCL w) (\<lambda>(ok, w1). Ret (held(j := ok), w1))
            else Ret (held(j := False), w))"

definition scorw_read_barrier_begin :: "kernel \<Rightarrow> addr \<Rightarrow> nat \<Rightarrow> (nat \<Rightarrow> bool) \<Rightarrow> world \<Rightarrow> ((nat \<Rightarrow> bool) \<times> world) outcome" where
  "scorw_read_barrier_begin e pa blk held w =
     obind (down_read pa w) (\<lambda>w1. oloop (barrier_child e pa blk) (child_slots (scorws w1 pa)) (held, w1))"

definition scorw_read_barrier_end :: "addr \<Rightarrow> nat \<Rightarrow> (nat \<Rightarrow> bool) \<Rightarrow> world \<Rightarrow> world" where
  "scorw_read_barrier_end pa blk held w =
     up_read pa (fold (\<lambda>j w. case i_child_scorw_inode (scorws w pa) j of
                               None \<Rightarrow> w
                             | Some c \<Rightarrow> if held j then put_block_lock c blk COPYING_EXCL w else w)
                   (child_slots (scorws w pa)) w)"

section \<open>Writes to a child\<close>

record sharing_range_info =
  initialized :: bool
  partial_cow :: bool
  start_block :: nat
  end_block :: nat

text \<open>\<open>snapx_get_range_info\<close>: the behaviour for a block, with the range found last as
  history. A history whose end lies before the block is looked up again; when no range
  covers the block the old one stays.\<close>

definition snapx_get_range_info :: "child_range option \<Rightarrow> scorw_inode \<Rightarrow> nat \<Rightarrow> nat \<times> child_range option" where
  "snapx_get_range_info cr s blk =
     (if i_num_ranges s = 0 then (SNAPX_FLAG_COW, cr)
      else
        let stale = (case cr of None \<Rightarrow> True | Some r \<Rightarrow> range_last r < int blk);
            cr1 = (if stale then
                     (case find (\<lambda>i. in_crange (i_range s i) blk) [0..<nat (i_num_ranges s)] of
                        Some i \<Rightarrow> Some (i_range s i) | None \<Rightarrow> cr)
                   else cr)
        in (case cr1 of None \<Rightarrow> SNAPX_FLAG_COW | Some r \<Rightarrow> snapx_behavior r, cr1))"

text \<open>The scan of the ranges of a write: \<^const>\<open>None\<close> when it is refused, else the last
  block to prepare and what is shared.\<close>

fun scan_ranges :: "scorw_inode \<Rightarrow> nat \<Rightarrow> nat list \<Rightarrow> child_range option \<Rightarrow> nat \<Rightarrow> sharing_range_info \<Rightarrow>
    (nat \<times> sharing_range_info) option" where
  "scan_ranges s start [] cr end_blk shr = Some (end_blk, shr)"
| "scan_ranges s start (i # is) cr end_blk shr =
     (if cr = None \<and> i \<noteq> start then Some (end_blk, shr)
      else case snapx_get_range_info cr s i of (snxb, cr1) \<Rightarrow>
        if snxb \<noteq> SNAPX_FLAG_SHARED \<and> initialized shr then Some (i - 1, shr)
        else if snxb = SNAPX_FLAG_COW_RO \<or> snxb = SNAPX_FLAG_SEE_TH_RO \<or> snxb = SNAPX_FLAG_SHARED_RO then None
        else if snxb = SNAPX_FLAG_SHARED then
          (if i \<noteq> start \<and> \<not> initialized shr
           then Some (i - 1, shr\<lparr>partial_cow := True, end_block := i - 1, start_block := start\<rparr>)
           else if initialized shr then scan_ranges s start is cr1 end_blk (shr\<lparr>end_block := end_block shr + 1\<rparr>)
           else scan_ranges s start is cr1 end_blk (shr\<lparr>initialized := True, start_block := i, end_block := i\<rparr>))
        else scan_ranges s start is cr1 end_blk shr)"

text \<open>Blocks that the write covers whole are not copied.\<close>

definition fully_overwritten :: "nat \<Rightarrow> nat \<Rightarrow> nat \<Rightarrow> nat \<Rightarrow> nat \<Rightarrow> bool" where
  "fully_overwritten offset len start end_blk i \<longleftrightarrow>
     start = end_blk \<and> i = start \<and> offset mod PAGE_SIZE = 0 \<and> (offset + len) mod PAGE_SIZE = 0 \<or>
     start \<noteq> end_blk \<and> i = start \<and> offset mod PAGE_SIZE = 0 \<or>
     start \<noteq> end_blk \<and> i = end_blk \<and> (offset + len) mod PAGE_SIZE = 0"

text \<open>One block before the write. The results of the copies are not looked at.\<close>

definition prepare_block :: "kernel \<Rightarrow> addr \<Rightarrow> ino \<Rightarrow> nat \<Rightarrow> nat \<Rightarrow> nat \<Rightarrow> nat \<Rightarrow> bool \<Rightarrow> nat \<Rightarrow> world \<Rightarrow> world outcome" where
  "prepare_block e a ino offset len start end_blk shared i w =
     obind (get_block_lock e a i COPYING w) (\<lambda>(_, w1).
       if shared then Ret w1
       else obind (block_copied e a i w1) (\<lambda>(done, w2).
         if done then Ret (put_block_lock a i COPYING w2)
         else obind (scorw_child_version_cnt_inc e ino w2) (\<lambda>w3.
           if fully_overwritten offset len start end_blk i then Ret w3
           else if i = start \<or> i = end_blk then
             (case i_par_vfs_inode (scorws w3 a) of
                None \<Rightarrow> Oops
              | Some par \<Rightarrow>
                  obind (scorw_find_page_copy w3 i par (i_at_index (scorws w3 a))) (\<lambda>pc.
                  obind (case pc of Some pc \<Rightarrow> scorw_copy_page_from_page_copy e pc a w3
                                  | None \<Rightarrow> scorw_copy_page e a i w3) (\<lambda>(_, w4). Ret w4)))
           else Ret w3)))"

definition write_blocks :: "int \<Rightarrow> nat \<Rightarrow> nat \<Rightarrow> nat \<times> nat" where
  "write_blocks csize offset len =
     (let first = offset div PAGE_SIZE mod 2 ^ 32; lst = (offset + len - 1) div PAGE_SIZE mod 2 ^ 32
      in (first, if lst < last_block csize then lst else last_block csize))"

definition scorw_write_child_blocks_begin ::
    "kernel \<Rightarrow> ino \<Rightarrow> nat \<Rightarrow> nat \<Rightarrow> sharing_range_info \<Rightarrow> world \<Rightarrow> (int \<times> sharing_range_info \<times> world) outcome" where
  "scorw_write_child_blocks_begin e ino offset len shr w =
     (case scorw_find_inode w ino of
        None \<Rightarrow> Oops
      | Some a \<Rightarrow>
          let s = scorws w a in
          if i_vfs_inode s \<noteq> ino then Oops
          else case write_blocks (i_copy_size s) offset len of (start, end_blk) \<Rightarrow>
            if last_block (i_copy_size s) < start then Ret (0, shr, w)
            else case scan_ranges s start [start..<end_blk + 1] None end_blk shr of
                None \<Rightarrow> Ret (- 1, shr, w)
              | Some (end1, shr1) \<Rightarrow>
                  obind (oloop (prepare_block e a ino offset len start end1 (initialized shr1)) [start..<end1 + 1] w)
                    (\<lambda>w1. Ret (0, shr1, w1)))"

text \<open>One block after the write.\<close>

definition finish_block :: "kernel \<Rightarrow> addr \<Rightarrow> bool \<Rightarrow> nat \<Rightarrow> world \<Rightarrow> world outcome" where
  "finish_block e a shared i w =
     obind (block_copied e a i w) (\<lambda>(done, w1).
       if done then Ret w1
       else obind (if shared then Ret (scorw_dec_yet_to_copy_blocks_count a 1 w1) else mark_copied e a i w1) (\<lambda>w2.
         Ret (put_block_lock a i COPYING w2)))"

definition scorw_write_child_blocks_end :: "kernel \<Rightarrow> ino \<Rightarrow> nat \<Rightarrow> nat \<Rightarrow> bool \<Rightarrow> world \<Rightarrow> world outcome" where
  "scorw_write_child_blocks_end e ino offset len shared w =
     (case scorw_find_inode w ino of
        None \<Rightarrow> Oops
      | Some a \<Rightarrow>
          if i_vfs_inode (scorws w a) \<noteq> ino then Oops
          else case write_blocks (i_copy_size (scorws w a)) offset len of (start, end_blk) \<Rightarrow>
            if last_block (i_copy_size (scorws w a)) < start then Ret w
            else oloop (finish_block e a shared) [start..<end_blk + 1] w)"

section \<open>The write loop\<close>

text \<open>
  One turn of the loop of \<open>scorw_generic_perform_write\<close>: \<open>bs\<close> are the bytes to be
  written to the page at \<open>pos\<close>, of which the copy from user memory delivers \<open>k\<close>. The
  result is the status. The block of the barrier is
  computed from the offset inside the page. A failure of \<open>write_begin\<close> leaves the
  loop from between the two halves of the barrier; after a failure of \<open>write_end\<close> the
  barrier is ended. A page that was not up to date and got less than the whole range
  counts as not written.
\<close>

definition write_par_begin :: "kernel \<Rightarrow> ino \<Rightarrow> nat \<Rightarrow> world \<Rightarrow> ((nat \<Rightarrow> bool) option \<times> world) outcome" where
  "write_par_begin e i pos w =
     (let blk = pos mod PAGE_SIZE div PAGE_SIZE in
      if last_block (int (i_size (file_of w i))) < blk then Ret (None, w)
      else case scorw_find_inode w i of
          None \<Rightarrow> Oops
        | Some pa \<Rightarrow> obind (scorw_read_barrier_begin e pa blk (\<lambda>_. False) w) (\<lambda>(held, w1). Ret (Some held, w1)))"

definition write_par_end :: "ino \<Rightarrow> nat \<Rightarrow> (nat \<Rightarrow> bool) option \<Rightarrow> world \<Rightarrow> world outcome" where
  "write_par_end i pos held w =
     (case held of
        None \<Rightarrow> Ret w
      | Some h \<Rightarrow> (case scorw_find_inode w i of
          None \<Rightarrow> Oops
        | Some pa \<Rightarrow> Ret (scorw_read_barrier_end pa (pos mod PAGE_SIZE div PAGE_SIZE) h w)))"

definition copied_in :: "bool \<Rightarrow> nat \<Rightarrow> nat \<Rightarrow> nat" where
  "copied_in uptodate bytes k = (if k < bytes \<and> \<not> uptodate then 0 else k)"

definition fill_page :: "ino \<Rightarrow> nat \<Rightarrow> page \<Rightarrow> byte list \<Rightarrow> nat \<Rightarrow> world \<Rightarrow> world" where
  "fill_page i pos p bs got w =
     (if got = 0 then w
      else set_file i (write_end (file_of w i) (pos div PAGE_SIZE) pos got
                         (memcpy_page p (pos mod PAGE_SIZE) (take got bs))) w)"

text \<open>\<open>write_end\<close> after the copy of \<open>k\<close> bytes into the page: the number of bytes accepted, the
  error of \<open>ext4_journal_start\<close>, which comes when page and size are changed already, or \<open>-EIO\<close>
  for a page without buffers, where only the memory of the page has changed.\<close>

definition end_page :: "kernel \<Rightarrow> ino \<Rightarrow> nat \<Rightarrow> page \<Rightarrow> bool \<Rightarrow> byte list \<Rightarrow> nat \<Rightarrow> world \<Rightarrow> int \<times> world" where
  "end_page e i pos p uptodate bs k w =
     (let got = copied_in uptodate (length bs) k; idx = pos div PAGE_SIZE in
      case end_res (fenv e i) idx of
        End_Done \<Rightarrow> (int got, fill_page i pos p bs got w)
      | End_Journal err \<Rightarrow> (err, fill_page i pos p bs got w)
      | End_No_Buffers \<Rightarrow>
          (- EIO, if uptodate
                  then set_file i ((file_of w i)\<lparr>cache := (cache (file_of w i))(idx \<mapsto> memcpy_page p (pos mod PAGE_SIZE) (take k bs))\<rparr>) w
                  else w))"

lemma end_page_done: "end_res (fenv e i) (pos div PAGE_SIZE) = End_Done \<Longrightarrow>
    end_page e i pos p uptodate bs k w = (int (copied_in uptodate (length bs) k), fill_page i pos p bs (copied_in uptodate (length bs) k) w)"
  by (simp add: end_page_def Let_def)

definition write_page :: "kernel \<Rightarrow> bool \<Rightarrow> ino \<Rightarrow> nat \<Rightarrow> byte list \<Rightarrow> nat \<Rightarrow> world \<Rightarrow> (int \<times> world) outcome" where
  "write_page e write_to_par i pos bs k w =
     obind (if write_to_par then write_par_begin e i pos w else Ret (None, w)) (\<lambda>(held, w1).
       let uptodate = (cache (file_of w1 i) (pos div PAGE_SIZE) \<noteq> None) in
       case write_begin (fenv e i) (junk_page e) (file_of w1 i) pos (length bs) of
         None \<Rightarrow> Ret (begin_error e, w1)
       | Some p \<Rightarrow>
           obind (if held \<noteq> None then scorw_write_par_blocks e i pos (length bs) (p, uptodate) w1 else Ret w1) (\<lambda>w2.
           case end_page e i pos p uptodate bs k w2 of (status, w3) \<Rightarrow>
             obind (write_par_end i pos held w3) (\<lambda>w4. Ret (status, w4))))"

text \<open>
  The loop. Each turn is given whether a fatal signal is pending and how many bytes the
  copy from user memory delivers; a loop that used up all its turns is still running.
  \<open>seg\<close> gives the length of the current segment of the iterator for the number of
  bytes left in it.
\<close>

fun write_loop :: "kernel \<Rightarrow> bool \<Rightarrow> (nat \<Rightarrow> nat) \<Rightarrow> ino \<Rightarrow> (bool \<times> nat) list \<Rightarrow> nat \<Rightarrow> nat \<Rightarrow> byte list \<Rightarrow> nat \<Rightarrow> world \<Rightarrow>
    (int \<times> world) outcome" where
  "write_loop e wp seg i [] bytes pos bs written w = Blocks"
| "write_loop e wp seg i ((fatal, k) # turns) bytes pos bs written w =
     (if fatal then Ret (if written = 0 then - EINTR else int written, w)
      else obind (write_page e wp i pos (take bytes bs) (min k bytes) w) (\<lambda>(status, w1).
        let rest = drop (min k bytes) bs; n = nat status in
        if status < 0 then Ret (if written = 0 then status else int written, w1)
        else if n = 0 then write_loop e wp seg i turns (min (PAGE_SIZE - pos mod PAGE_SIZE) (seg (length rest))) pos rest written w1
        else if rest = [] then Ret (int (written + n), w1)
        else write_loop e wp seg i turns (min (PAGE_SIZE - (pos + n) mod PAGE_SIZE) (length rest)) (pos + n) rest (written + n) w1))"

text \<open>The redirection of a write to a versioned parent, and what it changes.\<close>

definition store_ver :: "addr \<Rightarrow> ver_inode \<Rightarrow> world \<Rightarrow> world" where
  "store_ver a v w =
     (let s = scorws w a;
          w1 = upd_scorw a (\<lambda>s. s\<lparr>i_version := version v, i_versions := vcache v, i_t_locks := t_locks v\<rparr>)
                 (set_file (i_vfs_inode s) (data v) w)
      in case (i_log s, i_log_vfs_inode v) of (Some l, Some f) \<Rightarrow> set_file l f w1 | _ \<Rightarrow> w1)"

definition scorw_generic_perform_write ::
    "kernel \<Rightarrow> addr \<Rightarrow> bool \<Rightarrow> (nat \<Rightarrow> nat) \<Rightarrow> (bool \<times> nat) list \<Rightarrow> ino \<Rightarrow> byte list \<Rightarrow> nat \<Rightarrow> bool \<Rightarrow> world \<Rightarrow> (int \<times> world) outcome" where
  "scorw_generic_perform_write e filp intr seg turns i bs pos write_to_par w =
     obind (case scorw_find_inode w i of
              None \<Rightarrow> Ret (int pos, w)
            | Some a \<Rightarrow>
                if scorw_is_par_file e w i False \<and> i_see_thru_ro (scorws w a) \<noteq> 0
                then obind (scorw_write_see_thru_ro (fenv e i) (junk_page e) (junk_attr e) intr (ver_of e w a) filp pos (length bs))
                       (\<lambda>(r, v). Ret (r, store_ver a v w))
                else Ret (int pos, w)) (\<lambda>(pos1, w1).
       if pos1 < 0 then Ret (pos1, w1)
       else write_loop e write_to_par seg i turns (min (PAGE_SIZE - nat pos1 mod PAGE_SIZE) (length bs)) (nat pos1) bs 0 w1)"

section \<open>\<open>ext4_buffered_write_iter\<close>\<close>

text \<open>The length that is left of a write to a child whose ranges are mixed.\<close>

definition allowed_len :: "sharing_range_info \<Rightarrow> nat \<Rightarrow> nat \<Rightarrow> nat" where
  "allowed_len shr offset len =
     (if (initialized shr \<or> partial_cow shr) \<and> end_block shr * PAGE_SIZE + 4095 < offset + len - 1
      then end_block shr * PAGE_SIZE + 4095 + 1 - offset else len)"

text \<open>From the point where the checks of ext4 have been passed; the result is the number
  of bytes written, as before \<open>generic_write_sync\<close>.\<close>

definition ext4_buffered_write_iter ::
    "kernel \<Rightarrow> addr \<Rightarrow> bool \<Rightarrow> (nat \<Rightarrow> nat) \<Rightarrow> (bool \<times> nat) list \<Rightarrow> ino \<Rightarrow> byte list \<Rightarrow> nat \<Rightarrow> world \<Rightarrow> (int \<times> world) outcome" where
  "ext4_buffered_write_iter e filp intr seg turns i bs offset w =
     (if scorw_is_child_file e w i False then
        obind (scorw_write_child_blocks_begin e i offset (length bs)
                 \<lparr>initialized = False, partial_cow = False, start_block = 0, end_block = 0\<rparr> w) (\<lambda>(error, shr, w1).
          if error \<noteq> 0 then Ret (error, w1)
          else
            let len = allowed_len shr offset (length bs); from = take len bs in
            obind (if initialized shr
                   then (case Option.bind (scorw_find_inode w1 i) (\<lambda>a. i_par_vfs_inode (scorws w1 a)) of
                           None \<Rightarrow> Oops
                         | Some p \<Rightarrow> scorw_generic_perform_write e filp intr seg turns p from offset False w1)
                   else scorw_generic_perform_write e filp intr seg turns i from offset False w1) (\<lambda>(ret, w2).
            obind (scorw_write_child_blocks_end e i offset len (initialized shr) w2) (\<lambda>w3. Ret (ret, w3))))
      else scorw_generic_perform_write e filp intr seg turns i bs offset (scorw_is_par_file e w i False) w)"

end
