(* ===== verification/Snapshot.thy ===== *)
theory Snapshot
  imports Cow_Writes
begin

text \<open>
  What a child promises: the contents that the blocks of its parent had when it was
  made. The snapshot of a block is in the child's own file once it is marked as
  copied, else in a page copy on its way to the child, else still in the parent.
  Writes to the parent and the page copy thread keep it.
\<close>

section \<open>The snapshot of a block\<close>

definition pc_page :: "world \<Rightarrow> ino \<Rightarrow> addr \<Rightarrow> page option" where
  "pc_page w p pc =
     (let c = page_copies w pc; f = file_of w p in
      if data_page_loaded c then data_page c
      else if block_num c * PAGE_SIZE < i_size f then disk f (block_num c) else Some zero_page)"

definition find_pc :: "world \<Rightarrow> nat \<Rightarrow> ino \<Rightarrow> nat \<Rightarrow> addr option" where
  "find_pc w blk p j = find (pc_matches w blk p j) (page_copy_hlist w (hash_min blk PC_HASH_BITS))"

definition child_page :: "world \<Rightarrow> addr \<Rightarrow> nat \<Rightarrow> page option" where
  "child_page w c blk =
     (let s = scorws w c; p = the (i_par_vfs_inode s) in
      if copied (file_of w (the (i_frnd_vfs_inode s))) blk then view (file_of w (i_vfs_inode s)) blk
      else case find_pc w blk p (nat (i_at_index s)) of Some pc \<Rightarrow> pc_page w p pc | None \<Rightarrow> view (file_of w p) blk)"

definition snapshot :: "world \<Rightarrow> addr \<Rightarrow> nat \<Rightarrow> page option" where
  "snapshot w c blk =
     map_option (\<lambda>p. cut_page p (page_copy_len (i_copy_size (scorws w c)) blk)) (child_page w c blk)"

section \<open>Families\<close>

definition friend_covers :: "file \<Rightarrow> int \<Rightarrow> bool" where
  "friend_covers f csize \<longleftrightarrow> (\<exists>n. friend_ok n f \<and> csize \<le> int (n * PAGE_BLOCKS * PAGE_SIZE))"

definition member :: "world \<Rightarrow> ino \<Rightarrow> nat \<Rightarrow> addr \<Rightarrow> bool" where
  "member w p j c \<longleftrightarrow>
     (let s = scorws w c in
      i_par_vfs_inode s = Some p \<and> i_at_index s = int j \<and> i_scorw_inode (inodes w (i_vfs_inode s)) = Some c \<and>
      0 < i_copy_size s \<and> i_copy_size s \<le> 2 ^ 32 \<and> i_copy_size s \<le> int (i_size (file_of w p)) \<and> i_vfs_inode s \<noteq> p \<and>
      (\<forall>b. disk (file_of w (i_vfs_inode s)) b \<noteq> None) \<and>
      (\<exists>f. i_frnd_vfs_inode s = Some f \<and> f \<noteq> p \<and> f \<noteq> i_vfs_inode s \<and> friend_covers (file_of w f) (i_copy_size s)))"

definition inos :: "scorw_inode \<Rightarrow> ino set" where
  "inos s = {i_vfs_inode s, the (i_frnd_vfs_inode s)}"

text \<open>The page copies in the two lists are the same, and each block of a child has at most
  one.\<close>

definition queue_ok :: "world \<Rightarrow> addr \<Rightarrow> bool" where
  "queue_ok w pa \<longleftrightarrow>
     distinct (page_copy_llist w) \<and> (\<forall>a\<in>set (page_copy_llist w). a < next_addr w) \<and>
     (\<forall>b. page_copy_hlist w b = rev (filter (\<lambda>a. hash_min (block_num (page_copies w a)) PC_HASH_BITS = b) (page_copy_llist w))) \<and>
     (\<forall>a\<in>set (page_copy_llist w). pc_par (page_copies w a) = pa \<longleftrightarrow> i_ino_num (scorws w (pc_par (page_copies w a))) = i_ino_num (scorws w pa)) \<and>
     (\<forall>a\<in>set (page_copy_llist w). pc_par (page_copies w a) = pa \<longrightarrow>
        block_num (page_copies w a) * PAGE_SIZE < i_size (file_of w (i_vfs_inode (scorws w pa)))) \<and>
     (\<forall>a\<in>set (page_copy_llist w). \<forall>b\<in>set (page_copy_llist w). \<forall>j.
        pc_par (page_copies w a) = pa \<and> pc_par (page_copies w b) = pa \<and> block_num (page_copies w a) = block_num (page_copies w b) \<and>
        is_target_child (page_copies w a) j \<and> is_target_child (page_copies w b) j \<longrightarrow> a = b)"

definition family :: "world \<Rightarrow> addr \<Rightarrow> bool" where
  "family w pa \<longleftrightarrow>
     (let s = scorws w pa; p = i_vfs_inode s in
      i_ino_num s = p \<and> i_scorw_inode (inodes w p) = Some pa \<and> i_size (file_of w p) \<le> 2 ^ 43 \<and>
      (\<forall>j c. i_child_scorw_inode s j = Some c \<longrightarrow>
         j < SCORW_MAX_CHILDS \<and> int j \<le> i_last_child_index s \<and> c \<noteq> pa \<and> member w p j c) \<and>
      (\<forall>j k c d. i_child_scorw_inode s j = Some c \<and> i_child_scorw_inode s k = Some d \<and> j \<noteq> k \<longrightarrow>
         c \<noteq> d \<and> inos (scorws w c) \<inter> inos (scorws w d) = {}) \<and>
      queue_ok w pa)"

section \<open>What reads and locks leave alone\<close>

definition links :: "scorw_inode \<Rightarrow> ino \<times> ino \<times> ino option \<times> ino option \<times> int \<times> int \<times> int \<times> (nat \<Rightarrow> child_range) \<times> (nat \<Rightarrow> addr option) \<times> int \<times> nat \<times> int \<times>
    int \<times> version_cache \<times> ino option" where
  "links s = (i_ino_num s, i_vfs_inode s, i_par_vfs_inode s, i_frnd_vfs_inode s, i_copy_size s, i_at_index s,
     i_num_ranges s, i_range s, i_child_scorw_inode s, i_last_child_index s, i_process_usage_count s, i_see_thru_ro s,
     i_version s, i_versions s, i_log s)"

lemma links_eqD:
  assumes "links s = links t"
  shows "i_ino_num s = i_ino_num t" "i_vfs_inode s = i_vfs_inode t" "i_par_vfs_inode s = i_par_vfs_inode t"
    "i_frnd_vfs_inode s = i_frnd_vfs_inode t" "i_copy_size s = i_copy_size t" "i_at_index s = i_at_index t"
    "i_num_ranges s = i_num_ranges t" "i_range s = i_range t" "i_child_scorw_inode s = i_child_scorw_inode t"
    "i_last_child_index s = i_last_child_index t" "i_process_usage_count s = i_process_usage_count t"
    "i_see_thru_ro s = i_see_thru_ro t" "i_version s = i_version t" "i_versions s = i_versions t" "i_log s = i_log t"
  using assms by (simp_all add: links_def)

definition inside_eq :: "file \<Rightarrow> file \<Rightarrow> bool" where
  "inside_eq f g \<longleftrightarrow> i_size g = i_size f \<and> disk g = disk f \<and> (\<forall>i<i_size f div PAGE_SIZE. view g i = view f i)"

lemma inside_eq_refl [simp]: "inside_eq f f"
  by (simp add: inside_eq_def)

lemma inside_eq_trans: "inside_eq f g \<Longrightarrow> inside_eq g h \<Longrightarrow> inside_eq f h"
  by (simp add: inside_eq_def)

lemma inside_eq_get_page: "inside_eq f (snd (scorw_get_page e f i))"
  by (auto simp: inside_eq_def scorw_get_page_def view_def split: option.splits if_splits)

lemma inside_eq_is_block_copied: "inside_eq f (snd (scorw_is_block_copied e f b))"
  using inside_eq_get_page [of f e "b div PAGE_BLOCKS"]
  by (cases "scorw_get_page e f (b div PAGE_BLOCKS)")
    (auto simp: scorw_is_block_copied_def Let_def split: option.splits simp del: PAGE_BLOCKS_def)

lemma inside_eq_friend_covers: "inside_eq f g \<Longrightarrow> friend_covers f n \<Longrightarrow> friend_covers g n"
proof -
  assume eq: "inside_eq f g" and "friend_covers f n"
  then obtain k where k: "friend_ok k f" "n \<le> int (k * PAGE_BLOCKS * PAGE_SIZE)" by (auto simp: friend_covers_def)
  have "view g i = view f i" if "i < k" for i
    using eq friend_page_inside [OF k(1) that] by (simp add: inside_eq_def)
  with k eq show ?thesis unfolding friend_covers_def friend_ok_def by (auto simp: inside_eq_def)
qed

definition touched :: "ino set \<Rightarrow> world \<Rightarrow> world \<Rightarrow> bool" where
  "touched F w w' \<longleftrightarrow>
     (\<forall>a. links (scorws w' a) = links (scorws w a)) \<and> page_copies w' = page_copies w \<and>
     page_copy_llist w' = page_copy_llist w \<and> page_copy_hlist w' = page_copy_hlist w \<and> next_addr w' = next_addr w \<and>
     (\<forall>i. i_scorw_inode (inodes w' i) = i_scorw_inode (inodes w i)) \<and>
     (\<forall>i. i \<notin> F \<longrightarrow> file_of w' i = file_of w i) \<and> (\<forall>i. inside_eq (file_of w i) (file_of w' i)) \<and>
     (\<forall>i junk. scorw_get_original_parent_size junk (attrs_of w' i) = scorw_get_original_parent_size junk (attrs_of w i))"

lemma touchedD:
  assumes "touched F w w'"
  shows "links (scorws w' a) = links (scorws w a)" "page_copies w' = page_copies w"
    "page_copy_llist w' = page_copy_llist w" "page_copy_hlist w' = page_copy_hlist w" "next_addr w' = next_addr w"
    "i_scorw_inode (inodes w' i) = i_scorw_inode (inodes w i)" "i \<notin> F \<Longrightarrow> file_of w' i = file_of w i"
    "inside_eq (file_of w i) (file_of w' i)"
    "scorw_get_original_parent_size junk (attrs_of w' i) = scorw_get_original_parent_size junk (attrs_of w i)"
  using assms by (simp_all add: touched_def)

lemma touched_refl [simp]: "touched F w w"
  by (simp add: touched_def)

lemma touched_trans: "touched F w u \<Longrightarrow> touched F u w' \<Longrightarrow> touched F w w'"
  unfolding touched_def by (metis inside_eq_trans)

lemma touched_mono: "touched F w w' \<Longrightarrow> F \<subseteq> G \<Longrightarrow> touched G w w'"
  by (auto simp: touched_def)

lemma touched_scorw: "(\<And>s. links (g s) = links s) \<Longrightarrow> touched F w (upd_scorw a g w)"
  by (simp add: touched_def)

lemma touched_read: "inside_eq (file_of w f) g \<Longrightarrow> f \<in> F \<Longrightarrow> touched F w (set_file f g w)"
  by (auto simp: touched_def)

lemma touched_ino: "(\<And>v. i_data (g v) = i_data v \<and> i_scorw_inode (g v) = i_scorw_inode v \<and> i_xattrs (g v) = i_xattrs v) \<Longrightarrow> touched F w (upd_ino i g w)"
  by (auto simp: touched_def)

lemma touched_fold: "(\<And>x w. x \<in> set xs \<Longrightarrow> touched F w (g x w)) \<Longrightarrow> touched F w (fold g xs w)"
proof (induction xs arbitrary: w)
  case (Cons x xs)
  then have "touched F w (g x w)" "touched F (g x w) (fold g xs (g x w))" by simp_all
  then show ?case by (auto intro: touched_trans)
qed simp

lemma touched_oloop:
  assumes "oloop body xs w = Ret w'" and "\<And>x u v. x \<in> set xs \<Longrightarrow> body x u = Ret v \<Longrightarrow> touched F u v"
  shows "touched F w w'"
  by (rule oloop_Ret_induct [OF assms(1), where P = "touched F w"])
    (auto intro: touched_trans [OF _ assms(2)])

lemma touched_down_read: "down_read a w = Ret w' \<Longrightarrow> touched F w w'"
  by (auto simp: down_read_def links_def intro!: touched_scorw split: if_splits)

lemma touched_up_read: "touched F w (up_read a w)"
  by (auto simp: up_read_def links_def intro!: touched_scorw)

lemma touched_get_block_lock: "get_block_lock e a blk pt w = Ret (ok, w') \<Longrightarrow> touched F w w'"
  by (auto simp: get_block_lock_def links_def intro!: touched_scorw split: prod.splits get_result.splits)

lemma touched_put_block_lock: "touched F w (put_block_lock a blk pt w)"
  by (auto simp: put_block_lock_def links_def intro!: touched_scorw)

lemma touched_block_copied:
  assumes "block_copied e a blk w = Ret (r, w')" and "i_frnd_vfs_inode (scorws w a) = Some f" and "f \<in> F"
  shows "touched F w w'"
  using assms inside_eq_is_block_copied [of "file_of w f" "fenv e f" blk]
  by (auto simp: block_copied_def intro!: touched_read split: prod.splits)

lemma touched_barrier_child:
  assumes "barrier_child e pa blk j (h, w) = Ret (h', w')"
  shows "touched F w w'"
  using assms by (auto simp: barrier_child_def obind_Ret_iff split: option.splits if_splits dest!: touched_get_block_lock)

lemma touched_barrier_loop:
  assumes "oloop (barrier_child e pa blk) xs (h, w) = Ret (h', w')"
  shows "touched F w w'"
proof -
  have "touched F w (snd (h', w'))"
    by (rule oloop_Ret_induct [OF assms, where P = "\<lambda>hw. touched F w (snd hw)"])
      (auto intro: touched_trans [OF _ touched_barrier_child])
  then show ?thesis by simp
qed

lemma touched_barrier_begin:
  assumes "scorw_read_barrier_begin e pa blk h w = Ret (h', w')"
  shows "touched F w w'"
proof -
  from assms obtain u where "down_read pa w = Ret u" "oloop (barrier_child e pa blk) (child_slots (scorws u pa)) (h, u) = Ret (h', w')"
    by (auto simp: scorw_read_barrier_begin_def obind_Ret_iff)
  then show ?thesis using touched_down_read touched_barrier_loop touched_trans by blast
qed

lemma touched_barrier_end: "touched F w (scorw_read_barrier_end pa blk h w)"
  unfolding scorw_read_barrier_end_def
  by (rule touched_trans [OF touched_fold touched_up_read]) (auto intro: touched_put_block_lock split: option.splits)

section \<open>Snapshots and families under reads\<close>

lemma find_pc_cong:
  assumes "page_copies w' = page_copies w" and "page_copy_hlist w' = page_copy_hlist w"
    and "\<And>a. i_ino_num (scorws w' a) = i_ino_num (scorws w a)"
  shows "find_pc w' blk p j = find_pc w blk p j"
proof -
  have "pc_matches w' = pc_matches w" using assms by (intro ext) (simp add: pc_matches_def Let_def)
  with assms show ?thesis by (simp add: find_pc_def)
qed

lemma pc_page_cong:
  "page_copies w' pc = page_copies w pc \<Longrightarrow> i_size (file_of w' p) = i_size (file_of w p) \<Longrightarrow>
   disk (file_of w' p) = disk (file_of w p) \<Longrightarrow> pc_page w' p pc = pc_page w p pc"
  by (simp add: pc_page_def Let_def)

text \<open>A block of the snapshot has its bit inside the friend file.\<close>

lemma block_in_friend:
  assumes "friend_ok n f" and "csize \<le> int (n * PAGE_BLOCKS * PAGE_SIZE)" and "int (blk * PAGE_SIZE) < csize"
  shows "blk < n * PAGE_BLOCKS" "blk div PAGE_BLOCKS < i_size f div PAGE_SIZE"
proof -
  show b: "blk < n * PAGE_BLOCKS" using assms(2,3) by simp
  have "blk div PAGE_BLOCKS < n" using b by (simp add: less_mult_imp_div_less)
  then show "blk div PAGE_BLOCKS < i_size f div PAGE_SIZE" using friend_page_inside [OF assms(1)] by blast
qed

lemma copied_inside_eq:
  assumes "friend_covers f csize" and "int (blk * PAGE_SIZE) < csize" and "inside_eq f g"
  shows "copied g blk = copied f blk"
proof -
  obtain n where "friend_ok n f" "csize \<le> int (n * PAGE_BLOCKS * PAGE_SIZE)" using assms(1) by (auto simp: friend_covers_def)
  then have "blk div PAGE_BLOCKS < i_size f div PAGE_SIZE" using block_in_friend assms(2) by blast
  with assms(3) show ?thesis by (simp add: copied_def inside_eq_def del: PAGE_BLOCKS_def)
qed

lemma memberD:
  assumes "member w p j c"
  obtains f where "i_par_vfs_inode (scorws w c) = Some p" "i_at_index (scorws w c) = int j"
    "disk (file_of w (i_vfs_inode (scorws w c))) b \<noteq> None"
    "i_scorw_inode (inodes w (i_vfs_inode (scorws w c))) = Some c" "0 < i_copy_size (scorws w c)"
    "i_copy_size (scorws w c) \<le> 2 ^ 32" "i_copy_size (scorws w c) \<le> int (i_size (file_of w p))"
    "i_vfs_inode (scorws w c) \<noteq> p" "i_frnd_vfs_inode (scorws w c) = Some f" "f \<noteq> p" "f \<noteq> i_vfs_inode (scorws w c)"
    "friend_covers (file_of w f) (i_copy_size (scorws w c))"
  using assms by (auto simp: member_def Let_def)

lemma snapshot_touched:
  assumes "touched F w w'" and "member w p j c" and "int (blk * PAGE_SIZE) < i_copy_size (scorws w c)"
    and "p \<notin> F" and "i_vfs_inode (scorws w c) \<notin> F"
  shows "snapshot w' c blk = snapshot w c blk"
proof -
  note t = touchedD [OF assms(1)]
  note l = links_eqD [OF t(1)]
  obtain f where m: "i_par_vfs_inode (scorws w c) = Some p" "i_frnd_vfs_inode (scorws w c) = Some f"
    "friend_covers (file_of w f) (i_copy_size (scorws w c))" using assms(2) by (rule memberD)
  have "copied (file_of w' f) blk = copied (file_of w f) blk"
    by (rule copied_inside_eq [OF m(3) assms(3) t(8)])
  moreover have "find_pc w' blk p k = find_pc w blk p k" for k
    by (rule find_pc_cong) (simp_all add: t(2,4) l(1))
  moreover have "pc_page w' p pc = pc_page w p pc" for pc
    by (rule pc_page_cong) (simp_all add: t(2) t(7) [OF assms(4)])
  ultimately show ?thesis
    using m t(7) [OF assms(4)] t(7) [OF assms(5)] l(3) [of c]
    by (simp add: snapshot_def child_page_def Let_def l split: option.splits)
qed

lemma member_touched:
  assumes "touched F w w'" and "member w p j c"
  shows "member w' p j c"
proof -
  note t = touchedD [OF assms(1)]
  note l = links_eqD [OF t(1)]
  have "i_size (file_of w' i) = i_size (file_of w i)" "disk (file_of w' i) = disk (file_of w i)" for i
    using t(8) [of i] by (simp_all add: inside_eq_def)
  with assms(2) inside_eq_friend_covers [OF t(8)] t(6) show ?thesis unfolding member_def Let_def l by auto
qed

lemma queue_ok_touched:
  assumes "touched F w w'" and "queue_ok w pa"
  shows "queue_ok w' pa"
proof -
  note t = touchedD [OF assms(1)]
  note l = links_eqD [OF t(1)]
  have "i_size (file_of w' i) = i_size (file_of w i)" for i using t(8) [of i] by (simp add: inside_eq_def)
  with assms(2) show ?thesis unfolding queue_ok_def t(2-5) l by simp
qed

lemma family_touched:
  assumes "touched F w w'" and "family w pa"
  shows "family w' pa"
proof -
  note t = touchedD [OF assms(1)]
  note l = links_eqD [OF t(1)]
  have sz: "i_size (file_of w' i) = i_size (file_of w i)" for i using t(8) [of i] by (simp add: inside_eq_def)
  have inos: "inos (scorws w' a) = inos (scorws w a)" for a by (simp add: inos_def l)
  show ?thesis
    using assms(2) member_touched [OF assms(1)] queue_ok_touched [OF assms(1)]
    unfolding family_def Let_def l t(6) sz inos by blast
qed

section \<open>Writes to the parent\<close>

definition friends :: "world \<Rightarrow> addr \<Rightarrow> ino set" where
  "friends w pa = {f. \<exists>j c. i_child_scorw_inode (scorws w pa) j = Some c \<and> i_frnd_vfs_inode (scorws w c) = Some f}"

lemma familyD:
  assumes "family w pa"
  shows "i_ino_num (scorws w pa) = i_vfs_inode (scorws w pa)"
    "i_scorw_inode (inodes w (i_vfs_inode (scorws w pa))) = Some pa"
    "i_size (file_of w (i_vfs_inode (scorws w pa))) \<le> 2 ^ 43" "queue_ok w pa"
  using assms by (simp_all add: family_def Let_def)

lemma family_child:
  assumes "family w pa" and "i_child_scorw_inode (scorws w pa) j = Some c"
  shows "j < SCORW_MAX_CHILDS" "int j \<le> i_last_child_index (scorws w pa)" "c \<noteq> pa" "member w (i_vfs_inode (scorws w pa)) j c"
  using assms by (auto simp: family_def Let_def)

lemma family_disjoint:
  assumes "family w pa" and "i_child_scorw_inode (scorws w pa) j = Some c" and "i_child_scorw_inode (scorws w pa) k = Some d" and "j \<noteq> k"
  shows "c \<noteq> d" "inos (scorws w c) \<inter> inos (scorws w d) = {}"
  using assms unfolding family_def Let_def by blast+

lemma family_friends:
  assumes "family w pa"
  shows "i_vfs_inode (scorws w pa) \<notin> friends w pa"
    and "i_child_scorw_inode (scorws w pa) j = Some c \<Longrightarrow> i_vfs_inode (scorws w c) \<notin> friends w pa"
proof -
  show "i_vfs_inode (scorws w pa) \<notin> friends w pa"
  proof
    assume "i_vfs_inode (scorws w pa) \<in> friends w pa"
    then obtain j c where "i_child_scorw_inode (scorws w pa) j = Some c" "i_frnd_vfs_inode (scorws w c) = Some (i_vfs_inode (scorws w pa))"
      by (auto simp: friends_def)
    with family_child(4) [OF assms] show False by (metis memberD option.inject)
  qed
  show "i_vfs_inode (scorws w c) \<notin> friends w pa" if c: "i_child_scorw_inode (scorws w pa) j = Some c"
  proof
    assume "i_vfs_inode (scorws w c) \<in> friends w pa"
    then obtain k d where d: "i_child_scorw_inode (scorws w pa) k = Some d" "i_frnd_vfs_inode (scorws w d) = Some (i_vfs_inode (scorws w c))"
      by (auto simp: friends_def)
    show False
    proof (cases "j = k")
      case True
      with c d family_child(4) [OF assms c] show False by (auto simp: member_def Let_def)
    next
      case False
      from family_disjoint(2) [OF assms c d(1) False] d(2) show False by (auto simp: inos_def)
    qed
  qed
qed

lemma friends_touched: "touched F w w' \<Longrightarrow> friends w' pa = friends w pa"
  by (simp add: friends_def links_eqD [OF touchedD(1)])

lemma block_copied_value:
  assumes "block_copied e a blk w = Ret (r, w')" and "i_frnd_vfs_inode (scorws w a) = Some f"
    and "friend_covers (file_of w f) csize" and "int (blk * PAGE_SIZE) < csize" and "pages_env_ok (fenv e f)"
  shows "r = copied (file_of w f) blk"
proof -
  obtain n where n: "friend_ok n (file_of w f)" "csize \<le> int (n * PAGE_BLOCKS * PAGE_SIZE)"
    using assms(3) by (auto simp: friend_covers_def)
  from is_block_copied_ok [OF n(1) block_in_friend(1) [OF n assms(4)] assms(5)] assms(1,2) show ?thesis
    by (auto simp: block_copied_def)
qed

text \<open>The result of the search for targets.\<close>

definition is_target :: "world \<Rightarrow> addr \<Rightarrow> nat \<Rightarrow> nat \<Rightarrow> bool \<Rightarrow> bool" where
  "is_target w pa blk j t \<longleftrightarrow>
     (t \<longrightarrow> find_pc w blk (i_vfs_inode (scorws w pa)) j = None \<and> i_child_scorw_inode (scorws w pa) j \<noteq> None) \<and>
     (\<forall>c. i_child_scorw_inode (scorws w pa) j = Some c \<and> scorw_is_in_range (scorws w c) blk \<and>
        int (blk * PAGE_SIZE) < i_copy_size (scorws w c) \<longrightarrow>
        t \<or> find_pc w blk (i_vfs_inode (scorws w pa)) j \<noteq> None \<or> copied (file_of w (the (i_frnd_vfs_inode (scorws w c)))) blk) \<and>
     (\<forall>c. i_child_scorw_inode (scorws w pa) j = Some c \<and> t \<and> int (blk * PAGE_SIZE) < i_copy_size (scorws w c) \<longrightarrow>
        \<not> copied (file_of w (the (i_frnd_vfs_inode (scorws w c)))) blk)"

lemma find_target_step:
  assumes "family w pa" and "\<forall>f. pages_env_ok (fenv e f)"
    and "find_target e (i_vfs_inode (scorws w pa)) pa blk j (t, w) = Ret (t', w')"
  shows "touched (friends w pa) w w' \<and> (\<forall>k. k \<noteq> j \<longrightarrow> t' k = t k) \<and> is_target w pa blk j (t' j)"
proof (cases "i_child_scorw_inode (scorws w pa) j")
  case None
  with assms(3) show ?thesis by (auto simp: find_target_def is_target_def)
next
  case (Some c)
  obtain f where m: "i_at_index (scorws w c) = int j" "i_frnd_vfs_inode (scorws w c) = Some f"
    "friend_covers (file_of w f) (i_copy_size (scorws w c))"
    using family_child(4) [OF assms(1) Some] by (rule memberD)
  have j: "j < SCORW_MAX_CHILDS" by (rule family_child(1) [OF assms(1) Some])
  have f: "f \<in> friends w pa" using Some m(2) by (auto simp: friends_def)
  have pc: "scorw_find_page_copy w blk (i_vfs_inode (scorws w pa)) (int j) = Ret (find_pc w blk (i_vfs_inode (scorws w pa)) j)"
    using j by (simp add: scorw_find_page_copy_def find_pc_def)
  consider "\<not> scorw_is_in_range (scorws w c) blk" | "scorw_is_in_range (scorws w c) blk" "find_pc w blk (i_vfs_inode (scorws w pa)) j \<noteq> None"
    | "scorw_is_in_range (scorws w c) blk" "find_pc w blk (i_vfs_inode (scorws w pa)) j = None" by blast
  then show ?thesis
  proof cases
    case 3
    then obtain dn where d: "block_copied e c blk w = Ret (dn, w')" "t' = t(j := \<not> dn)"
      using assms(3) Some m(1) pc by (auto simp: find_target_def obind_Ret_iff)
    have "touched (friends w pa) w w'" by (rule touched_block_copied [OF d(1) m(2) f])
    moreover have "dn = copied (file_of w f) blk" if "int (blk * PAGE_SIZE) < i_copy_size (scorws w c)"
      using block_copied_value [OF d(1) m(2,3) that] assms(2) by simp
    ultimately show ?thesis using d(2) 3 Some m(2) by (auto simp: is_target_def)
  qed (use assms(3) Some m(1) pc in \<open>auto simp: find_target_def is_target_def obind_Ret_iff\<close>)
qed

lemma in_range_links:
  assumes "links s = links t"
  shows "scorw_is_in_range s blk = scorw_is_in_range t blk"
  unfolding scorw_is_in_range_def links_eqD(7,8) [OF assms] ..

lemma is_target_touched:
  assumes "touched (friends w pa) w w'" and "family w pa" and "is_target w' pa blk j t"
  shows "is_target w pa blk j t"
proof -
  note t = touchedD [OF assms(1)]
  note l = links_eqD [OF t(1)]
  have pc: "find_pc w' blk q k = find_pc w blk q k" for q k by (rule find_pc_cong) (simp_all add: t(2,4) l(1))
  have "copied (file_of w' (the (i_frnd_vfs_inode (scorws w c)))) blk = copied (file_of w (the (i_frnd_vfs_inode (scorws w c)))) blk"
    if "i_child_scorw_inode (scorws w pa) j = Some c" "int (blk * PAGE_SIZE) < i_copy_size (scorws w c)" for c
    using family_child(4) [OF assms(2) that(1)] that(2) copied_inside_eq t(8) by (metis memberD option.sel)
  with assms(3) show ?thesis by (auto simp: is_target_def l pc in_range_links [OF t(1)])
qed

lemma find_targets:
  assumes "oloop (find_target e (i_vfs_inode (scorws w pa)) pa blk) xs (t, w) = Ret (t', w')" and "distinct xs"
    and "family w pa" and "\<forall>f. pages_env_ok (fenv e f)"
  shows "touched (friends w pa) w w' \<and> (\<forall>k. k \<notin> set xs \<longrightarrow> t' k = t k) \<and> (\<forall>j\<in>set xs. is_target w pa blk j (t' j))"
  using assms(1-3)
proof (induction xs arbitrary: t w)
  case (Cons x xs)
  then obtain t1 w1 where 1: "find_target e (i_vfs_inode (scorws w pa)) pa blk x (t, w) = Ret (t1, w1)"
    and 2: "oloop (find_target e (i_vfs_inode (scorws w pa)) pa blk) xs (t1, w1) = Ret (t', w')"
    by (auto simp: obind_Ret_iff)
  note s = find_target_step [OF Cons.prems(3) assms(4) 1]
  have t1: "touched (friends w pa) w w1" using s by blast
  have "i_vfs_inode (scorws w1 pa) = i_vfs_inode (scorws w pa)" by (rule links_eqD(2) [OF touchedD(1) [OF t1]])
  with Cons.IH [of w1 t1] 2 Cons.prems(2) family_touched [OF t1 Cons.prems(3)] friends_touched [OF t1, of pa]
  have t2: "touched (friends w pa) w1 w'" and k: "\<forall>k. k \<notin> set xs \<longrightarrow> t' k = t1 k"
    and j: "\<forall>j\<in>set xs. is_target w1 pa blk j (t' j)" by auto
  have "is_target w pa blk x (t' x)" using k s Cons.prems(2) by simp
  moreover have "is_target w pa blk j (t' j)" if "j \<in> set xs" for j
    using is_target_touched [OF t1 Cons.prems(3)] j that by blast
  ultimately show ?case using touched_trans [OF t1 t2] k s by auto
qed simp

definition new_pc :: "nat \<Rightarrow> addr \<Rightarrow> bool \<Rightarrow> page \<Rightarrow> (nat \<Rightarrow> bool) \<Rightarrow> page_copy" where
  "new_pc blk pa loaded pg t = \<lparr>block_num = blk, pc_par = pa, data_page = (if loaded then Some pg else None),
     data_page_loaded = loaded, is_target_child = t\<rparr>"

lemma prepare_page_copy_effect:
  assumes "scorw_prepare_page_copy e blk pa a full (pg, up) targets w = Ret w'"
  shows "page_copies w' = (page_copies w)(a := new_pc blk pa (up \<or> \<not> full) pg
      (\<lambda>j. int j \<le> i_last_child_index (scorws w pa) \<and> targets j))"
    "page_copy_llist w' = page_copy_llist w @ [a]"
    "page_copy_hlist w' = (page_copy_hlist w)(hash_min blk PC_HASH_BITS := a # page_copy_hlist w (hash_min blk PC_HASH_BITS))"
    "links (scorws w' x) = links (scorws w x)" "inodes w' = inodes w" "next_addr w' = next_addr w"
  using assms
  by (auto simp: scorw_prepare_page_copy_def scorw_copy_page_to_page_copy_def scorw_add_page_copy_llist_def Let_def
      scorw_add_page_copy_hlist_def new_pc_def links_def fun_eq_iff split: if_splits intro!: page_copy.equality)

lemma find_pc_rev:
  assumes "queue_ok w pa"
  shows "find_pc w blk p j = find (pc_matches w blk p j) (rev (page_copy_llist w))"
proof -
  have "find P (filter Q xs) = find P xs" if "\<And>x. P x \<Longrightarrow> Q x" for P Q and xs :: "addr list"
    using that by (induction xs) auto
  moreover have "pc_matches w blk p j a \<Longrightarrow> hash_min (block_num (page_copies w a)) PC_HASH_BITS = hash_min blk PC_HASH_BITS" for a
    by (simp add: pc_matches_def Let_def)
  ultimately show ?thesis using assms by (simp add: find_pc_def queue_ok_def rev_filter)
qed

lemma find_cong: "(\<And>x. x \<in> set xs \<Longrightarrow> P x = Q x) \<Longrightarrow> find P xs = find Q xs"
  by (induction xs) auto

lemma find_pc_SomeD:
  assumes "find_pc w blk p j = Some a" and "queue_ok w pa"
  shows "a \<in> set (page_copy_llist w)" "pc_matches w blk p j a"
  using find_SomeD [of "pc_matches w blk p j" "rev (page_copy_llist w)" a] assms find_pc_rev by auto

lemma queue_unique:
  assumes "queue_ok w pa" and "x \<in> set (page_copy_llist w)" and "y \<in> set (page_copy_llist w)"
    and "pc_par (page_copies w x) = pa" and "pc_par (page_copies w y) = pa"
    and "block_num (page_copies w x) = block_num (page_copies w y)"
    and "is_target_child (page_copies w x) j" and "is_target_child (page_copies w y) j"
  shows "x = y"
  using assms unfolding queue_ok_def by blast

text \<open>The queue with a page copy more.\<close>

definition pc_added :: "world \<Rightarrow> world \<Rightarrow> addr \<Rightarrow> addr \<Rightarrow> nat \<Rightarrow> bool \<Rightarrow> page \<Rightarrow> (nat \<Rightarrow> bool) \<Rightarrow> bool" where
  "pc_added w w' pa a blk ld pg t \<longleftrightarrow>
     page_copies w' = (page_copies w)(a := new_pc blk pa ld pg t) \<and> page_copy_llist w' = page_copy_llist w @ [a] \<and>
     page_copy_hlist w' = (page_copy_hlist w)(hash_min blk PC_HASH_BITS := a # page_copy_hlist w (hash_min blk PC_HASH_BITS)) \<and>
     (\<forall>x. links (scorws w' x) = links (scorws w x)) \<and> inodes w' = inodes w \<and>
     (\<forall>x\<in>set (page_copy_llist w). x < a) \<and> a < next_addr w' \<and> next_addr w \<le> next_addr w'"

lemma pc_addedD:
  assumes "pc_added w w' pa a blk ld pg t"
  shows "page_copies w' a = new_pc blk pa ld pg t" "a \<notin> set (page_copy_llist w)"
    "x \<in> set (page_copy_llist w) \<Longrightarrow> page_copies w' x = page_copies w x" "page_copy_llist w' = page_copy_llist w @ [a]"
    "page_copy_hlist w' = (page_copy_hlist w)(hash_min blk PC_HASH_BITS := a # page_copy_hlist w (hash_min blk PC_HASH_BITS))"
    "links (scorws w' x) = links (scorws w x)" "inodes w' = inodes w" "a < next_addr w'" "next_addr w \<le> next_addr w'"
  using assms by (auto simp: pc_added_def)

lemma find_pc_added:
  assumes "pc_added w w' pa a blk ld pg t" and "family w pa"
  shows "find_pc w' b (i_vfs_inode (scorws w pa)) j = (if b = blk \<and> t j then Some a else find_pc w b (i_vfs_inode (scorws w pa)) j)"
proof -
  let ?p = "i_vfs_inode (scorws w pa)"
  note d = pc_addedD [OF assms(1)]
  note l = links_eqD [OF d(6)]
  have old: "set (page_copy_hlist w h) \<subseteq> set (page_copy_llist w)" for h
    using familyD(4) [OF assms(2)] by (auto simp: queue_ok_def)
  have "pc_matches w' b ?p j x = pc_matches w b ?p j x" if "x \<in> set (page_copy_llist w)" for x
    using d(3) [OF that] by (simp add: pc_matches_def Let_def l)
  then have "find (pc_matches w' b ?p j) (page_copy_hlist w h) = find (pc_matches w b ?p j) (page_copy_hlist w h)" for h
    by (intro find_cong) (use old in blast)
  moreover have "pc_matches w' b ?p j a \<longleftrightarrow> b = blk \<and> t j"
    using familyD(1) [OF assms(2)] by (auto simp: pc_matches_def Let_def d(1) new_pc_def l)
  ultimately show ?thesis by (auto simp: find_pc_def d(5))
qed

lemma queue_added_unique:
  assumes "pc_added w w' pa a blk ld pg t" and "family w pa"
    and "\<forall>j. t j \<longrightarrow> find_pc w blk (i_vfs_inode (scorws w pa)) j = None"
    and "x \<in> set (page_copy_llist w')" "y \<in> set (page_copy_llist w')" "pc_par (page_copies w' x) = pa" "pc_par (page_copies w' y) = pa"
    "block_num (page_copies w' x) = block_num (page_copies w' y)" "is_target_child (page_copies w' x) j" "is_target_child (page_copies w' y) j"
  shows "x = y"
proof -
  let ?p = "i_vfs_inode (scorws w pa)"
  note d = pc_addedD [OF assms(1)]
  have q: "queue_ok w pa" by (rule familyD(4) [OF assms(2)])
  have no: "\<not> t j" if "z \<in> set (page_copy_llist w)" "pc_par (page_copies w' z) = pa" "block_num (page_copies w' z) = blk"
    "is_target_child (page_copies w' z) j" for z
  proof
    assume "t j"
    have "pc_matches w blk ?p j z" using that(2-4) d(3) [OF that(1)] familyD(1) [OF assms(2)] by (simp add: pc_matches_def)
    with that(1) have "find (pc_matches w blk ?p j) (rev (page_copy_llist w)) \<noteq> None" by (auto simp: find_None_iff)
    with assms(3) \<open>t j\<close> find_pc_rev [OF q] show False by simp
  qed
  have x: "x = a \<or> x \<in> set (page_copy_llist w)" and y: "y = a \<or> y \<in> set (page_copy_llist w)" using assms(4,5) d(4) by auto
  have a: "block_num (page_copies w' a) = blk" "is_target_child (page_copies w' a) j = t j" by (simp_all add: d(1) new_pc_def)
  from x show ?thesis
  proof
    assume xa: "x = a"
    with a assms(8,9) no [of y] assms(7,10) y show ?thesis by auto
  next
    assume xl: "x \<in> set (page_copy_llist w)"
    have "y \<noteq> a" using a assms(6,8-10) no [OF xl] by auto
    then have yl: "y \<in> set (page_copy_llist w)" using y by simp
    show ?thesis by (rule queue_unique [OF q xl yl, where j = j]) (use assms(6-) in \<open>simp_all add: d(3) [OF xl] d(3) [OF yl]\<close>)
  qed
qed

lemma queue_added:
  assumes "pc_added w w' pa a blk ld pg t" and "family w pa"
    and "blk * PAGE_SIZE < i_size (file_of w (i_vfs_inode (scorws w pa)))"
    and "\<forall>j. t j \<longrightarrow> find_pc w blk (i_vfs_inode (scorws w pa)) j = None"
  shows "queue_ok w' pa"
proof -
  let ?h = "\<lambda>w x. hash_min (block_num (page_copies w x)) PC_HASH_BITS"
  note d = pc_addedD [OF assms(1)]
  note l = links_eqD [OF d(6)]
  have q: "queue_ok w pa" by (rule familyD(4) [OF assms(2)])
  have "page_copy_hlist w' b = rev (filter (\<lambda>x. ?h w' x = b) (page_copy_llist w'))" for b
  proof -
    have "filter (\<lambda>x. ?h w' x = b) (page_copy_llist w) = filter (\<lambda>x. ?h w x = b) (page_copy_llist w)"
      by (rule filter_cong) (simp_all add: d(3))
    with q show ?thesis by (auto simp: d(1,4,5) queue_ok_def new_pc_def)
  qed
  moreover have "\<forall>x\<in>set (page_copy_llist w'). x < next_addr w'"
    using q d(8,9) by (fastforce simp: d(4) queue_ok_def)
  moreover have "distinct (page_copy_llist w')" using q d(2) by (simp add: d(4) queue_ok_def)
  moreover have "\<forall>x\<in>set (page_copy_llist w'). pc_par (page_copies w' x) = pa \<longleftrightarrow> i_ino_num (scorws w' (pc_par (page_copies w' x))) = i_ino_num (scorws w' pa)"
    using q by (auto simp: d(1,3,4) queue_ok_def new_pc_def l)
  moreover have "\<forall>x\<in>set (page_copy_llist w'). pc_par (page_copies w' x) = pa \<longrightarrow>
      block_num (page_copies w' x) * PAGE_SIZE < i_size (file_of w' (i_vfs_inode (scorws w' pa)))"
    using q assms(3) by (auto simp: d(1,3,4,7) queue_ok_def new_pc_def l)
  moreover note queue_added_unique [OF assms(1,2,4)]
  ultimately show ?thesis unfolding queue_ok_def by blast
qed

lemma member_cong:
  assumes "links (scorws w' c) = links (scorws w c)" and "inodes w' = inodes w"
  shows "member w' p j c = member w p j c"
  by (simp add: member_def Let_def assms(2) links_eqD [OF assms(1)])

lemma family_added:
  assumes "pc_added w w' pa a blk ld pg t" and "family w pa"
    and "blk * PAGE_SIZE < i_size (file_of w (i_vfs_inode (scorws w pa)))"
    and "\<forall>j. t j \<longrightarrow> find_pc w blk (i_vfs_inode (scorws w pa)) j = None"
  shows "family w' pa"
proof -
  note d = pc_addedD [OF assms(1)]
  note l = links_eqD [OF d(6)]
  have "inos (scorws w' x) = inos (scorws w x)" for x by (simp add: inos_def l)
  then show ?thesis
    using assms(2) queue_added [OF assms] unfolding family_def Let_def l d(7) member_cong [OF d(6,7)] by simp
qed

text \<open>The page copy that was added holds what its targets saw in the parent.\<close>

lemma snapshot_added:
  assumes "pc_added w w' pa a blk ld pg t" and "family w pa" and "i_child_scorw_inode (scorws w pa) j = Some c"
    and "blk * PAGE_SIZE < i_size (file_of w (i_vfs_inode (scorws w pa)))" and "t j \<longrightarrow> find_pc w blk (i_vfs_inode (scorws w pa)) j = None"
    and "if ld then view (file_of w (i_vfs_inode (scorws w pa))) blk = Some pg
         else cache (file_of w (i_vfs_inode (scorws w pa))) blk = None"
  shows "snapshot w' c b = snapshot w c b"
proof -
  let ?p = "i_vfs_inode (scorws w pa)"
  note d = pc_addedD [OF assms(1)]
  note l = links_eqD [OF d(6)]
  obtain f where m: "i_par_vfs_inode (scorws w c) = Some ?p" "i_at_index (scorws w c) = int j" "i_frnd_vfs_inode (scorws w c) = Some f"
    using family_child(4) [OF assms(2,3)] by (rule memberD)
  have new: "pc_page w' ?p a = view (file_of w ?p) blk"
    using assms(4,6) by (auto simp: pc_page_def Let_def d(1,7) new_pc_def view_def split: if_splits)
  have old: "pc_page w' ?p x = pc_page w ?p x" if "find_pc w b ?p j = Some x" for x
    using find_pc_SomeD(1) [OF that familyD(4) [OF assms(2)]] by (intro pc_page_cong) (simp_all add: d(3,7))
  have "child_page w' c b = child_page w c b"
    using m assms(5) new old find_pc_added [OF assms(1,2), of b j]
    by (auto simp: child_page_def Let_def l d(7) split: option.splits if_splits)
  then show ?thesis by (simp add: snapshot_def l)
qed

lemma write_end_simps [simp]:
  "view (write_end f i pos n p) j = (if j = i then Some p else view f j)"
  "disk (write_end f i pos n p) = disk f" "i_size (write_end f i pos n p) = max (i_size f) (pos + n)"
  by (simp_all add: write_end_def) (simp add: put_dirty_def)

text \<open>A write to block \<open>blk\<close> of the parent: the snapshots are kept if those of this block
  are no longer in the parent.\<close>

lemma snapshot_parent_written:
  assumes "family w pa" and "i_child_scorw_inode (scorws w pa) j = Some c" and "int (b * PAGE_SIZE) < i_copy_size (scorws w c)"
    and "w' = set_file (i_vfs_inode (scorws w pa)) (write_end (file_of w (i_vfs_inode (scorws w pa))) blk pos n q) w"
    and "b \<noteq> blk \<or> copied (file_of w (the (i_frnd_vfs_inode (scorws w c)))) b \<or> find_pc w b (i_vfs_inode (scorws w pa)) j \<noteq> None"
  shows "snapshot w' c b = snapshot w c b"
proof -
  let ?p = "i_vfs_inode (scorws w pa)"
  obtain f where m: "i_par_vfs_inode (scorws w c) = Some ?p" "i_at_index (scorws w c) = int j" "i_frnd_vfs_inode (scorws w c) = Some f"
    "f \<noteq> ?p" "i_vfs_inode (scorws w c) \<noteq> ?p"
    using family_child(4) [OF assms(1,2)] by (rule memberD)
  have pc: "find_pc w' b ?p j = find_pc w b ?p j" by (rule find_pc_cong) (simp_all add: assms(4))
  have "pc_page w' ?p x = pc_page w ?p x" if x: "find_pc w b ?p j = Some x" for x
  proof -
    note d = find_pc_SomeD [OF x familyD(4) [OF assms(1)]]
    have "pc_par (page_copies w x) = pa" using d familyD(1,4) [OF assms(1)] by (auto simp: queue_ok_def pc_matches_def Let_def)
    then have "block_num (page_copies w x) * PAGE_SIZE < i_size (file_of w ?p)"
      using d(1) familyD(4) [OF assms(1)] by (auto simp: queue_ok_def)
    then show ?thesis by (simp add: pc_page_def Let_def assms(4) less_max_iff_disj)
  qed
  then have "child_page w' c b = child_page w c b"
    using m assms(5) pc by (auto simp: child_page_def Let_def assms(4) split: option.splits)
  then show ?thesis by (simp add: snapshot_def assms(4))
qed

lemma queue_ok_grow:
  assumes "queue_ok w pa" and "i_size (file_of w (i_vfs_inode (scorws w pa))) \<le> i_size f"
  shows "queue_ok (set_file (i_vfs_inode (scorws w pa)) f w) pa"
proof -
  have "b < i_size f" if "b < i_size (file_of w (i_vfs_inode (scorws w pa)))" for b using that assms(2) by simp
  with assms(1) show ?thesis unfolding queue_ok_def by simp
qed

lemma family_parent_written:
  assumes "family w pa" and "pos + n \<le> 2 ^ 43"
    and "w' = set_file (i_vfs_inode (scorws w pa)) (write_end (file_of w (i_vfs_inode (scorws w pa))) blk pos n q) w"
  shows "family w' pa"
proof -
  let ?p = "i_vfs_inode (scorws w pa)"
  have mem: "member w' ?p j c" if "member w ?p j c" for j c
    using that by (auto simp: member_def Let_def assms(3))
  have "queue_ok w' pa" unfolding assms(3) by (rule queue_ok_grow [OF familyD(4) [OF assms(1)]]) simp
  moreover have "scorws w' = scorws w" "i_scorw_inode (inodes w' ?p) = i_scorw_inode (inodes w ?p)"
    "i_size (file_of w' ?p) \<le> 2 ^ 43" using familyD(3) [OF assms(1)] assms(2) by (simp_all add: assms(3))
  ultimately show ?thesis using assms(1) mem unfolding family_def Let_def by simp
qed

definition in_snapshot :: "world \<Rightarrow> addr \<Rightarrow> nat \<Rightarrow> addr \<Rightarrow> nat \<Rightarrow> bool" where
  "in_snapshot w pa j c blk \<longleftrightarrow> i_child_scorw_inode (scorws w pa) j = Some c \<and> scorw_is_in_range (scorws w c) blk \<and>
     int (blk * PAGE_SIZE) < i_copy_size (scorws w c)"

lemma in_snapshot_links:
  assumes "\<And>a. links (scorws w' a) = links (scorws w a)"
  shows "in_snapshot w' pa j c blk = in_snapshot w pa j c blk"
  unfolding in_snapshot_def links_eqD(5,9) [OF assms] in_range_links [OF assms] ..

lemma last_block_pos:
  assumes "0 < n" and "n \<le> 2 ^ 43"
  shows "last_block (int n) = (n - 1) div PAGE_SIZE"
proof -
  have "(int n - 1) div int PAGE_SIZE = int ((n - 1) div PAGE_SIZE)" using assms(1) by (simp add: of_nat_diff zdiv_int)
  moreover have "(n - 1) div PAGE_SIZE < 2 ^ 32" using assms by (intro less_mult_imp_div_less) simp
  ultimately show ?thesis by (simp add: last_block_def)
qed

text \<open>What \<open>scorw_write_par_blocks\<close> leaves: the same snapshots, and those of the block at
  hand no longer in the parent.\<close>

definition saved :: "world \<Rightarrow> world \<Rightarrow> addr \<Rightarrow> nat \<Rightarrow> bool" where
  "saved w w' pa blk \<longleftrightarrow> family w' pa \<and> (\<forall>a. links (scorws w' a) = links (scorws w a)) \<and>
     file_of w' (i_vfs_inode (scorws w pa)) = file_of w (i_vfs_inode (scorws w pa)) \<and>
     (\<forall>j c b. in_snapshot w pa j c b \<longrightarrow> snapshot w' c b = snapshot w c b) \<and>
     (\<forall>j c. in_snapshot w pa j c blk \<longrightarrow> copied (file_of w' (the (i_frnd_vfs_inode (scorws w' c)))) blk \<or>
        find_pc w' blk (i_vfs_inode (scorws w pa)) j \<noteq> None)"

lemma saved_touched:
  assumes "touched (friends w pa) w u" and "saved u w' pa blk" and "family w pa"
  shows "saved w w' pa blk"
proof -
  note t = touchedD [OF assms(1)]
  note l = links_eqD [OF t(1)]
  have "snapshot u c b = snapshot w c b" if "in_snapshot w pa j c b" for j c b
  proof -
    have c: "i_child_scorw_inode (scorws w pa) j = Some c" "int (b * PAGE_SIZE) < i_copy_size (scorws w c)"
      using that by (simp_all add: in_snapshot_def)
    show ?thesis
      by (rule snapshot_touched [OF assms(1) family_child(4) [OF assms(3) c(1)] c(2) family_friends(1) [OF assms(3)]
            family_friends(2) [OF assms(3) c(1)]])
  qed
  with assms(2) show ?thesis
    unfolding saved_def using in_snapshot_links [OF t(1)] t(1) t(7) [OF family_friends(1) [OF assms(3)]]
    by (simp add: l)
qed

lemma saved_refl:
  "family w pa \<Longrightarrow> (\<And>j c. in_snapshot w pa j c blk \<Longrightarrow> copied (file_of w (the (i_frnd_vfs_inode (scorws w c)))) blk \<or>
     find_pc w blk (i_vfs_inode (scorws w pa)) j \<noteq> None) \<Longrightarrow> saved w w pa blk"
  by (simp add: saved_def)

lemma saved_added:
  assumes "pc_added w w' pa a blk ld pg t" and "family w pa"
    and "\<And>j. is_target w pa blk j (t j)" and "blk * PAGE_SIZE < i_size (file_of w (i_vfs_inode (scorws w pa)))"
    and "if ld then view (file_of w (i_vfs_inode (scorws w pa))) blk = Some pg
         else cache (file_of w (i_vfs_inode (scorws w pa))) blk = None"
  shows "saved w w' pa blk"
proof -
  note d = pc_addedD [OF assms(1)]
  note l = links_eqD [OF d(6)]
  have t: "find_pc w blk (i_vfs_inode (scorws w pa)) j = None" if "t j" for j
    using that assms(3) [of j] by (auto simp: is_target_def)
  have "copied (file_of w (the (i_frnd_vfs_inode (scorws w c)))) blk \<or> t j \<or> find_pc w blk (i_vfs_inode (scorws w pa)) j \<noteq> None"
    if "in_snapshot w pa j c blk" for j c
    using assms(3) [of j] that by (auto simp: is_target_def in_snapshot_def)
  moreover have "snapshot w' c b = snapshot w c b" if "in_snapshot w pa j c b" for j c b
  proof -
    have c: "i_child_scorw_inode (scorws w pa) j = Some c" using that by (simp add: in_snapshot_def)
    show ?thesis by (rule snapshot_added [OF assms(1,2) c assms(4) _ assms(5)]) (use t in blast)
  qed
  moreover have "family w' pa" using family_added [OF assms(1,2,4)] t by blast
  moreover have "t j \<or> find_pc w blk (i_vfs_inode (scorws w pa)) j \<noteq> None \<Longrightarrow> find_pc w' blk (i_vfs_inode (scorws w pa)) j \<noteq> None" for j
    using find_pc_added [OF assms(1,2), of blk j] by auto
  ultimately show ?thesis unfolding saved_def d(7) l using d(6) by blast
qed

lemma is_target_touched2:
  assumes "touched (friends w pa) w w'" and "family w pa" and "is_target w pa blk j t"
  shows "is_target w' pa blk j t"
proof -
  note t = touchedD [OF assms(1)]
  note l = links_eqD [OF t(1)]
  have pc: "find_pc w' blk q k = find_pc w blk q k" for q k by (rule find_pc_cong) (simp_all add: t(2,4) l(1))
  have "copied (file_of w' (the (i_frnd_vfs_inode (scorws w c)))) blk = copied (file_of w (the (i_frnd_vfs_inode (scorws w c)))) blk"
    if "i_child_scorw_inode (scorws w pa) j = Some c" "int (blk * PAGE_SIZE) < i_copy_size (scorws w c)" for c
    using family_child(4) [OF assms(2) that(1)] that(2) copied_inside_eq t(8) by (metis memberD option.sel)
  with assms(3) show ?thesis by (auto simp: is_target_def l pc in_range_links [OF t(1)])
qed

text \<open>A block after the end of the parent is in no snapshot, one that is not lies inside the
  parent.\<close>

lemma block_past_end:
  assumes "family w pa" and "i_child_scorw_inode (scorws w pa) j = Some c"
  shows "last_block (int (i_size (file_of w (i_vfs_inode (scorws w pa))))) < blk \<Longrightarrow> \<not> int (blk * PAGE_SIZE) < i_copy_size (scorws w c)"
    "\<not> last_block (int (i_size (file_of w (i_vfs_inode (scorws w pa))))) < blk \<Longrightarrow>
      blk * PAGE_SIZE < i_size (file_of w (i_vfs_inode (scorws w pa)))"
proof -
  define n where "n = i_size (file_of w (i_vfs_inode (scorws w pa)))"
  have m: "0 < i_copy_size (scorws w c)" "i_copy_size (scorws w c) \<le> int n"
    using family_child(4) [OF assms] by (auto simp: member_def Let_def n_def)
  then have n: "0 < n" "n \<le> 2 ^ 43" using familyD(3) [OF assms(1)] by (auto simp: n_def)
  have lb: "last_block (int n) = (n - 1) div PAGE_SIZE" by (rule last_block_pos [OF n])
  have "n \<le> blk * PAGE_SIZE" if "(n - 1) div PAGE_SIZE < blk" using that n(1) by (simp add: div_less_iff_less_mult)
  then show "last_block (int (i_size (file_of w (i_vfs_inode (scorws w pa))))) < blk \<Longrightarrow> \<not> int (blk * PAGE_SIZE) < i_copy_size (scorws w c)"
    using m(2) lb by (auto simp: n_def [symmetric])
  have "blk * PAGE_SIZE < n" if "\<not> (n - 1) div PAGE_SIZE < blk" using that n(1) by (simp add: div_less_iff_less_mult not_less)
  then show "\<not> last_block (int (i_size (file_of w (i_vfs_inode (scorws w pa))))) < blk \<Longrightarrow>
      blk * PAGE_SIZE < i_size (file_of w (i_vfs_inode (scorws w pa)))"
    using lb by (simp add: n_def [symmetric])
qed

lemma saved_no_target:
  assumes "touched (friends w pa) w w1" and "family w pa" and "\<And>j. is_target w pa blk j False"
  shows "saved w w1 pa blk"
proof (rule saved_touched [OF assms(1) _ assms(2)], rule saved_refl)
  show f: "family w1 pa" by (rule family_touched [OF assms(1,2)])
  show "copied (file_of w1 (the (i_frnd_vfs_inode (scorws w1 c)))) blk \<or> find_pc w1 blk (i_vfs_inode (scorws w1 pa)) j \<noteq> None"
    if "in_snapshot w1 pa j c blk" for j c
    using is_target_touched2 [OF assms(1,2) assms(3)] that by (auto simp: is_target_def in_snapshot_def)
qed

text \<open>What the page handed to \<open>scorw_write_par_blocks\<close> has to be.\<close>

definition fresh_page :: "file \<Rightarrow> nat \<Rightarrow> nat \<Rightarrow> page \<Rightarrow> bool \<Rightarrow> bool" where
  "fresh_page f pos len pg up \<longleftrightarrow>
     (if up then cache f (pos div PAGE_SIZE) = Some pg
      else cache f (pos div PAGE_SIZE) = None \<and> (len < PAGE_SIZE \<longrightarrow> disk f (pos div PAGE_SIZE) = Some pg))"

lemma fresh_page_loaded:
  assumes "fresh_page f pos len pg up" and "pos mod PAGE_SIZE + len \<le> PAGE_SIZE"
    and "full = (pos \<le> pos div PAGE_SIZE * PAGE_SIZE \<and> pos div PAGE_SIZE * PAGE_SIZE + PAGE_SIZE \<le> pos + len)"
  shows "if up \<or> \<not> full then view f (pos div PAGE_SIZE) = Some pg else cache f (pos div PAGE_SIZE) = None"
proof -
  define q r where "q = pos div PAGE_SIZE" and "r = pos mod PAGE_SIZE"
  have p: "pos = q * PAGE_SIZE + r" by (simp add: q_def r_def)
  have "full" if "\<not> len < PAGE_SIZE" using that assms(2) unfolding assms(3) q_def [symmetric] r_def [symmetric] by (simp add: p)
  with assms(1) show ?thesis by (auto simp: fresh_page_def view_def split: if_splits)
qed

lemma set_child_slots: "j \<in> set (child_slots s) \<longleftrightarrow> int j \<le> i_last_child_index s"
  by (auto simp: child_slots_def)

text \<open>The search for targets and the page copy for them.\<close>

lemma targets_found:
  assumes "oloop (find_target e (i_vfs_inode (scorws w pa)) pa blk) (child_slots (scorws w pa)) (\<lambda>_. False, w) = Ret (t, w1)"
    and "family w pa" and "\<forall>f. pages_env_ok (fenv e f)"
  shows "touched (friends w pa) w w1" "is_target w pa blk j (int j \<le> i_last_child_index (scorws w pa) \<and> t j)"
proof -
  have "distinct (child_slots (scorws w pa))" by (simp add: child_slots_def)
  note ft = find_targets [OF assms(1) this assms(2,3)]
  then show "touched (friends w pa) w w1" by blast
  show "is_target w pa blk j (int j \<le> i_last_child_index (scorws w pa) \<and> t j)"
  proof (cases "int j \<le> i_last_child_index (scorws w pa)")
    case True
    with ft show ?thesis by (auto simp: child_slots_def)
  next
    case False
    then have "i_child_scorw_inode (scorws w pa) j = None"
      using family_child(2) [OF assms(2), of j] by (cases "i_child_scorw_inode (scorws w pa) j") auto
    with False show ?thesis by (simp add: is_target_def)
  qed
qed

lemma targets_saved:
  assumes "scorw_prepare_page_copy e blk pa (next_addr w1) full (pg, up) t (w1\<lparr>next_addr := next_addr w1 + 1\<rparr>) = Ret w'"
    and "touched (friends w pa) w w1" and "\<And>j. is_target w pa blk j (int j \<le> i_last_child_index (scorws w pa) \<and> t j)"
    and "family w pa" and "blk * PAGE_SIZE < i_size (file_of w (i_vfs_inode (scorws w pa)))"
    and "if up \<or> \<not> full then view (file_of w (i_vfs_inode (scorws w pa))) blk = Some pg else cache (file_of w (i_vfs_inode (scorws w pa))) blk = None"
  shows "saved w w' pa blk"
proof -
  note t1 = touchedD [OF assms(2)]
  note l = links_eqD [OF t1(1)]
  have f1: "family w1 pa" by (rule family_touched [OF assms(2,4)])
  have p1: "file_of w1 (i_vfs_inode (scorws w pa)) = file_of w (i_vfs_inode (scorws w pa))"
    by (rule t1(7) [OF family_friends(1) [OF assms(4)]])
  have add: "pc_added w1 w' pa (next_addr w1) blk (up \<or> \<not> full) pg (\<lambda>j. int j \<le> i_last_child_index (scorws w pa) \<and> t j)"
    using prepare_page_copy_effect [OF assms(1)] familyD(4) [OF f1] by (simp add: pc_added_def queue_ok_def l)
  have "saved w1 w' pa blk"
    using saved_added [OF add f1 is_target_touched2 [OF assms(2,4,3)]] assms(5,6) by (simp only: l p1)
  from saved_touched [OF assms(2) this assms(4)] show ?thesis .
qed

lemma write_par_blocks_unfold:
  assumes "family w pa" and "0 < len" and "pos + len \<le> 2 ^ 43" and "blk = pos div PAGE_SIZE"
  shows "scorw_write_par_blocks e (i_vfs_inode (scorws w pa)) pos len (pg, up) w =
    (if last_block (int (i_size (file_of w (i_vfs_inode (scorws w pa))))) < blk then Ret w
     else obind (oloop (find_target e (i_vfs_inode (scorws w pa)) pa blk) (child_slots (scorws w pa)) (\<lambda>_. False, w)) (\<lambda>(t, w1).
       if \<not> (\<exists>j\<in>set (child_slots (scorws w pa)). t j) then Ret w1 else if \<not> mem_ok e then Oops
       else scorw_prepare_page_copy e blk pa (next_addr w1) (pos \<le> blk * PAGE_SIZE \<and> blk * PAGE_SIZE + PAGE_SIZE \<le> pos + len)
              (pg, up) t (w1\<lparr>next_addr := next_addr w1 + 1\<rparr>)))"
proof -
  have "blk < 2 ^ 32" using assms(3) unfolding assms(4) by (intro less_mult_imp_div_less) simp
  then have m: "blk mod 4294967296 = blk" by simp
  have fi: "scorw_find_inode w (i_vfs_inode (scorws w pa)) = Some pa" using familyD(2) [OF assms(1)] by (simp add: scorw_find_inode_def)
  show ?thesis using assms(2) by (simp add: scorw_write_par_blocks_def Let_def assms(4) [symmetric] m fi)
qed

lemma write_par_blocks_saved:
  assumes "scorw_write_par_blocks e (i_vfs_inode (scorws w pa)) pos len (pg, up) w = Ret w'"
    and "family w pa" and "\<forall>f. pages_env_ok (fenv e f)" and "0 < len" and "pos mod PAGE_SIZE + len \<le> PAGE_SIZE"
    and "pos + len \<le> 2 ^ 43" and "fresh_page (file_of w (i_vfs_inode (scorws w pa))) pos len pg up"
  shows "saved w w' pa (pos div PAGE_SIZE)"
proof -
  let ?p = "i_vfs_inode (scorws w pa)"
  define blk where "blk = pos div PAGE_SIZE"
  let ?full = "pos \<le> blk * PAGE_SIZE \<and> blk * PAGE_SIZE + PAGE_SIZE \<le> pos + len"
  note run = write_par_blocks_unfold [OF assms(2,4,6) blk_def, of e pg up, symmetric, unfolded assms(1)]
  have "saved w w' pa blk"
  proof (cases "last_block (int (i_size (file_of w ?p))) < blk")
    case True
    moreover have "\<not> in_snapshot w pa j c blk" for j c
      using block_past_end(1) [OF assms(2) _ True, of j c] by (auto simp: in_snapshot_def)
    ultimately show ?thesis using run saved_refl [OF assms(2), of blk] by auto
  next
    case False
    then obtain t w1 where t: "oloop (find_target e ?p pa blk) (child_slots (scorws w pa)) (\<lambda>_. False, w) = Ret (t, w1)"
      using run by (auto simp: obind_Ret_iff)
    note tf = targets_found [OF t assms(2,3)]
    show ?thesis
    proof (cases "\<exists>j\<in>set (child_slots (scorws w pa)). t j")
      case no: False
      have "\<not> (int j \<le> i_last_child_index (scorws w pa) \<and> t j)" for j using no by (auto simp: child_slots_def)
      with tf(2) have "is_target w pa blk j False" for j by metis
      with no run t False show ?thesis using saved_no_target [OF tf(1) assms(2)] by auto
    next
      case True
      then obtain j0 where "int j0 \<le> i_last_child_index (scorws w pa) \<and> t j0" by (auto simp: set_child_slots)
      with tf(2) [of j0] obtain c0 where c0: "i_child_scorw_inode (scorws w pa) j0 = Some c0" by (auto simp: is_target_def)
      show ?thesis
      proof (rule targets_saved [OF _ tf assms(2) block_past_end(2) [OF assms(2) c0 False]])
        show "scorw_prepare_page_copy e blk pa (next_addr w1) ?full (pg, up) t (w1\<lparr>next_addr := next_addr w1 + 1\<rparr>) = Ret w'"
          using run True False t by (auto split: if_splits)
        show "if up \<or> \<not> ?full then view (file_of w ?p) blk = Some pg else cache (file_of w ?p) blk = None"
          unfolding blk_def by (rule fresh_page_loaded [OF assms(7,5) refl])
      qed
    qed
  qed
  then show ?thesis by (simp only: blk_def)
qed

text \<open>One turn of the write loop on a parent: what a child keeps of the parent stays as it
  was, and so does the family.\<close>

definition keeps :: "addr \<Rightarrow> world \<Rightarrow> world \<Rightarrow> bool" where
  "keeps pa w w' \<longleftrightarrow> family w' pa \<and> (\<forall>a. links (scorws w' a) = links (scorws w a)) \<and>
     (\<forall>j c b. in_snapshot w pa j c b \<longrightarrow> snapshot w' c b = snapshot w c b)"

lemma keeps_trans: "keeps pa w u \<Longrightarrow> keeps pa u w' \<Longrightarrow> keeps pa w w'"
  unfolding keeps_def using in_snapshot_links [of u w pa] by simp

lemma keeps_refl: "family w pa \<Longrightarrow> keeps pa w w"
  by (simp add: keeps_def)

lemma keeps_touched: "touched (friends w pa) w w' \<Longrightarrow> family w pa \<Longrightarrow> keeps pa w w'"
  using saved_touched [of w pa w' w'] saved_refl
proof -
  assume t: "touched (friends w pa) w w'" and f: "family w pa"
  have "snapshot w' c b = snapshot w c b" if "in_snapshot w pa j c b" for j c b
  proof -
    have c: "i_child_scorw_inode (scorws w pa) j = Some c" "int (b * PAGE_SIZE) < i_copy_size (scorws w c)"
      using that by (simp_all add: in_snapshot_def)
    show ?thesis
      by (rule snapshot_touched [OF t family_child(4) [OF f c(1)] c(2) family_friends(1) [OF f] family_friends(2) [OF f c(1)]])
  qed
  then show "keeps pa w w'" using family_touched [OF t f] touchedD(1) [OF t] by (simp add: keeps_def)
qed

lemma keeps_saved: "saved w w' pa blk \<Longrightarrow> keeps pa w w'"
  by (simp add: saved_def keeps_def)

lemma keeps_filled:
  assumes "saved w u pa (pos div PAGE_SIZE)" and "pos + got \<le> 2 ^ 43"
  shows "keeps pa w (fill_page (i_vfs_inode (scorws w pa)) pos p bs got u)"
proof (cases "got = 0")
  case True
  with keeps_saved [OF assms(1)] show ?thesis by (simp add: fill_page_def)
next
  case False
  let ?w = "fill_page (i_vfs_inode (scorws w pa)) pos p bs got u"
  have f: "family u pa" and l: "\<And>a. links (scorws u a) = links (scorws w a)" using assms(1) by (simp_all add: saved_def)
  have w: "?w = set_file (i_vfs_inode (scorws u pa)) (write_end (file_of u (i_vfs_inode (scorws u pa))) (pos div PAGE_SIZE) pos got
      (memcpy_page p (pos mod PAGE_SIZE) (take got bs))) u"
    using False by (simp add: fill_page_def links_eqD [OF l])
  have "snapshot ?w c b = snapshot u c b" if s: "in_snapshot w pa j c b" for j c b
  proof (rule snapshot_parent_written [OF f _ _ w, where j = j])
    show "i_child_scorw_inode (scorws u pa) j = Some c" "int (b * PAGE_SIZE) < i_copy_size (scorws u c)"
      using s by (simp_all add: in_snapshot_def links_eqD [OF l])
    show "b \<noteq> pos div PAGE_SIZE \<or> copied (file_of u (the (i_frnd_vfs_inode (scorws u c)))) b \<or> find_pc u b (i_vfs_inode (scorws u pa)) j \<noteq> None"
      using s assms(1) by (auto simp: saved_def links_eqD [OF l])
  qed
  moreover have "family ?w pa" by (rule family_parent_written [OF f assms(2) w])
  moreover have "scorws ?w = scorws u" using w by simp
  ultimately show ?thesis using keeps_saved [OF assms(1)] l by (simp add: keeps_def)
qed

lemma fresh_page_begin:
  assumes "write_begin e junk f pos len = Some p"
  shows "fresh_page f pos len p (cache f (pos div PAGE_SIZE) \<noteq> None)"
  using assms by (auto simp: write_begin_def fresh_page_def split: if_splits option.splits)

lemma write_page_keeps:
  assumes "write_page e True (i_vfs_inode (scorws w pa)) pos bs k w = Ret (st, w')" and "family w pa"
    and "\<forall>f. pages_env_ok (fenv e f)" and "bs \<noteq> []" and "k \<le> length bs" and "pos mod PAGE_SIZE + length bs \<le> PAGE_SIZE"
    and "pos + length bs \<le> 2 ^ 43"
  shows "keeps pa w w'"
proof -
  let ?p = "i_vfs_inode (scorws w pa)"
  have fi: "scorw_find_inode w ?p = Some pa" using familyD(2) [OF assms(2)] by (simp add: scorw_find_inode_def)
  obtain held w1 where b: "scorw_read_barrier_begin e pa 0 (\<lambda>_. False) w = Ret (held, w1)"
    using assms(1) fi by (auto simp: write_page_def write_par_begin_def obind_Ret_iff)
  note t1 = touched_barrier_begin [OF b]
  have p1: "file_of w1 ?p = file_of w ?p" by (rule touchedD(7) [OF t1 [of "{}"]]) simp
  have l1: "\<And>a. links (scorws w1 a) = links (scorws w a)" by (rule touchedD(1) [OF t1])
  have vi: "i_vfs_inode (scorws w1 pa) = ?p" by (rule links_eqD(2) [OF l1])
  have k1: "keeps pa w w1" by (rule keeps_touched [OF t1 assms(2)])
  then have f1: "family w1 pa" by (simp add: keeps_def)
  have ed: "end_res (fenv e ?p) (pos div PAGE_SIZE) = End_Done" using assms(3) pages_env_okD(3) by blast
  define up where "up = (cache (file_of w1 ?p) (pos div PAGE_SIZE) \<noteq> None)"
  define got where "got = copied_in up (length bs) k"
  show ?thesis
  proof (cases "write_begin (fenv e ?p) (junk_page e) (file_of w1 ?p) pos (length bs)")
    case None
    with assms(1) b fi k1 show ?thesis by (auto simp: write_page_def write_par_begin_def)
  next
    case (Some p)
    obtain w2 w3 where w2: "scorw_write_par_blocks e ?p pos (length bs) (p, up) w1 = Ret w2"
      and w3: "write_par_end ?p pos (Some held) (fill_page ?p pos p bs got w2) = Ret w'"
      using assms(1) b fi Some by (auto simp: write_page_def write_par_begin_def obind_Ret_iff up_def got_def Let_def end_page_done [OF ed])
    have sv: "saved w1 w2 pa (pos div PAGE_SIZE)"
      using write_par_blocks_saved [OF _ f1 assms(3), of pos "length bs" p up w2] w2 vi assms(4,6,7) fresh_page_begin [OF Some]
      by (simp add: up_def)
    have "got \<le> length bs" using assms(5) by (simp add: got_def copied_in_def)
    then have k2: "keeps pa w1 (fill_page ?p pos p bs got w2)" using keeps_filled [OF sv] vi assms(7) by simp
    have "touched (friends (fill_page ?p pos p bs got w2) pa) (fill_page ?p pos p bs got w2) w'"
      using w3 by (auto simp: write_par_end_def touched_barrier_end split: option.splits)
    with k2 have "keeps pa (fill_page ?p pos p bs got w2) w'" using keeps_touched by (simp add: keeps_def)
    with k1 k2 show ?thesis using keeps_trans by blast
  qed
qed

end
