(* ===== verification/Snapshot_Runs.thy ===== *)
theory Snapshot_Runs
  imports Snapshot
begin

text \<open>
  Whole writes to a parent and the page copy thread keep what the children promise;
  so does every sequence of them.
\<close>

section \<open>Writes of any length\<close>

lemma keepsD:
  assumes "keeps pa w w'"
  shows "family w' pa" "links (scorws w' a) = links (scorws w a)"
    "in_snapshot w pa j c b \<Longrightarrow> snapshot w' c b = snapshot w c b"
  using assms by (auto simp: keeps_def)

lemma write_page_keeps_any:
  assumes "write_page e True (i_vfs_inode (scorws w pa)) pos bs k w = Ret (st, w')" and "family w pa"
    and "\<forall>f. pages_env_ok (fenv e f)" and "k \<le> length bs" and "pos mod PAGE_SIZE + length bs \<le> PAGE_SIZE"
    and "pos + length bs \<le> 2 ^ 43"
  shows "keeps pa w w'"
proof (cases "bs = []")
  case True
  let ?p = "i_vfs_inode (scorws w pa)"
  have fi: "scorw_find_inode w ?p = Some pa" using familyD(2) [OF assms(2)] by (simp add: scorw_find_inode_def)
  have k: "k = 0" using True assms(4) by simp
  have ed: "end_res (fenv e ?p) (pos div PAGE_SIZE) = End_Done" using assms(3) pages_env_okD(3) by blast
  obtain held w1 where b: "scorw_read_barrier_begin e pa 0 (\<lambda>_. False) w = Ret (held, w1)"
    using assms(1) fi by (auto simp: write_page_def write_par_begin_def obind_Ret_iff)
  have k1: "keeps pa w w1" by (rule keeps_touched [OF touched_barrier_begin [OF b] assms(2)])
  have "w' = w1 \<or> (\<exists>h x. w' = scorw_read_barrier_end x 0 h w1)"
    using assms(1) b fi True k
    by (auto simp: write_page_def write_par_begin_def obind_Ret_iff Let_def scorw_write_par_blocks_def fill_page_def
        copied_in_def write_par_end_def end_page_done [OF ed] split: option.splits)
  then have "touched (friends w1 pa) w1 w'" by (auto simp: touched_barrier_end)
  with k1 have "keeps pa w1 w'" using keeps_touched by (simp add: keeps_def)
  with k1 show ?thesis by (rule keeps_trans)
qed (rule write_page_keeps [OF assms(1-3) _ assms(4-6)])

lemma write_page_result:
  assumes "write_page e wp i pos bs k w = Ret (st, w')"
  shows "st = begin_error e \<or> (\<exists>p u v. st = fst (end_page e i pos p u bs k v))"
proof -
  obtain held w1 where w1: "(if wp then write_par_begin e i pos w else Ret (None, w)) = Ret (held, w1)"
    using assms by (auto simp: write_page_def obind_Ret_iff simp del: not_None_eq)
  let ?up = "cache (file_of w1 i) (pos div PAGE_SIZE) \<noteq> None"
  show ?thesis
  proof (cases "write_begin (fenv e i) (junk_page e) (file_of w1 i) pos (length bs)")
    case None
    with assms w1 show ?thesis by (simp add: write_page_def Let_def)
  next
    case (Some p)
    then obtain w2 where "obind (write_par_end i pos held (snd (end_page e i pos p ?up bs k w2))) (\<lambda>w4. Ret (fst (end_page e i pos p ?up bs k w2), w4)) = Ret (st, w')"
      using assms w1 by (auto simp: write_page_def Let_def obind_Ret_iff case_prod_beta simp del: not_None_eq)
    then show ?thesis by (auto simp: obind_Ret_iff)
  qed
qed

lemma end_page_status:
  "fst (end_page e i pos p u bs k w) \<in> {int (copied_in u (length bs) k), - EIO} \<or>
   end_res (fenv e i) (pos div PAGE_SIZE) = End_Journal (fst (end_page e i pos p u bs k w))"
  by (simp add: end_page_def Let_def split: end_result.split)

lemma write_page_status:
  assumes "write_page e wp i pos bs k w = Ret (st, w')" and "0 \<le> st" and "begin_error e < 0"
    and "\<And>n err. end_res (fenv e i) n = End_Journal err \<Longrightarrow> err < 0"
  shows "nat st \<le> k"
proof -
  obtain p u v where st: "st = fst (end_page e i pos p u bs k v)" using write_page_result [OF assms(1)] assms(2,3) by auto
  have "st = int (copied_in u (length bs) k)" using end_page_status [of e i pos p u bs k v, folded st] assms(2,4) by force
  then show ?thesis by (simp add: copied_in_def)
qed

lemma write_loop_keeps:
  assumes "write_loop e True seg (i_vfs_inode (scorws w pa)) turns bytes pos bs written w = Ret (r, w')" and "family w pa"
    and "\<forall>f. pages_env_ok (fenv e f)" and "\<And>n. seg n \<le> n" and "begin_error e < 0"
    and "bytes \<le> length bs" and "pos mod PAGE_SIZE + bytes \<le> PAGE_SIZE" and "pos + length bs \<le> 2 ^ 43"
  shows "keeps pa w w'"
  using assms(1,2,6-)
proof (induction turns arbitrary: bytes pos bs written w)
  case (Cons t turns)
  obtain fatal k where t: "t = (fatal, k)" by (cases t)
  show ?case
  proof (cases fatal)
    case True
    with Cons.prems t show ?thesis by (auto intro: keeps_refl)
  next
    case False
    let ?m = "min k bytes"
    let ?rest = "drop ?m bs"
    obtain st w1 where st: "write_page e True (i_vfs_inode (scorws w pa)) pos (take bytes bs) ?m w = Ret (st, w1)"
      using Cons.prems(1) t False by (auto simp: obind_Ret_iff)
    have k1: "keeps pa w w1"
      by (rule write_page_keeps_any [OF st Cons.prems(2) assms(3)]) (use Cons.prems in auto)
    note f1 = keepsD(1) [OF k1] and vi = links_eqD(2) [OF keepsD(2) [OF k1], of pa]
    have n: "0 \<le> st \<Longrightarrow> nat st \<le> ?m" by (rule write_page_status [OF st _ assms(5)]) (use assms(3) pages_env_okD(3) in simp_all)
    have again: "keeps pa w w'" if "write_loop e True seg (i_vfs_inode (scorws w1 pa)) turns b q ?rest x w1 = Ret (r, w')"
      "b \<le> length ?rest" "q mod PAGE_SIZE + b \<le> PAGE_SIZE" "q + length ?rest \<le> 2 ^ 43" for b q x
      using keeps_trans [OF k1 Cons.IH [OF that(1) f1 that(2-4)]] .
    have lt: "q mod PAGE_SIZE < PAGE_SIZE" for q by simp
    consider "st < 0" | "st = 0" | "0 < st" "?rest = []" | "0 < st" "?rest \<noteq> []" by linarith
    then show ?thesis
    proof cases
      case 2
      show ?thesis
        by (rule again [of "min (PAGE_SIZE - pos mod PAGE_SIZE) (seg (length ?rest))" pos])
          (use 2 Cons.prems(1,5) t False st vi assms(4) [of "length ?rest"] lt [of pos] in \<open>auto simp: min_def\<close>)
    next
      case 4
      show ?thesis
        by (rule again [of "min (PAGE_SIZE - (pos + nat st) mod PAGE_SIZE) (length ?rest)" "pos + nat st"])
          (use 4 Cons.prems(1,3,5) n t False st vi lt [of "pos + nat st"] in \<open>auto simp: Let_def min_def\<close>)
    qed (use Cons.prems(1) t False st k1 in \<open>auto simp: Let_def\<close>)
  qed
qed simp

section \<open>The page copy thread\<close>

text \<open>A change to the file of a child or to its friend file concerns this child only.\<close>

lemma keeps_member_file:
  assumes "family w pa" and "i_child_scorw_inode (scorws w pa) j = Some c" and "i \<in> inos (scorws w c)"
    and "w' = set_file i g w" and "member w' (i_vfs_inode (scorws w pa)) j c"
    and "\<And>b. in_snapshot w pa j c b \<Longrightarrow> snapshot w' c b = snapshot w c b"
  shows "keeps pa w w'"
proof -
  let ?p = "i_vfs_inode (scorws w pa)"
  obtain f where m: "i_vfs_inode (scorws w c) \<noteq> ?p" "i_frnd_vfs_inode (scorws w c) = Some f" "f \<noteq> ?p"
    using family_child(4) [OF assms(1,2)] by (rule memberD)
  have ip: "i \<noteq> ?p" using assms(3) m by (auto simp: inos_def)
  have other: "i \<notin> inos (scorws w d)" if "i_child_scorw_inode (scorws w pa) k = Some d" "k \<noteq> j" for k d
    using family_disjoint(2) [OF assms(1) that(1) assms(2) that(2)] assms(3) by blast
  have mem: "member w' ?p k d" if d: "i_child_scorw_inode (scorws w pa) k = Some d" for k d
  proof (cases "k = j")
    case False
    with other [OF d] family_child(4) [OF assms(1) d] ip show ?thesis
      by (auto simp: member_def Let_def assms(4) inos_def)
  qed (use d assms(2,5) in simp)
  have "queue_ok w' pa" using familyD(4) [OF assms(1)] ip by (simp add: queue_ok_def assms(4))
  then have fam: "family w' pa" using assms(1) mem ip by (simp add: family_def Let_def assms(4))
  have "snapshot w' d b = snapshot w d b" if s: "in_snapshot w pa k d b" for k d b
  proof (cases "k = j")
    case False
    have d: "i_child_scorw_inode (scorws w pa) k = Some d" using s by (simp add: in_snapshot_def)
    have par: "i_par_vfs_inode (scorws w d) = Some ?p" using family_child(4) [OF assms(1) d] by (simp add: member_def Let_def)
    have "find_pc w' b q l = find_pc w b q l" for q l by (rule find_pc_cong) (simp_all add: assms(4))
    moreover have "pc_page w' ?p pc = pc_page w ?p pc" for pc using ip by (simp add: pc_page_def Let_def assms(4))
    ultimately show ?thesis using other [OF d False] par ip
      by (simp add: snapshot_def child_page_def Let_def assms(4) inos_def split: option.splits)
  qed (use s assms(2,6) in \<open>simp add: in_snapshot_def\<close>)
  with fam show ?thesis by (simp add: keeps_def assms(4))
qed

lemma snapshot_child_changed:
  assumes "family w pa" and "i_child_scorw_inode (scorws w pa) j = Some c" and "w' = set_file (i_vfs_inode (scorws w c)) g w"
  shows "snapshot w' c b =
    (if copied (file_of w (the (i_frnd_vfs_inode (scorws w c)))) b
     then map_option (\<lambda>p. cut_page p (page_copy_len (i_copy_size (scorws w c)) b)) (view g b) else snapshot w c b)"
proof -
  let ?p = "i_vfs_inode (scorws w pa)"
  obtain f where m: "i_par_vfs_inode (scorws w c) = Some ?p" "i_vfs_inode (scorws w c) \<noteq> ?p" "i_frnd_vfs_inode (scorws w c) = Some f"
    "f \<noteq> i_vfs_inode (scorws w c)" using family_child(4) [OF assms(1,2)] by (rule memberD)
  have "find_pc w' b q l = find_pc w b q l" for q l by (rule find_pc_cong) (simp_all add: assms(3))
  moreover have "pc_page w' ?p pc = pc_page w ?p pc" for pc using m by (simp add: pc_page_def Let_def assms(3))
  ultimately show ?thesis using m by (simp add: snapshot_def child_page_def Let_def assms(3) split: option.splits)
qed

text \<open>A block that is not marked as copied may be written to the child.\<close>

lemma keeps_child_written:
  assumes "family w pa" and "i_child_scorw_inode (scorws w pa) j = Some c"
    and "\<not> copied (file_of w (the (i_frnd_vfs_inode (scorws w c)))) blk"
    and "w' = set_file (i_vfs_inode (scorws w c)) (write_end (file_of w (i_vfs_inode (scorws w c))) blk pos n q) w"
  shows "keeps pa w w'"
proof (rule keeps_member_file [OF assms(1,2) _ assms(4)])
  show "i_vfs_inode (scorws w c) \<in> inos (scorws w c)" by (simp add: inos_def)
  show "member w' (i_vfs_inode (scorws w pa)) j c"
    using family_child(4) [OF assms(1,2)] by (auto simp: member_def Let_def assms(4))
  show "snapshot w' c b = snapshot w c b" for b
  proof (cases "b = blk")
    case False
    then show ?thesis unfolding snapshot_child_changed [OF assms(1,2,4)] by (simp add: snapshot_def child_page_def Let_def)
  qed (use assms(3) snapshot_child_changed [OF assms(1,2,4)] in simp)
qed

text \<open>A block may be marked as copied once the child has the contents of the snapshot.\<close>

lemma keeps_marked:
  assumes "family w pa" and "i_child_scorw_inode (scorws w pa) j = Some c" and "i_frnd_vfs_inode (scorws w c) = Some f"
    and "w' = set_file f g w" and "friend_covers g (i_copy_size (scorws w c))"
    and "\<And>b. copied g b \<longleftrightarrow> b = blk \<or> copied (file_of w f) b"
    and "map_option (\<lambda>p. cut_page p (page_copy_len (i_copy_size (scorws w c)) blk)) (view (file_of w (i_vfs_inode (scorws w c))) blk) = snapshot w c blk"
  shows "keeps pa w w'"
proof (rule keeps_member_file [OF assms(1,2) _ assms(4)])
  let ?p = "i_vfs_inode (scorws w pa)"
  have m: "i_par_vfs_inode (scorws w c) = Some ?p" "f \<noteq> i_vfs_inode (scorws w c)" "f \<noteq> ?p"
    using family_child(4) [OF assms(1,2)] assms(3) by (auto simp: member_def Let_def)
  show "f \<in> inos (scorws w c)" using assms(3) by (simp add: inos_def)
  show "member w' ?p j c"
    using family_child(4) [OF assms(1,2)] assms(3,5) m by (auto simp: member_def Let_def assms(4))
  have pc: "find_pc w' b q l = find_pc w b q l" for b q l by (rule find_pc_cong) (simp_all add: assms(4))
  have pg: "pc_page w' ?p pc = pc_page w ?p pc" for pc using m by (simp add: pc_page_def Let_def assms(4))
  show "snapshot w' c b = snapshot w c b" for b
  proof (cases "b = blk")
    case True
    then show ?thesis using assms(7) assms(3,6) m by (simp add: snapshot_def child_page_def Let_def assms(4))
  next
    case False
    then show ?thesis using assms(3,6) m pc pg by (simp add: snapshot_def child_page_def Let_def assms(4) split: option.splits)
  qed
qed

text \<open>What holds between the steps of the thread: the queue stays, and so do the marks.\<close>

definition has_block :: "world \<Rightarrow> addr \<Rightarrow> nat \<Rightarrow> bool" where
  "has_block w c b \<longleftrightarrow> copied (file_of w (the (i_frnd_vfs_inode (scorws w c)))) b"

definition same_queue :: "world \<Rightarrow> world \<Rightarrow> bool" where
  "same_queue w w' \<longleftrightarrow> page_copy_llist w' = page_copy_llist w \<and> page_copy_hlist w' = page_copy_hlist w \<and>
     (\<forall>a. block_num (page_copies w' a) = block_num (page_copies w a) \<and> pc_par (page_copies w' a) = pc_par (page_copies w a) \<and>
        is_target_child (page_copies w' a) = is_target_child (page_copies w a))"

lemma queue_ok_same_queue:
  assumes "same_queue w w'" and "queue_ok w pa" and "scorws w' = scorws w" and "inodes w' = inodes w" and "next_addr w' = next_addr w"
  shows "queue_ok w' pa"
proof -
  have eq: "page_copy_llist w' = page_copy_llist w" "page_copy_hlist w' = page_copy_hlist w"
    "\<And>a. block_num (page_copies w' a) = block_num (page_copies w a)" "\<And>a. pc_par (page_copies w' a) = pc_par (page_copies w a)"
    "\<And>a. is_target_child (page_copies w' a) = is_target_child (page_copies w a)"
    using assms(1) by (simp_all add: same_queue_def)
  show ?thesis using assms(2) unfolding queue_ok_def eq assms(3-5) .
qed

definition advance :: "addr \<Rightarrow> world \<Rightarrow> world \<Rightarrow> bool" where
  "advance pa w w' \<longleftrightarrow> keeps pa w w' \<and> same_queue w w' \<and>
     (\<forall>j c b. i_child_scorw_inode (scorws w pa) j = Some c \<and> int (b * PAGE_SIZE) < i_copy_size (scorws w c) \<and> has_block w c b \<longrightarrow>
        has_block w' c b)"

lemma advanceD:
  assumes "advance pa w w'"
  shows "keeps pa w w'" "page_copy_llist w' = page_copy_llist w" "block_num (page_copies w' a) = block_num (page_copies w a)"
    "pc_par (page_copies w' a) = pc_par (page_copies w a)" "is_target_child (page_copies w' a) = is_target_child (page_copies w a)"
    "i_child_scorw_inode (scorws w pa) j = Some c \<Longrightarrow> int (b * PAGE_SIZE) < i_copy_size (scorws w c) \<Longrightarrow> has_block w c b \<Longrightarrow> has_block w' c b"
    "page_copy_hlist w' = page_copy_hlist w"
  using assms by (auto simp: advance_def same_queue_def)

lemma advance_trans: "advance pa w u \<Longrightarrow> advance pa u w' \<Longrightarrow> advance pa w w'"
proof -
  assume 1: "advance pa w u" and 2: "advance pa u w'"
  note l = links_eqD [OF keepsD(2) [OF advanceD(1) [OF 1]]]
  from 1 2 show ?thesis unfolding advance_def same_queue_def l using keeps_trans by auto
qed

lemma has_block_touched:
  assumes "touched F w w'" and "member w p j c" and "int (b * PAGE_SIZE) < i_copy_size (scorws w c)"
  shows "has_block w' c b = has_block w c b"
proof -
  note t = touchedD [OF assms(1)]
  note l = links_eqD [OF t(1)]
  obtain f where "i_frnd_vfs_inode (scorws w c) = Some f" "friend_covers (file_of w f) (i_copy_size (scorws w c))"
    using assms(2) by (rule memberD)
  with copied_inside_eq [OF _ assms(3) t(8)] show ?thesis by (simp add: has_block_def l)
qed

lemma advance_touched:
  assumes "touched (friends w pa) w w'" and "family w pa"
  shows "advance pa w w'"
proof -
  have "has_block w' c b" if "i_child_scorw_inode (scorws w pa) j = Some c" "int (b * PAGE_SIZE) < i_copy_size (scorws w c)" "has_block w c b" for j c b
    using has_block_touched [OF assms(1) family_child(4) [OF assms(2) that(1)] that(2)] that(3) by simp
  then show ?thesis using keeps_touched [OF assms] by (auto simp: advance_def same_queue_def touchedD(2-4) [OF assms(1)])
qed

lemma advance_refl: "family w pa \<Longrightarrow> advance pa w w"
  by (simp add: advance_touched)

lemma touched_version_cnt_inc: "scorw_child_version_cnt_inc e i w = Ret w' \<Longrightarrow> touched F w w'"
  by (auto simp: scorw_child_version_cnt_inc_def touched_def scorw_add_wait_for_commit_list_def Let_def split: if_splits option.splits)

text \<open>The page copy the thread works on is the one its targets wait for.\<close>

lemma find_pc_queued:
  assumes "family w pa" and "pc \<in> set (page_copy_llist w)" and "pc_par (page_copies w pc) = pa" and "is_target_child (page_copies w pc) j"
  shows "find_pc w (block_num (page_copies w pc)) (i_vfs_inode (scorws w pa)) j = Some pc"
proof -
  let ?P = "pc_matches w (block_num (page_copies w pc)) (i_vfs_inode (scorws w pa)) j"
  note q = familyD(4) [OF assms(1)]
  have "?P pc" using assms(3,4) familyD(1) [OF assms(1)] by (simp add: pc_matches_def)
  then obtain x where x: "find ?P (rev (page_copy_llist w)) = Some x" using assms(2) by (cases "find ?P (rev (page_copy_llist w))") (auto simp: find_None_iff)
  have m: "x \<in> set (page_copy_llist w)" "?P x" using find_SomeD [OF x] by auto
  have ino: "pc_par (page_copies w x) = pa \<longleftrightarrow> i_ino_num (scorws w (pc_par (page_copies w x))) = i_ino_num (scorws w pa)"
    using q m(1) unfolding queue_ok_def by blast
  then have px: "pc_par (page_copies w x) = pa" using m(2) familyD(1) [OF assms(1)] by (simp add: pc_matches_def Let_def)
  have "x = pc" by (rule queue_unique [OF q m(1) assms(2) px assms(3) _ _ assms(4)]) (use m(2) in \<open>simp_all add: pc_matches_def Let_def\<close>)
  with x find_pc_rev [OF q] show ?thesis by simp
qed

lemma load_page_copy_advance:
  assumes "load_page_copy e pc (i_vfs_inode (scorws w pa)) w = Ret w'" and "family w pa"
  shows "advance pa w w' \<and> data_page (page_copies w' pc) = pc_page w (i_vfs_inode (scorws w pa)) pc \<and> inodes w' = inodes w \<and> scorws w' = scorws w"
proof (cases "data_page_loaded (page_copies w pc)")
  case True
  with assms show ?thesis by (auto simp: load_page_copy_def pc_page_def Let_def advance_refl)
next
  case False
  let ?p = "i_vfs_inode (scorws w pa)"
  from assms(1) False obtain pg where pg: "pc_page w ?p pc = Some pg"
    and w': "w' = upd_pc pc (\<lambda>c. c\<lparr>data_page := Some pg, data_page_loaded := True\<rparr>) w"
    by (auto simp: load_page_copy_def pc_page_def Let_def split: if_splits option.splits)
  have sq: "same_queue w w'" by (simp add: same_queue_def w')
  have pp: "pc_page w' ?p a = pc_page w ?p a" for a
    using pg by (cases "a = pc") (simp_all add: pc_page_def Let_def w')
  have fp: "find_pc w' b q l = find_pc w b q l" for b q l
  proof -
    have "pc_matches w' = pc_matches w" by (intro ext) (simp add: pc_matches_def Let_def w')
    then show ?thesis by (simp add: find_pc_def w')
  qed
  have "snapshot w' c b = snapshot w c b" if "in_snapshot w pa j c b" for j c b
  proof -
    have "i_par_vfs_inode (scorws w c) = Some ?p"
      using that family_child(4) [OF assms(2)] by (auto simp: in_snapshot_def member_def Let_def)
    then show ?thesis using fp pp by (simp add: snapshot_def child_page_def Let_def w' split: option.splits)
  qed
  moreover have "queue_ok w' pa" by (rule queue_ok_same_queue [OF sq familyD(4) [OF assms(2)]]) (simp_all add: w')
  then have "family w' pa" using assms(2) by (simp add: family_def Let_def member_def w')
  ultimately show ?thesis using sq pg by (simp add: advance_def keeps_def w' has_block_def)
qed

lemma cut_page_twice [simp]: "cut_page (cut_page p n) n = cut_page p n"
  by (auto simp: cut_page_def)

lemma pc_copy_len_small:
  assumes "int (blk * PAGE_SIZE) < csize" and "csize \<le> 2 ^ 32"
  shows "pc_copy_len csize blk = page_copy_len csize blk" "0 < page_copy_len csize blk" "page_copy_len csize blk \<le> PAGE_SIZE"
proof -
  define off where "off = blk * PAGE_SIZE"
  have o: "int off < csize" "off < 2 ^ 32" using assms by (simp_all add: off_def)
  have "off mod 2 ^ 32 = off" using o(2) by (rule mod_less)
  then show "pc_copy_len csize blk = page_copy_len csize blk" by (simp only: pc_copy_len_def page_copy_len_def off_def [symmetric])
  have "(csize - int off) mod 2 ^ 64 = csize - int off" using o(1) assms(2) by (intro mod_pos_pos_trivial) auto
  then have "copy_len csize off = (if PAGE_SIZE \<le> nat (csize - int off) then PAGE_SIZE else nat (csize - int off))"
    by (simp only: copy_len_def Let_def)
  then show "0 < page_copy_len csize blk" "page_copy_len csize blk \<le> PAGE_SIZE"
    using o(1) by (auto simp: page_copy_len_def off_def [symmetric])
qed

lemma write_copy_effect:
  assumes "pages_env_ok (fenv e c)" and "disk (file_of w c) blk \<noteq> None"
  shows "write_copy e c blk len p w =
    (0, set_file c (write_end (file_of w c) blk (blk * PAGE_SIZE) len (cut_page p len)) w)"
  using assms pages_env_okD(2) [OF assms(1)] by (auto simp: write_copy_def write_begin_def split: option.splits)

text \<open>One target gets its block.\<close>

lemma copy_from_page_copy:
  assumes "scorw_copy_page_from_page_copy e pc c w = Ret (ret, w')" and "family w pa" and "\<forall>f. pages_env_ok (fenv e f)"
    and "i_child_scorw_inode (scorws w pa) j = Some c" and "pc \<in> set (page_copy_llist w)" and "pc_par (page_copies w pc) = pa"
    and "is_target_child (page_copies w pc) j" and "int (block_num (page_copies w pc) * PAGE_SIZE) < i_copy_size (scorws w c)"
    and "\<not> has_block w c (block_num (page_copies w pc))"
  shows "ret = 0 \<and> advance pa w w' \<and> map_option (\<lambda>p. cut_page p (page_copy_len (i_copy_size (scorws w' c)) (block_num (page_copies w pc))))
      (view (file_of w' (i_vfs_inode (scorws w' c))) (block_num (page_copies w pc))) = snapshot w' c (block_num (page_copies w pc))"
proof -
  let ?p = "i_vfs_inode (scorws w pa)"
  define blk where "blk = block_num (page_copies w pc)"
  define len where "len = page_copy_len (i_copy_size (scorws w c)) blk"
  obtain f where m: "i_par_vfs_inode (scorws w c) = Some ?p" "i_at_index (scorws w c) = int j" "i_copy_size (scorws w c) \<le> 2 ^ 32"
    "disk (file_of w (i_vfs_inode (scorws w c))) blk \<noteq> None" "i_vfs_inode (scorws w c) \<noteq> ?p" "i_frnd_vfs_inode (scorws w c) = Some f"
    "f \<noteq> i_vfs_inode (scorws w c)"
    using family_child(4) [OF assms(2,4)] by (rule memberD)
  have l: "pc_copy_len (i_copy_size (scorws w c)) blk = len" "0 < len"
    using pc_copy_len_small [OF _ m(3)] assms(8) by (simp_all add: len_def blk_def)
  obtain w1 pg where w1: "load_page_copy e pc ?p w = Ret w1" "data_page (page_copies w1 pc) = Some pg"
    and wc: "write_copy e (i_vfs_inode (scorws w c)) blk len pg w1 = (ret, w')"
    using assms(1) m(1) l by (auto simp: scorw_copy_page_from_page_copy_def Let_def obind_Ret_iff blk_def [symmetric] split: option.splits)
  note ld = load_page_copy_advance [OF w1(1) assms(2)]
  have a1: "advance pa w w1" and pg: "pc_page w ?p pc = Some pg" and same: "inodes w1 = inodes w" "scorws w1 = scorws w"
    using ld w1(2) by auto
  have w': "ret = 0" "w' = set_file (i_vfs_inode (scorws w1 c)) (write_end (file_of w1 (i_vfs_inode (scorws w1 c))) blk (blk * PAGE_SIZE) len (cut_page pg len)) w1"
    using write_copy_effect [of e "i_vfs_inode (scorws w c)" w1 blk len pg] assms(3) m(4) wc by (auto simp: same)
  have nb: "\<not> copied (file_of w1 (the (i_frnd_vfs_inode (scorws w1 c)))) blk" using assms(9) by (simp add: has_block_def same blk_def)
  have k: "keeps pa w1 w'"
    by (rule keeps_child_written [OF keepsD(1) [OF advanceD(1) [OF a1]] _ nb w'(2), of j]) (simp add: same assms(4))
  have hb: "has_block w' d b = has_block w1 d b" if "i_child_scorw_inode (scorws w pa) k = Some d" for k d b
  proof -
    have "the (i_frnd_vfs_inode (scorws w d)) \<noteq> i_vfs_inode (scorws w c)"
      using family_friends(2) [OF assms(2,4)] that family_child(4) [OF assms(2) that]
      by (auto simp: friends_def elim!: memberD)
    then show ?thesis by (simp add: has_block_def w'(2) same)
  qed
  have "same_queue w1 w'" by (simp add: same_queue_def w'(2))
  with k hb have a2: "advance pa w1 w'" unfolding advance_def same(2) by blast
  note a = advance_trans [OF a1 a2]
  have q: "find_pc w' blk ?p j = Some pc"
    using find_pc_queued [OF keepsD(1) [OF advanceD(1) [OF a]], of pc j] assms(5-7)
    by (simp add: advanceD(2-5) [OF a] blk_def [symmetric]) (simp add: w'(2) same)
  have "page_copies w' = page_copies w1" by (simp add: w'(2))
  moreover have "pc_page w1 ?p pc = Some pg" using w1 ld pg by (auto simp: load_page_copy_def pc_page_def Let_def split: if_splits option.splits)
  ultimately have "pc_page w' ?p pc = Some pg" using m(5) by (simp add: pc_page_def Let_def w'(2) same)
  then have "snapshot w' c blk = Some (cut_page pg len)"
    using q nb m(1,2,6,7) by (simp add: snapshot_def child_page_def Let_def w'(2) same len_def)
  moreover have "view (file_of w' (i_vfs_inode (scorws w' c))) blk = Some (cut_page pg len)" by (simp add: w'(2) same)
  ultimately show ?thesis using w'(1) a by (simp add: w'(2) same blk_def [symmetric] len_def)
qed

text \<open>Marking the block.\<close>

lemma mark_copied_advance:
  assumes "mark_copied e c blk w = Ret w'" and "family w pa" and "\<forall>f. pages_env_ok (fenv e f)"
    and "i_child_scorw_inode (scorws w pa) j = Some c" and "int (blk * PAGE_SIZE) < i_copy_size (scorws w c)"
    and "map_option (\<lambda>p. cut_page p (page_copy_len (i_copy_size (scorws w c)) blk)) (view (file_of w (i_vfs_inode (scorws w c))) blk) = snapshot w c blk"
  shows "advance pa w w' \<and> has_block w' c blk"
proof -
  obtain f where m: "i_frnd_vfs_inode (scorws w c) = Some f" "friend_covers (file_of w f) (i_copy_size (scorws w c))"
    using family_child(4) [OF assms(2,4)] by (rule memberD)
  then obtain n where n: "friend_ok n (file_of w f)" "i_copy_size (scorws w c) \<le> int (n * PAGE_BLOCKS * PAGE_SIZE)"
    by (auto simp: friend_covers_def)
  obtain g where g: "scorw_set_block_copied (fenv e f) (file_of w f) blk = Some g" "friend_ok n g"
    "\<And>b. copied g b \<longleftrightarrow> b = blk \<or> copied (file_of w f) b"
    using set_block_copied_ok [OF n(1) block_in_friend(1) [OF n assms(5)]] assms(3) by blast
  let ?u = "set_file f g w"
  have w': "w' = scorw_dec_yet_to_copy_blocks_count c 1 ?u" using assms(1) m(1) g(1) by (simp add: mark_copied_def)
  have k: "keeps pa w ?u"
    by (rule keeps_marked [OF assms(2,4) m(1) refl _ g(3) assms(6)]) (use g(2) n(2) in \<open>auto simp: friend_covers_def\<close>)
  have hb: "has_block ?u d b \<longleftrightarrow> has_block w d b \<or> d = c \<and> b = blk" if "i_child_scorw_inode (scorws w pa) l = Some d" for l d b
  proof (cases "l = j")
    case False
    have "the (i_frnd_vfs_inode (scorws w d)) \<noteq> f" "d \<noteq> c"
      using family_disjoint [OF assms(2) that assms(4) False] m(1) by (auto simp: inos_def)
    then show ?thesis by (simp add: has_block_def)
  qed (use that assms(4) m(1) g(3) in \<open>auto simp: has_block_def\<close>)
  have "same_queue w ?u" by (simp add: same_queue_def)
  with k hb have a1: "advance pa w ?u" unfolding advance_def by blast
  have t: "touched F ?u w'" for F unfolding w' scorw_dec_yet_to_copy_blocks_count_def by (rule touched_scorw) (simp add: links_def)
  have f1: "family ?u pa" by (rule keepsD(1) [OF k])
  have "has_block w' c blk"
    using hb [OF assms(4)] has_block_touched [OF t family_child(4) [OF f1]] assms(4,5) by simp
  with advance_trans [OF a1 advance_touched [OF t f1]] show ?thesis by simp
qed

text \<open>Whether the thread passes over a child, as an \<open>int\<close> comparison of block numbers.\<close>

lemma queued_block_bound:
  assumes "family w pa" and "pc \<in> set (page_copy_llist w)" and "pc_par (page_copies w pc) = pa"
  shows "block_num (page_copies w pc) < 2 ^ 31"
proof -
  have "block_num (page_copies w pc) * PAGE_SIZE < i_size (file_of w (i_vfs_inode (scorws w pa)))"
    using familyD(4) [OF assms(1)] assms(2,3) unfolding queue_ok_def by blast
  with familyD(3) [OF assms(1)] show ?thesis by simp
qed

lemma int_div_less_iff:
  assumes "0 < (n::int)"
  shows "x div n < y \<longleftrightarrow> x < y * n"
proof
  assume "x < y * n"
  have "x div n * n \<le> x" using assms div_mult_mod_eq [of x n] pos_mod_sign [of n x] by linarith
  then have "x div n * n < y * n" using \<open>x < y * n\<close> by linarith
  then show "x div n < y" using assms by simp
next
  assume "x div n < y"
  then show "x < y * n" using zdiv_mono1 [of "y * n" x n] assms by (cases "x < y * n") simp_all
qed

lemma block_beyond_iff:
  assumes "blk < 2 ^ 31"
  shows "(csize - 1) div int PAGE_SIZE < s32 (int blk) \<longleftrightarrow> \<not> int (blk * PAGE_SIZE) < csize"
proof -
  have "s32 (int blk) = int blk" using assms by (simp add: s32_def)
  moreover have "(csize - 1) div int PAGE_SIZE < int blk \<longleftrightarrow> csize - 1 < int blk * int PAGE_SIZE"
    by (rule int_div_less_iff) simp
  ultimately show ?thesis by auto
qed

lemma hand_over:
  assumes "obind (scorw_child_version_cnt_inc e i w) (\<lambda>w3. obind (scorw_copy_page_from_page_copy e pc c w3) (\<lambda>(ret, w4).
      if ret = 0 then mark_copied e c blk w4 else Ret w4)) = Ret w'"
    and "family w pa" and "\<forall>f. pages_env_ok (fenv e f)"
    and "i_child_scorw_inode (scorws w pa) j = Some c" and "pc \<in> set (page_copy_llist w)" and "pc_par (page_copies w pc) = pa"
    and "is_target_child (page_copies w pc) j" and "int (blk * PAGE_SIZE) < i_copy_size (scorws w c)"
    and "\<not> has_block w c blk" and "blk = block_num (page_copies w pc)"
  shows "advance pa w w' \<and> has_block w' c blk"
proof -
  obtain w3 ret w4 where w3: "scorw_child_version_cnt_inc e i w = Ret w3"
    and w4: "scorw_copy_page_from_page_copy e pc c w3 = Ret (ret, w4)"
    and w5: "(if ret = 0 then mark_copied e c blk w4 else Ret w4) = Ret w'"
    using assms(1) by (auto simp: obind_Ret_iff)
  have t: "touched (friends w pa) w w3" by (rule touched_version_cnt_inc [OF w3])
  note l3 = links_eqD [OF touchedD(1) [OF t]] and q3 = touchedD(2,3) [OF t]
  have nb: "\<not> has_block w3 c (block_num (page_copies w3 pc))"
    using has_block_touched [OF t family_child(4) [OF assms(2,4)] assms(8)] assms(9,10) by (simp add: q3)
  have c: "ret = 0 \<and> advance pa w3 w4 \<and> map_option (\<lambda>p. cut_page p (page_copy_len (i_copy_size (scorws w4 c)) (block_num (page_copies w3 pc))))
      (view (file_of w4 (i_vfs_inode (scorws w4 c))) (block_num (page_copies w3 pc))) = snapshot w4 c (block_num (page_copies w3 pc))"
    by (rule copy_from_page_copy [OF w4 family_touched [OF t assms(2)] assms(3) _ _ _ _ _ nb, of j])
      (use assms(4-8,10) in \<open>simp_all add: q3 l3\<close>)
  then have a4: "advance pa w w4" using advance_trans [OF advance_touched [OF t assms(2)]] by blast
  note f4 = keepsD(1) [OF advanceD(1) [OF a4]] and l4 = links_eqD [OF keepsD(2) [OF advanceD(1) [OF a4]]]
  have "advance pa w4 w' \<and> has_block w' c blk"
    by (rule mark_copied_advance [OF _ f4 assms(3), of c _ _ j]) (use c w5 assms(4,8,10) in \<open>simp_all add: q3 l4\<close>)
  with advance_trans [OF a4] show ?thesis by blast
qed

lemma copy_to_child_advance:
  assumes "copy_to_child e pc pa j w = Ret w'" and "family w pa" and "\<forall>f. pages_env_ok (fenv e f)"
    and "pc \<in> set (page_copy_llist w)" and "pc_par (page_copies w pc) = pa"
  shows "advance pa w w' \<and> (\<forall>c. i_child_scorw_inode (scorws w pa) j = Some c \<and> is_target_child (page_copies w pc) j \<and>
    int (block_num (page_copies w pc) * PAGE_SIZE) < i_copy_size (scorws w c) \<longrightarrow> has_block w' c (block_num (page_copies w pc)))"
proof (cases "i_child_scorw_inode (scorws w pa) j")
  case None
  with assms(1,2) show ?thesis by (auto simp: copy_to_child_def advance_refl)
next
  case (Some c)
  define blk where "blk = block_num (page_copies w pc)"
  note beyond = block_beyond_iff [OF queued_block_bound [OF assms(2,4,5)], folded blk_def]
  show ?thesis
  proof (cases "is_target_child (page_copies w pc) j \<and> int (blk * PAGE_SIZE) < i_copy_size (scorws w c)")
    case False
    then have "w' = w" using assms(1) Some beyond [of "i_copy_size (scorws w c)"]
      by (auto simp: copy_to_child_def Let_def blk_def [symmetric] split: if_splits)
    with False Some assms(2) show ?thesis by (auto simp: advance_refl blk_def)
  next
    case True
    then have "\<not> (i_copy_size (scorws w c) - 1) div int PAGE_SIZE < s32 (int blk)" using beyond by simp
    then obtain ok w1 dn w2 w5 where w1: "get_block_lock e c blk COPYING_EXCL w = Ret (ok, w1)"
      and w2: "block_copied e c blk w1 = Ret (dn, w2)"
      and w5: "(if dn then Ret w2 else obind (scorw_child_version_cnt_inc e (i_vfs_inode (scorws w c)) w2) (\<lambda>w3.
                 obind (scorw_copy_page_from_page_copy e pc c w3) (\<lambda>(ret, w4). if ret = 0 then mark_copied e c blk w4 else Ret w4))) = Ret w5"
      and w': "w' = put_block_lock c blk COPYING_EXCL w5"
      using assms(1) Some True by (auto simp: copy_to_child_def Let_def blk_def [symmetric] obind_Ret_iff simp del: obind_assoc)
    have t1: "touched (friends w pa) w w1" by (rule touched_get_block_lock [OF w1])
    obtain f where m: "i_frnd_vfs_inode (scorws w c) = Some f" "friend_covers (file_of w f) (i_copy_size (scorws w c))"
      using family_child(4) [OF assms(2) Some] by (rule memberD)
    have f: "f \<in> friends w pa" using Some m(1) by (auto simp: friends_def)
    note l1 = links_eqD [OF touchedD(1) [OF t1]]
    have t2: "touched (friends w pa) w1 w2" by (rule touched_block_copied [OF w2 _ f]) (simp add: l1 m(1))
    note t12 = touched_trans [OF t1 t2]
    note a2 = advance_touched [OF t12 assms(2)]
    note f2 = family_touched [OF t12 assms(2)] and l2 = links_eqD [OF touchedD(1) [OF t12]]
    have b2: "int (blk * PAGE_SIZE) < i_copy_size (scorws w2 c)" "i_child_scorw_inode (scorws w2 pa) j = Some c"
      using True Some by (simp_all add: l2)
    have dn: "dn = has_block w2 c blk"
      using block_copied_value [OF w2 _ inside_eq_friend_covers [OF touchedD(8) [OF t1] m(2)]] True assms(3) m(1)
        has_block_touched [OF t2 member_touched [OF t1 family_child(4) [OF assms(2) Some]]]
      by (simp add: l1 has_block_def)
    have w25: "advance pa w2 w5 \<and> has_block w5 c blk"
    proof (cases dn)
      case True
      with w5 dn f2 show ?thesis by (simp add: advance_refl)
    next
      case False
      show ?thesis
        by (rule hand_over [OF _ f2 assms(3) b2(2), where i = "i_vfs_inode (scorws w c)" and pc = pc])
          (use w5 False dn assms(4,5) True b2(1) touchedD(2,3) [OF t12] in \<open>simp_all add: blk_def [symmetric]\<close>)
    qed
    then have f5: "family w5 pa" and l5: "links (scorws w5 a) = links (scorws w2 a)" for a
      using keepsD [OF advanceD(1)] by blast+
    have t6: "touched (friends w5 pa) w5 w'" unfolding w' by (rule touched_put_block_lock)
    have "has_block w' c blk"
      using has_block_touched [OF t6 family_child(4) [OF f5]] w25 b2 by (simp add: links_eqD [OF l5])
    moreover have "advance pa w w'" using advance_trans [OF a2] advance_trans [OF _ advance_touched [OF t6 f5]] w25 by blast
    ultimately show ?thesis using Some by (simp add: blk_def)
  qed
qed

lemma copy_to_children:
  assumes "oloop (copy_to_child e pc pa) xs w = Ret w'" and "family w pa" and "\<forall>f. pages_env_ok (fenv e f)"
    and "pc \<in> set (page_copy_llist w)" and "pc_par (page_copies w pc) = pa"
  shows "advance pa w w' \<and> (\<forall>j\<in>set xs. \<forall>c. i_child_scorw_inode (scorws w pa) j = Some c \<and> is_target_child (page_copies w pc) j \<and>
    int (block_num (page_copies w pc) * PAGE_SIZE) < i_copy_size (scorws w c) \<longrightarrow> has_block w' c (block_num (page_copies w pc)))"
  using assms(1,2,4,5)
proof (induction xs arbitrary: w)
  case (Cons j xs)
  then obtain u where u: "copy_to_child e pc pa j w = Ret u" "oloop (copy_to_child e pc pa) xs u = Ret w'"
    by (auto simp: obind_Ret_iff)
  note s = copy_to_child_advance [OF u(1) Cons.prems(2) assms(3) Cons.prems(3,4)]
  have a: "advance pa w u" using s by blast
  note q = advanceD(2-5) [OF a] and l = links_eqD [OF keepsD(2) [OF advanceD(1) [OF a]]]
  note f = keepsD(1) [OF advanceD(1) [OF a]]
  have i: "advance pa u w' \<and> (\<forall>j\<in>set xs. \<forall>c. i_child_scorw_inode (scorws u pa) j = Some c \<and> is_target_child (page_copies u pc) j \<and>
    int (block_num (page_copies u pc) * PAGE_SIZE) < i_copy_size (scorws u c) \<longrightarrow> has_block w' c (block_num (page_copies u pc)))"
    by (rule Cons.IH [OF u(2) f]) (use Cons.prems(3,4) in \<open>simp_all add: q\<close>)
  have "has_block w' c (block_num (page_copies w pc))"
    if "i_child_scorw_inode (scorws w pa) j = Some c" "is_target_child (page_copies w pc) j"
      "int (block_num (page_copies w pc) * PAGE_SIZE) < i_copy_size (scorws w c)" for c
    using advanceD(6) [of pa u w' j c "block_num (page_copies w pc)"] i s that by (simp add: l)
  with i advance_trans [OF a] show ?case unfolding q l by auto
qed (simp add: advance_refl)

section \<open>Taking a page copy out of the queue\<close>

definition pc_removed :: "world \<Rightarrow> addr \<Rightarrow> world" where
  "pc_removed w pc = scorw_remove_page_copy_hlist pc (scorw_remove_page_copy_llist pc w)"

lemma pc_removed_simps [simp]:
  "scorws (pc_removed w pc) = scorws w" "inodes (pc_removed w pc) = inodes w" "page_copies (pc_removed w pc) = page_copies w"
  "next_addr (pc_removed w pc) = next_addr w" "page_copy_llist (pc_removed w pc) = remove1 pc (page_copy_llist w)"
  by (simp_all add: pc_removed_def scorw_remove_page_copy_hlist_def scorw_remove_page_copy_llist_def Let_def)

lemma remove1_rev_distinct: "distinct xs \<Longrightarrow> remove1 x (rev xs) = rev (remove1 x xs)"
  by (simp add: distinct_remove1_removeAll removeAll_filter_not_eq rev_filter)

lemma queue_ok_removed:
  assumes "queue_ok w pa"
  shows "queue_ok (pc_removed w pc) pa"
proof -
  let ?h = "\<lambda>a. hash_min (block_num (page_copies w a)) PC_HASH_BITS"
  have d: "distinct (page_copy_llist w)" using assms by (simp add: queue_ok_def)
  have sub: "set (remove1 pc (page_copy_llist w)) \<subseteq> set (page_copy_llist w)" by (rule set_remove1_subset)
  have "page_copy_hlist (pc_removed w pc) b = rev (filter (\<lambda>a. ?h a = b) (remove1 pc (page_copy_llist w)))" for b
  proof -
    let ?ys = "filter (\<lambda>a. ?h a = b) (page_copy_llist w)"
    have "page_copy_hlist w b = rev ?ys" using assms by (simp add: queue_ok_def)
    moreover have "remove1 pc (rev ?ys) = rev (remove1 pc ?ys)" using d by (intro remove1_rev_distinct) simp
    moreover have "remove1 pc ?ys = ?ys" if "?h pc \<noteq> b" using that by (intro remove1_idem) simp
    ultimately show ?thesis
      by (auto simp: pc_removed_def scorw_remove_page_copy_hlist_def scorw_remove_page_copy_llist_def Let_def filter_remove1)
  qed
  with assms sub show ?thesis unfolding queue_ok_def pc_removed_simps by (simp add: subset_iff)
qed

lemma find_pc_removed:
  assumes "queue_ok w pa" and "\<not> pc_matches w b p j pc"
  shows "find_pc (pc_removed w pc) b p j = find_pc w b p j"
proof -
  have "pc_matches (pc_removed w pc) = pc_matches w" by (intro ext) (simp add: pc_matches_def)
  moreover have "find P (rev (remove1 x xs)) = find P (rev xs)" if "distinct xs" "\<not> P x" for P and x :: addr and xs
  proof -
    have "find P (filter ((\<noteq>) x) ys) = find P ys" for ys using that(2) by (induction ys) auto
    then show ?thesis using that(1) by (simp add: distinct_remove1_removeAll removeAll_filter_not_eq rev_filter)
  qed
  ultimately show ?thesis
    using assms find_pc_rev [OF assms(1)] find_pc_rev [OF queue_ok_removed [OF assms(1)]] by (simp add: queue_ok_def)
qed

lemma keeps_removed:
  assumes "family w pa" and "pc \<in> set (page_copy_llist w)"
    and "\<And>j c. i_child_scorw_inode (scorws w pa) j = Some c \<Longrightarrow> is_target_child (page_copies w pc) j \<Longrightarrow>
      int (block_num (page_copies w pc) * PAGE_SIZE) < i_copy_size (scorws w c) \<Longrightarrow> has_block w c (block_num (page_copies w pc))"
  shows "keeps pa w (pc_removed w pc)"
proof -
  let ?p = "i_vfs_inode (scorws w pa)"
  note q = familyD(4) [OF assms(1)]
  have fam: "family (pc_removed w pc) pa"
    using assms(1) queue_ok_removed [OF q] by (simp add: family_def Let_def member_def)
  have "snapshot (pc_removed w pc) c b = snapshot w c b" if "in_snapshot w pa j c b" for j c b
  proof -
    have s: "i_child_scorw_inode (scorws w pa) j = Some c" "int (b * PAGE_SIZE) < i_copy_size (scorws w c)"
      using that by (simp_all add: in_snapshot_def)
    have m: "i_par_vfs_inode (scorws w c) = Some ?p" "i_at_index (scorws w c) = int j"
      using family_child(4) [OF assms(1) s(1)] by (simp_all add: member_def Let_def)
    have pg: "pc_page (pc_removed w pc) = pc_page w" by (intro ext) (simp add: pc_page_def)
    have "has_block w c b \<or> find_pc (pc_removed w pc) b ?p j = find_pc w b ?p j"
    proof (cases "pc_matches w b ?p j pc")
      case True
      then show ?thesis using assms(3) [OF s(1)] s(2) by (auto simp: pc_matches_def Let_def)
    qed (simp add: find_pc_removed [OF q])
    then show ?thesis using m pg by (auto simp: snapshot_def child_page_def Let_def has_block_def split: option.splits)
  qed
  with fam show ?thesis by (simp add: keeps_def)
qed

lemma scorw_put_inode_unfold:
  "scorw_put_inode e is_child is_thread is_par_putting i w = scorw_put_inode_depth Oops (Suc 3) e is_child is_thread is_par_putting i w"
  by (simp add: scorw_put_inode_def put_depth_def eval_nat_numeral)

text \<open>The thread gives up its use of a parent that is still in use.\<close>

lemma touched_put_inode_thread:
  assumes "scorw_put_inode e False True False i w = Ret w'" and "i_scorw_inode (inodes w i) = Some a" and "0 < i_process_usage_count (scorws w a)"
  shows "touched F w w'"
proof -
  obtain xok v where "w' = unlock_vfs i (upd_scorw a (\<lambda>s. s\<lparr>removed_from_page_copy := removed_from_page_copy s + 1\<rparr>)
      (set_attrs i (xattr_set xok (attrs_of w i) ''curr_version'' v) (upd_ino i (\<lambda>v. v\<lparr>i_vfs_inode_lock := True\<rparr>) w)))"
    using assms unfolding scorw_put_inode_unfold scorw_put_inode_depth.simps(2)
    by (auto simp: lock_vfs_def Let_def scorw_get_process_usage_count_def split: if_splits)
  then show ?thesis by (simp add: touched_def unlock_vfs_def links_def)
qed

text \<open>A page copy that was processed is in every child that was its target.\<close>

lemma process_page_copy_effect:
  assumes "scorw_process_page_copy e pc w = Ret w'" and "family w pa" and "\<forall>f. pages_env_ok (fenv e f)"
    and "pc \<in> set (page_copy_llist w)" and "pc_par (page_copies w pc) = pa" and "0 < i_process_usage_count (scorws w pa)"
  shows "keeps pa w w' \<and> (\<forall>j c. i_child_scorw_inode (scorws w pa) j = Some c \<and> is_target_child (page_copies w pc) j \<and>
    int (block_num (page_copies w pc) * PAGE_SIZE) < i_copy_size (scorws w c) \<longrightarrow> has_block w' c (block_num (page_copies w pc)))"
proof -
  obtain w1 w2 where w1: "down_read pa w = Ret w1" and w2: "oloop (copy_to_child e pc pa) [0..<SCORW_MAX_CHILDS] w1 = Ret w2"
    and w3: "scorw_unprepare_page_copy e pc (up_read pa w2) = Ret w'"
    using assms(1,5) unfolding scorw_process_page_copy_def Let_def by (auto simp: obind_Ret_iff)
  have t1: "touched (friends w pa) w w1" by (rule touched_down_read [OF w1])
  note q1 = touchedD(2,3) [OF t1] and f1 = family_touched [OF t1 assms(2)]
  have c: "advance pa w1 w2 \<and> (\<forall>j\<in>set [0..<SCORW_MAX_CHILDS]. \<forall>c. i_child_scorw_inode (scorws w1 pa) j = Some c \<and> is_target_child (page_copies w1 pc) j \<and>
    int (block_num (page_copies w1 pc) * PAGE_SIZE) < i_copy_size (scorws w1 c) \<longrightarrow> has_block w2 c (block_num (page_copies w1 pc)))"
    by (rule copy_to_children [OF w2 f1 assms(3)]) (use assms(4,5) in \<open>simp_all add: q1\<close>)
  define u where "u = up_read pa w2"
  have a2: "advance pa w1 w2" using c by blast
  note f2 = keepsD(1) [OF advanceD(1) [OF a2]]
  have t3: "touched F w2 u" for F unfolding u_def by (rule touched_up_read)
  note a = advance_trans [OF advance_trans [OF advance_touched [OF t1 assms(2)] a2] advance_touched [OF t3 f2]]
  note fu = keepsD(1) [OF advanceD(1) [OF a]] and l = links_eqD [OF keepsD(2) [OF advanceD(1) [OF a]]] and q = advanceD(2-5) [OF a]
  note l1 = links_eqD [OF touchedD(1) [OF t1]] and l2 = links_eqD [OF keepsD(2) [OF advanceD(1) [OF a2]]]
  have has: "has_block u d (block_num (page_copies u pc))"
    if d: "i_child_scorw_inode (scorws u pa) j = Some d" "is_target_child (page_copies u pc) j"
      "int (block_num (page_copies u pc) * PAGE_SIZE) < i_copy_size (scorws u d)" for j d
  proof -
    have "has_block w2 d (block_num (page_copies w pc))"
      using c family_child(1) [OF fu d(1)] d by (simp add: l l1 q q1)
    then show ?thesis using has_block_touched [OF t3 family_child(4) [OF f2]] d by (simp add: q l l1 l2)
  qed
  have k: "keeps pa u (pc_removed u pc)" by (rule keeps_removed [OF fu _ has]) (use assms(4) in \<open>simp add: q\<close>)
  have t4: "touched F (pc_removed u pc) w'" for F
  proof (rule touched_put_inode_thread)
    show "scorw_put_inode e False True False (i_vfs_inode (scorws u pa)) (pc_removed u pc) = Ret w'"
      using w3 assms(5) by (simp add: scorw_unprepare_page_copy_def pc_removed_def [symmetric] u_def [symmetric] q)
    show "i_scorw_inode (inodes (pc_removed u pc) (i_vfs_inode (scorws u pa))) = Some pa" using familyD(2) [OF fu] by simp
    show "0 < i_process_usage_count (scorws (pc_removed u pc) pa)" using assms(6) by (simp add: l)
  qed
  have "keeps pa w w'" by (rule keeps_trans [OF advanceD(1) [OF a] keeps_trans [OF k keeps_touched [OF t4 keepsD(1) [OF k]]]])
  moreover have "has_block w' d (block_num (page_copies w pc))"
    if d: "i_child_scorw_inode (scorws w pa) j = Some d" "is_target_child (page_copies w pc) j"
      "int (block_num (page_copies w pc) * PAGE_SIZE) < i_copy_size (scorws w d)" for j d
  proof -
    have m: "member (pc_removed u pc) (i_vfs_inode (scorws (pc_removed u pc) pa)) j d"
      by (rule family_child(4) [OF keepsD(1) [OF k]]) (use d(1) in \<open>simp add: l\<close>)
    have "has_block (pc_removed u pc) d (block_num (page_copies w pc))"
      using has [of j d] d by (simp add: has_block_def l q)
    then show ?thesis using has_block_touched [OF t4 m] d(3) by (simp add: l)
  qed
  ultimately show ?thesis by blast
qed

lemmas process_page_copy_keeps = process_page_copy_effect [THEN conjunct1]

section \<open>Runs\<close>

text \<open>The whole system call.\<close>

definition plain_parent :: "world \<Rightarrow> addr \<Rightarrow> bool" where
  "plain_parent w pa \<longleftrightarrow> family w pa \<and> i_par_vfs_inode (scorws w pa) = None \<and> i_see_thru_ro (scorws w pa) = 0 \<and>
     0 < i_process_usage_count (scorws w pa)"

lemma plain_parent_keeps: "keeps pa w w' \<Longrightarrow> plain_parent w pa \<Longrightarrow> plain_parent w' pa"
  unfolding plain_parent_def using keepsD(1) [of pa w w'] links_eqD(3,11,12) [OF keepsD(2) [of pa w w' pa]] by simp

lemma plain_buffered_write:
  assumes "plain_parent w pa"
  shows "ext4_buffered_write_iter e filp intr seg turns (i_vfs_inode (scorws w pa)) bs offset w =
    write_loop e True seg (i_vfs_inode (scorws w pa)) turns (min (PAGE_SIZE - offset mod PAGE_SIZE) (length bs)) offset bs 0 w"
proof -
  let ?p = "i_vfs_inode (scorws w pa)"
  have f: "family w pa" and pp: "i_par_vfs_inode (scorws w pa) = None" "i_see_thru_ro (scorws w pa) = 0"
    using assms by (simp_all add: plain_parent_def)
  have fi: "scorw_find_inode w ?p = Some pa" using familyD(2) [OF f] by (simp add: scorw_find_inode_def)
  have kind: "\<not> scorw_is_child_file e w ?p False" "scorw_is_par_file e w ?p False"
    using fi pp by (simp_all add: scorw_is_child_file_def scorw_is_par_file_def scorw_is_child_inode_def)
  show ?thesis using kind fi pp by (simp add: ext4_buffered_write_iter_def scorw_generic_perform_write_def)
qed

lemma buffered_write_keeps:
  assumes "ext4_buffered_write_iter e filp intr seg turns (i_vfs_inode (scorws w pa)) bs offset w = Ret (n, w')" and "plain_parent w pa"
    and "\<forall>f. pages_env_ok (fenv e f)" and "\<forall>n. seg n \<le> n" and "begin_error e < 0" and "offset + length bs \<le> 2 ^ 43"
  shows "keeps pa w w'"
proof -
  have f: "family w pa" using assms(2) by (simp add: plain_parent_def)
  from assms(1) show ?thesis unfolding plain_buffered_write [OF assms(2)]
    by (rule write_loop_keeps [OF _ f assms(3)]) (use assms(4-6) in \<open>auto simp: min_def\<close>)
qed

text \<open>Writeback of a page. The parent's must wait for the page copies that are to be read
  from its disk.\<close>

definition cold_copy :: "world \<Rightarrow> addr \<Rightarrow> nat \<Rightarrow> bool" where
  "cold_copy w pa k \<longleftrightarrow> (\<exists>a\<in>set (page_copy_llist w). pc_par (page_copies w a) = pa \<and> block_num (page_copies w a) = k \<and>
     \<not> data_page_loaded (page_copies w a))"

lemma writeback_frame:
  shows "i_size (writeback_page f k) = i_size f" "j \<noteq> k \<Longrightarrow> disk (writeback_page f k) j = disk f j"
    "disk f j \<noteq> None \<Longrightarrow> disk (writeback_page f k) j \<noteq> None" "friend_covers (writeback_page f k) n = friend_covers f n"
    "copied (writeback_page f k) b = copied f b"
proof -
  show sz: "i_size (writeback_page f k) = i_size f" and "j \<noteq> k \<Longrightarrow> disk (writeback_page f k) j = disk f j"
    and "disk f j \<noteq> None \<Longrightarrow> disk (writeback_page f k) j \<noteq> None"
    by (auto simp: writeback_page_def split: option.splits)
  show "friend_covers (writeback_page f k) n = friend_covers f n" unfolding friend_covers_def friend_ok_def sz view_writeback ..
  show "copied (writeback_page f k) b = copied f b" unfolding copied_def view_writeback ..
qed

lemma writeback_same:
  assumes "w' = set_file i (writeback_page (file_of w i) k) w"
  shows "i_size (file_of w' x) = i_size (file_of w x)" "copied (file_of w' x) b = copied (file_of w x) b"
    "view (file_of w' x) b = view (file_of w x) b" "friend_covers (file_of w' x) n = friend_covers (file_of w x) n"
    "disk (file_of w x) b \<noteq> None \<Longrightarrow> disk (file_of w' x) b \<noteq> None"
    "scorws w' = scorws w" "i_scorw_inode (inodes w' x) = i_scorw_inode (inodes w x)" "find_pc w' b q l = find_pc w b q l"
proof -
  show "disk (file_of w x) b \<noteq> None \<Longrightarrow> disk (file_of w' x) b \<noteq> None"
    using writeback_frame(3) [of "file_of w i" b k] by (cases "x = i") (simp_all add: assms)
  show "find_pc w' b q l = find_pc w b q l" by (rule find_pc_cong) (simp_all add: assms)
qed (simp_all add: assms writeback_frame(1,4,5))

lemma family_writeback:
  assumes "family w pa" and "w' = set_file i (writeback_page (file_of w i) k) w"
  shows "family w' pa"
proof -
  note s = writeback_same [OF assms(2)]
  have mem: "member w (i_vfs_inode (scorws w pa)) j c \<Longrightarrow> member w' (i_vfs_inode (scorws w pa)) j c" for j c
    using s(5) unfolding member_def Let_def s(1,4,6,7) by blast
  have "queue_ok w' pa" using familyD(4) [OF assms(1)] unfolding queue_ok_def s(1) by (simp add: assms(2))
  then show ?thesis using assms(1) mem unfolding family_def Let_def s(1,6,7) by blast
qed

lemma keeps_writeback:
  assumes "family w pa" and "w' = set_file i (writeback_page (file_of w i) k) w"
    and "i = i_vfs_inode (scorws w pa) \<Longrightarrow> \<not> cold_copy w pa k"
  shows "keeps pa w w'"
proof -
  let ?p = "i_vfs_inode (scorws w pa)"
  note s = writeback_same [OF assms(2)]
  have "snapshot w' c b = snapshot w c b" if "in_snapshot w pa j c b" for j c b
  proof -
    have m: "i_par_vfs_inode (scorws w c) = Some ?p"
      using that family_child(4) [OF assms(1)] by (auto simp: in_snapshot_def member_def Let_def)
    have pg: "pc_page w' ?p pc = pc_page w ?p pc" if pc: "find_pc w b ?p l = Some pc" for pc l
    proof -
      note in_q = find_pc_SomeD [OF pc familyD(4) [OF assms(1)]]
      have "pc_par (page_copies w pc) = pa" using in_q familyD(1,4) [OF assms(1)] by (simp add: queue_ok_def pc_matches_def Let_def)
      then have "data_page_loaded (page_copies w pc) \<or> disk (file_of w' ?p) (block_num (page_copies w pc)) = disk (file_of w ?p) (block_num (page_copies w pc))"
        using assms(3) in_q(1) by (cases "i = ?p") (auto simp: assms(2) cold_copy_def writeback_frame(2))
      then show ?thesis by (auto simp: pc_page_def Let_def s(1)) (simp_all add: assms(2))
    qed
    then show ?thesis using m by (simp add: snapshot_def child_page_def Let_def s split: option.splits)
  qed
  with family_writeback [OF assms(1,2)] show ?thesis by (simp add: keeps_def s)
qed

text \<open>The steps: a write to the parent, a round of the thread on a page copy of this parent,
  the writeback of a page of any file.\<close>

inductive cow_step :: "addr \<Rightarrow> world \<Rightarrow> world \<Rightarrow> bool" for pa where
  parent_write: "ext4_buffered_write_iter e filp intr seg turns (i_vfs_inode (scorws w pa)) bs offset w = Ret (n, w') \<Longrightarrow>
    \<forall>f. pages_env_ok (fenv e f) \<Longrightarrow> \<forall>n. seg n \<le> n \<Longrightarrow> begin_error e < 0 \<Longrightarrow> offset + length bs \<le> 2 ^ 43 \<Longrightarrow> cow_step pa w w'"
| thread: "scorw_page_copy_thread_round periodic e False False w = Ret (Continue w') \<Longrightarrow> \<forall>f. pages_env_ok (fenv e f) \<Longrightarrow>
    \<forall>pc. scorw_get_page_copy_to_process w = Some pc \<longrightarrow> pc_par (page_copies w pc) = pa \<Longrightarrow> cow_step pa w w'"
| flush: "i \<noteq> i_vfs_inode (scorws w pa) \<or> \<not> cold_copy w pa k \<Longrightarrow> cow_step pa w (set_file i (writeback_page (file_of w i) k) w)"

lemma cow_step_keeps:
  assumes "cow_step pa w w'" and "plain_parent w pa"
  shows "keeps pa w w'"
  using assms
proof cases
  case (parent_write e filp intr seg turns bs offset n)
  then show ?thesis using buffered_write_keeps assms(2) by blast
next
  case (thread periodic e)
  show ?thesis
  proof (cases "page_copy_llist w")
    case Nil
    with thread assms(2) show ?thesis by (simp add: scorw_page_copy_thread_round_def scorw_get_page_copy_to_process_def keeps_refl plain_parent_def)
  next
    case (Cons pc q)
    with thread(1) have "scorw_process_page_copy e pc w = Ret w'"
      by (auto simp: scorw_page_copy_thread_round_def scorw_get_page_copy_to_process_def obind_Ret_iff)
    with process_page_copy_keeps thread(2,3) assms(2) Cons show ?thesis
      by (simp add: scorw_get_page_copy_to_process_def plain_parent_def)
  qed
next
  case (flush i k)
  then show ?thesis using keeps_writeback [of w pa w' i k] assms(2) by (auto simp: plain_parent_def)
qed

definition byte_file :: "nat \<Rightarrow> byte \<Rightarrow> file" where
  "byte_file n x = \<lparr>i_size = n, cache = (\<lambda>_. None), pdirty = (\<lambda>_. False), disk = (\<lambda>_. Some (\<lambda>_. x))\<rparr>"

definition demo_inode :: "nat \<Rightarrow> byte \<Rightarrow> addr option \<Rightarrow> vfs_inode" where
  "demo_inode n x a = \<lparr>i_data = byte_file n x, i_xattrs = Map.empty, i_mapped = {}, i_scorw_inode = a, i_vfs_inode_lock = False,
     i_vfs_inode_open_close_lock = False, i_vfs_inode_writeback_sync_lock = False, i_vfs_inode_open_count = 1, i_cannot_update_child_version_cnt = True, i_can_sync_frnd = 0\<rparr>"

text \<open>A parent (inode 1) of two blocks, its child (inode 2) and the friend file (inode 3).\<close>

definition demo :: world where
  "demo = \<lparr>inodes = (\<lambda>i. if i = 1 then demo_inode 8192 7 (Some 10) else if i = 2 then demo_inode 0 0 (Some 11)
              else if i = 3 then demo_inode 4096 0 None else demo_inode 0 0 None),
     scorws = (\<lambda>a. if a = 10 then zero_scorw\<lparr>i_ino_num := 1, i_vfs_inode := 1, i_process_usage_count := 1,
                                        i_child_scorw_inode := (\<lambda>j. if j = 0 then Some 11 else None)\<rparr>
              else zero_scorw\<lparr>i_ino_num := 2, i_vfs_inode := 2, i_process_usage_count := 1, i_par_vfs_inode := Some 1,
                              i_frnd_vfs_inode := Some 3, i_copy_size := 8192, i_uncopied_blocks := empty_amap 4\<rparr>),
     next_addr = 20, scorw_inodes_list = [11, 10],
     page_copies = (\<lambda>_. \<lparr>block_num = 0, pc_par = 0, data_page = None, data_page_loaded = False, is_target_child = (\<lambda>_. False)\<rparr>),
     page_copy_llist = [], page_copy_hlist = (\<lambda>_. []), wait_for_commit_list = [], pending_list = [], pending_log_sync_list = [],
     frnd_version_cnt_lock = False\<rparr>"

definition demo_kernel :: kernel where
  "demo_kernel = \<lparr>fenv = (\<lambda>_. good_env), mem_ok = True, xset_ok = (\<lambda>_ _. True), iget_ok = (\<lambda>_. True), begin_error = - ENOMEM,
     junk_page = (\<lambda>_. 255), junk_attr = 0, junk_crx = \<lparr>crx_start = 0, crx_end = 0, crx_behavior = 0\<rparr>, extents_of = (\<lambda>_. []), now = 0, s_mtime = 0,
     gc_map_blocks = (\<lambda>_ _ _. (0, 0, False)), gc_remove_ok = (\<lambda>_. True)\<rparr>"


lemmas write_eval = ext4_buffered_write_iter_def scorw_is_child_file_def scorw_find_inode_def scorw_is_child_inode_def scorw_is_par_file_def
  scorw_generic_perform_write_def write_page_def write_par_begin_def last_block_def scorw_read_barrier_begin_def down_read_def
  child_slots_def barrier_child_def scorw_get_process_usage_count_def write_begin_def scorw_write_par_blocks_def find_target_def
  scorw_is_in_range_def scorw_find_page_copy_def block_copied_def scorw_is_block_copied_def scorw_get_page_def
  scorw_prepare_page_copy_def scorw_copy_page_to_page_copy_def scorw_add_page_copy_hlist_def scorw_add_page_copy_llist_def
  write_par_end_def scorw_read_barrier_end_def up_read_def end_page_def fill_page_def copied_in_def write_end_def put_dirty_def

lemmas demo_simps = demo_def demo_kernel_def demo_inode_def byte_file_def zero_scorw_def good_env_def

lemmas thread_eval = scorw_page_copy_thread_round_def scorw_get_page_copy_to_process_def scorw_process_page_copy_def copy_to_child_def
  get_block_lock_def scorw_get_uncopied_block_def scorw_child_version_cnt_inc_def scorw_copy_page_from_page_copy_def load_page_copy_def
  pc_copy_len_def copy_len_def write_copy_def mark_copied_def scorw_set_block_copied_def put_block_lock_def
  scorw_unprepare_page_copy_def scorw_remove_page_copy_hlist_def scorw_remove_page_copy_llist_def scorw_put_inode_unfold lock_vfs_def unlock_vfs_def

lemma copy_no_children:
  "\<forall>j\<in>set xs. i_child_scorw_inode (scorws w pa) j = None \<Longrightarrow> oloop (copy_to_child e pc pa) xs w = Ret w"
  by (induction xs) (simp_all add: copy_to_child_def)

lemma process_first_child:
  assumes "copy_to_child e pc pa 0 w = Ret u" and "\<forall>j>0. i_child_scorw_inode (scorws u pa) j = None"
  shows "oloop (copy_to_child e pc pa) [0..<SCORW_MAX_CHILDS] w = Ret u"
proof -
  have "[0..<SCORW_MAX_CHILDS] = 0 # [1..<SCORW_MAX_CHILDS]" by (simp add: upt_rec)
  then show ?thesis using assms copy_no_children [of "[1..<SCORW_MAX_CHILDS]" u] by simp
qed

lemma demo_steps:
  "\<exists>w1 w2. ext4_buffered_write_iter demo_kernel 0 False id [(False, 3)] 1 [1, 2, 3] 5 demo = Ret (3, w1) \<and>
   scorw_get_page_copy_to_process w1 = Some 20 \<and> pc_par (page_copies w1 20) = 10 \<and>
   obind (down_read 10 w1) (copy_to_child demo_kernel 20 10 0) = Ret w2 \<and>
   (\<forall>j>0. i_child_scorw_inode (scorws w2 10) j = None) \<and> pc_par (page_copies w2 20) = 10 \<and> i_vfs_inode (scorws w2 10) = 1 \<and>
   \<not> i_vfs_inode_lock (inodes w2 1) \<and> i_scorw_inode (inodes w2 1) = Some 10 \<and> i_process_usage_count (scorws w2 10) = 1 \<and>
   view (file_of w2 1) 0 = Some (memcpy_page (\<lambda>_. 7) 5 [1, 2, 3]) \<and> page_copy_llist w2 = [20]"
  by (simp add: write_eval demo_simps Let_def scorw_get_page_copy_to_process_def)
    (simp add: thread_eval write_eval demo_simps Let_def s32_def scorw_get_page_def empty_amap_def scorw_find_uncopied_block_list_def
      scorw_set_bit_def view_def scorw_dec_yet_to_copy_blocks_count_def)

lemma put_inode_thread_runs:
  assumes "\<not> i_vfs_inode_lock (inodes w i)" and "i_scorw_inode (inodes w i) = Some a" and "0 < i_process_usage_count (scorws w a)"
  shows "\<exists>w'. scorw_put_inode e False True False i w = Ret w' \<and> (\<forall>x. file_of w' x = file_of w x) \<and> page_copy_llist w' = page_copy_llist w"
  using assms unfolding scorw_put_inode_unfold scorw_put_inode_depth.simps(2)
  by (simp add: lock_vfs_def unlock_vfs_def Let_def scorw_get_process_usage_count_def)

text \<open>A round of the thread for a parent with one child.\<close>

lemma round_first_child:
  assumes "scorw_get_page_copy_to_process w = Some pc" "pc_par (page_copies w pc) = pa"
    and "obind (down_read pa w) (copy_to_child e pc pa 0) = Ret u" "\<forall>j>0. i_child_scorw_inode (scorws u pa) j = None"
    and "pc_par (page_copies u pc) = pa" "i_vfs_inode (scorws u pa) = p" "\<not> i_vfs_inode_lock (inodes u p)"
      "i_scorw_inode (inodes u p) = Some pa" "0 < i_process_usage_count (scorws u pa)"
  shows "\<exists>w'. scorw_page_copy_thread_round Ret e False False w = Ret (Continue w') \<and> (\<forall>x. file_of w' x = file_of u x) \<and>
    page_copy_llist w' = remove1 pc (page_copy_llist u)"
proof -
  obtain v where v: "down_read pa w = Ret v" "copy_to_child e pc pa 0 v = Ret u" using assms(3) by (auto simp: obind_Ret_iff)
  let ?r = "pc_removed (up_read pa u) pc"
  obtain w' where w': "scorw_put_inode e False True False p ?r = Ret w'" "\<forall>x. file_of w' x = file_of ?r x"
    "page_copy_llist w' = page_copy_llist ?r"
    using put_inode_thread_runs [of ?r p pa e] assms(7-9) by (auto simp: up_read_def)
  have "scorw_process_page_copy e pc w = Ret w'"
    using assms(2,5,6) v process_first_child [OF v(2) assms(4)] w'(1)
    by (simp add: scorw_process_page_copy_def Let_def scorw_unprepare_page_copy_def pc_removed_def [symmetric]) (simp add: up_read_def)
  then have "scorw_page_copy_thread_round Ret e False False w = Ret (Continue w')" using assms(1)
    by (simp add: scorw_page_copy_thread_round_def)
  with w' show ?thesis by (auto simp: up_read_def)
qed

lemma demo_run:
  "\<exists>w1 w2. ext4_buffered_write_iter demo_kernel 0 False id [(False, 3)] 1 [1, 2, 3] 5 demo = Ret (3, w1) \<and>
   (\<forall>pc. scorw_get_page_copy_to_process w1 = Some pc \<longrightarrow> pc_par (page_copies w1 pc) = 10) \<and>
   scorw_page_copy_thread_round Ret demo_kernel False False w1 = Ret (Continue w2) \<and>
   view (file_of w2 1) 0 = Some (memcpy_page (\<lambda>_. 7) 5 [1, 2, 3]) \<and> page_copy_llist w2 = []"
proof -
  obtain w1 u where w1: "ext4_buffered_write_iter demo_kernel 0 False id [(False, 3)] 1 [1, 2, 3] 5 demo = Ret (3, w1)"
    and q: "scorw_get_page_copy_to_process w1 = Some 20" "pc_par (page_copies w1 20) = 10"
    and u: "obind (down_read 10 w1) (copy_to_child demo_kernel 20 10 0) = Ret u" "\<forall>j>0. i_child_scorw_inode (scorws u 10) j = None"
    and up: "pc_par (page_copies u 20) = 10" "i_vfs_inode (scorws u 10) = 1" "\<not> i_vfs_inode_lock (inodes u 1)"
      "i_scorw_inode (inodes u 1) = Some 10" "i_process_usage_count (scorws u 10) = 1"
      "view (file_of u 1) 0 = Some (memcpy_page (\<lambda>_. 7) 5 [1, 2, 3])" "page_copy_llist u = [20]"
    using demo_steps by blast
  have "0 < i_process_usage_count (scorws u 10)" using up(5) by simp
  from round_first_child [OF q u up(1-4) this] up w1 q show ?thesis by auto
qed

lemma demo_env: "\<forall>f. pages_env_ok (fenv demo_kernel f)" "begin_error demo_kernel < 0"
  by (simp_all add: demo_kernel_def)

lemma demo_plain: "plain_parent demo 10"
proof -
  have "\<exists>n\<le>Suc 0. (1::int) \<le> 16384 * int n" by (rule exI [of _ 1]) simp
  then show ?thesis
    by (simp add: plain_parent_def family_def demo_simps Let_def member_def friend_covers_def friend_ok_def view_def queue_ok_def)
qed


text \<open>C1: take a parent that is in use, is not a child itself and is not versioned (it has no
  see-through attribute). No sequence of writes to it, rounds of the page copy thread on its own
  page copies, writebacks of pages of any other file, and writebacks of those of its pages for
  which no page copy without data is waiting changes what a child keeps of any block of its
  snapshot: the contents in the child's own file once the block is marked as copied, else in the
  page copy, else in the parent. The relations between the files and the queue stay well-formed
  as well. The exception for writebacks of the parent is needed: a page copy without data is
  read from the disk of the parent later, see the theory of cold page copies.\<close>

theorem snapshot_isolation:
  assumes "(cow_step pa)\<^sup>*\<^sup>* w w'" and "plain_parent w pa"
  shows "plain_parent w' pa \<and> (\<forall>j c b. in_snapshot w pa j c b \<longrightarrow> snapshot w' c b = snapshot w c b)"
proof -
  have "plain_parent w' pa \<and> keeps pa w w'"
    using assms
  proof (induction rule: rtranclp_induct)
    case base
    then show ?case by (simp add: keeps_refl plain_parent_def)
  next
    case (step u v)
    then have k: "keeps pa u v" using cow_step_keeps by blast
    with step show ?case using keeps_trans plain_parent_keeps by blast
  qed
  then show ?thesis by (simp add: keeps_def)
qed

theorem snapshot_isolation_witness:
  "\<exists>w'. (cow_step 10)\<^sup>*\<^sup>* demo w' \<and> view (file_of w' 1) 0 = Some (memcpy_page (\<lambda>_. 7) 5 [1, 2, 3]) \<and> page_copy_llist w' = [] \<and>
     plain_parent w' 10 \<and> snapshot w' 11 0 = snapshot demo 11 0 \<and> snapshot demo 11 0 = Some (cut_page (\<lambda>_. 7) PAGE_SIZE)"
proof -
  obtain w1 w2 where w1: "ext4_buffered_write_iter demo_kernel 0 False id [(False, 3)] 1 [1, 2, 3] 5 demo = Ret (3, w1)"
    and q: "\<forall>pc. scorw_get_page_copy_to_process w1 = Some pc \<longrightarrow> pc_par (page_copies w1 pc) = 10"
    and w2: "scorw_page_copy_thread_round Ret demo_kernel False False w1 = Ret (Continue w2)"
    and r: "view (file_of w2 1) 0 = Some (memcpy_page (\<lambda>_. 7) 5 [1, 2, 3])" "page_copy_llist w2 = []"
    using demo_run by blast
  have "i_vfs_inode (scorws demo 10) = 1" by (simp add: demo_def)
  then have "cow_step 10 demo w1" by (intro parent_write [OF _ demo_env(1) _ demo_env(2)]) (use w1 in auto)
  moreover have "cow_step 10 w1 w2" by (rule thread [OF w2 demo_env(1) q])
  ultimately have run: "(cow_step 10)\<^sup>*\<^sup>* demo w2" by simp
  have "in_snapshot demo 10 0 11 0" by (simp add: in_snapshot_def demo_simps scorw_is_in_range_def)
  moreover have "snapshot demo 11 0 = Some (cut_page (\<lambda>_. 7) PAGE_SIZE)"
    by (simp add: snapshot_def child_page_def demo_simps copied_def view_def find_pc_def page_copy_len_def copy_len_def)
  ultimately show ?thesis using snapshot_isolation [OF run demo_plain] run r by (intro exI [of _ w2]) simp
qed

end
