(* ===== verification/Cold_Copies.thy ===== *)
theory Cold_Copies
  imports Snapshot_Runs
begin

text \<open>
  Page copies without data. A write that covers a whole page of a parent which is not in
  memory queues a page copy that holds no data; the thread reads the old contents from the disk
  of the parent when it gets to it. Nothing keeps the page of the parent from being written
  back before that.
\<close>

section \<open>The page copy that a whole-page write leaves\<close>

text \<open>A page copy that the snapshots of a block wait for.\<close>

lemma write_par_blocks_cold:
  assumes "scorw_write_par_blocks e (i_vfs_inode (scorws w pa)) pos len (pg, False) w = Ret w'"
    and "family w pa" and "\<forall>f. pages_env_ok (fenv e f)" and "pos = blk * PAGE_SIZE" and "len = PAGE_SIZE" and "pos + len \<le> 2 ^ 43"
    and "in_snapshot w pa j c blk" and "\<not> has_block w c blk" and "find_pc w blk (i_vfs_inode (scorws w pa)) j = None"
  shows "\<exists>a t w1. touched (friends w pa) w w1 \<and> pc_added w1 w' pa a blk False pg t \<and> t j"
proof -
  let ?p = "i_vfs_inode (scorws w pa)"
  have c: "i_child_scorw_inode (scorws w pa) j = Some c" "int (blk * PAGE_SIZE) < i_copy_size (scorws w c)"
    using assms(7) by (simp_all add: in_snapshot_def)
  have blk: "blk = pos div PAGE_SIZE" "0 < len" using assms(4,5) by simp_all
  have full: "(pos \<le> blk * PAGE_SIZE \<and> blk * PAGE_SIZE + PAGE_SIZE \<le> pos + len) = True" using assms(4,5) by simp
  note run = write_par_blocks_unfold [OF assms(2) blk(2) assms(6) blk(1), of e pg False, unfolded assms(1) full, symmetric]
  have "\<not> last_block (int (i_size (file_of w ?p))) < blk" using block_past_end(1) [OF assms(2) c(1), of blk] c(2) by auto
  then obtain t w1 where t: "oloop (find_target e ?p pa blk) (child_slots (scorws w pa)) (\<lambda>_. False, w) = Ret (t, w1)"
    and r: "(if \<not> (\<exists>j\<in>set (child_slots (scorws w pa)). t j) then Ret w1 else if \<not> mem_ok e then Oops
      else scorw_prepare_page_copy e blk pa (next_addr w1) True (pg, False) t (w1\<lparr>next_addr := next_addr w1 + 1\<rparr>)) = Ret w'"
    using run by (auto simp: obind_Ret_iff)
  note tf = targets_found [OF t assms(2,3)]
  have tj: "int j \<le> i_last_child_index (scorws w pa)" "t j"
    using tf(2) [of j] assms(7-9) by (auto simp: is_target_def in_snapshot_def has_block_def)
  then have "\<exists>j\<in>set (child_slots (scorws w pa)). t j" by (auto simp: set_child_slots)
  with r have "scorw_prepare_page_copy e blk pa (next_addr w1) True (pg, False) t (w1\<lparr>next_addr := next_addr w1 + 1\<rparr>) = Ret w'"
    by (auto split: if_splits)
  from prepare_page_copy_effect [OF this] familyD(4) [OF family_touched [OF tf(1) assms(2)]]
  have "pc_added w1 w' pa (next_addr w1) blk False pg (\<lambda>j. int j \<le> i_last_child_index (scorws w pa) \<and> t j)"
    by (simp add: pc_added_def queue_ok_def links_eqD [OF touchedD(1) [OF tf(1)]])
  with tf(1) tj show ?thesis by blast
qed

text \<open>The page copy of the block at the end of the queue, and the new page in memory.\<close>

definition cold_at :: "world \<Rightarrow> addr \<Rightarrow> nat \<Rightarrow> nat \<Rightarrow> page \<Rightarrow> addr \<Rightarrow> bool" where
  "cold_at w pa j blk q pc \<longleftrightarrow> pc \<in> set (page_copy_llist w) \<and> pc_par (page_copies w pc) = pa \<and> block_num (page_copies w pc) = blk \<and>
     is_target_child (page_copies w pc) j \<and> \<not> data_page_loaded (page_copies w pc) \<and>
     cache (file_of w (i_vfs_inode (scorws w pa))) blk = Some q"

lemma write_page_cold:
  assumes "write_page e True (i_vfs_inode (scorws w pa)) pos bs k w = Ret (st, w')" and "family w pa"
    and "\<forall>f. pages_env_ok (fenv e f)" and "pos = blk * PAGE_SIZE" "length bs = PAGE_SIZE" "k = PAGE_SIZE" and "pos + length bs \<le> 2 ^ 43"
    and "in_snapshot w pa j c blk" and "\<not> has_block w c blk" and "find_pc w blk (i_vfs_inode (scorws w pa)) j = None"
    and "cache (file_of w (i_vfs_inode (scorws w pa))) blk = None"
  shows "st = int PAGE_SIZE \<and> (\<exists>pc. page_copy_llist w' = page_copy_llist w @ [pc] \<and> cold_at w' pa j blk (memcpy_page (junk_page e) 0 bs) pc) \<and>
    \<not> has_block w' c blk"
proof -
  let ?p = "i_vfs_inode (scorws w pa)" and ?q = "memcpy_page (junk_page e) 0 bs"
  have d: "pos div PAGE_SIZE = blk" "pos mod PAGE_SIZE = 0" using assms(4) by simp_all
  have c: "i_child_scorw_inode (scorws w pa) j = Some c" "int (blk * PAGE_SIZE) < i_copy_size (scorws w c)"
    using assms(8) by (simp_all add: in_snapshot_def)
  have fi: "scorw_find_inode w ?p = Some pa" using familyD(2) [OF assms(2)] by (simp add: scorw_find_inode_def)
  obtain held w1 where b: "scorw_read_barrier_begin e pa 0 (\<lambda>_. False) w = Ret (held, w1)"
    using assms(1) fi by (auto simp: write_page_def write_par_begin_def obind_Ret_iff d)
  note t1 = touched_barrier_begin [OF b]
  note l1 = touchedD(1) [OF t1] and f1 = family_touched [OF t1 assms(2)]
  have p1: "file_of w1 ?p = file_of w ?p" by (rule touchedD(7) [OF t1 [of "{}"]]) simp
  have wb: "write_begin (fenv e ?p) (junk_page e) (file_of w1 ?p) pos (length bs) = Some (junk_page e)"
    using assms(3,5,11) p1 by (simp add: write_begin_def d pages_env_okD)
  have ed: "end_res (fenv e ?p) (pos div PAGE_SIZE) = End_Done" using assms(3) pages_env_okD(3) by blast
  obtain w2 where w2: "scorw_write_par_blocks e ?p pos (length bs) (junk_page e, False) w1 = Ret w2"
    and w3: "write_par_end ?p pos (Some held) (fill_page ?p pos (junk_page e) bs PAGE_SIZE w2) = Ret w'" and st: "st = int PAGE_SIZE"
    using assms(1,5,6,11) b fi wb p1
    by (auto simp: write_page_def write_par_begin_def obind_Ret_iff Let_def d end_page_done [OF ed] copied_in_def)
  have vi: "i_vfs_inode (scorws w1 pa) = ?p" by (rule links_eqD(2) [OF l1])
  have pc1: "find_pc w1 blk ?p j = None"
    using assms(10) find_pc_cong [of w1 w blk ?p j] touchedD(2,4) [OF t1] links_eqD(1) [OF l1] by simp
  have hb1: "\<not> has_block w1 c blk" using has_block_touched [OF t1 family_child(4) [OF assms(2) c(1)] c(2)] assms(9) by simp
  have is1: "in_snapshot w1 pa j c blk" using in_snapshot_links [OF l1] assms(8) by simp
  obtain a t u where u: "touched (friends w1 pa) w1 u" "pc_added u w2 pa a blk False (junk_page e) t" "t j"
    using write_par_blocks_cold [of e w1 pa pos "length bs" "junk_page e" w2 blk j c] w2 vi f1 assms(3-5,7) is1 hb1 pc1 by auto
  note ad = pc_addedD [OF u(2)]
  have pu: "file_of w2 ?p = file_of w ?p"
    using touchedD(7) [OF u(1) family_friends(1) [OF f1]] p1 by (simp add: vi ad(7))
  define w4 where "w4 = fill_page ?p pos (junk_page e) bs PAGE_SIZE w2"
  have w4: "w4 = set_file ?p (write_end (file_of w2 ?p) blk pos PAGE_SIZE ?q) w2"
    using assms(5) by (simp add: w4_def fill_page_def d)
  have t5: "touched F w4 w'" for F
    using w3 unfolding w4_def [symmetric] by (auto simp: write_par_end_def touched_barrier_end split: option.splits)
  have lw: "links (scorws w' x) = links (scorws w x)" for x
    using touchedD(1) [OF t5] ad(6) touchedD(1) [OF u(1)] l1 by (simp add: w4)
  have q: "page_copy_llist w' = page_copy_llist w @ [a]" "page_copies w' a = new_pc blk pa False (junk_page e) t"
    using touchedD(2,3) [OF t5] ad(1,4) touchedD(3) [OF u(1)] touchedD(3) [OF t1] by (simp_all add: w4)
  have "cache (file_of w' ?p) blk = Some ?q"
    using touchedD(7) [OF t5 [of "{}"], of ?p] by (simp add: w4 write_end_def put_dirty_def)
  then have "cold_at w' pa j blk ?q a" using q u(3) by (simp add: cold_at_def new_pc_def links_eqD [OF lw])
  moreover have "\<not> has_block w' c blk"
  proof -
    obtain f where f: "i_frnd_vfs_inode (scorws w c) = Some f" "f \<noteq> ?p" using family_child(4) [OF assms(2) c(1)] by (rule memberD)
    have m: "member w1 (i_vfs_inode (scorws w1 pa)) j c" by (rule family_child(4) [OF f1]) (use c(1) in \<open>simp add: links_eqD [OF l1]\<close>)
    have "\<not> has_block u c blk" using has_block_touched [OF u(1) m] c(2) hb1 by (simp add: links_eqD [OF l1])
    moreover have "file_of w' f = file_of u f" using touchedD(7) [OF t5 [of "{}"], of f] f(2) by (simp add: w4 ad(7))
    ultimately show ?thesis using f(1) by (simp add: has_block_def links_eqD [OF lw] links_eqD [OF l1] links_eqD [OF touchedD(1) [OF u(1)]])
  qed
  ultimately show ?thesis using st q(1) by blast
qed

section \<open>Written back too early\<close>

lemma cold_copy_written_back:
  assumes "family w pa" and "i_child_scorw_inode (scorws w pa) j = Some c"
    and "pc \<in> set (page_copy_llist w)" and "pc_par (page_copies w pc) = pa" and "is_target_child (page_copies w pc) j"
    and "\<not> data_page_loaded (page_copies w pc)" and "\<not> has_block w c (block_num (page_copies w pc))"
    and "cache (file_of w (i_vfs_inode (scorws w pa))) (block_num (page_copies w pc)) = Some q"
    and "w' = set_file (i_vfs_inode (scorws w pa)) (writeback_page (file_of w (i_vfs_inode (scorws w pa))) (block_num (page_copies w pc))) w"
  shows "snapshot w' c (block_num (page_copies w pc)) =
    Some (cut_page q (page_copy_len (i_copy_size (scorws w c)) (block_num (page_copies w pc))))"
proof -
  let ?p = "i_vfs_inode (scorws w pa)"
  obtain f where m: "i_par_vfs_inode (scorws w c) = Some ?p" "i_at_index (scorws w c) = int j" "i_frnd_vfs_inode (scorws w c) = Some f" "f \<noteq> ?p"
    using family_child(4) [OF assms(1,2)] by (rule memberD)
  have "block_num (page_copies w pc) * PAGE_SIZE < i_size (file_of w ?p)"
    using familyD(4) [OF assms(1)] assms(3,4) unfolding queue_ok_def by blast
  then have "pc_page w' ?p pc = Some q" using assms(6,8) by (simp add: pc_page_def Let_def assms(9) writeback_page_def)
  moreover have "find_pc w' b ?p j = find_pc w b ?p j" for b by (rule find_pc_cong) (simp_all add: assms(9))
  ultimately show ?thesis using find_pc_queued [OF assms(1,3-5)] m assms(7)
    by (simp add: snapshot_def child_page_def Let_def assms(9) has_block_def)
qed



text \<open>The system call, for one page that is copied from user memory at once.\<close>

lemma buffered_write_one_page:
  assumes "ext4_buffered_write_iter e filp intr seg ((False, PAGE_SIZE) # turns) (i_vfs_inode (scorws w pa)) bs (blk * PAGE_SIZE) w = Ret (n, w')"
    and "plain_parent w pa" and "length bs = PAGE_SIZE"
    and page: "\<And>st u. write_page e True (i_vfs_inode (scorws w pa)) (blk * PAGE_SIZE) bs PAGE_SIZE w = Ret (st, u) \<Longrightarrow> st = int PAGE_SIZE"
  shows "n = int PAGE_SIZE \<and> write_page e True (i_vfs_inode (scorws w pa)) (blk * PAGE_SIZE) bs PAGE_SIZE w = Ret (int PAGE_SIZE, w')"
proof -
  have tk: "take PAGE_SIZE bs = bs" "drop PAGE_SIZE bs = []" "min (PAGE_SIZE - blk * PAGE_SIZE mod PAGE_SIZE) (length bs) = PAGE_SIZE"
    using assms(3) by simp_all
  note run = assms(1) [unfolded plain_buffered_write [OF assms(2)] tk(3)]
  then obtain st u where wp: "write_page e True (i_vfs_inode (scorws w pa)) (blk * PAGE_SIZE) bs PAGE_SIZE w = Ret (st, u)"
    by (auto simp: obind_Ret_iff tk)
  with run page [OF wp] show ?thesis by (simp add: tk)
qed

text \<open>C28: a whole-page write to a page of a parent that is not in memory can lose the snapshot of
  a child. Let the parent be in use, not versioned and no child, the queue of page copies empty,
  and let the child not have its copy of the block yet. When the page is written back between
  the write and the next round of the page copy thread, that round marks the block as copied and
  leaves in the child's file the bytes that were written to the parent, not those the parent had
  before.\<close>

theorem cold_copy_lost:
  assumes "plain_parent w pa" and "page_copy_llist w = []" and "in_snapshot w pa j c blk" and "\<not> has_block w c blk"
    and "cache (file_of w (i_vfs_inode (scorws w pa))) blk = None" and "length bs = PAGE_SIZE" and "blk * PAGE_SIZE + PAGE_SIZE \<le> 2 ^ 43"
    and "\<forall>f. pages_env_ok (fenv e f)"
    and "ext4_buffered_write_iter e filp intr seg ((False, PAGE_SIZE) # turns) (i_vfs_inode (scorws w pa)) bs (blk * PAGE_SIZE) w = Ret (n, w1)"
    and "w2 = set_file (i_vfs_inode (scorws w pa)) (writeback_page (file_of w1 (i_vfs_inode (scorws w pa))) blk) w1"
    and "scorw_page_copy_thread_round periodic e False False w2 = Ret (Continue w3)"
  shows "n = int PAGE_SIZE \<and> has_block w3 c blk \<and>
    (\<exists>q. view (file_of w3 (i_vfs_inode (scorws w c))) blk = Some q \<and> (\<forall>k < page_copy_len (i_copy_size (scorws w c)) blk. q k = bs ! k))"
proof -
  let ?p = "i_vfs_inode (scorws w pa)" and ?q = "memcpy_page (junk_page e) 0 bs"
  have f: "family w pa" and use: "0 < i_process_usage_count (scorws w pa)" using assms(1) by (simp_all add: plain_parent_def)
  have c: "i_child_scorw_inode (scorws w pa) j = Some c" "int (blk * PAGE_SIZE) < i_copy_size (scorws w c)"
    using assms(3) by (simp_all add: in_snapshot_def)
  have fp: "find_pc w blk ?p j = None" using find_pc_rev [OF familyD(4) [OF f]] assms(2) by simp
  have b: "blk * PAGE_SIZE + length bs \<le> 2 ^ 43" using assms(6,7) by simp
  note cold = write_page_cold [OF _ f assms(8) refl assms(6) refl b assms(3,4) fp assms(5)]
  have wr: "n = int PAGE_SIZE \<and> write_page e True ?p (blk * PAGE_SIZE) bs PAGE_SIZE w = Ret (int PAGE_SIZE, w1)"
    by (rule buffered_write_one_page [OF assms(9,1,6)]) (use cold in blast)
  then have wp: "write_page e True ?p (blk * PAGE_SIZE) bs PAGE_SIZE w = Ret (int PAGE_SIZE, w1)" by blast
  obtain pc where pc: "page_copy_llist w1 = [pc]" "cold_at w1 pa j blk ?q pc" and hb: "\<not> has_block w1 c blk"
    using cold [OF wp] assms(2) by auto
  have k1: "keeps pa w w1" by (rule write_page_keeps [OF wp f assms(8) _ _ _ b]) (use assms(6) in auto)
  note f1 = keepsD(1) [OF k1] and l1 = links_eqD [OF keepsD(2) [OF k1]]
  have w2: "w2 = set_file (i_vfs_inode (scorws w1 pa)) (writeback_page (file_of w1 (i_vfs_inode (scorws w1 pa))) blk) w1"
    using assms(10) by (simp add: l1)
  note s = writeback_same [OF w2] and f2 = family_writeback [OF f1 w2]
  have at: "pc \<in> set (page_copy_llist w1)" "pc_par (page_copies w1 pc) = pa" "block_num (page_copies w1 pc) = blk"
    "is_target_child (page_copies w1 pc) j" "\<not> data_page_loaded (page_copies w1 pc)" "cache (file_of w1 (i_vfs_inode (scorws w1 pa))) blk = Some ?q"
    using pc(2) by (simp_all add: cold_at_def)
  have c1: "i_child_scorw_inode (scorws w1 pa) j = Some c" using c(1) by (simp add: l1)
  have snap2: "snapshot w2 c blk = Some (cut_page ?q (page_copy_len (i_copy_size (scorws w1 c)) blk))"
    using cold_copy_written_back [OF f1 c1 at(1,2,4,5), of ?q w2] at(3,6) hb w2 by simp
  have q2: "page_copy_llist w2 = [pc]" "page_copies w2 = page_copies w1" using pc(1) by (simp_all add: w2)
  have "scorw_process_page_copy e pc w2 = Ret w3"
    using assms(11) q2(1) by (auto simp: scorw_page_copy_thread_round_def scorw_get_page_copy_to_process_def obind_Ret_iff)
  from process_page_copy_effect [OF this f2 assms(8)] at q2 use c
  have k3: "keeps pa w2 w3" and hb3: "has_block w3 c blk" by (auto simp: s(6) l1)
  have "in_snapshot w2 pa j c blk" using assms(3) in_snapshot_links [of w2 w] k1 by (simp add: s(6) keepsD(2))
  then have "snapshot w3 c blk = Some (cut_page ?q (page_copy_len (i_copy_size (scorws w c)) blk))"
    using keepsD(3) [OF k3] snap2 by (simp add: l1)
  moreover have l3: "links (scorws w3 a) = links (scorws w a)" for a using keepsD(2) [OF k3] keepsD(2) [OF k1] by (simp add: s(6))
  ultimately obtain q where q: "view (file_of w3 (i_vfs_inode (scorws w c))) blk = Some q"
    "cut_page q (page_copy_len (i_copy_size (scorws w c)) blk) = cut_page ?q (page_copy_len (i_copy_size (scorws w c)) blk)"
    using hb3 by (auto simp: snapshot_def child_page_def Let_def has_block_def links_eqD [OF l3])
  have "q k = bs ! k" if k: "k < page_copy_len (i_copy_size (scorws w c)) blk" for k
  proof -
    have "k < PAGE_SIZE" using k by (auto simp: page_copy_len_def copy_len_def Let_def split: if_splits)
    then show ?thesis using fun_cong [OF q(2), of k] k assms(6) by (simp add: cut_page_def memcpy_page_def)
  qed
  with wr hb3 q(1) show ?thesis by blast
qed

definition demo_page :: "byte list" where
  "demo_page = replicate PAGE_SIZE 9"

lemma demo_page_length [simp]: "length demo_page = PAGE_SIZE" "take PAGE_SIZE demo_page = demo_page" "drop PAGE_SIZE demo_page = []"
  by (simp_all add: demo_page_def)

lemma demo_cold:
  "\<exists>w1 w2 u. ext4_buffered_write_iter demo_kernel 0 False id [(False, PAGE_SIZE)] 1 demo_page 0 demo = Ret (int PAGE_SIZE, w1) \<and>
   w2 = set_file 1 (writeback_page (file_of w1 1) 0) w1 \<and>
   scorw_get_page_copy_to_process w2 = Some 20 \<and> pc_par (page_copies w2 20) = 10 \<and>
   obind (down_read 10 w2) (copy_to_child demo_kernel 20 10 0) = Ret u \<and>
   (\<forall>j>0. i_child_scorw_inode (scorws u 10) j = None) \<and> pc_par (page_copies u 20) = 10 \<and> i_vfs_inode (scorws u 10) = 1 \<and>
   \<not> i_vfs_inode_lock (inodes u 1) \<and> i_scorw_inode (inodes u 1) = Some 10 \<and> 0 < i_process_usage_count (scorws u 10)"
  by (simp add: write_eval demo_simps Let_def scorw_get_page_copy_to_process_def writeback_page_def)
    (simp add: thread_eval write_eval demo_simps Let_def s32_def scorw_get_page_def empty_amap_def scorw_find_uncopied_block_list_def
      scorw_set_bit_def view_def scorw_dec_yet_to_copy_blocks_count_def)

theorem cold_copy_lost_witness:
  "\<exists>w1 w2 w3 q. ext4_buffered_write_iter demo_kernel 0 False id [(False, PAGE_SIZE)] 1 demo_page 0 demo = Ret (int PAGE_SIZE, w1) \<and>
     w2 = set_file 1 (writeback_page (file_of w1 1) 0) w1 \<and>
     scorw_page_copy_thread_round Ret demo_kernel False False w2 = Ret (Continue w3) \<and> has_block w3 11 0 \<and>
     snapshot demo 11 0 = Some (cut_page (\<lambda>_. 7) PAGE_SIZE) \<and> view (file_of w3 2) 0 = Some q \<and> q 0 = 9"
proof -
  obtain w1 w2 u where w: "ext4_buffered_write_iter demo_kernel 0 False id [(False, PAGE_SIZE)] 1 demo_page 0 demo = Ret (int PAGE_SIZE, w1)"
    "w2 = set_file 1 (writeback_page (file_of w1 1) 0) w1"
    and q: "scorw_get_page_copy_to_process w2 = Some 20" "pc_par (page_copies w2 20) = 10"
    and u: "obind (down_read 10 w2) (copy_to_child demo_kernel 20 10 0) = Ret u" "\<forall>j>0. i_child_scorw_inode (scorws u 10) j = None"
    and up: "pc_par (page_copies u 20) = 10" "i_vfs_inode (scorws u 10) = 1" "\<not> i_vfs_inode_lock (inodes u 1)"
      "i_scorw_inode (inodes u 1) = Some 10" "0 < i_process_usage_count (scorws u 10)"
    using demo_cold by blast
  from round_first_child [OF q u up] obtain w3 where w3: "scorw_page_copy_thread_round Ret demo_kernel False False w2 = Ret (Continue w3)" by blast
  have p: "i_vfs_inode (scorws demo 10) = 1" "i_vfs_inode (scorws demo 11) = 2" by (simp_all add: demo_def)
  have s: "page_copy_llist demo = []" "in_snapshot demo 10 0 11 0" "\<not> has_block demo 11 0" "cache (file_of demo 1) 0 = None"
    "page_copy_len (i_copy_size (scorws demo 11)) 0 = PAGE_SIZE" "snapshot demo 11 0 = Some (cut_page (\<lambda>_. 7) PAGE_SIZE)"
    by (simp_all add: in_snapshot_def demo_simps scorw_is_in_range_def has_block_def copied_def view_def page_copy_len_def copy_len_def
        snapshot_def child_page_def find_pc_def)
  have "int PAGE_SIZE = int PAGE_SIZE \<and> has_block w3 11 0 \<and> (\<exists>q. view (file_of w3 (i_vfs_inode (scorws demo 11))) 0 = Some q \<and>
      (\<forall>k < page_copy_len (i_copy_size (scorws demo 11)) 0. q k = demo_page ! k))"
    by (rule cold_copy_lost [OF demo_plain s(1-3) _ demo_page_length(1) _ demo_env(1) _ _ w3, where filp = 0 and intr = False and seg = id and turns = "[]"])
      (use w p s(4) in simp_all)
  moreover have "demo_page ! 0 = 9" by (simp add: demo_page_def)
  ultimately show ?thesis using w w3 s(5,6) p(2) by force
qed

end
