(* ===== verification/Child_Writes.thy ===== *)
theory Child_Writes
  imports Cold_Copies
begin

text \<open>
  Writes to a child: a write inside a block of the snapshot lands on top of what the
  child kept of its parent, wherever that is.
\<close>

section \<open>The block before the write\<close>

lemma page_copy_len_full:
  assumes "int (blk * PAGE_SIZE + PAGE_SIZE) \<le> csize" and "csize \<le> 2 ^ 32"
  shows "page_copy_len csize blk = PAGE_SIZE"
proof -
  define off where "off = blk * PAGE_SIZE"
  have o: "int off + int PAGE_SIZE \<le> csize" using assms(1) by (simp add: off_def)
  have "(csize - int off) mod 2 ^ 64 = csize - int off" using o assms(2) by (intro mod_pos_pos_trivial) auto
  then have "copy_len csize off = (if PAGE_SIZE \<le> nat (csize - int off) then PAGE_SIZE else nat (csize - int off))"
    by (simp only: copy_len_def Let_def)
  moreover have "PAGE_SIZE \<le> nat (csize - int off)" using o by simp
  ultimately show ?thesis by (simp only: page_copy_len_def off_def [symmetric]) simp
qed

definition same_page :: "page option \<Rightarrow> page option \<Rightarrow> bool" where
  "same_page p q \<longleftrightarrow> (\<exists>x y. p = Some x \<and> q = Some y \<and> (\<forall>k<PAGE_SIZE. x k = y k))"

lemma same_page_cut: "map_option (\<lambda>p. cut_page p PAGE_SIZE) p = q \<Longrightarrow> p \<noteq> None \<Longrightarrow> same_page p q"
  by (auto simp: same_page_def cut_page_def)

text \<open>What a block of a child is copied from the parent.\<close>

lemma copy_page_from_parent:
  assumes "scorw_copy_page e c blk w = Ret (ret, w')" and "family w pa" and "\<forall>f. pages_env_ok (fenv e f)"
    and "i_child_scorw_inode (scorws w pa) j = Some c" and "\<not> has_block w c blk"
    and "find_pc w blk (i_vfs_inode (scorws w pa)) j = None" and "int (blk * PAGE_SIZE + PAGE_SIZE) \<le> i_copy_size (scorws w c)"
  shows "family w' pa \<and> (\<forall>a. links (scorws w' a) = links (scorws w a)) \<and>
    same_page (view (file_of w' (i_vfs_inode (scorws w c))) blk) (snapshot w c blk)"
proof -
  let ?p = "i_vfs_inode (scorws w pa)" and ?c = "i_vfs_inode (scorws w c)"
  obtain f where m: "i_par_vfs_inode (scorws w c) = Some ?p" "i_at_index (scorws w c) = int j" "i_copy_size (scorws w c) \<le> 2 ^ 32"
    "i_copy_size (scorws w c) \<le> int (i_size (file_of w ?p))" "disk (file_of w ?c) blk \<noteq> None" "?c \<noteq> ?p"
    "i_frnd_vfs_inode (scorws w c) = Some f" "f \<noteq> ?p"
    using family_child(4) [OF assms(2,4)] by (rule memberD)
  have len: "page_copy_len (i_copy_size (scorws w c)) blk = PAGE_SIZE" by (rule page_copy_len_full [OF assms(7) m(3)])
  have inside: "blk < i_size (file_of w ?p) div PAGE_SIZE" using assms(7) m(4) by simp
  obtain p f1 where g: "scorw_get_page (fenv e ?p) (file_of w ?p) blk = (Some p, f1)"
    and w': "(ret, w') = write_copy e ?c blk PAGE_SIZE p (set_file ?p f1 w)"
    using assms(1) m(1) len by (auto simp: scorw_copy_page_def Let_def split: prod.splits option.splits)
  have pg: "view (file_of w ?p) blk = Some p"
    using g inside by (auto simp: scorw_get_page_def view_def split: option.splits if_splits)
  let ?u = "set_file ?p f1 w"
  have t: "touched {?p} w ?u" by (rule touched_read) (use inside_eq_get_page [of "file_of w ?p" "fenv e ?p" blk] g in simp_all)
  note fu = family_touched [OF t assms(2)]
  have w'2: "w' = set_file (i_vfs_inode (scorws ?u c)) (write_end (file_of ?u (i_vfs_inode (scorws ?u c))) blk (blk * PAGE_SIZE) PAGE_SIZE (cut_page p PAGE_SIZE)) ?u"
    using w' write_copy_effect [of e ?c ?u blk PAGE_SIZE p] assms(3) m(5,6) by simp
  have nb: "\<not> copied (file_of ?u (the (i_frnd_vfs_inode (scorws ?u c)))) blk" using assms(5) m(7,8) by (simp add: has_block_def)
  have k: "keeps pa ?u w'" by (rule keeps_child_written [OF fu _ nb w'2, of j]) (simp add: assms(4))
  have "snapshot w c blk = Some (cut_page p PAGE_SIZE)"
    using assms(5,6) m(1,2) pg len by (simp add: snapshot_def child_page_def Let_def has_block_def)
  moreover have "view (file_of w' ?c) blk = Some (cut_page p PAGE_SIZE)" by (simp add: w'2)
  ultimately show ?thesis using keepsD(1,2) [OF k] by (simp add: same_page_def)
qed

lemma copy_before_write:
  assumes "(case find_pc w blk (i_vfs_inode (scorws w pa)) j of Some pc \<Rightarrow> scorw_copy_page_from_page_copy e pc c w | None \<Rightarrow> scorw_copy_page e c blk w) = Ret (ret, w')"
    and "family w pa" and "\<forall>f. pages_env_ok (fenv e f)" and "i_child_scorw_inode (scorws w pa) j = Some c" and "\<not> has_block w c blk"
    and "int (blk * PAGE_SIZE + PAGE_SIZE) \<le> i_copy_size (scorws w c)" and "scorw_is_in_range (scorws w c) blk"
  shows "family w' pa \<and> (\<forall>a. links (scorws w' a) = links (scorws w a)) \<and>
    same_page (view (file_of w' (i_vfs_inode (scorws w c))) blk) (snapshot w c blk)"
proof (cases "find_pc w blk (i_vfs_inode (scorws w pa)) j")
  case None
  with copy_page_from_parent [OF _ assms(2-5) _ assms(6)] assms(1) show ?thesis by simp
next
  case (Some pc)
  note q = find_pc_SomeD [OF Some familyD(4) [OF assms(2)]]
  have pc: "block_num (page_copies w pc) = blk" "is_target_child (page_copies w pc) j"
    using q(2) by (simp_all add: pc_matches_def Let_def)
  have par: "pc_par (page_copies w pc) = pa"
    using q familyD(1,4) [OF assms(2)] by (simp add: queue_ok_def pc_matches_def Let_def)
  have m: "i_copy_size (scorws w c) \<le> 2 ^ 32" "disk (file_of w (i_vfs_inode (scorws w c))) blk \<noteq> None"
    using family_child(4) [OF assms(2,4)] by (auto simp: member_def Let_def)
  have c: "ret = 0 \<and> advance pa w w' \<and> map_option (\<lambda>p. cut_page p (page_copy_len (i_copy_size (scorws w' c)) (block_num (page_copies w pc))))
      (view (file_of w' (i_vfs_inode (scorws w' c))) (block_num (page_copies w pc))) = snapshot w' c (block_num (page_copies w pc))"
    by (rule copy_from_page_copy [OF _ assms(2-4) q(1) par pc(2)]) (use assms(1,5,6) Some pc(1) in simp_all)
  then have k: "keeps pa w w'" using advanceD(1) by blast
  note l = links_eqD [OF keepsD(2) [OF k]]
  have "in_snapshot w pa j c blk" using assms(4,6,7) by (simp add: in_snapshot_def)
  then have s: "snapshot w' c blk = snapshot w c blk" by (rule keepsD(3) [OF k])
  have "disk (file_of w' (i_vfs_inode (scorws w' c))) blk \<noteq> None"
    using family_child(4) [OF keepsD(1) [OF k], of j c] assms(4) by (simp add: l member_def Let_def)
  then have "view (file_of w' (i_vfs_inode (scorws w' c))) blk \<noteq> None" by (auto simp: view_def split: option.splits)
  then have "same_page (view (file_of w' (i_vfs_inode (scorws w' c))) blk) (snapshot w' c blk)"
    by (intro same_page_cut) (use c pc(1) page_copy_len_full [OF assms(6) m(1)] in \<open>simp_all add: l\<close>)
  with k s show ?thesis by (simp add: keeps_def l)
qed

lemma prepare_block_base:
  assumes "prepare_block e c (i_vfs_inode (scorws w c)) offset len blk blk False blk w = Ret w'" and "family w pa"
    and "\<forall>f. pages_env_ok (fenv e f)" and "i_child_scorw_inode (scorws w pa) j = Some c"
    and "int (blk * PAGE_SIZE + PAGE_SIZE) \<le> i_copy_size (scorws w c)" and "scorw_is_in_range (scorws w c) blk"
  shows "family w' pa \<and> (\<forall>a. links (scorws w' a) = links (scorws w a)) \<and>
    (fully_overwritten offset len blk blk blk \<or> same_page (view (file_of w' (i_vfs_inode (scorws w c))) blk) (snapshot w c blk))"
proof -
  let ?p = "i_vfs_inode (scorws w pa)" and ?c = "i_vfs_inode (scorws w c)"
  obtain f where m: "i_par_vfs_inode (scorws w c) = Some ?p" "i_at_index (scorws w c) = int j" "i_copy_size (scorws w c) \<le> 2 ^ 32"
    "disk (file_of w ?c) blk \<noteq> None" "i_frnd_vfs_inode (scorws w c) = Some f" "friend_covers (file_of w f) (i_copy_size (scorws w c))"
    using family_child(4) [OF assms(2,4)] by (rule memberD)
  have b: "int (blk * PAGE_SIZE) < i_copy_size (scorws w c)" using assms(5) by simp
  have f: "f \<in> friends w pa" using assms(4) m(5) by (auto simp: friends_def)
  obtain ok w1 dn w2 where w1: "get_block_lock e c blk COPYING w = Ret (ok, w1)" and w2: "block_copied e c blk w1 = Ret (dn, w2)"
    using assms(1) by (auto simp: prepare_block_def obind_Ret_iff simp del: obind_assoc)
  have t1: "touched (friends w pa) w w1" by (rule touched_get_block_lock [OF w1])
  note l1 = links_eqD [OF touchedD(1) [OF t1]]
  have t2: "touched (friends w pa) w1 w2" by (rule touched_block_copied [OF w2 _ f]) (simp add: l1 m(5))
  have dn: "dn = has_block w2 c blk"
    using block_copied_value [OF w2 _ inside_eq_friend_covers [OF touchedD(8) [OF t1] m(6)] b] assms(3) m(5) b
      has_block_touched [OF t2 member_touched [OF t1 family_child(4) [OF assms(2,4)]]]
    by (simp add: l1 has_block_def)
  note t12 = touched_trans [OF t1 t2]
  have rest: "(if dn then Ret (put_block_lock c blk COPYING w2)
     else obind (scorw_child_version_cnt_inc e ?c w2) (\<lambda>w3.
       if fully_overwritten offset len blk blk blk then Ret w3
       else (case i_par_vfs_inode (scorws w3 c) of None \<Rightarrow> Oops
          | Some par \<Rightarrow> obind (scorw_find_page_copy w3 blk par (i_at_index (scorws w3 c))) (\<lambda>pc.
              obind (case pc of Some pc \<Rightarrow> scorw_copy_page_from_page_copy e pc c w3 | None \<Rightarrow> scorw_copy_page e c blk w3) (\<lambda>(_, w4). Ret w4))))) = Ret w'"
    using assms(1) w1 w2 by (simp add: prepare_block_def cong: if_cong)
  show ?thesis
  proof (cases dn)
    case True
    have t: "touched (friends w pa) w w'" using rest True touched_trans [OF t12 touched_put_block_lock] by auto
    have "has_block w c blk" using has_block_touched [OF t12 family_child(4) [OF assms(2,4)] b] dn True by simp
    moreover have "file_of w' ?c = file_of w ?c" by (rule touchedD(7) [OF t family_friends(2) [OF assms(2,4)]])
    moreover have "view (file_of w ?c) blk \<noteq> None" using m(4) by (auto simp: view_def split: option.splits)
    ultimately have "same_page (view (file_of w' ?c) blk) (snapshot w c blk)"
      using page_copy_len_full [OF assms(5) m(3)]
      by (intro same_page_cut) (simp_all add: snapshot_def child_page_def Let_def has_block_def)
    with family_touched [OF t assms(2)] touchedD(1) [OF t] show ?thesis by simp
  next
    case False
    obtain w3 where w3: "scorw_child_version_cnt_inc e ?c w2 = Ret w3" using rest False by (auto simp: obind_Ret_iff)
    note t = touched_trans [OF t12 touched_version_cnt_inc [OF w3]]
    note f3 = family_touched [OF t assms(2)] and l3 = links_eqD [OF touchedD(1) [OF t]]
    have c3: "i_child_scorw_inode (scorws w3 pa) j = Some c" "int (blk * PAGE_SIZE + PAGE_SIZE) \<le> i_copy_size (scorws w3 c)"
      using assms(4,5) by (simp_all add: l3)
    have nb: "\<not> has_block w3 c blk"
      using has_block_touched [OF t family_child(4) [OF assms(2,4)] b] has_block_touched [OF t12 family_child(4) [OF assms(2,4)] b] dn False by simp
    have snap: "snapshot w3 c blk = snapshot w c blk"
      by (rule snapshot_touched [OF t family_child(4) [OF assms(2,4)] b family_friends(1) [OF assms(2)] family_friends(2) [OF assms(2,4)]])
    show ?thesis
    proof (cases "fully_overwritten offset len blk blk blk")
      case True
      with rest False w3 f3 touchedD(1) [OF t] show ?thesis by simp
    next
      case part: False
      have pc: "scorw_find_page_copy w3 blk ?p (int j) = Ret (find_pc w3 blk ?p j)"
        using family_child(1) [OF assms(2,4)] by (simp add: scorw_find_page_copy_def find_pc_def)
      obtain ret where cp: "(case find_pc w3 blk ?p j of Some pc \<Rightarrow> scorw_copy_page_from_page_copy e pc c w3 | None \<Rightarrow> scorw_copy_page e c blk w3) = Ret (ret, w')"
        using rest False w3 part m(1,2) pc by (auto simp: l3 obind_Ret_iff)
      then have "(case find_pc w3 blk (i_vfs_inode (scorws w3 pa)) j of Some pc \<Rightarrow> scorw_copy_page_from_page_copy e pc c w3 | None \<Rightarrow> scorw_copy_page e c blk w3) = Ret (ret, w')"
        by (simp add: l3)
      from copy_before_write [OF this f3 assms(3) c3(1) nb c3(2)] assms(6) in_range_links [OF touchedD(1) [OF t]] snap touchedD(1) [OF t]
      show ?thesis by (simp add: l3)
    qed
  qed
qed

section \<open>The write\<close>

lemma finish_block_effect:
  assumes "finish_block e c False blk w = Ret w'" and "member w p j c" and "pages_env_ok (fenv e (the (i_frnd_vfs_inode (scorws w c))))"
    and "int (blk * PAGE_SIZE) < i_copy_size (scorws w c)"
  shows "has_block w' c blk \<and> file_of w' (i_vfs_inode (scorws w c)) = file_of w (i_vfs_inode (scorws w c))"
proof -
  obtain f where m: "i_frnd_vfs_inode (scorws w c) = Some f" "f \<noteq> i_vfs_inode (scorws w c)" "friend_covers (file_of w f) (i_copy_size (scorws w c))"
    using assms(2) by (rule memberD)
  obtain dn w1 where w1: "block_copied e c blk w = Ret (dn, w1)"
    using assms(1) by (auto simp: finish_block_def obind_Ret_iff)
  have t1: "touched {f} w w1" by (rule touched_block_copied [OF w1 m(1)]) simp
  have dn: "dn = has_block w c blk" using block_copied_value [OF w1 m(1,3) assms(4)] assms(3) m(1) by (simp add: has_block_def)
  have env: "pages_env_ok (fenv e f)" using assms(3) m(1) by simp
  have c1: "file_of w1 (i_vfs_inode (scorws w c)) = file_of w (i_vfs_inode (scorws w c))" by (rule touchedD(7) [OF t1]) (use m(2) in simp)
  have l1: "i_frnd_vfs_inode (scorws w1 c) = Some f" using links_eqD(4) [OF touchedD(1) [OF t1]] m(1) by simp
  show ?thesis
  proof (cases dn)
    case True
    then show ?thesis using assms(1) w1 dn has_block_touched [OF t1 assms(2,4)] c1 by (simp add: finish_block_def)
  next
    case False
    obtain n where n: "friend_ok n (file_of w1 f)" "i_copy_size (scorws w c) \<le> int (n * PAGE_BLOCKS * PAGE_SIZE)"
      using inside_eq_friend_covers [OF touchedD(8) [OF t1] m(3)] by (auto simp: friend_covers_def)
    obtain g where g: "scorw_set_block_copied (fenv e f) (file_of w1 f) blk = Some g" "copied g blk"
      using set_block_copied_ok [OF n(1) block_in_friend(1) [OF n assms(4)] env] by blast
    have "w' = put_block_lock c blk COPYING (scorw_dec_yet_to_copy_blocks_count c 1 (set_file f g w1))"
      using assms(1) w1 False g(1) l1 by (simp add: finish_block_def mark_copied_def)
    then show ?thesis using g(2) l1 m(2) c1
      by (simp add: has_block_def put_block_lock_def scorw_dec_yet_to_copy_blocks_count_def)
  qed
qed

lemma write_blocks_one:
  assumes "offset mod PAGE_SIZE + len \<le> PAGE_SIZE" and "0 < len"
    and "int (offset div PAGE_SIZE * PAGE_SIZE) < csize" and "csize \<le> 2 ^ 32"
  shows "write_blocks csize offset len = (offset div PAGE_SIZE, offset div PAGE_SIZE)" "\<not> last_block csize < offset div PAGE_SIZE"
proof -
  define q r where "q = offset div PAGE_SIZE" and "r = offset mod PAGE_SIZE"
  have o: "offset = q * PAGE_SIZE + r" by (simp add: q_def r_def)
  have rl: "r + len \<le> PAGE_SIZE" using assms(1) by (simp only: r_def)
  have lb: "last_block csize = (nat csize - 1) div PAGE_SIZE"
    using last_block_pos [of "nat csize"] assms(3,4) by simp
  have ql: "q \<le> (nat csize - 1) div PAGE_SIZE" using assms(3) by (simp add: q_def [symmetric] less_eq_div_iff_mult_less_eq)
  have "q * PAGE_SIZE < 2 ^ 32" using assms(3,4) by (simp add: q_def [symmetric])
  then have qm: "q mod 2 ^ 32 = q" by simp
  have "(offset + len - 1) div PAGE_SIZE = q"
    using rl assms(2) by (intro div_nat_eqI) (simp_all add: o)
  with qm ql show "write_blocks csize offset len = (offset div PAGE_SIZE, offset div PAGE_SIZE)"
    by (simp only: write_blocks_def lb q_def [symmetric] Let_def) simp
  show "\<not> last_block csize < offset div PAGE_SIZE" using ql by (simp add: lb q_def [symmetric])
qed

text \<open>A block without a range, or whose first range says copy-on-write.\<close>

definition cow_block :: "scorw_inode \<Rightarrow> nat \<Rightarrow> bool" where
  "cow_block s blk \<longleftrightarrow> fst (snapx_get_range_info None s blk) = SNAPX_FLAG_COW"

lemma cow_block_in_range: "cow_block s blk \<Longrightarrow> scorw_is_in_range s blk"
  by (auto simp: cow_block_def snapx_get_range_info_def scorw_is_in_range_def Let_def split: option.splits if_splits)

lemma cow_block_no_ranges: "i_num_ranges s = 0 \<Longrightarrow> cow_block s blk"
  by (simp add: cow_block_def snapx_get_range_info_def)

lemma begin_one_block:
  assumes "scorw_write_child_blocks_begin e (i_vfs_inode (scorws w c)) offset len \<lparr>initialized = False, partial_cow = False, start_block = 0, end_block = 0\<rparr> w = Ret (error, shr, w')"
    and "family w pa" and "i_child_scorw_inode (scorws w pa) j = Some c" and "offset mod PAGE_SIZE + len \<le> PAGE_SIZE" and "0 < len"
    and "int (offset div PAGE_SIZE * PAGE_SIZE) < i_copy_size (scorws w c)" and "cow_block (scorws w c) (offset div PAGE_SIZE)"
  shows "error = 0 \<and> \<not> initialized shr \<and> \<not> partial_cow shr \<and>
    prepare_block e c (i_vfs_inode (scorws w c)) offset len (offset div PAGE_SIZE) (offset div PAGE_SIZE) False (offset div PAGE_SIZE) w = Ret w'"
proof -
  have m: "i_scorw_inode (inodes w (i_vfs_inode (scorws w c))) = Some c" "i_copy_size (scorws w c) \<le> 2 ^ 32"
    using family_child(4) [OF assms(2,3)] by (auto simp: member_def Let_def)
  note wb = write_blocks_one [OF assms(4,5,6) m(2)]
  obtain cr where "snapx_get_range_info None (scorws w c) (offset div PAGE_SIZE) = (SNAPX_FLAG_COW, cr)"
    using assms(7) by (cases "snapx_get_range_info None (scorws w c) (offset div PAGE_SIZE)") (simp add: cow_block_def)
  then show ?thesis
    using assms(1) m(1) wb
    by (auto simp: scorw_write_child_blocks_begin_def scorw_find_inode_def obind_Ret_iff Let_def)
qed

lemma write_one_page:
  assumes "write_loop e False seg i ((False, k) # turns) (length bs) pos bs 0 w = Ret (r, w')" and "length bs \<le> k"
    and "pages_env_ok (fenv e i)" and "disk (file_of w i) (pos div PAGE_SIZE) \<noteq> None" and "bs \<noteq> []"
  shows "\<exists>p. write_begin (fenv e i) (junk_page e) (file_of w i) pos (length bs) = Some p \<and> r = int (length bs) \<and>
    w' = fill_page i pos p bs (length bs) w"
proof -
  have "write_begin (fenv e i) (junk_page e) (file_of w i) pos (length bs) \<noteq> None"
    using assms(4) pages_env_okD(2) [OF assms(3)] by (auto simp: write_begin_def split: option.splits)
  then obtain p where p: "write_begin (fenv e i) (junk_page e) (file_of w i) pos (length bs) = Some p" by blast
  have "0 < length bs" using assms(5) by simp
  then have "r = int (length bs) \<and> w' = fill_page i pos p bs (length bs) w"
    using assms(1,2) p end_page_done [OF pages_env_okD(3) [OF assms(3)]]
    by (auto simp: write_page_def write_par_end_def copied_in_def Let_def min_def split: if_splits)
  with p show ?thesis by blast
qed

lemma write_begin_base:
  "write_begin e junk f pos len = Some p \<Longrightarrow> view f (pos div PAGE_SIZE) = Some p \<or> len = PAGE_SIZE"
  by (auto simp: write_begin_def view_def split: if_splits option.splits)

lemma fully_overwritten_one:
  assumes "fully_overwritten offset len b b b" and "offset mod PAGE_SIZE + len \<le> PAGE_SIZE" and "0 < len"
  shows "len = PAGE_SIZE"
proof -
  have o: "offset mod PAGE_SIZE = 0" "(offset + len) mod PAGE_SIZE = 0" using assms(1) by (auto simp: fully_overwritten_def)
  have "len mod PAGE_SIZE = 0" using o(2) mod_add_left_eq [of offset PAGE_SIZE len] unfolding o(1) by simp
  with assms(2,3) o(1) show ?thesis by (cases "len = PAGE_SIZE") auto
qed

lemma memcpy_same:
  assumes "\<And>i. i < PAGE_SIZE \<Longrightarrow> off \<le> i \<and> i < off + length bs \<or> p i = q i" and "i < PAGE_SIZE"
  shows "memcpy_page p off bs i = memcpy_page q off bs i"
  using assms by (auto simp: memcpy_page_def)

lemma perform_one_page:
  assumes "scorw_generic_perform_write e filp intr seg ((False, k) # turns) i bs pos False w = Ret (r, w')" and "length bs \<le> k"
    and "i_scorw_inode (inodes w i) = Some a" and "i_par_vfs_inode (scorws w a) \<noteq> None" and "pages_env_ok (fenv e i)"
    and "disk (file_of w i) (pos div PAGE_SIZE) \<noteq> None" and "bs \<noteq> []" and "pos mod PAGE_SIZE + length bs \<le> PAGE_SIZE"
  shows "\<exists>p. write_begin (fenv e i) (junk_page e) (file_of w i) pos (length bs) = Some p \<and> r = int (length bs) \<and>
    w' = set_file i (write_end (file_of w i) (pos div PAGE_SIZE) pos (length bs) (memcpy_page p (pos mod PAGE_SIZE) bs)) w"
proof -
  have bytes: "min (PAGE_SIZE - pos mod PAGE_SIZE) (length bs) = length bs" using assms(8) by linarith
  have "write_loop e False seg i ((False, k) # turns) (length bs) pos bs 0 w = Ret (r, w')"
    using assms(1,3,4) unfolding scorw_generic_perform_write_def bytes
    by (simp add: scorw_find_inode_def scorw_is_par_file_def scorw_is_child_inode_def bytes del: write_loop.simps)
  from write_one_page [OF this assms(2,5,6,7)] show ?thesis using assms(7) by (auto simp: fill_page_def)
qed

lemma overwrites_snapshot:
  assumes "fully_overwritten offset (length bs) b b b \<or> same_page (view f b) s" and "write_begin e junk f offset (length bs) = Some p"
    and "b = offset div PAGE_SIZE" and "offset mod PAGE_SIZE + length bs \<le> PAGE_SIZE" and "bs \<noteq> []" and "i < PAGE_SIZE"
  shows "memcpy_page p (offset mod PAGE_SIZE) bs i = memcpy_page (the s) (offset mod PAGE_SIZE) bs i"
proof (rule memcpy_same [OF _ assms(6)])
  fix i assume i: "i < PAGE_SIZE"
  have len: "0 < length bs" using assms(5) by simp
  show "offset mod PAGE_SIZE \<le> i \<and> i < offset mod PAGE_SIZE + length bs \<or> p i = the s i"
  proof (cases "length bs = PAGE_SIZE")
    case False
    then have "same_page (view f b) s" "view f b = Some p"
      using assms(1,3) fully_overwritten_one [OF _ assms(4) len] write_begin_base [OF assms(2)] by auto
    then show ?thesis using i by (auto simp: same_page_def)
  qed (use i assms(4) in simp)
qed

text \<open>C5: take a write to a child that is copied in full from user memory and stays inside one
  block, a block that lies wholly below the copy size and has no range or whose first range says
  copy-on-write. It returns its length, and leaves in the child's own file the bytes of the
  snapshot overwritten with the new ones, whether the block was already copied, waited in a page
  copy or was still in the parent; the block is marked as copied.\<close>

theorem child_write_block:
  assumes "ext4_buffered_write_iter e filp intr seg ((False, k) # turns) (i_vfs_inode (scorws w c)) bs offset w = Ret (r, w')"
    and "family w pa" and "i_child_scorw_inode (scorws w pa) j = Some c" and "\<forall>f. pages_env_ok (fenv e f)"
    and "b = offset div PAGE_SIZE" and "int (b * PAGE_SIZE + PAGE_SIZE) \<le> i_copy_size (scorws w c)" and "cow_block (scorws w c) b"
    and "bs \<noteq> []" and "length bs \<le> k" and "offset mod PAGE_SIZE + length bs \<le> PAGE_SIZE"
  shows "r = int (length bs) \<and> has_block w' c b \<and> (\<exists>q. view (file_of w' (i_vfs_inode (scorws w c))) b = Some q \<and>
    (\<forall>i<PAGE_SIZE. q i = memcpy_page (the (snapshot w c b)) (offset mod PAGE_SIZE) bs i))"
proof -
  let ?c = "i_vfs_inode (scorws w c)" and ?shr = "\<lparr>initialized = False, partial_cow = False, start_block = 0, end_block = 0\<rparr>"
  have m: "i_scorw_inode (inodes w ?c) = Some c" "i_par_vfs_inode (scorws w c) \<noteq> None" "i_copy_size (scorws w c) \<le> 2 ^ 32"
    using family_child(4) [OF assms(2,3)] by (auto simp: member_def Let_def)
  have bc: "int (b * PAGE_SIZE) < i_copy_size (scorws w c)" and len: "0 < length bs" using assms(6,8) by simp_all
  have child: "scorw_is_child_file e w ?c False" using m by (simp add: scorw_is_child_file_def scorw_find_inode_def scorw_is_child_inode_def)
  obtain error shr w1 where w1: "scorw_write_child_blocks_begin e ?c offset (length bs) ?shr w = Ret (error, shr, w1)"
    using assms(1) child by (auto simp: ext4_buffered_write_iter_def obind_Ret_iff)
  note bg = begin_one_block [OF w1 assms(2,3,10) len bc [unfolded assms(5)] assms(7) [unfolded assms(5)], folded assms(5)]
  then have sh: "error = 0" "\<not> initialized shr" "\<not> partial_cow shr" by auto
  note base = prepare_block_base [OF conjunct2 [OF conjunct2 [OF conjunct2 [OF bg]]] assms(2,4,3,6) cow_block_in_range [OF assms(7)]]
  then have f1: "family w1 pa" and l1: "\<And>a. links (scorws w1 a) = links (scorws w a)" by auto
  note l = links_eqD [OF l1]
  obtain w2 where w2: "scorw_generic_perform_write e filp intr seg ((False, k) # turns) ?c bs offset False w1 = Ret (r, w2)"
    and w3: "scorw_write_child_blocks_end e ?c offset (length bs) False w2 = Ret w'"
    using assms(1) child w1 sh by (auto simp: ext4_buffered_write_iter_def obind_Ret_iff allowed_len_def)
  have mem1: "member w1 (i_vfs_inode (scorws w1 pa)) j c" by (rule family_child(4) [OF f1]) (simp add: l assms(3))
  have m1: "i_scorw_inode (inodes w1 ?c) = Some c" "i_par_vfs_inode (scorws w1 c) \<noteq> None" "disk (file_of w1 ?c) b \<noteq> None"
    using mem1 by (auto simp: member_def Let_def l)
  obtain p where p: "write_begin (fenv e ?c) (junk_page e) (file_of w1 ?c) offset (length bs) = Some p" "r = int (length bs)"
    and fill: "w2 = set_file ?c (write_end (file_of w1 ?c) b offset (length bs) (memcpy_page p (offset mod PAGE_SIZE) bs)) w1"
    using perform_one_page [OF w2 assms(9) m1(1,2) _ _ assms(8,10)] assms(4,5) m1(3) by auto
  have mem2: "member w2 (i_vfs_inode (scorws w1 pa)) j c" using mem1 by (auto simp: member_def Let_def fill l)
  have "finish_block e c False b w2 = Ret w'"
    using w3 m1(1) write_blocks_one [OF assms(10) len bc [unfolded assms(5)]] m(3)
    by (simp add: scorw_write_child_blocks_end_def scorw_find_inode_def fill l assms(5) obind_Ret_iff)
  from finish_block_effect [OF this mem2] assms(4) bc
  have "has_block w' c b" "file_of w' ?c = file_of w2 ?c" by (simp_all add: fill l)
  moreover have "\<forall>i<PAGE_SIZE. memcpy_page p (offset mod PAGE_SIZE) bs i = memcpy_page (the (snapshot w c b)) (offset mod PAGE_SIZE) bs i"
    using overwrites_snapshot [OF _ p(1) assms(5,10,8)] base by blast
  ultimately show ?thesis using p(2) fill by simp
qed

lemma demo_child_write:
  "\<exists>w'. ext4_buffered_write_iter demo_kernel 0 False id [(False, 3)] 2 [1, 2, 3] 5 demo = Ret (3, w')"
  by (simp add: write_eval demo_simps Let_def scorw_write_child_blocks_begin_def write_blocks_def snapx_get_range_info_def
      prepare_block_def get_block_lock_def scorw_get_uncopied_block_def scorw_find_uncopied_block_list_def empty_amap_def
      scorw_child_version_cnt_inc_def fully_overwritten_def scorw_copy_page_def page_copy_len_def copy_len_def write_copy_def
      allowed_len_def scorw_write_child_blocks_end_def finish_block_def mark_copied_def scorw_set_block_copied_def scorw_set_bit_def)

theorem child_write_block_witness:
  "\<exists>w'. ext4_buffered_write_iter demo_kernel 0 False id [(False, 3)] 2 [1, 2, 3] 5 demo = Ret (3, w') \<and> has_block w' 11 0 \<and>
     (\<exists>q. view (file_of w' 2) 0 = Some q \<and> (\<forall>i<PAGE_SIZE. q i = memcpy_page (the (snapshot demo 11 0)) 5 [1, 2, 3] i))"
proof -
  obtain w' where w': "ext4_buffered_write_iter demo_kernel 0 False id [(False, 3)] 2 [1, 2, 3] 5 demo = Ret (3, w')"
    using demo_child_write by blast
  have vi: "i_vfs_inode (scorws demo 11) = 2" "i_child_scorw_inode (scorws demo 10) 0 = Some 11" "i_copy_size (scorws demo 11) = 8192"
    "cow_block (scorws demo 11) 0" by (simp_all add: cow_block_no_ranges demo_def zero_scorw_def)
  have "family demo 10" using demo_plain by (simp add: plain_parent_def)
  from child_write_block [OF _ this vi(2) demo_env(1), where offset = 5 and b = 0 and bs = "[1, 2, 3]" and k = 3 and turns = "[]" and w' = w' and r = 3
      and filp = 0 and intr = False and seg = id] w' vi
  show ?thesis by (intro exI [of _ w']) simp
qed

section \<open>Where the snapshot is lost\<close>

text \<open>C29: The last block of a parent whose size is no multiple of the page size is not read from
  disk when a child copies it and it is not in memory: the page of the parent itself becomes
  zeros, as does the copy in the child.\<close>

theorem partial_tail_zeroed:
  assumes "scorw_copy_page e c lblk w = Ret (ret, w')" and "i_par_vfs_inode (scorws w c) = Some par" and "i_vfs_inode (scorws w c) \<noteq> par"
    and "lblk = i_size (file_of w par) div PAGE_SIZE" and "i_size (file_of w par) mod PAGE_SIZE \<noteq> 0" and "cache (file_of w par) lblk = None"
    and "pages_env_ok (fenv e (i_vfs_inode (scorws w c)))" and "disk (file_of w (i_vfs_inode (scorws w c))) lblk \<noteq> None"
  shows "view (file_of w' par) lblk = Some zero_page \<and> view (file_of w' (i_vfs_inode (scorws w c))) lblk = Some zero_page"
proof -
  let ?c = "i_vfs_inode (scorws w c)"
  let ?f = "(file_of w par)\<lparr>cache := (cache (file_of w par))(lblk \<mapsto> zero_page)\<rparr>" and ?n = "page_copy_len (i_copy_size (scorws w c)) lblk"
  have "(ret, w') = write_copy e ?c lblk ?n zero_page (set_file par ?f w)"
    using assms(1,2,4,6) by (auto simp: scorw_copy_page_def scorw_get_page_def Let_def split: if_splits)
  moreover have "cut_page zero_page n = zero_page" for n by (auto simp: cut_page_def zero_page_def)
  ultimately have "w' = set_file ?c (write_end (file_of w ?c) lblk (lblk * PAGE_SIZE) ?n zero_page) (set_file par ?f w)"
    using write_copy_effect [of e ?c "set_file par ?f w" lblk ?n zero_page] assms(3,7,8) by simp
  then show ?thesis using assms(3) by simp (simp add: view_def)
qed

theorem partial_tail_zeroed_witness:
  "\<exists>ret w'. view (byte_file 5000 7) 1 = Some (\<lambda>_. 7) \<and>
     scorw_copy_page demo_kernel 11 1 (set_file 1 (byte_file 5000 7) demo) = Ret (ret, w') \<and>
     view (file_of w' 1) 1 = Some zero_page \<and> view (file_of w' 2) 1 = Some zero_page"
proof -
  let ?w = "set_file 1 (byte_file 5000 7) demo"
  have "\<exists>x. scorw_copy_page demo_kernel 11 1 ?w = Ret x" by (simp add: scorw_copy_page_def scorw_get_page_def demo_simps Let_def)
  then obtain ret w' where r: "scorw_copy_page demo_kernel 11 1 ?w = Ret (ret, w')" by auto
  have "view (file_of w' 1) 1 = Some zero_page \<and> view (file_of w' 2) 1 = Some zero_page"
    using partial_tail_zeroed [OF r, of 1] demo_env(1) by (simp add: demo_simps)
  with r show ?thesis by (auto simp: byte_file_def view_def)
qed

lemma prepare_full_touched:
  assumes "prepare_block e c i offset len b b False b w = Ret w'" and "family w pa" and "i_child_scorw_inode (scorws w pa) j = Some c"
    and "fully_overwritten offset len b b b"
  shows "touched (friends w pa) w w'"
proof -
  obtain f where m: "i_frnd_vfs_inode (scorws w c) = Some f" using family_child(4) [OF assms(2,3)] by (rule memberD)
  have f: "f \<in> friends w pa" using assms(3) m by (auto simp: friends_def)
  obtain ok w1 dn w2 where w1: "get_block_lock e c b COPYING w = Ret (ok, w1)" and w2: "block_copied e c b w1 = Ret (dn, w2)"
    using assms(1) by (auto simp: prepare_block_def obind_Ret_iff simp del: obind_assoc)
  have t1: "touched (friends w pa) w w1" by (rule touched_get_block_lock [OF w1])
  have "touched (friends w pa) w1 w2" by (rule touched_block_copied [OF w2 _ f]) (simp add: links_eqD [OF touchedD(1) [OF t1]] m)
  moreover have "touched (friends w pa) w2 w'"
    using assms(1,4) w1 w2 by (auto simp: prepare_block_def obind_Ret_iff touched_put_block_lock dest: touched_version_cnt_inc split: if_splits)
  ultimately show ?thesis using touched_trans [OF t1] touched_trans by blast
qed

text \<open>C30: A write of a whole block to a child that fails in \<open>write_begin\<close> returns the error and
  leaves the child's file as it was, but marks the block as copied: what the child kept of
  its parent is replaced by what its own file held.\<close>

theorem failed_child_write_marks:
  assumes "ext4_buffered_write_iter e filp intr seg ((False, k) # turns) (i_vfs_inode (scorws w c)) bs offset w = Ret (r, w')"
    and "family w pa" and "i_child_scorw_inode (scorws w pa) j = Some c" and "i_frnd_vfs_inode (scorws w c) = Some f"
    and "pages_env_ok (fenv e f)" and "\<not> begin_ok (fenv e (i_vfs_inode (scorws w c))) (offset div PAGE_SIZE)" and "begin_error e < 0"
    and "int (offset + PAGE_SIZE) \<le> i_copy_size (scorws w c)" and "i_num_ranges (scorws w c) = 0"
    and "length bs = PAGE_SIZE" and "offset mod PAGE_SIZE = 0"
  shows "r = begin_error e \<and> has_block w' c (offset div PAGE_SIZE) \<and> file_of w' (i_vfs_inode (scorws w c)) = file_of w (i_vfs_inode (scorws w c))"
proof -
  let ?c = "i_vfs_inode (scorws w c)" and ?shr = "\<lparr>initialized = False, partial_cow = False, start_block = 0, end_block = 0\<rparr>"
  define b where "b = offset div PAGE_SIZE"
  have off: "b * PAGE_SIZE = offset" using assms(11) by (simp add: b_def) (metis add.right_neutral assms(11) div_mult_mod_eq)
  have m: "i_scorw_inode (inodes w ?c) = Some c" "i_par_vfs_inode (scorws w c) \<noteq> None" "i_copy_size (scorws w c) \<le> 2 ^ 32"
    using family_child(4) [OF assms(2,3)] by (auto simp: member_def Let_def)
  have bc: "int (b * PAGE_SIZE) < i_copy_size (scorws w c)" and len: "0 < length bs" "offset mod PAGE_SIZE + length bs \<le> PAGE_SIZE"
    using assms(8,10,11) off by simp_all
  have child: "scorw_is_child_file e w ?c False" using m by (simp add: scorw_is_child_file_def scorw_find_inode_def scorw_is_child_inode_def)
  obtain error shr w1 where w1: "scorw_write_child_blocks_begin e ?c offset (length bs) ?shr w = Ret (error, shr, w1)"
    using assms(1) child by (auto simp: ext4_buffered_write_iter_def obind_Ret_iff)
  note bg = begin_one_block [OF w1 assms(2,3) len(2,1) bc [unfolded b_def] cow_block_no_ranges [OF assms(9)], folded b_def]
  then have sh: "error = 0" "\<not> initialized shr" "\<not> partial_cow shr" and pr: "prepare_block e c ?c offset (length bs) b b False b w = Ret w1" by auto
  have t: "touched (friends w pa) w w1" by (rule prepare_full_touched [OF pr assms(2,3)]) (simp add: fully_overwritten_def assms(10,11) mod_add_left_eq [of offset PAGE_SIZE, symmetric])
  note l = links_eqD [OF touchedD(1) [OF t]]
  have c1: "file_of w1 ?c = file_of w ?c" by (rule touchedD(7) [OF t family_friends(2) [OF assms(2,3)]])
  note mem1 = member_touched [OF t family_child(4) [OF assms(2,3)]]
  have m1: "i_scorw_inode (inodes w1 ?c) = Some c" "i_par_vfs_inode (scorws w1 c) \<noteq> None" using m touchedD(6) [OF t] by (simp_all add: l)
  obtain w2 where w2: "scorw_generic_perform_write e filp intr seg ((False, k) # turns) ?c bs offset False w1 = Ret (r, w2)"
    and w3: "scorw_write_child_blocks_end e ?c offset (length bs) False w2 = Ret w'"
    using assms(1) child w1 sh by (auto simp: ext4_buffered_write_iter_def obind_Ret_iff allowed_len_def)
  have r: "r = begin_error e" "w2 = w1"
    using w2 m1 assms(6,7) by (auto simp: scorw_generic_perform_write_def scorw_find_inode_def scorw_is_par_file_def scorw_is_child_inode_def
        write_page_def write_begin_def)
  have "finish_block e c False b w1 = Ret w'"
    using w3 m1(1) write_blocks_one [OF len(2,1) bc [unfolded b_def]] m(3)
    by (simp add: scorw_write_child_blocks_end_def scorw_find_inode_def r(2) l b_def obind_Ret_iff)
  from finish_block_effect [OF this mem1] assms(4,5) bc c1 r(1) show ?thesis by (simp add: l b_def)
qed

definition demo_kernel_fail :: kernel where
  "demo_kernel_fail = demo_kernel\<lparr>fenv := (\<lambda>i. if i = 2 then good_env\<lparr>begin_ok := (\<lambda>_. False)\<rparr> else good_env)\<rparr>"

lemma demo_child_write_fails:
  "\<exists>w'. ext4_buffered_write_iter demo_kernel_fail 0 False id [(False, PAGE_SIZE)] 2 demo_page 0 demo = Ret (- ENOMEM, w')"
  by (simp add: write_eval demo_simps demo_kernel_fail_def Let_def scorw_write_child_blocks_begin_def write_blocks_def snapx_get_range_info_def
      prepare_block_def get_block_lock_def scorw_get_uncopied_block_def scorw_find_uncopied_block_list_def empty_amap_def
      scorw_child_version_cnt_inc_def fully_overwritten_def
      allowed_len_def scorw_write_child_blocks_end_def finish_block_def mark_copied_def scorw_set_block_copied_def scorw_set_bit_def)

theorem failed_child_write_marks_witness:
  "\<exists>w'. ext4_buffered_write_iter demo_kernel_fail 0 False id [(False, PAGE_SIZE)] 2 demo_page 0 demo = Ret (- ENOMEM, w') \<and>
     has_block w' 11 0 \<and> file_of w' 2 = byte_file 0 0 \<and> snapshot demo 11 0 = Some (cut_page (\<lambda>_. 7) PAGE_SIZE)"
proof -
  obtain w' where w': "ext4_buffered_write_iter demo_kernel_fail 0 False id [(False, PAGE_SIZE)] 2 demo_page 0 demo = Ret (- ENOMEM, w')"
    using demo_child_write_fails by blast
  have vi: "i_vfs_inode (scorws demo 11) = 2" "i_child_scorw_inode (scorws demo 10) 0 = Some 11" "i_copy_size (scorws demo 11) = 8192"
    "i_num_ranges (scorws demo 11) = 0" "i_frnd_vfs_inode (scorws demo 11) = Some 3" "file_of demo 2 = byte_file 0 0"
    by (simp_all add: demo_def zero_scorw_def demo_inode_def)
  have env: "pages_env_ok (fenv demo_kernel_fail 3)" "\<not> begin_ok (fenv demo_kernel_fail 2) 0" "begin_error demo_kernel_fail = - ENOMEM"
    by (simp_all add: demo_kernel_fail_def demo_kernel_def)
  have "family demo 10" using demo_plain by (simp add: plain_parent_def)
  from failed_child_write_marks [OF _ this vi(2,5) env(1), where offset = 0 and bs = demo_page and k = PAGE_SIZE and turns = "[]" and w' = w'
      and r = "- ENOMEM" and filp = 0 and intr = False and seg = id] w' vi env
  have "has_block w' 11 0 \<and> file_of w' 2 = byte_file 0 0" by simp
  moreover have "snapshot demo 11 0 = Some (cut_page (\<lambda>_. 7) PAGE_SIZE)"
    by (simp add: snapshot_def child_page_def demo_simps copied_def view_def find_pc_def page_copy_len_def copy_len_def)
  ultimately show ?thesis using w' by blast
qed

section \<open>Ranges\<close>

text \<open>A write to a child whose first block lies in a range with a read-only behaviour is
  refused with -1 and changes nothing.\<close>

theorem read_only_refused:
  assumes "i_scorw_inode (inodes w i) = Some c" and "i_vfs_inode (scorws w c) = i" and "i_par_vfs_inode (scorws w c) \<noteq> None"
    and "find (\<lambda>n. in_crange (i_range (scorws w c) n) (offset div PAGE_SIZE)) [0..<nat (i_num_ranges (scorws w c))] = Some n"
    and "snapx_behavior (i_range (scorws w c) n) \<in> {SNAPX_FLAG_COW_RO, SNAPX_FLAG_SEE_TH_RO, SNAPX_FLAG_SHARED_RO}"
    and "int offset < i_copy_size (scorws w c)" and "i_copy_size (scorws w c) \<le> 2 ^ 43" and "bs \<noteq> []" and "offset + length bs \<le> 2 ^ 43"
  shows "ext4_buffered_write_iter e filp intr seg turns i bs offset w = Ret (- 1, w)"
proof -
  let ?s = "scorws w c" and ?b = "offset div PAGE_SIZE"
  have small: "n div PAGE_SIZE mod 2 ^ 32 = n div PAGE_SIZE" if "n \<le> 2 ^ 43" for n :: nat
  proof (rule mod_less)
    have "n div PAGE_SIZE \<le> 2 ^ 43 div PAGE_SIZE" by (rule div_le_mono [OF that])
    then show "n div PAGE_SIZE < 2 ^ 32" by simp
  qed
  have len: "0 < length bs" using assms(8) by simp
  have lb: "last_block (i_copy_size ?s) = (nat (i_copy_size ?s) - 1) div PAGE_SIZE"
    using last_block_pos [of "nat (i_copy_size ?s)"] assms(6,7) by simp
  have lo: "?b \<le> last_block (i_copy_size ?s)" unfolding lb by (rule div_le_mono) (use assms(6) in simp)
  have hi: "?b \<le> (offset + length bs - 1) div PAGE_SIZE" by (rule div_le_mono) (use len in linarith)
  obtain l where l: "write_blocks (i_copy_size ?s) offset (length bs) = (?b, l)" "?b \<le> l"
    using lo hi small [of offset] small [of "offset + length bs - 1"] assms(9) by (simp add: write_blocks_def Let_def)
  have "[?b..<l + 1] = ?b # [?b + 1..<l + 1]" using l(2) by (simp add: upt_conv_Cons)
  moreover have "0 < nat (i_num_ranges ?s)" using assms(4) by (cases "nat (i_num_ranges ?s)") auto
  ultimately have "scan_ranges ?s ?b [?b..<l + 1] None l shr = None" if "\<not> initialized shr" for shr
    using that assms(4,5) by (auto simp: snapx_get_range_info_def Let_def)
  then show ?thesis
    using assms(1-3) l(1) lo
    by (simp add: ext4_buffered_write_iter_def scorw_is_child_file_def scorw_find_inode_def scorw_is_child_inode_def
        scorw_write_child_blocks_begin_def Let_def)
qed

definition demo_ranged :: "nat \<Rightarrow> world" where
  "demo_ranged blk = upd_scorw 11 (\<lambda>s. s\<lparr>i_num_ranges := 1, i_range := (\<lambda>_.
     \<lparr>range_first = int blk, range_last = int blk, snapx_behavior = SNAPX_FLAG_COW_RO\<rparr>)\<rparr>) demo"

theorem read_only_refused_witness:
  "ext4_buffered_write_iter demo_kernel 0 False id [(False, 3)] 2 [1, 2, 3] 5 (demo_ranged 0) = Ret (- 1, demo_ranged 0)"
  by (rule read_only_refused [where c = 11 and n = 0]) (simp_all add: demo_ranged_def demo_simps in_crange_def)

text \<open>The behaviours of the blocks of a write are only looked at as long as the first block is
  in some range: when it is in none, no later block is checked, whatever the behaviour of its
  range, and the whole write is prepared as copy-on-write.\<close>

theorem range_check_skipped:
  assumes "find (\<lambda>n. in_crange (i_range s n) start) [0..<nat (i_num_ranges s)] = None" and "start \<le> end_blk" and "\<not> initialized shr"
  shows "scan_ranges s start [start..<end_blk + 1] None end_blk shr = Some (end_blk, shr)"
proof -
  have "[start..<end_blk + 1] = start # [start + 1..<end_blk + 1]" using assms(2) by (simp add: upt_conv_Cons)
  moreover have "snapx_get_range_info None s start = (SNAPX_FLAG_COW, None)"
    using assms(1) by (auto simp: snapx_get_range_info_def Let_def)
  moreover have "scan_ranges s start [start + 1..<end_blk + 1] None end_blk shr = Some (end_blk, shr)"
  proof (cases "[start + 1..<end_blk + 1]")
    case (Cons i rest)
    then have "i \<noteq> start" by (metis Suc_eq_plus1 n_not_Suc_n upt_eq_Cons_conv)
    with Cons show ?thesis by (simp del: upt_Suc)
  qed (simp del: upt_Suc)
  ultimately show ?thesis using assms(3) by (simp del: upt_Suc)
qed

theorem range_check_skipped_witness:
  "snapx_get_range_info None (scorws (demo_ranged 1) 11) 1 = (SNAPX_FLAG_COW_RO, Some (i_range (scorws (demo_ranged 1) 11) 0)) \<and>
   scan_ranges (scorws (demo_ranged 1) 11) 0 [0..<1 + 1] None 1 \<lparr>initialized = False, partial_cow = False, start_block = 0, end_block = 0\<rparr> =
     Some (1, \<lparr>initialized = False, partial_cow = False, start_block = 0, end_block = 0\<rparr>)"
proof
  show "snapx_get_range_info None (scorws (demo_ranged 1) 11) 1 = (SNAPX_FLAG_COW_RO, Some (i_range (scorws (demo_ranged 1) 11) 0))"
    by (simp add: snapx_get_range_info_def demo_ranged_def in_crange_def)
  show "scan_ranges (scorws (demo_ranged 1) 11) 0 [0..<1 + 1] None 1 \<lparr>initialized = False, partial_cow = False, start_block = 0, end_block = 0\<rparr> =
     Some (1, \<lparr>initialized = False, partial_cow = False, start_block = 0, end_block = 0\<rparr>)"
    by (rule range_check_skipped) (simp_all add: demo_ranged_def in_crange_def)
qed

end
