(* ===== verification/Usage.thy ===== *)
theory Usage
  imports Snapshot_Runs
begin

text \<open>
  The uses of scorw inodes: \<open>scorw_put_inode\<close> and its calls to itself, opening and closing,
  and the unlinking of a child.
\<close>

section \<open>The depth of \<open>scorw_put_inode\<close>\<close>

lemma put_last_child: "put_last f e True = put_last g e True"
  by (intro ext) (simp add: put_last_def)

lemma put_child_of_parent: "scorw_put_inode_depth out (Suc d) e True t True = scorw_put_inode_depth out' (Suc d') e True t True"
proof (intro ext)
  fix i w
  show "scorw_put_inode_depth out (Suc d) e True t True i w = scorw_put_inode_depth out' (Suc d') e True t True i w"
    unfolding scorw_put_inode_depth.simps(2)
      put_last_child [of "scorw_put_inode_depth out d e True False True" e "scorw_put_inode_depth out' d' e True False True"] simp_thms if_False ..
qed

lemma put_parent_of_child: "scorw_put_inode_depth out (Suc (Suc d)) e False t True = scorw_put_inode_depth out' (Suc (Suc d')) e False t True"
proof (intro ext)
  fix i w
  show "scorw_put_inode_depth out (Suc (Suc d)) e False t True i w = scorw_put_inode_depth out' (Suc (Suc d')) e False t True i w"
    unfolding scorw_put_inode_depth.simps(2) [of out "Suc d"] scorw_put_inode_depth.simps(2) [of out' "Suc d'"]
      put_child_of_parent [of out d e False out' d'] simp_thms if_False ..
qed

lemma put_child: "scorw_put_inode_depth out (Suc (Suc (Suc d))) e True t False = scorw_put_inode_depth out' (Suc (Suc (Suc d'))) e True t False"
proof (intro ext)
  fix i w
  show "scorw_put_inode_depth out (Suc (Suc (Suc d))) e True t False i w = scorw_put_inode_depth out' (Suc (Suc (Suc d'))) e True t False i w"
    unfolding scorw_put_inode_depth.simps(2) [of out "Suc (Suc d)"] scorw_put_inode_depth.simps(2) [of out' "Suc (Suc d')"]
      put_parent_of_child [of out d e False out' d']
      put_last_child [of "scorw_put_inode_depth out (Suc (Suc d)) e True False False" e "scorw_put_inode_depth out' (Suc (Suc d')) e True False False"] ..
qed

lemma put_parent: "scorw_put_inode_depth out (Suc (Suc (Suc (Suc d)))) e False t False = scorw_put_inode_depth out' (Suc (Suc (Suc (Suc d')))) e False t False"
proof (intro ext)
  fix i w
  show "scorw_put_inode_depth out (Suc (Suc (Suc (Suc d)))) e False t False i w = scorw_put_inode_depth out' (Suc (Suc (Suc (Suc d')))) e False t False i w"
    unfolding scorw_put_inode_depth.simps(2) [of out "Suc (Suc (Suc d))"] scorw_put_inode_depth.simps(2) [of out' "Suc (Suc (Suc d'))"]
      put_child [of out d e False out' d'] simp_thms if_False ..
qed

text \<open>The calls of \<open>scorw_put_inode\<close> to itself (a child puts its parent, a parent its children) are
  never nested more than four deep: whatever a call beyond the bound is taken to do, and
  however large the bound, the result is the same.\<close>

lemma put_depth_enough:
  "scorw_put_inode_depth out (put_depth + d) e is_child is_thread is_par_putting i w = scorw_put_inode e is_child is_thread is_par_putting i w"
proof -
  have 4: "put_depth + d = Suc (Suc (Suc (Suc d)))" "put_depth = Suc (Suc (Suc (Suc 0)))" by (simp_all add: put_depth_def)
  show ?thesis unfolding scorw_put_inode_def 4
    using put_child_of_parent [of out "Suc (Suc (Suc d))" e is_thread Oops "Suc (Suc (Suc 0))"]
      put_parent_of_child [of out "Suc (Suc d)" e is_thread Oops "Suc (Suc 0)"]
      put_child [of out "Suc d" e is_thread Oops "Suc 0"] put_parent [of out d e is_thread Oops 0]
    by (cases is_child; cases is_par_putting) (simp_all del: scorw_put_inode_depth.simps)
qed

section \<open>Unlinking a child\<close>

text \<open>With the lock on the friend versions held, putting any child waits.\<close>

lemma put_child_blocks: "frnd_version_cnt_lock w \<Longrightarrow> scorw_put_inode_depth out (Suc d) e True t p i w = Blocks"
  by (simp add: lock_frnd_def)

lemma put_children_blocks:
  assumes "frnd_version_cnt_lock w" and "i_child_scorw_inode (scorws w a) j \<noteq> None" and "j < SCORW_MAX_CHILDS"
  shows "put_children (scorw_put_inode_depth out (Suc d) e True t p) a w = Blocks"
proof -
  have "oloop (\<lambda>j w. case i_child_scorw_inode (scorws w a) j of None \<Rightarrow> Ret w
      | Some ca \<Rightarrow> scorw_put_inode_depth out (Suc d) e True t p (i_vfs_inode (scorws w ca)) w) xs w = Blocks"
    if "\<exists>j\<in>set xs. i_child_scorw_inode (scorws w a) j \<noteq> None" for xs
    using that assms(1) by (induction xs) (auto simp del: scorw_put_inode_depth.simps simp: put_child_blocks split: option.splits)
  note blocks = this
  show ?thesis unfolding put_children_def by (rule blocks) (use assms(2,3) in auto)
qed

lemma put_parent_blocks:
  assumes "frnd_version_cnt_lock w" and "i_scorw_inode (inodes w p) = Some pa" and "i_process_usage_count (scorws w pa) = 1"
    and "added_to_page_copy (scorws w pa) = removed_from_page_copy (scorws w pa)" and "i_child_scorw_inode (scorws w pa) j \<noteq> None" and "j < SCORW_MAX_CHILDS"
  shows "scorw_put_inode_depth out (Suc (Suc d)) e False False True p w = Blocks"
proof (cases "i_vfs_inode_lock (inodes w p)")
  case False
  let ?put = "scorw_put_inode_depth out (Suc d) e True False True"
  have "put_last ?put e False p pa u = Blocks" if "frnd_version_cnt_lock u" "i_child_scorw_inode (scorws u pa) j \<noteq> None" for u
    using that assms(6) put_children_blocks [of "upd_ino p (\<lambda>v. v\<lparr>i_scorw_inode := None\<rparr>) (scorw_remove_inode_list pa u)" pa j out d e False True]
    by (simp add: put_last_def Let_def scorw_remove_inode_list_def)
  with False assms show ?thesis unfolding scorw_put_inode_depth.simps(2) [of out "Suc d"]
    by (simp add: lock_vfs_def scorw_dec_process_usage_count_def scorw_get_process_usage_count_def Let_def
        del: scorw_put_inode_depth.simps split: option.splits)
qed (simp add: lock_vfs_def)

text \<open>C34: Unlinking a child that is open while its parent has no other use never returns: the put of
  the child holds the global lock on the friend versions, puts the parent for the last time, and
  that puts the children, which takes the same lock.\<close>

theorem unlink_deadlock:
  assumes "i_scorw_inode (inodes w c) = Some ca" and "scorw_get_parent_attr_val (junk_attr e) (attrs_of w c) = p" and "p \<noteq> c" and "iget_ok e p"
    and "i_scorw_inode (inodes w p) = Some pa" and "i_par_vfs_inode (scorws w ca) = Some p" and "pa \<noteq> ca"
    and "0 < i_process_usage_count (scorws w ca)" and "i_process_usage_count (scorws w pa) = 1"
    and "added_to_page_copy (scorws w pa) = removed_from_page_copy (scorws w pa)"
    and "i_child_scorw_inode (scorws w pa) j \<noteq> None" and "j < SCORW_MAX_CHILDS"
  shows "scorw_unlink_child_file e c w = Blocks"
proof -
  have put: "scorw_put_inode e True False False c u = Blocks"
    if u: "scorws u = (scorws w)(ca := (scorws w ca)\<lparr>i_ino_unlinked := True\<rparr>)" "i_scorw_inode (inodes u c) = Some ca" "i_scorw_inode (inodes u p) = Some pa" for u
  proof (cases "frnd_version_cnt_lock u \<or> i_vfs_inode_lock (inodes u c)")
    case False
    have "scorw_put_inode_depth Oops 3 e False False True p v = Blocks"
      if "frnd_version_cnt_lock v" "i_scorw_inode (inodes v p) = Some pa" "scorws v pa = scorws w pa" for v
      using put_parent_blocks [OF that(1,2), of j Oops "Suc 0" e] that(3) assms(9-12) by (simp add: eval_nat_numeral del: scorw_put_inode_depth.simps)
    with False u assms(3,6-8) show ?thesis unfolding scorw_put_inode_unfold scorw_put_inode_depth.simps(2) [of Oops 3]
      by (simp add: lock_frnd_def lock_vfs_def scorw_dec_process_usage_count_def Let_def del: scorw_put_inode_depth.simps)
  next
    case True
    then show ?thesis unfolding scorw_put_inode_unfold scorw_put_inode_depth.simps(2) [of Oops 3]
      by (auto simp: lock_frnd_def lock_vfs_def)
  qed
  show ?thesis
    using assms(1-5) put by (auto simp: scorw_unlink_child_file_def lock_open_close_def unlock_open_close_def Let_def)
qed


definition demo_named :: world where
  "demo_named = set_attrs 2 (Map.empty(scorw_parent \<mapsto> le_bytes 8 1)) demo"

theorem unlink_deadlock_witness: "scorw_unlink_child_file demo_kernel 2 demo_named = Blocks"
proof (rule unlink_deadlock [where j = 0 and p = 1 and pa = 10 and ca = 11])
  show "scorw_get_parent_attr_val (junk_attr demo_kernel) (attrs_of demo_named 2) = 1"
    unfolding scorw_get_parent_attr_val_def by (simp add: demo_named_def del: attr_names)
qed (simp_all add: demo_named_def demo_simps)

section \<open>Opening and closing a parent\<close>

lemma t_locks_ver_of: "t_locks (ver_of e w a) = i_t_locks (scorws w a)"
  by (simp add: ver_of_def Let_def)

text \<open>C24: Opening a parent that is in use and closing it again, by a file that holds no transaction, adds
  one use and takes it back: the parent stays attached with the uses and the children it had,
  and no mutex stays locked.\<close>

theorem open_close_balance:
  assumes "i_scorw_inode (inodes w p) = Some pa" and "i_par_vfs_inode (scorws w pa) = None" and "0 < i_process_usage_count (scorws w pa)"
    and "\<not> i_vfs_inode_lock (inodes w p)" and "\<not> i_vfs_inode_open_close_lock (inodes w p)"
    and "owner (i_t_locks (scorws w pa)) \<noteq> Some filp"
  shows "\<exists>w1 w2. ext4_file_open e p w = Ret w1 \<and> i_process_usage_count (scorws w1 pa) = i_process_usage_count (scorws w pa) + 1 \<and>
    ext4_release_file e filp p w1 = Ret (0, w2) \<and> i_process_usage_count (scorws w2 pa) = i_process_usage_count (scorws w pa) \<and>
    i_scorw_inode (inodes w2 p) = Some pa \<and> i_child_scorw_inode (scorws w2 pa) = i_child_scorw_inode (scorws w pa) \<and>
    \<not> i_vfs_inode_lock (inodes w2 p) \<and> \<not> i_vfs_inode_open_close_lock (inodes w2 p)"
proof -
  have o: "\<exists>w1. ext4_file_open e p w = Ret w1 \<and> scorws w1 = (scorws w)(pa := (scorws w pa)\<lparr>i_process_usage_count := i_process_usage_count (scorws w pa) + 1\<rparr>) \<and>
      i_scorw_inode (inodes w1 p) = Some pa \<and> \<not> i_vfs_inode_lock (inodes w1 p) \<and> \<not> i_vfs_inode_open_close_lock (inodes w1 p)"
    using assms by (simp add: ext4_file_open_def scorw_is_child_file_def scorw_is_par_file_def scorw_find_inode_def scorw_is_child_inode_def
        lock_open_close_def unlock_open_close_def add_open_count_def scorw_get_inode_def lock_vfs_def unlock_vfs_def get_existing_def
        scorw_inc_process_usage_count_def Let_def)
  then obtain w1 where w1: "ext4_file_open e p w = Ret w1" "scorws w1 = (scorws w)(pa := (scorws w pa)\<lparr>i_process_usage_count := i_process_usage_count (scorws w pa) + 1\<rparr>)"
    "i_scorw_inode (inodes w1 p) = Some pa" "\<not> i_vfs_inode_lock (inodes w1 p)" "\<not> i_vfs_inode_open_close_lock (inodes w1 p)" by blast
  have put: "\<exists>u'. scorw_put_inode e False False False p u = Ret u' \<and> i_process_usage_count (scorws u' pa) = i_process_usage_count (scorws w pa) \<and>
      i_scorw_inode (inodes u' p) = Some pa \<and> i_child_scorw_inode (scorws u' pa) = i_child_scorw_inode (scorws u pa) \<and> \<not> i_vfs_inode_lock (inodes u' p)"
    if "i_process_usage_count (scorws u pa) = i_process_usage_count (scorws w pa) + 1" "i_par_vfs_inode (scorws u pa) = None"
      "i_scorw_inode (inodes u p) = Some pa" "\<not> i_vfs_inode_lock (inodes u p)" for u
    using that assms(3) unfolding scorw_put_inode_unfold scorw_put_inode_depth.simps(2) [of Oops 3]
    by (simp add: lock_vfs_def unlock_vfs_def scorw_dec_process_usage_count_def scorw_get_process_usage_count_def Let_def)
  have "\<exists>w2. ext4_release_file e filp p w1 = Ret (0, w2) \<and> i_process_usage_count (scorws w2 pa) = i_process_usage_count (scorws w pa) \<and>
    i_scorw_inode (inodes w2 p) = Some pa \<and> i_child_scorw_inode (scorws w2 pa) = i_child_scorw_inode (scorws w pa) \<and>
    \<not> i_vfs_inode_lock (inodes w2 p) \<and> \<not> i_vfs_inode_open_close_lock (inodes w2 p)"
  proof -
    let ?u = "upd_scorw pa (\<lambda>s. s\<lparr>i_t_locks := i_t_locks (scorws w1 pa)\<rparr>)
        (add_open_count p (- 1) (upd_ino p (\<lambda>v. v\<lparr>i_vfs_inode_open_close_lock := True\<rparr>) w1))"
    have "scorw_self_transaction_status (Some (ver_of e v pa)) filp = - 1" if "i_t_locks (scorws v pa) = i_t_locks (scorws w pa)" for v
      using that assms(6) by (simp add: scorw_self_transaction_status_def ver_of_def Let_def)
    then have "ext4_release_file e filp p w1 = obind (scorw_put_inode e False False False p ?u) (\<lambda>w3. Ret (0, unlock_open_close p w3))"
      using w1 assms(2) by (simp add: ext4_release_file_def scorw_is_child_file_def scorw_is_par_file_def scorw_find_inode_def scorw_is_child_inode_def
          lock_open_close_def add_open_count_def Let_def t_locks_ver_of)
    moreover obtain u' where "scorw_put_inode e False False False p ?u = Ret u'" "i_process_usage_count (scorws u' pa) = i_process_usage_count (scorws w pa)"
      "i_scorw_inode (inodes u' p) = Some pa" "i_child_scorw_inode (scorws u' pa) = i_child_scorw_inode (scorws ?u pa)" "\<not> i_vfs_inode_lock (inodes u' p)"
      using put [of ?u] w1(2-) assms(2) by (auto simp: add_open_count_def)
    ultimately show ?thesis using w1(2) by (simp add: unlock_open_close_def add_open_count_def)
  qed
  with w1(1,2) show ?thesis by auto
qed


theorem open_close_balance_witness:
  "\<exists>w1 w2. ext4_file_open demo_kernel 1 demo = Ret w1 \<and> i_process_usage_count (scorws w1 10) = 2 \<and>
    ext4_release_file demo_kernel 5 1 w1 = Ret (0, w2) \<and> i_process_usage_count (scorws w2 10) = 1"
proof -
  have "i_scorw_inode (inodes demo 1) = Some 10" "i_par_vfs_inode (scorws demo 10) = None" "i_process_usage_count (scorws demo 10) = 1"
    "\<not> i_vfs_inode_lock (inodes demo 1)" "\<not> i_vfs_inode_open_close_lock (inodes demo 1)" "owner (i_t_locks (scorws demo 10)) \<noteq> Some 5"
    by (simp_all add: demo_simps)
  with open_close_balance [of demo 1 10 5 demo_kernel] show ?thesis by auto
qed

end
