(* ===== verification/Frnd_Version.thy ===== *)
theory Frnd_Version
  imports Snapshot_Runs
begin

text \<open>
  The versions of a child and of its friend file: the first change to a child raises
  the version of the child, the friend gets it once the child is closed and on disk,
  and a friend whose version is behind is rebuilt when the child is opened. Source:
  \<open>src/ext4-module/corw_sparse.c\<close>.
\<close>

section \<open>The pending updates of friend versions\<close>

text \<open>The friend gets the version of the child, and the child may raise it again.\<close>

definition update_frnd_version :: "kernel \<Rightarrow> pending_frnd_version_cnt_inc \<Rightarrow> world \<Rightarrow> world outcome" where
  "update_frnd_version e r w =
     (let v = scorw_get_child_version_attr_val (junk_attr e) (attrs_of w (pf_child r)) in
      if v = 0 then Oops
      else Ret (upd_ino (pf_frnd r) (\<lambda>f. f\<lparr>i_can_sync_frnd := - 1\<rparr>)
             (upd_ino (pf_child r) (\<lambda>c. c\<lparr>i_cannot_update_child_version_cnt := False\<rparr>)
               (set_attrs (pf_frnd r) (scorw_set_frnd_version_attr_val (xset_ok e (pf_frnd r) version_attr)
                  (attrs_of w (pf_frnd r)) v) w))))"

text \<open>One request. \<open>dirty\<close> says whether an inode is dirty (\<open>scorw_is_inode_dirty\<close>); with
  \<open>sync_child\<close> the child is written first, and a child that is open is a \<open>BUG_ON\<close>.\<close>

definition process_request :: "kernel \<Rightarrow> (ino \<Rightarrow> bool) \<Rightarrow> bool \<Rightarrow> nat \<Rightarrow> pending_frnd_version_cnt_inc \<Rightarrow> world \<Rightarrow> world outcome" where
  "process_request e dirty sync_child iter r w =
     obind (lock_vfs (pf_child r) w) (\<lambda>w1.
     obind (if sync_child then
              (if i_scorw_inode (inodes w1 (pf_child r)) \<noteq> None then Oops
               else update_frnd_version e r (scorw_remove_pending_frnd_version_cnt_inc_list r w1))
            else if i_scorw_inode (inodes w1 (pf_child r)) \<noteq> None then Ret (scorw_remove_pending_frnd_version_cnt_inc_list r w1)
            else if dirty (pf_child r) \<or> i_can_sync_frnd (inodes w1 (pf_frnd r)) \<noteq> 1
            then Ret (scorw_add_pending_frnd_version_cnt_inc_list (r\<lparr>iter_id := iter\<rparr>) (scorw_remove_pending_frnd_version_cnt_inc_list r w1))
            else update_frnd_version e r (scorw_remove_pending_frnd_version_cnt_inc_list r w1)) (\<lambda>w2.
     Ret (unlock_vfs (pf_child r) w2)))"

text \<open>\<open>scorw_process_pending_frnd_version_cnt_inc_list\<close>. The requests in the list at the start are
  taken in order; those put back at its end carry the number of the iteration, at which the
  loop stops. The result is the world and the next number.\<close>

fun process_requests :: "kernel \<Rightarrow> (ino \<Rightarrow> bool) \<Rightarrow> bool \<Rightarrow> nat \<Rightarrow> pending_frnd_version_cnt_inc list \<Rightarrow> world \<Rightarrow> world outcome" where
  "process_requests e dirty sync_child iter [] w = Ret w"
| "process_requests e dirty sync_child iter (r # rs) w =
     (if iter_id r = iter then Ret w
      else obind (process_request e dirty sync_child iter r w) (process_requests e dirty sync_child iter rs))"

definition scorw_process_pending_frnd_version_cnt_inc_list ::
    "kernel \<Rightarrow> (ino \<Rightarrow> bool) \<Rightarrow> bool \<Rightarrow> nat \<Rightarrow> world \<Rightarrow> (world \<times> nat) outcome" where
  "scorw_process_pending_frnd_version_cnt_inc_list e dirty sync_child iter w =
     obind (lock_frnd w) (\<lambda>w1.
     obind (process_requests e dirty sync_child iter (pending_list w1) w1) (\<lambda>w2. Ret (unlock_frnd w2, iter + 1)))"

text \<open>\<open>scorw_process_pending_log_sync_list\<close>, at unmount: the logs that were left dirty.\<close>

definition scorw_process_pending_log_sync_list :: "world \<Rightarrow> world" where
  "scorw_process_pending_log_sync_list w =
     (fold (\<lambda>l w. set_file l (writeback_all (file_of w l)) w) (pending_log_sync_list w) w)\<lparr>pending_log_sync_list := []\<rparr>"

section \<open>A crash between the change and the update\<close>

abbreviation child_version :: "kernel \<Rightarrow> world \<Rightarrow> ino \<Rightarrow> nat" where
  "child_version e w c \<equiv> scorw_get_child_version_attr_val (junk_attr e) (attrs_of w c)"

abbreviation frnd_version :: "kernel \<Rightarrow> world \<Rightarrow> ino \<Rightarrow> nat" where
  "frnd_version e w f \<equiv> scorw_get_frnd_version_attr_val (junk_attr e) (attrs_of w f)"

lemma version_set: "v < 2 ^ 64 \<Longrightarrow> attr_val (x(version_attr \<mapsto> le_bytes 8 v)) version_attr 8 junk = v"
  by (rule attr_val_set) simp_all

text \<open>C17: The first change to a child after its friend file was brought up to date raises the version of the
  child, so that after a crash (which forgets the mark that a change is under way) the friend
  file is rebuilt from the extents of the child; without a change it is left as it is.\<close>

theorem crash_rebuilds_friend:
  assumes "scorw_child_version_cnt_inc e c w = Ret w1" and "\<not> i_cannot_update_child_version_cnt (inodes w c)"
    and "i_scorw_inode (inodes w c) = Some a" and "i_frnd_vfs_inode (scorws w a) = Some f" and "f \<noteq> c"
    and "frnd_version e w f = child_version e w c" and "child_version e w c < 2 ^ 64 - 1" and "xset_ok e c version_attr"
    and "crashed = upd_ino c (\<lambda>v. v\<lparr>i_cannot_update_child_version_cnt := False\<rparr>) w1"
  shows "recover_friend e c f csize w = Ret w \<and> (\<exists>w2. recover_friend e c f csize crashed = Ret w2 \<and>
    file_of w2 f = writeback_all (scorw_recover_friend_file (fenv e f) (junk_page e) (extents_of e c) (file_of w f) (nat csize)))"
proof -
  define v where "v = child_version e w c"
  let ?x = "attrs_of w c"
  have v: "v < 2 ^ 64 - 1" "(v + 1) mod 2 ^ 64 = v + 1" using assms(7) unfolding v_def by simp_all
  have w1: "v \<noteq> 0" "attrs_of w1 c = ?x(version_attr \<mapsto> le_bytes 8 (v + 1))" "attrs_of w1 f = attrs_of w f" "file_of w1 f = file_of w f"
    using assms(1-5,8) v(2)
    by (auto simp: scorw_child_version_cnt_inc_def Let_def v_def [symmetric] scorw_set_child_version_attr_val_def xattr_set_def
        scorw_add_wait_for_commit_list_def split: if_splits)
  have c: "child_version e crashed c = v + 1" "frnd_version e crashed f = v"
    using v(1) w1(2,3) assms(5,6) version_set [of "v + 1" ?x] by (simp_all add: assms(9) scorw_get_child_version_attr_val_def v_def)
  have "recover_friend e c f csize w = Ret w" using assms(2,6) w1(1) by (simp add: recover_friend_def Let_def v_def)
  moreover have "\<not> i_cannot_update_child_version_cnt (inodes crashed c)" "file_of crashed f = file_of w f" using w1(4) assms(5) by (simp_all add: assms(9))
  ultimately show ?thesis using c w1(1) by (simp add: recover_friend_def Let_def)
qed

section \<open>Unmounting\<close>

definition ready :: "kernel \<Rightarrow> nat \<Rightarrow> world \<Rightarrow> pending_frnd_version_cnt_inc \<Rightarrow> bool" where
  "ready e iter w r \<longleftrightarrow> iter_id r \<noteq> iter \<and> \<not> i_vfs_inode_lock (inodes w (pf_child r)) \<and> i_scorw_inode (inodes w (pf_child r)) = None \<and>
     0 < child_version e w (pf_child r) \<and> child_version e w (pf_child r) < 2 ^ 64 \<and> xset_ok e (pf_frnd r) version_attr"

lemma process_request_synced:
  assumes "ready e iter w r" and "pf_child r \<noteq> pf_frnd r"
  shows "\<exists>w'. process_request e dirty True iter r w = Ret w' \<and> pending_list w' = remove1 r (pending_list w) \<and>
    \<not> i_cannot_update_child_version_cnt (inodes w' (pf_child r)) \<and> child_version e w' (pf_child r) = child_version e w (pf_child r) \<and>
    frnd_version e w' (pf_frnd r) = child_version e w (pf_child r) \<and> (\<forall>i. i \<noteq> pf_child r \<and> i \<noteq> pf_frnd r \<longrightarrow> inodes w' i = inodes w i) \<and>
    frnd_version_cnt_lock w' = frnd_version_cnt_lock w"
  using assms version_set [of "child_version e w (pf_child r)" "attrs_of w (pf_frnd r)" "junk_attr e"]
  by (simp add: process_request_def ready_def lock_vfs_def unlock_vfs_def update_frnd_version_def Let_def scorw_remove_pending_frnd_version_cnt_inc_list_def
      scorw_set_frnd_version_attr_val_def xattr_set_def scorw_get_frnd_version_attr_val_def del: attr_names)

definition separate :: "pending_frnd_version_cnt_inc list \<Rightarrow> bool" where
  "separate rs \<longleftrightarrow> distinct (map pf_child rs @ map pf_frnd rs)"

definition in_step :: "kernel \<Rightarrow> world \<Rightarrow> pending_frnd_version_cnt_inc \<Rightarrow> bool" where
  "in_step e w r \<longleftrightarrow> \<not> i_cannot_update_child_version_cnt (inodes w (pf_child r)) \<and> frnd_version e w (pf_frnd r) = child_version e w (pf_child r)"

lemma process_requests_synced:
  assumes "\<forall>r\<in>set rs. ready e iter w r" and "separate rs" and "pending_list w = rs"
  shows "\<exists>w'. process_requests e dirty True iter rs w = Ret w' \<and> pending_list w' = [] \<and> (\<forall>r\<in>set rs. in_step e w' r) \<and>
    (\<forall>i. i \<notin> pf_child ` set rs \<and> i \<notin> pf_frnd ` set rs \<longrightarrow> inodes w' i = inodes w i)"
  using assms
proof (induction rs arbitrary: w)
  case (Cons r rs)
  have sep: "pf_child r \<noteq> pf_frnd r" "separate rs" "pf_child r \<notin> pf_child ` set rs" "pf_child r \<notin> pf_frnd ` set rs"
    "pf_frnd r \<notin> pf_child ` set rs" "pf_frnd r \<notin> pf_frnd ` set rs"
    using Cons.prems(2) by (auto simp: separate_def)
  obtain u where u: "process_request e dirty True iter r w = Ret u" "pending_list u = rs" "\<not> i_cannot_update_child_version_cnt (inodes u (pf_child r))"
    "frnd_version e u (pf_frnd r) = child_version e u (pf_child r)" "\<forall>i. i \<noteq> pf_child r \<and> i \<noteq> pf_frnd r \<longrightarrow> inodes u i = inodes w i"
    using process_request_synced [OF _ sep(1), of e iter w dirty] Cons.prems(1,3) by auto
  have other: "x \<noteq> pf_child r \<and> x \<noteq> pf_frnd r" if "x \<in> pf_child ` set rs \<or> x \<in> pf_frnd ` set rs" for x using sep that by blast
  have "ready e iter u q" if "q \<in> set rs" for q
    using Cons.prems(1) that other [of "pf_child q"] u(5) by (simp add: ready_def)
  then obtain w' where w': "process_requests e dirty True iter rs u = Ret w'" "pending_list w' = []" "\<forall>r\<in>set rs. in_step e w' r"
    "\<forall>i. i \<notin> pf_child ` set rs \<and> i \<notin> pf_frnd ` set rs \<longrightarrow> inodes w' i = inodes u i"
    using Cons.IH [OF _ sep(2) u(2)] by blast
  have "in_step e w' r" using u(3,4) w'(4) sep(3-6) by (simp add: in_step_def)
  moreover have "iter_id r \<noteq> iter" using Cons.prems(1) by (simp add: ready_def)
  ultimately show ?case using u(1,5) w' by auto
qed simp

text \<open>C16: At unmount, when all children are closed, the pending updates all happen: the list is empty
  afterwards, each friend file of the list has the version of its child, and no child is marked
  as changed, so that none of the friend files is rebuilt at the next open.\<close>

theorem unmount_brings_versions_in_step:
  assumes "\<forall>r\<in>set (pending_list w). ready e iter w r" and "separate (pending_list w)" and "\<not> frnd_version_cnt_lock w"
  shows "\<exists>w'. scorw_process_pending_frnd_version_cnt_inc_list e dirty True iter w = Ret (w', iter + 1) \<and> pending_list w' = [] \<and>
    (\<forall>r\<in>set (pending_list w). in_step e w' r)"
proof -
  let ?u = "w\<lparr>frnd_version_cnt_lock := True\<rparr>"
  have "ready e iter ?u r = ready e iter w r" for r by (simp add: ready_def)
  with process_requests_synced [of "pending_list w" e iter ?u dirty] assms
  obtain w' where "process_requests e dirty True iter (pending_list w) ?u = Ret w'" "pending_list w' = []" "\<forall>r\<in>set (pending_list w). in_step e w' r"
    by auto
  with assms(3) show ?thesis
    by (simp add: scorw_process_pending_frnd_version_cnt_inc_list_def lock_frnd_def unlock_frnd_def in_step_def)
qed

definition demo_versions :: world where
  "demo_versions = (upd_ino 3 (\<lambda>v. v\<lparr>i_xattrs := Map.empty(version_attr \<mapsto> le_bytes 8 4)\<rparr>)
     (upd_ino 2 (\<lambda>v. v\<lparr>i_xattrs := Map.empty(version_attr \<mapsto> le_bytes 8 5), i_scorw_inode := None\<rparr>) demo))
       \<lparr>pending_list := [\<lparr>pf_child = 2, pf_frnd = 3, iter_id = 0\<rparr>]\<rparr>"

theorem unmount_brings_versions_in_step_witness:
  "\<exists>w'. scorw_process_pending_frnd_version_cnt_inc_list demo_kernel (\<lambda>_. True) True 1 demo_versions = Ret (w', 2) \<and> pending_list w' = [] \<and>
     frnd_version demo_kernel w' 3 = child_version demo_kernel w' 2"
proof -
  have v: "child_version demo_kernel demo_versions 2 = 5"
    using version_set [of 5] by (simp add: demo_versions_def scorw_get_child_version_attr_val_def del: attr_names)
  have l: "pending_list demo_versions = [\<lparr>pf_child = 2, pf_frnd = 3, iter_id = 0\<rparr>]" by (simp add: demo_versions_def)
  have "ready demo_kernel 1 demo_versions \<lparr>pf_child = 2, pf_frnd = 3, iter_id = 0\<rparr>"
    unfolding ready_def using v by (simp add: demo_versions_def demo_simps del: attr_names)
  moreover have "\<not> frnd_version_cnt_lock demo_versions" by (simp add: demo_versions_def demo_def)
  ultimately show ?thesis
    using unmount_brings_versions_in_step [of demo_versions demo_kernel 1 "\<lambda>_. True"] by (auto simp: l separate_def in_step_def)
qed

theorem crash_rebuilds_friend_witness:
  "\<exists>w w1 w2. scorw_child_version_cnt_inc demo_kernel 2 w = Ret w1 \<and> recover_friend demo_kernel 2 3 8192 w = Ret w \<and>
     recover_friend demo_kernel 2 3 8192 (upd_ino 2 (\<lambda>v. v\<lparr>i_cannot_update_child_version_cnt := False\<rparr>) w1) = Ret w2 \<and>
     file_of w2 3 = writeback_all (scorw_recover_friend_file good_env (\<lambda>_. 255) [] (byte_file 4096 0) 8192)"
proof -
  let ?w = "upd_ino 3 (\<lambda>v. v\<lparr>i_xattrs := Map.empty(version_attr \<mapsto> le_bytes 8 4)\<rparr>)
     (upd_ino 2 (\<lambda>v. v\<lparr>i_xattrs := Map.empty(version_attr \<mapsto> le_bytes 8 4), i_cannot_update_child_version_cnt := False\<rparr>) demo)"
  have v: "child_version demo_kernel ?w 2 = 4" "frnd_version demo_kernel ?w 3 = 4"
    using version_set [of 4] by (simp_all add: scorw_get_child_version_attr_val_def scorw_get_frnd_version_attr_val_def del: attr_names)
  have f: "i_scorw_inode (inodes ?w 2) = Some 11" "i_frnd_vfs_inode (scorws ?w 11) = Some 3" "\<not> i_cannot_update_child_version_cnt (inodes ?w 2)"
    "file_of ?w 3 = byte_file 4096 0" "xset_ok demo_kernel 2 version_attr" "fenv demo_kernel 3 = good_env" "extents_of demo_kernel 2 = []" "junk_page demo_kernel = (\<lambda>_. 255)"
    by (simp_all add: demo_def demo_inode_def demo_kernel_def)
  have "\<exists>w1. scorw_child_version_cnt_inc demo_kernel 2 ?w = Ret w1"
    using f(1-3) v(1) by (simp add: scorw_child_version_cnt_inc_def Let_def del: attr_names) (simp add: demo_kernel_def)
  then obtain w1 where w1: "scorw_child_version_cnt_inc demo_kernel 2 ?w = Ret w1" by blast
  have "3 \<noteq> (2::ino)" "frnd_version demo_kernel ?w 3 = child_version demo_kernel ?w 2" "child_version demo_kernel ?w 2 < 2 ^ 64 - 1" unfolding v by simp_all
  from crash_rebuilds_friend [OF w1 f(3,1,2) this f(5) refl, of 8192, unfolded f(4,6-8)] w1 show ?thesis by auto
qed

end
