(* ===== verification/Write_Loop.thy ===== *)
theory Write_Loop
  imports Snapshot_Runs
begin

text \<open>
  The loop of \<open>scorw_generic_perform_write\<close>: what it writes and that it ends when the
  bytes can be copied from user memory, what it returns, and what it does when they
  cannot or when a page cannot be prepared.
\<close>

section \<open>What a write leaves in the file\<close>

definition byte_at :: "file \<Rightarrow> nat \<Rightarrow> byte" where
  "byte_at f k = the (view f (k div PAGE_SIZE)) (k mod PAGE_SIZE)"

lemma byte_at_written:
  assumes "view f (pos div PAGE_SIZE) = Some p \<or> length bs = PAGE_SIZE" and "pos mod PAGE_SIZE + length bs \<le> PAGE_SIZE"
  shows "byte_at (write_end f (pos div PAGE_SIZE) pos n (memcpy_page p (pos mod PAGE_SIZE) bs)) k =
    (if pos \<le> k \<and> k < pos + length bs then bs ! (k - pos) else byte_at f k)"
proof (cases "k div PAGE_SIZE = pos div PAGE_SIZE")
  case True
  define q r t where "q = pos div PAGE_SIZE" and "r = pos mod PAGE_SIZE" and "t = k mod PAGE_SIZE"
  have pos: "pos = q * PAGE_SIZE + r" and k: "k = q * PAGE_SIZE + t" and t: "t < PAGE_SIZE"
    using True by (simp_all add: q_def r_def t_def) (metis div_mult_mod_eq)
  have "byte_at (write_end f q pos n (memcpy_page p r bs)) k = memcpy_page p r bs t"
    using True by (simp add: byte_at_def q_def t_def)
  moreover have "byte_at f k = p t" if "length bs \<noteq> PAGE_SIZE" using assms(1) that True by (simp add: byte_at_def t_def)
  moreover have "r \<le> t \<and> t < r + length bs" if "length bs = PAGE_SIZE" using assms(2) that t by (simp add: r_def [symmetric])
  ultimately show ?thesis unfolding q_def [symmetric] r_def [symmetric]
    by (cases "length bs = PAGE_SIZE") (auto simp: memcpy_page_def pos k)
next
  case False
  have "\<not> (pos \<le> k \<and> k < pos + length bs)"
  proof
    assume r: "pos \<le> k \<and> k < pos + length bs"
    have "k < pos div PAGE_SIZE * PAGE_SIZE + PAGE_SIZE" using r assms(2) div_mult_mod_eq [of pos PAGE_SIZE] by linarith
    moreover have "pos div PAGE_SIZE * PAGE_SIZE \<le> k" using r div_mult_mod_eq [of pos PAGE_SIZE] by linarith
    ultimately have "k div PAGE_SIZE = pos div PAGE_SIZE" by (intro div_nat_eqI) (simp_all add: mult.commute)
    with False show False by simp
  qed
  with False show ?thesis by (auto simp: byte_at_def)
qed

definition written_to :: "ino \<Rightarrow> nat \<Rightarrow> byte list \<Rightarrow> world \<Rightarrow> world \<Rightarrow> bool" where
  "written_to i pos bs w w' \<longleftrightarrow> (\<forall>k. byte_at (file_of w' i) k = (if pos \<le> k \<and> k < pos + length bs then bs ! (k - pos) else byte_at (file_of w i) k)) \<and>
     i_size (file_of w' i) = max (i_size (file_of w i)) (pos + length bs) \<and> (\<forall>x. x \<noteq> i \<longrightarrow> inodes w' x = inodes w x) \<and> scorws w' = scorws w"

lemma write_page_written:
  assumes "pages_env_ok (fenv e i)" and "\<forall>b. disk (file_of w i) b \<noteq> None" and "bs \<noteq> []" and "pos mod PAGE_SIZE + length bs \<le> PAGE_SIZE"
  shows "\<exists>w'. write_page e False i pos bs (length bs) w = Ret (int (length bs), w') \<and> written_to i pos bs w w' \<and> disk (file_of w' i) = disk (file_of w i)"
proof -
  have "write_begin (fenv e i) (junk_page e) (file_of w i) pos (length bs) \<noteq> None"
    using assms(2) pages_env_okD(2) [OF assms(1)] by (auto simp: write_begin_def split: option.splits)
  then obtain p where p: "write_begin (fenv e i) (junk_page e) (file_of w i) pos (length bs) = Some p" by blast
  let ?w = "fill_page i pos p bs (length bs) w"
  have "0 < length bs" using assms(3) by simp
  then have w: "?w = set_file i (write_end (file_of w i) (pos div PAGE_SIZE) pos (length bs) (memcpy_page p (pos mod PAGE_SIZE) bs)) w"
    by (simp add: fill_page_def)
  have "view (file_of w i) (pos div PAGE_SIZE) = Some p \<or> length bs = PAGE_SIZE"
    using p by (auto simp: write_begin_def view_def split: if_splits option.splits)
  then have "written_to i pos bs w ?w" using byte_at_written [OF _ assms(4)] by (simp add: written_to_def w)
  then show ?thesis using p end_page_done [OF pages_env_okD(3) [OF assms(1)]]
    by (simp add: write_page_def write_par_end_def copied_in_def Let_def w)
qed

lemma written_to_append:
  assumes "written_to i pos (take m bs) w u" and "written_to i (pos + m) (drop m bs) u w'" and "m \<le> length bs"
  shows "written_to i pos bs w w'"
  using assms by (auto simp: written_to_def min_def nth_append not_less)

lemma page_boundary:
  assumes "m = min (PAGE_SIZE - pos mod PAGE_SIZE) b" and "m < b"
  shows "(pos + m) mod PAGE_SIZE = 0"
proof -
  have "m = PAGE_SIZE - pos mod PAGE_SIZE" using assms by linarith
  then have "pos + m = pos div PAGE_SIZE * PAGE_SIZE + PAGE_SIZE"
    using div_mult_mod_eq [of pos PAGE_SIZE] mod_less_divisor [of PAGE_SIZE pos] by linarith
  then show ?thesis by (metis mod_mult_self2_is_0 mult_Suc add.commute)
qed

text \<open>The turns a write takes: one for each page it touches.\<close>

definition pages_of :: "nat \<Rightarrow> nat \<Rightarrow> nat" where
  "pages_of pos n = (pos mod PAGE_SIZE + n + PAGE_SIZE - 1) div PAGE_SIZE"

lemma write_loop_written:
  assumes "pages_env_ok (fenv e i)" and "\<forall>b. disk (file_of w i) b \<noteq> None" and "bs \<noteq> []" and "pos mod PAGE_SIZE + length bs \<le> n * PAGE_SIZE"
  shows "\<exists>w'. write_loop e False seg i (replicate n (False, PAGE_SIZE)) (min (PAGE_SIZE - pos mod PAGE_SIZE) (length bs)) pos bs acc w =
      Ret (int (acc + length bs), w') \<and> written_to i pos bs w w'"
  using assms(2-)
proof (induction n arbitrary: pos bs acc w)
  case 0
  then show ?case by simp
next
  case (Suc n)
  define m where "m = min (PAGE_SIZE - pos mod PAGE_SIZE) (length bs)"
  have lt: "pos mod PAGE_SIZE < PAGE_SIZE" by simp
  have m: "0 < m" "m \<le> length bs" "m \<le> PAGE_SIZE" "pos mod PAGE_SIZE + m \<le> PAGE_SIZE"
    using Suc.prems(2) lt by (auto simp: m_def min_def)
  then have tb: "length (take m bs) = m" "take m bs \<noteq> []" by auto
  obtain w1 where w1: "write_page e False i pos (take m bs) m w = Ret (int m, w1)" and wr: "written_to i pos (take m bs) w w1"
    and dk: "disk (file_of w1 i) = disk (file_of w i)"
    using write_page_written [OF assms(1) Suc.prems(1) tb(2), of pos] tb(1) m(4) by auto
  have step: "write_loop e False seg i (replicate (Suc n) (False, PAGE_SIZE)) m pos bs acc w =
    (if drop m bs = [] then Ret (int (acc + m), w1)
     else write_loop e False seg i (replicate n (False, PAGE_SIZE)) (min (PAGE_SIZE - (pos + m) mod PAGE_SIZE) (length (drop m bs))) (pos + m) (drop m bs) (acc + m) w1)"
    using w1 m(1,3) by (simp add: Let_def)
  show ?case
  proof (cases "drop m bs = []")
    case True
    then have "m = length bs" using m(2) by simp
    with True step wr show ?thesis unfolding m_def [symmetric] by simp
  next
    case False
    then have "m < length bs" by simp
    then have al: "(pos + m) mod PAGE_SIZE = 0" by (rule page_boundary [OF m_def])
    have "m = PAGE_SIZE - pos mod PAGE_SIZE" using \<open>m < length bs\<close> unfolding m_def by linarith
    moreover have "pos mod PAGE_SIZE + length bs \<le> PAGE_SIZE + n * PAGE_SIZE" using Suc.prems(3) by simp
    ultimately have "length bs - m \<le> n * PAGE_SIZE" using lt by linarith
    then have "(pos + m) mod PAGE_SIZE + length (drop m bs) \<le> n * PAGE_SIZE" using al by simp
    from Suc.IH [OF _ False this, of w1 "acc + m"] dk Suc.prems(1)
    obtain w' where w': "write_loop e False seg i (replicate n (False, PAGE_SIZE)) (min (PAGE_SIZE - (pos + m) mod PAGE_SIZE) (length (drop m bs))) (pos + m) (drop m bs) (acc + m) w1 =
        Ret (int (acc + m + length (drop m bs)), w')" "written_to i (pos + m) (drop m bs) w1 w'" by auto
    have "written_to i pos bs w w'" by (rule written_to_append [OF wr w'(2) m(2)])
    then show ?thesis using step w'(1) False m(2) unfolding m_def [symmetric] by simp
  qed
qed


text \<open>C13: the loop of a write that does not go to a parent (\<open>write_to_par\<close> is 0) and gets all its
  bytes from user memory ends after as many turns as pages it touches; it returns the length, and
  the file holds the new bytes at their positions and its old ones elsewhere, with the size grown
  if needed.\<close>

theorem write_loop_correct:
  assumes "pages_env_ok (fenv e i)" and "\<forall>b. disk (file_of w i) b \<noteq> None" and "bs \<noteq> []" and "pages_of pos (length bs) \<le> n"
  shows "\<exists>w'. write_loop e False seg i (replicate n (False, PAGE_SIZE)) (min (PAGE_SIZE - pos mod PAGE_SIZE) (length bs)) pos bs 0 w =
      Ret (int (length bs), w') \<and> (\<forall>k. byte_at (file_of w' i) k = (if pos \<le> k \<and> k < pos + length bs then bs ! (k - pos) else byte_at (file_of w i) k)) \<and>
      i_size (file_of w' i) = max (i_size (file_of w i)) (pos + length bs)"
proof -
  define t where "t = pos mod PAGE_SIZE + length bs"
  have "(t + PAGE_SIZE - 1) div PAGE_SIZE \<le> n" using assms(4) by (simp add: pages_of_def t_def)
  then have "(t + PAGE_SIZE - 1) div PAGE_SIZE < Suc n" by simp
  then have "t + PAGE_SIZE - 1 < Suc n * PAGE_SIZE" by (simp only: div_less_iff_less_mult)
  then have "pos mod PAGE_SIZE + length bs \<le> n * PAGE_SIZE" by (simp add: t_def)
  from write_loop_written [OF assms(1-3) this, of seg 0] show ?thesis by (auto simp: written_to_def)
qed

theorem write_loop_correct_witness:
  "\<exists>w'. write_loop demo_kernel False id 2 (replicate 2 (False, PAGE_SIZE)) (min (PAGE_SIZE - 4094 mod PAGE_SIZE) (length [1, 2, 3])) 4094 [1, 2, 3] 0 demo = Ret (3, w') \<and>
     byte_at (file_of w' 2) 4096 = 3 \<and> i_size (file_of w' 2) = 4097"
proof -
  have d: "\<forall>b. disk (file_of demo 2) b \<noteq> None" "i_size (file_of demo 2) = 0" by (simp_all add: demo_simps)
  have "\<exists>w'. write_loop demo_kernel False id 2 (replicate 2 (False, PAGE_SIZE)) (min (PAGE_SIZE - 4094 mod PAGE_SIZE) (length [1, 2, 3::byte])) 4094 [1, 2, 3] 0 demo =
      Ret (int (length [1, 2, 3::byte]), w') \<and> (\<forall>k. byte_at (file_of w' 2) k = (if 4094 \<le> k \<and> k < 4094 + length [1, 2, 3::byte] then [1, 2, 3] ! (k - 4094) else byte_at (file_of demo 2) k)) \<and>
      i_size (file_of w' 2) = max (i_size (file_of demo 2)) (4094 + length [1, 2, 3::byte])"
    by (rule write_loop_correct [OF _ d(1)]) (use demo_env(1) in \<open>simp_all add: pages_of_def\<close>)
  then show ?thesis using d(2) by (auto simp del: write_loop.simps)
qed

text \<open>C33: the loop of a write that does not go to a parent (\<open>write_to_par\<close> is 0) and whose bytes
  cannot be copied from user memory never ends unless a fatal signal arrives: it starts the same
  turn again and again, however many turns it is given. (The check that brings in the user page
  first is commented out.)\<close>

theorem write_livelock:
  assumes "pages_env_ok (fenv e i)" and "\<forall>b. disk (file_of w i) b \<noteq> None"
  shows "write_loop e False seg i (replicate n (False, 0)) bytes pos bs written w = Blocks"
proof (induction n arbitrary: bytes)
  case (Suc n)
  have "write_begin (fenv e i) (junk_page e) (file_of w i) pos m \<noteq> None" for m
    using assms(2) pages_env_okD(2) [OF assms(1)] by (auto simp: write_begin_def split: option.splits)
  then obtain p where "write_begin (fenv e i) (junk_page e) (file_of w i) pos (length (take bytes bs)) = Some p" by blast
  then have "write_page e False i pos (take bytes bs) 0 w = Ret (0, w)"
    by (simp add: end_page_done [OF pages_env_okD(3) [OF assms(1)]] write_page_def write_par_end_def copied_in_def fill_page_def Let_def)
  with Suc show ?case by (simp add: Let_def)
qed simp

theorem write_livelock_witness:
  "write_loop demo_kernel False id 2 (replicate 1000 (False, 0)) 3 0 [1, 2, 3] 0 demo = Blocks"
  by (rule write_livelock) (use demo_env(1) in \<open>simp_all add: demo_simps\<close>)

section \<open>What the loop returns\<close>

text \<open>The value a write returns is -EINTR, the error of \<open>write_begin\<close>, an error of
  \<open>write_end\<close> (-EIO for a page without buffers, or that of \<open>ext4_journal_start\<close>), or a count
  between 0 and the number of bytes asked for. An error is only returned while nothing has been
  written.\<close>

theorem write_loop_result:
  assumes "write_loop e wp seg i turns bytes pos bs written w = Ret (r, w')" and "\<And>n. seg n \<le> n" and "begin_error e < 0" and "bytes \<le> length bs"
    and "\<And>n err. end_res (fenv e i) n = End_Journal err \<Longrightarrow> err < 0"
  shows "written = 0 \<and> (r \<in> {- EINTR, begin_error e, - EIO} \<or> (\<exists>n. end_res (fenv e i) n = End_Journal r)) \<or>
    int written \<le> r \<and> r \<le> int (written + length bs)"
  using assms(1,4)
proof (induction turns arbitrary: bytes pos bs written w)
  case (Cons t turns)
  obtain fatal k where t: "t = (fatal, k)" by (cases t)
  show ?case
  proof (cases fatal)
    case True
    with Cons.prems t show ?thesis by (auto split: if_splits)
  next
    case False
    let ?m = "min k bytes"
    let ?rest = "drop ?m bs"
    obtain st w1 where st: "write_page e wp i pos (take bytes bs) ?m w = Ret (st, w1)" using Cons.prems(1) t False by (auto simp: obind_Ret_iff)
    have neg: "st \<in> {begin_error e, - EIO} \<or> (\<exists>n. end_res (fenv e i) n = End_Journal st)" if "st < 0"
    proof -
      consider "st = begin_error e" | p u v where "st = fst (end_page e i pos p u (take bytes bs) ?m v)"
        using write_page_result [OF st] by blast
      then show ?thesis
      proof cases
        case (2 p u v)
        then show ?thesis using end_page_status [of e i pos p u "take bytes bs" ?m v] that by auto
      qed simp
    qed
    have n: "0 \<le> st \<Longrightarrow> nat st \<le> ?m" by (rule write_page_status [OF st _ assms(3) assms(5)])
    have ih: ?thesis if "write_loop e wp seg i turns b q ?rest (written + nat st) w1 = Ret (r, w')" "b \<le> length ?rest" "0 \<le> st" for b q
    proof -
      have "written + nat st + length ?rest \<le> written + length bs" 
        using n [OF that(3)] Cons.prems(2) unfolding length_drop by linarith
      then show ?thesis using Cons.IH [OF that(1,2)] by (auto simp del: of_nat_add)
    qed
    consider "st < 0" | "st = 0" | "0 < st" "?rest = []" | "0 < st" "?rest \<noteq> []" by linarith
    then show ?thesis
    proof cases
      case 2
      show ?thesis by (rule ih [of "min (PAGE_SIZE - pos mod PAGE_SIZE) (seg (length ?rest))" pos])
        (use 2 Cons.prems(1) t False st assms(2) [of "length ?rest"] in \<open>auto simp: Let_def min_def\<close>)
    next
      case 4
      show ?thesis by (rule ih [of "min (PAGE_SIZE - (pos + nat st) mod PAGE_SIZE) (length ?rest)" "pos + nat st"])
        (use 4 Cons.prems(1) t False st in \<open>auto simp: Let_def\<close>)
    qed (use Cons.prems t False st neg n in \<open>auto simp: Let_def split: if_splits\<close>)
  qed
qed simp


theorem write_loop_result_witness:
  "\<exists>r w'. write_loop demo_kernel False id 2 [(False, 3)] 3 0 [1, 2, 3] 0 demo = Ret (r, w') \<and>
     (r \<in> {- EINTR, begin_error demo_kernel, - EIO} \<or> 0 \<le> r \<and> r \<le> int (0 + length [1, 2, 3::byte]))"
proof -
  have "\<exists>x. write_loop demo_kernel False id 2 [(False, 3)] 3 0 [1, 2, 3] 0 demo = Ret x"
    by (simp add: write_eval demo_simps Let_def)
  then obtain r w' where r: "write_loop demo_kernel False id 2 [(False, 3)] 3 0 [1, 2, 3] 0 demo = Ret (r, w')" by auto
  moreover have "end_res (fenv demo_kernel 2) n = End_Done" for n by (simp add: demo_kernel_def good_env_def)
  ultimately show ?thesis using write_loop_result [OF r _ demo_env(2)] by auto
qed

section \<open>Short copies and failures\<close>

text \<open>C31: When user memory delivers only some of the bytes for a page that is not up to date, the
  file system accepts none of them but the iterator has moved on: the bytes that were
  delivered are skipped, the following ones are written at their position, and the write
  returns less than was asked for.\<close>

theorem short_copy_skips:
  assumes "pages_env_ok (fenv e i)" and "\<forall>b. disk (file_of w i) b \<noteq> None" and "cache (file_of w i) (pos div PAGE_SIZE) = None"
    and "k < length bs" and "pos mod PAGE_SIZE + length bs \<le> PAGE_SIZE"
  shows "\<exists>w'. write_loop e False id i [(False, k), (False, PAGE_SIZE)] (length bs) pos bs 0 w = Ret (int (length bs - k), w') \<and>
      (\<forall>n. byte_at (file_of w' i) n = (if pos \<le> n \<and> n < pos + (length bs - k) then bs ! (k + (n - pos)) else byte_at (file_of w i) n))"
proof -
  have "write_begin (fenv e i) (junk_page e) (file_of w i) pos (length bs) \<noteq> None"
    using assms(2) pages_env_okD(2) [OF assms(1)] by (auto simp: write_begin_def split: option.splits)
  then have first: "write_page e False i pos bs k w = Ret (0, w)"
    using assms(3,4) by (auto simp: end_page_done [OF pages_env_okD(3) [OF assms(1)]] write_page_def write_par_end_def copied_in_def fill_page_def Let_def)
  let ?r = "drop k bs"
  have r: "?r \<noteq> []" "pos mod PAGE_SIZE + length ?r \<le> PAGE_SIZE" "length ?r \<le> PAGE_SIZE" using assms(4,5) by auto
  obtain w' where w': "write_page e False i pos ?r (length ?r) w = Ret (int (length ?r), w')" "written_to i pos ?r w w'"
    using write_page_written [OF assms(1,2) r(1,2)] by blast
  have m: "min (PAGE_SIZE - pos mod PAGE_SIZE) (length ?r) = length ?r" using r(2) by linarith
  have "write_loop e False id i [(False, k), (False, PAGE_SIZE)] (length bs) pos bs 0 w = Ret (int (length ?r), w')"
    using first w'(1) assms(4) r(3) m by (simp add: Let_def min_def split: if_splits)
  with w'(2) show ?thesis using assms(4) by (auto simp: written_to_def)
qed

theorem short_copy_skips_witness:
  "\<exists>w'. write_loop demo_kernel False id 2 [(False, 2), (False, PAGE_SIZE)] (length [1, 2, 3::byte]) 0 [1, 2, 3] 0 demo = Ret (int (length [1, 2, 3::byte] - 2), w') \<and>
     byte_at (file_of w' 2) 0 = 3"
proof -
  have d: "\<forall>b. disk (file_of demo 2) b \<noteq> None" "cache (file_of demo 2) (0 div PAGE_SIZE) = None" by (simp_all add: demo_simps)
  from short_copy_skips [OF _ d, of demo_kernel 2 "[1, 2, 3]"] demo_env(1) show ?thesis by (auto simp del: write_loop.simps)
qed


lemma barrier_loop_lock:
  assumes "oloop (barrier_child e pa blk) xs (h, w) = Ret (h', w')"
  shows "i_lock (scorws w' a) = i_lock (scorws w a)"
proof -
  have "i_lock (scorws v a) = i_lock (scorws u a)" if "barrier_child e pa blk j (g, u) = Ret (g', v)" for j g u g' v
    using that by (auto simp: barrier_child_def get_block_lock_def obind_Ret_iff split: option.splits if_splits prod.splits get_result.splits)
  then have "i_lock (scorws (snd (h', w')) a) = i_lock (scorws w a)"
    by (intro oloop_Ret_induct [OF assms, where P = "\<lambda>hw. i_lock (scorws (snd hw) a) = i_lock (scorws w a)"]) auto
  then show ?thesis by simp
qed

text \<open>C32: a write to a parent that fails in \<open>write_begin\<close> leaves the loop with the read barrier
  open: the parent keeps a reader on its lock, and whoever wants to add or remove a child waits
  for ever. (After a failure of \<open>write_end\<close> the barrier is closed.)\<close>

theorem failed_write_keeps_lock:
  assumes "write_page e True i pos bs k w = Ret (st, w')" and "st < 0" and "end_res (fenv e i) (pos div PAGE_SIZE) = End_Done"
    and "i_scorw_inode (inodes w i) = Some pa" and "0 \<le> i_lock (scorws w pa)"
  shows "i_lock (scorws w' pa) = i_lock (scorws w pa) + 1 \<and> down_write pa w' = Blocks"
proof -
  obtain held w1 where b: "scorw_read_barrier_begin e pa 0 (\<lambda>_. False) w = Ret (held, w1)" and st: "st = begin_error e" "w' = w1"
    using assms(1,2,4) by (auto simp: end_page_done [OF assms(3)] write_page_def write_par_begin_def scorw_find_inode_def obind_Ret_iff Let_def split: option.splits)
  then obtain u where u: "down_read pa w = Ret u" "oloop (barrier_child e pa 0) (child_slots (scorws u pa)) (\<lambda>_. False, u) = Ret (held, w1)"
    by (auto simp: scorw_read_barrier_begin_def obind_Ret_iff)
  have "i_lock (scorws u pa) = i_lock (scorws w pa) + 1" using u(1) by (auto simp: down_read_def split: if_splits)
  with barrier_loop_lock [OF u(2), of pa] st(2) assms(5) show ?thesis by (simp add: down_write_def)
qed

theorem failed_write_keeps_lock_witness:
  "\<exists>w'. write_page (demo_kernel\<lparr>fenv := (\<lambda>_. good_env\<lparr>begin_ok := (\<lambda>_. False)\<rparr>)\<rparr>) True 1 0 [1, 2, 3] 3 demo = Ret (- ENOMEM, w') \<and>
     i_lock (scorws w' 10) = 1 \<and> down_write 10 w' = Blocks"
proof -
  have "\<exists>w'. write_page (demo_kernel\<lparr>fenv := (\<lambda>_. good_env\<lparr>begin_ok := (\<lambda>_. False)\<rparr>)\<rparr>) True 1 0 [1, 2, 3] 3 demo = Ret (- ENOMEM, w')"
    by (simp add: write_eval demo_simps Let_def)
  then obtain w' where w': "write_page (demo_kernel\<lparr>fenv := (\<lambda>_. good_env\<lparr>begin_ok := (\<lambda>_. False)\<rparr>)\<rparr>) True 1 0 [1, 2, 3] 3 demo = Ret (- ENOMEM, w')"
    by blast
  have "i_scorw_inode (inodes demo 1) = Some 10" "i_lock (scorws demo 10) = 0" by (simp_all add: demo_simps)
  with failed_write_keeps_lock [OF w', of 10] w' show ?thesis by (auto simp: good_env_def)
qed

end
