(* ===== verification/Read_Path.thy ===== *)
theory Read_Path
  imports Write_Loop Vectored_Writes
begin

text \<open>
  The read side: \<open>filemap_read\<close> (\<open>src/filemap.c\<close>), \<open>scorw_lookup_physical_block\<close> and
  \<open>scorw_read_from_parent\<close> (\<open>src/ext4-module/corw_sparse.c\<close>) and \<open>ext4_file_read_iter\<close>
  (\<open>src/ext4-module/file.c\<close>) on the world of inodes. A read goes to the block that the
  history of the parent gives for the reader's version, and this block and its bytes stay
  the same while the parent is written.
\<close>

section \<open>Reading the page cache\<close>

text \<open>
  \<open>filemap_read\<close>, page by page, with the bytes read before. A page that cannot be read
  ends the read, with the error only when nothing was read. User memory can be written.
  The size of a file is never above \<open>s_maxbytes\<close>.
\<close>

function filemap_read :: "file \<Rightarrow> nat \<Rightarrow> nat \<Rightarrow> byte list \<Rightarrow> (int + byte list) \<times> file" where
  "filemap_read f ki_pos n_bytes already_read =
     (if n_bytes = 0 \<or> i_size f \<le> ki_pos then (Inr already_read, f)
      else case read_mapping_page f (ki_pos div PAGE_SIZE) of
          (None, f1) \<Rightarrow> (if already_read = [] then Inl (- EIO) else Inr already_read, f1)
        | (Some p, f1) \<Rightarrow>
            let offset = ki_pos mod PAGE_SIZE;
                bytes = min (min (i_size f) (ki_pos + n_bytes) - ki_pos) (PAGE_SIZE - offset)
            in filemap_read f1 (ki_pos + bytes) (n_bytes - bytes) (already_read @ page_bytes p offset bytes))"
  by pat_completeness auto

termination
proof (relation "measure (\<lambda>(f, ki_pos, n_bytes, already_read). n_bytes)", goal_cases)
  case (2 f ki_pos n_bytes)
  have "0 < PAGE_SIZE - ki_pos mod PAGE_SIZE" using mod_less_divisor [of PAGE_SIZE ki_pos] by simp
  with 2 show ?case by (simp add: min_def)
qed simp

declare filemap_read.simps [simp del]

text \<open>\<open>generic_file_read_iter\<close> is only called for reads that are not direct ones, and with
  the mapping of \<open>i\<close>.\<close>

definition generic_file_read_iter :: "ino \<Rightarrow> nat \<Rightarrow> nat \<Rightarrow> world \<Rightarrow> (int + byte list) \<times> world" where
  "generic_file_read_iter i ki_pos n_bytes w =
     (case filemap_read (file_of w i) ki_pos n_bytes [] of (r, f) \<Rightarrow> (r, set_file i f w))"

section \<open>Reads of versioned files\<close>

text \<open>\<open>scorw_lookup_physical_block\<close> of an inode: a child looks in the store of its parent,
  for its own version. Block 0 is returned when the parent has no scorw inode.\<close>

definition lookup_block :: "kernel \<Rightarrow> addr \<Rightarrow> nat \<Rightarrow> world \<Rightarrow> (nat \<times> world) outcome" where
  "lookup_block e s_inode target_logical_blk w =
     (case (case i_par_vfs_inode (scorws w s_inode) of None \<Rightarrow> Some s_inode | Some p \<Rightarrow> scorw_find_inode w p) of
        None \<Rightarrow> Ret (0, w)
      | Some source \<Rightarrow>
          let v = ver_of e w source in
          obind (of_opt (scorw_lookup_physical_block (fenv e (i_vfs_inode (scorws w source))) (i_version (scorws w s_inode))
                   (orig_size v) (i_log_vfs_inode v) (vcache v) target_logical_blk)) (\<lambda>(blk, vc, log).
            Ret (blk, store_ver source (v\<lparr>vcache := vc, i_log_vfs_inode := log\<rparr>) w)))"

text \<open>\<open>scorw_read_from_parent\<close>: at most to the end of the page.\<close>

definition scorw_read_from_parent :: "kernel \<Rightarrow> addr \<Rightarrow> nat \<Rightarrow> nat \<Rightarrow> world \<Rightarrow> ((int + byte list) \<times> world) outcome" where
  "scorw_read_from_parent e s_inode orig_pos orig_count w =
     (let s = scorws w s_inode;
          read_inode = (case i_par_vfs_inode s of Some p \<Rightarrow> p | None \<Rightarrow> i_vfs_inode s);
          logical_size = scorw_get_original_parent_size (junk_attr e) (attrs_of w read_inode);
          n_bytes = min orig_count (PAGE_SIZE - orig_pos mod PAGE_SIZE)
      in obind (lookup_block e s_inode (orig_pos div PAGE_SIZE) w) (\<lambda>(target_phys_blk, w1).
           if target_phys_blk \<noteq> BLK_NOT_FOUND
           then Ret (generic_file_read_iter read_inode (target_phys_blk * PAGE_SIZE mod 2 ^ 64 + orig_pos mod PAGE_SIZE) n_bytes w1)
           else if logical_size \<le> orig_pos then Ret (Inr [], w1)
           else Ret (generic_file_read_iter read_inode orig_pos n_bytes w1)))"

text \<open>\<open>ext4_file_read_iter\<close>. \<open>dio\<close> is the direct read of ext4 (\<open>iomap_dio_rw\<close>), which only
  files without versions reach: a versioned file opened for direct I/O reads nothing.\<close>

definition ext4_file_read_iter ::
    "kernel \<Rightarrow> bool \<Rightarrow> (ino \<Rightarrow> nat \<Rightarrow> nat \<Rightarrow> world \<Rightarrow> (int + byte list) \<times> world) \<Rightarrow> bool \<Rightarrow> ino \<Rightarrow> nat \<Rightarrow> nat \<Rightarrow> world \<Rightarrow>
      ((int + byte list) \<times> world) outcome" where
  "ext4_file_read_iter e shutdown dio direct i ki_pos n_bytes w =
     (let orig_read = (\<lambda>w. Ret (if direct then dio i ki_pos n_bytes w else generic_file_read_iter i ki_pos n_bytes w)) in
      if shutdown then Ret (Inl (- EIO), w)
      else if n_bytes = 0 then Ret (Inr [], w)
      else case scorw_find_inode w i of
          None \<Rightarrow> orig_read w
        | Some s_inode \<Rightarrow>
            let is_child_file = scorw_is_child_file e w i False in
            obind (case i_par_vfs_inode (scorws w s_inode) of
                     Some p \<Rightarrow> if is_child_file \<and> i_scorw_inode (inodes w p) = None
                              then obind (scorw_get_inode e p w) (\<lambda>(_, w1). Ret w1) else Ret w
                   | None \<Rightarrow> Ret w) (\<lambda>w1.
              if is_child_file \<or> i_log (scorws w1 s_inode) \<noteq> None
              then (if direct then Ret (Inr [], w1) else scorw_read_from_parent e s_inode ki_pos n_bytes w1)
              else orig_read w1))"

section \<open>What a read returns\<close>

lemma ver_of_simps [simp]:
  "data (ver_of e w a) = file_of w (i_vfs_inode (scorws w a))" "version (ver_of e w a) = i_version (scorws w a)"
  "i_log_vfs_inode (ver_of e w a) = map_option (file_of w) (i_log (scorws w a))" "vcache (ver_of e w a) = i_versions (scorws w a)"
  "orig_size (ver_of e w a) = scorw_get_original_parent_size (junk_attr e) (attrs_of w (i_vfs_inode (scorws w a)))"
  by (simp_all add: ver_of_def Let_def)

lemma filemap_read_block:
  assumes "off + n \<le> PAGE_SIZE" and "0 < n" and "b * PAGE_SIZE + off + n \<le> i_size f"
  shows "fst (filemap_read f (b * PAGE_SIZE + off) n []) =
    (case view f b of None \<Rightarrow> Inl (- EIO) | Some p \<Rightarrow> Inr (page_bytes p off n))"
proof -
  have off: "off < PAGE_SIZE" using assms(1,2) by simp
  obtain q g where rd: "read_mapping_page f b = (q, g)" by fastforce
  have q: "q = view f b" using read_mapping_page_fst [of f b] rd by simp
  have d: "(b * PAGE_SIZE + off) div PAGE_SIZE = b" "(b * PAGE_SIZE + off) mod PAGE_SIZE = off" using off by auto
  have m: "min (min (i_size f) (b * PAGE_SIZE + off + n) - (b * PAGE_SIZE + off)) (PAGE_SIZE - off) = n"
  proof -
    have "min (i_size f) (b * PAGE_SIZE + off + n) = b * PAGE_SIZE + off + n" using assms by (intro min_absorb2) linarith
    with assms(1) show ?thesis by simp
  qed
  have s: "\<not> (n = 0 \<or> i_size f \<le> b * PAGE_SIZE + off)" using assms by simp
  show ?thesis
    unfolding filemap_read.simps [of f "b * PAGE_SIZE + off" n] d rd Let_def m q if_not_P [OF s]
    by (cases "view f b") (simp_all add: filemap_read.simps [where n_bytes = 0])
qed

lemma filemap_read_frame:
  assumes "filemap_read f pos n_bytes pre = (r, g)"
  shows "i_size g = i_size f" and "view g = view f"
proof -
  have "i_size g = i_size f \<and> view g = view f" using assms
  proof (induction f pos n_bytes pre rule: filemap_read.induct)
    case (1 f pos cnt pre)
    obtain q h where rd: "read_mapping_page f (pos div PAGE_SIZE) = (q, h)" by fastforce
    have h: "i_size h = i_size f" "view h = view f"
      using read_mapping_page_frame [of f "pos div PAGE_SIZE"] rd by auto
    show ?case
    proof (cases "cnt = 0 \<or> i_size f \<le> pos")
      case True
      with "1.prems" show ?thesis by (simp add: filemap_read.simps [of f pos cnt])
    next
      case False
      show ?thesis
      proof (cases q)
        case None
        with "1.prems" False rd h show ?thesis by (simp add: filemap_read.simps [of f pos cnt] split: if_splits)
      next
        case (Some p)
        with "1.prems" False rd h show ?thesis
          using "1.IH" [OF False rd [symmetric] Some refl refl]
          by (simp add: filemap_read.simps [of f pos cnt] Let_def)
      qed
    qed
  qed
  then show "i_size g = i_size f" and "view g = view f" by simp_all
qed

section \<open>Reads of children without versions\<close>

lemma resolve_untouched:
  "\<forall>r\<in>set recs. \<not> covers r blk \<Longrightarrow> blk < orig div PAGE_SIZE \<Longrightarrow> resolve recs n orig blk = blk"
proof -
  assume a: "\<forall>r\<in>set recs. \<not> covers r blk" "blk < orig div PAGE_SIZE"
  have "find (\<lambda>r. version_num r \<le> n \<and> 1 \<le> version_num r \<and> covers r blk) (rev recs) = None"
    unfolding find_None_iff using a(1) by auto
  with a(2) show ?thesis by (simp only: resolve_def) simp
qed

lemma lookup_block_untouched:
  assumes "i_par_vfs_inode (scorws w c) = Some p" and "i_scorw_inode (inodes w p) = Some pa" and "i_vfs_inode (scorws w pa) = p"
    and "i_log (scorws w pa) = Some l" "l \<noteq> p" and "inode_ok (fenv e p) (ver_of e w pa)"
    and "\<forall>r\<in>set (inode_hist (ver_of e w pa)). \<not> covers r blk"
    and "blk < scorw_get_original_parent_size (junk_attr e) (attrs_of w p) div PAGE_SIZE"
  shows "\<exists>u. lookup_block e c blk w = Ret (blk, u) \<and> file_of u p = file_of w p"
proof -
  let ?v = "ver_of e w pa"
  obtain f where f: "i_log_vfs_inode ?v = Some f" "vs_ok (fenv e p) (vcache ?v, f)" "inode_hist ?v = log_records f"
    using assms(6) by (rule inode_okE)
  have "orig_size ?v = scorw_get_original_parent_size (junk_attr e) (attrs_of w p)" using assms(3) by simp
  then have r: "resolve (log_records f) n (orig_size ?v) blk = blk" for n
    using resolve_untouched [of "log_records f" blk] assms(7,8) f(3) by simp
  obtain vc f' where k: "scorw_lookup_physical_block (fenv e p) (i_version (scorws w c)) (orig_size ?v) (Some f) (vcache ?v) blk =
      Some (blk, vc, Some f')"
    using lookup_physical_block_resolve [of "vcache ?v" f "fenv e p" "i_version (scorws w c)" "orig_size ?v" blk] f(2) r
    by (auto simp: vs_ok_def)
  have "lookup_block e c blk w = Ret (blk, store_ver pa (?v\<lparr>vcache := vc, i_log_vfs_inode := Some f'\<rparr>) w)"
    using assms(1-3) k f(1) by (simp add: lookup_block_def scorw_find_inode_def Let_def del: ver_of_simps)
  then show ?thesis using assms(3-5) by (simp add: store_ver_def Let_def)
qed

text \<open>C38: take a child, its parent, and a block of the original file for which the log of the
  parent has no record, as in every parent that was cloned without versions and has an empty
  log. A read of the child in that block returns what the parent has there now: whether the
  child has its own copy of the block, or a page copy of it is waiting, is not looked at.\<close>

theorem child_read_ignores_snapshot:
  assumes "i_scorw_inode (inodes w i) = Some c" and "i_par_vfs_inode (scorws w c) = Some p"
    and "i_scorw_inode (inodes w p) = Some pa" and "i_vfs_inode (scorws w pa) = p" and "i_log (scorws w pa) = Some l" "l \<noteq> p"
    and "inode_ok (fenv e p) (ver_of e w pa)" and "\<forall>r\<in>set (inode_hist (ver_of e w pa)). \<not> covers r (pos div PAGE_SIZE)"
    and "pos div PAGE_SIZE < scorw_get_original_parent_size (junk_attr e) (attrs_of w p) div PAGE_SIZE"
    and "0 < n" and "m = min n (PAGE_SIZE - pos mod PAGE_SIZE)" and "pos + m \<le> i_size (file_of w p)" and "i_size (file_of w p) < 2 ^ 63"
  shows "\<exists>u. ext4_file_read_iter e False dio False i pos n w = Ret (case view (file_of w p) (pos div PAGE_SIZE) of
      None \<Rightarrow> Inl (- EIO) | Some pg \<Rightarrow> Inr (page_bytes pg (pos mod PAGE_SIZE) m), u)"
proof -
  define b off where "b = pos div PAGE_SIZE" and "off = pos mod PAGE_SIZE"
  have pos: "pos = b * PAGE_SIZE + off" by (simp add: b_def off_def)
  have "off < PAGE_SIZE" by (simp add: off_def)
  then have m: "0 < m" "off + m \<le> PAGE_SIZE" using assms(10) unfolding assms(11) off_def [symmetric] by linarith+
  have bp: "b * PAGE_SIZE < 2 ^ 63" using assms(12,13) pos by linarith
  then have wrap: "b \<noteq> BLK_NOT_FOUND" "b * PAGE_SIZE mod 2 ^ 64 = b * PAGE_SIZE" by (auto simp: BLK_NOT_FOUND_def)
  obtain u where u: "lookup_block e c b w = Ret (b, u)" "file_of u p = file_of w p"
    using lookup_block_untouched [OF assms(2-9)] unfolding b_def by blast
  obtain r w1 where g: "generic_file_read_iter p (b * PAGE_SIZE + off) m u = (r, w1)" by fastforce
  have "r = (case view (file_of w p) b of None \<Rightarrow> Inl (- EIO) | Some pg \<Rightarrow> Inr (page_bytes pg off m))"
    using g filemap_read_block [OF m(2,1), of b "file_of w p"] assms(12) pos
    by (auto simp: generic_file_read_iter_def u(2) split: prod.splits)
  moreover have "scorw_read_from_parent e c pos n w = Ret (r, w1)"
    unfolding scorw_read_from_parent_def Let_def assms(2) option.case b_def [symmetric] off_def [symmetric] u(1) assms(11) [folded off_def, symmetric]
      obind.simps prod.case wrap(2) if_P [OF wrap(1)] g ..
  ultimately show ?thesis unfolding b_def [symmetric] off_def [symmetric]
    using assms(1-3,10) by (simp add: ext4_file_read_iter_def scorw_find_inode_def scorw_is_child_file_def scorw_is_child_inode_def Let_def)
qed

text \<open>The parent with its original size in an attribute and an empty log (inode 4).\<close>

definition sized_demo :: world where
  "sized_demo = upd_scorw 10 (\<lambda>s. s\<lparr>i_log := Some 4\<rparr>) (set_attrs 1 [par_org \<mapsto> le_bytes 8 8192] demo)"

lemma sized_demo_write:
  "\<exists>w'. ext4_buffered_write_iter demo_kernel 0 False id [(False, 3)] 1 [1, 2, 3] 5 sized_demo = Ret (3, w') \<and>
     snapshot w' 11 0 = Some (\<lambda>k. if k < 4096 then 7 else 0) \<and> view (file_of w' 1) 0 = Some (memcpy_page (\<lambda>_. 7) 5 [1, 2, 3]) \<and>
     i_size (file_of w' 1) = 8192 \<and> attrs_of w' 1 = [par_org \<mapsto> le_bytes 8 8192] \<and> i_scorw_inode (inodes w' 1) = Some 10 \<and>
     i_scorw_inode (inodes w' 2) = Some 11 \<and> i_par_vfs_inode (scorws w' 11) = Some 1 \<and> i_vfs_inode (scorws w' 10) = 1 \<and>
     i_log (scorws w' 10) = Some 4 \<and> i_versions (scorws w' 10) = empty_cache \<and> i_size (file_of w' 4) = 0 \<and> i_version (scorws w' 10) = 0"
  by (simp add: write_eval demo_simps sized_demo_def Let_def)
    (simp add: snapshot_def child_page_def Let_def copied_def view_def find_pc_def pc_matches_def pc_page_def cut_page_def page_copy_len_def copy_len_def zero_scorw_def)

theorem child_read_ignores_snapshot_witness:
  "\<exists>w' u. ext4_buffered_write_iter demo_kernel 0 False id [(False, 3)] 1 [1, 2, 3] 5 sized_demo = Ret (3, w') \<and>
     snapshot w' 11 0 = Some (\<lambda>k. if k < 4096 then 7 else 0) \<and>
     ext4_file_read_iter demo_kernel False (\<lambda>_ _ _ w. (Inr [], w)) False 2 5 3 w' = Ret (Inr [1, 2, 3], u)"
proof -
  obtain w' where w': "ext4_buffered_write_iter demo_kernel 0 False id [(False, 3)] 1 [1, 2, 3] 5 sized_demo = Ret (3, w')"
    "snapshot w' 11 0 = Some (\<lambda>k. if k < 4096 then 7 else 0)" and v: "view (file_of w' 1) 0 = Some (memcpy_page (\<lambda>_. 7) 5 [1, 2, 3])"
    and s: "i_size (file_of w' 1) = 8192" "attrs_of w' 1 = [par_org \<mapsto> le_bytes 8 8192]" "i_scorw_inode (inodes w' 1) = Some 10"
      "i_scorw_inode (inodes w' 2) = Some 11" "i_par_vfs_inode (scorws w' 11) = Some 1" "i_vfs_inode (scorws w' 10) = 1"
      "i_log (scorws w' 10) = Some 4" "i_versions (scorws w' 10) = empty_cache" "i_size (file_of w' 4) = 0" "i_version (scorws w' 10) = 0"
    using sized_demo_write by blast
  have h: "inode_hist (ver_of demo_kernel w' 10) = []" using s(7,9) by (simp add: inode_hist_def log_records_def)
  have ok: "inode_ok (fenv demo_kernel 1) (ver_of demo_kernel w' 10)"
    unfolding inode_ok_def h using s(7-10)
    by (simp add: vs_ok_def cache_inv_empty log_ok_def pages_ok_def log_records_def history_ok_def newest_def demo_kernel_def)
  have "\<exists>u. ext4_file_read_iter demo_kernel False (\<lambda>_ _ _ w. (Inr [], w)) False 2 5 3 w' = Ret (case view (file_of w' 1) (5 div PAGE_SIZE) of
      None \<Rightarrow> Inl (- EIO) | Some pg \<Rightarrow> Inr (page_bytes pg (5 mod PAGE_SIZE) 3), u)"
    by (rule child_read_ignores_snapshot [OF s(4,5,3,6,7) _ ok])
      (simp_all only: s h, simp_all add: scorw_get_original_parent_size_def attr_val_def ext4_xattr_get_def le_val_le_bytes)
  with w' v show ?thesis by (auto simp: page_bytes_def memcpy_page_def upt_rec)
qed

end
