(* ===== verification/Versioned_Reads.thy ===== *)
theory Versioned_Reads
  imports Read_Path
begin

text \<open>
  A versioned parent is written, its transactions are begun, committed and given up, and
  it and its children are read, in any order: what a child reads of its version does not
  change.
\<close>

section \<open>What the parent keeps\<close>

text \<open>A versioned parent whose store is in order, and what reads of it and writes to it
  leave alone: the blocks below \<open>lim\<close>, the history up to its version, and who is a
  child of whom.\<close>

definition versioned :: "kernel \<Rightarrow> world \<Rightarrow> addr \<Rightarrow> bool" where
  "versioned e w pa \<longleftrightarrow>
     (let s = scorws w pa; p = i_vfs_inode s in
      i_scorw_inode (inodes w p) = Some pa \<and> i_par_vfs_inode s = None \<and> i_see_thru_ro s \<noteq> 0 \<and>
      (\<exists>l. i_log s = Some l \<and> l \<noteq> p \<and> l \<notin> friends w pa) \<and> p \<notin> friends w pa \<and> inode_ok (fenv e p) (ver_of e w pa))"

lemma versionedE:
  assumes "versioned e w pa"
  obtains l where "i_scorw_inode (inodes w (i_vfs_inode (scorws w pa))) = Some pa" "i_par_vfs_inode (scorws w pa) = None"
    "i_see_thru_ro (scorws w pa) \<noteq> 0" "i_log (scorws w pa) = Some l" "l \<noteq> i_vfs_inode (scorws w pa)" "l \<notin> friends w pa"
    "i_vfs_inode (scorws w pa) \<notin> friends w pa" "inode_ok (fenv e (i_vfs_inode (scorws w pa))) (ver_of e w pa)"
  using assms unfolding versioned_def Let_def by blast

definition fixed :: "scorw_inode \<Rightarrow> ino \<times> ino option \<times> ino option \<times> (nat \<Rightarrow> addr option) \<times> int \<times> ino option" where
  "fixed s = (i_vfs_inode s, i_par_vfs_inode s, i_frnd_vfs_inode s, i_child_scorw_inode s, i_see_thru_ro s, i_log s)"

lemma fixed_eqD:
  assumes "fixed s = fixed t"
  shows "i_vfs_inode s = i_vfs_inode t" "i_par_vfs_inode s = i_par_vfs_inode t" "i_frnd_vfs_inode s = i_frnd_vfs_inode t"
    "i_child_scorw_inode s = i_child_scorw_inode t" "i_see_thru_ro s = i_see_thru_ro t" "i_log s = i_log t"
  using assms by (simp_all add: fixed_def)

definition calm :: "kernel \<Rightarrow> addr \<Rightarrow> nat \<Rightarrow> world \<Rightarrow> world \<Rightarrow> bool" where
  "calm e pa lim w w' \<longleftrightarrow>
     (let p = i_vfs_inode (scorws w pa) in
      (\<forall>b. fixed (scorws w' b) = fixed (scorws w b)) \<and> (\<forall>b. b \<noteq> pa \<longrightarrow> i_version (scorws w' b) = i_version (scorws w b)) \<and>
      (\<forall>x. i_scorw_inode (inodes w' x) = i_scorw_inode (inodes w x)) \<and>
      grows (fenv e p) (ver_of e w pa) (ver_of e w' pa) \<and>
      (\<forall>b<lim. view (file_of w' p) b = view (file_of w p) b) \<and>
      ((\<forall>b. view (file_of w p) b \<noteq> None) \<longrightarrow> (\<forall>b. view (file_of w' p) b \<noteq> None)) \<and> i_size (file_of w p) \<le> i_size (file_of w' p))"

lemma calmD:
  assumes "calm e pa lim w w'"
  shows "fixed (scorws w' b) = fixed (scorws w b)" "b \<noteq> pa \<Longrightarrow> i_version (scorws w' b) = i_version (scorws w b)"
    "i_scorw_inode (inodes w' x) = i_scorw_inode (inodes w x)"
    "grows (fenv e (i_vfs_inode (scorws w pa))) (ver_of e w pa) (ver_of e w' pa)"
    "k < lim \<Longrightarrow> view (file_of w' (i_vfs_inode (scorws w pa))) k = view (file_of w (i_vfs_inode (scorws w pa))) k"
    "i_size (file_of w (i_vfs_inode (scorws w pa))) \<le> i_size (file_of w' (i_vfs_inode (scorws w pa)))"
    "(\<And>k. view (file_of w (i_vfs_inode (scorws w pa))) k \<noteq> None) \<Longrightarrow> view (file_of w' (i_vfs_inode (scorws w pa))) k \<noteq> None"
  using assms unfolding calm_def Let_def by blast+

lemma friends_fixed: "(\<And>b. fixed (scorws w' b) = fixed (scorws w b)) \<Longrightarrow> friends w' pa = friends w pa"
proof -
  assume f: "\<And>b. fixed (scorws w' b) = fixed (scorws w b)"
  show ?thesis unfolding friends_def fixed_eqD(3) [OF f] fixed_eqD(4) [OF f] ..
qed

lemma calm_versioned:
  assumes "calm e pa lim w w'" and "versioned e w pa"
  shows "versioned e w' pa"
proof -
  note f = calmD(1) [OF assms(1)]
  have "inode_ok (fenv e (i_vfs_inode (scorws w pa))) (ver_of e w' pa)" using calmD(4) [OF assms(1)] by (simp add: grows_def)
  with assms(2) show ?thesis
    by (simp add: versioned_def Let_def fixed_eqD [OF f] friends_fixed [OF f] calmD(3) [OF assms(1)])
qed

lemma calm_trans:
  assumes "calm e pa lim w u" and "calm e pa lim u w'"
  shows "calm e pa lim w w'"
proof -
  note 1 = calmD [OF assms(1)] and 2 = calmD [OF assms(2)]
  note p = fixed_eqD(1) [OF 1(1)]
  show ?thesis unfolding calm_def Let_def
    using 1 2 grows_trans [OF 1(4) 2(4) [unfolded p]] order_trans [OF 1(6) 2(6) [unfolded p]] by (simp add: p)
qed

lemma calm_mono: "calm e pa m w w' \<Longrightarrow> n \<le> m \<Longrightarrow> calm e pa n w w'"
  by (simp add: calm_def Let_def)

lemma calm_quiet:
  assumes v: "versioned e w pa" and l: "\<And>b. links (scorws w' b) = links (scorws w b)"
    and i: "\<And>x. i_scorw_inode (inodes w' x) = i_scorw_inode (inodes w x)"
    and o: "\<And>x. scorw_get_original_parent_size (junk_attr e) (attrs_of w' x) = scorw_get_original_parent_size (junk_attr e) (attrs_of w x)"
    and f: "\<And>x. x \<notin> friends w pa \<Longrightarrow> x \<noteq> i_vfs_inode (scorws w pa) \<Longrightarrow> file_of w' x = file_of w x"
    and d: "\<And>b. b < lim \<Longrightarrow> view (file_of w' (i_vfs_inode (scorws w pa))) b = view (file_of w (i_vfs_inode (scorws w pa))) b"
    and r: "\<And>b. view (file_of w (i_vfs_inode (scorws w pa))) b \<noteq> None \<Longrightarrow> view (file_of w' (i_vfs_inode (scorws w pa))) b \<noteq> None"
    and z: "i_size (file_of w (i_vfs_inode (scorws w pa))) \<le> i_size (file_of w' (i_vfs_inode (scorws w pa)))"
  shows "calm e pa lim w w'"
proof -
  note q = links_eqD [OF l]
  from v obtain lg where g: "i_log (scorws w pa) = Some lg" "lg \<noteq> i_vfs_inode (scorws w pa)" "lg \<notin> friends w pa"
    "inode_ok (fenv e (i_vfs_inode (scorws w pa))) (ver_of e w pa)" by (rule versionedE)
  have "version (ver_of e w' pa) = version (ver_of e w pa)" "vcache (ver_of e w' pa) = vcache (ver_of e w pa)"
    "i_log_vfs_inode (ver_of e w' pa) = i_log_vfs_inode (ver_of e w pa)" "orig_size (ver_of e w' pa) = orig_size (ver_of e w pa)"
    using f [OF g(3,2)] g(1) by (simp_all add: ver_of_def Let_def q o)
  then have "grows (fenv e (i_vfs_inode (scorws w pa))) (ver_of e w pa) (ver_of e w' pa)"
    using g(4) by (intro growsI_same) (simp_all add: inode_ok_def inode_hist_def)
  then show ?thesis using d r z by (simp add: calm_def Let_def fixed_def q i)
qed

lemma calm_refl: "versioned e w pa \<Longrightarrow> calm e pa lim w w"
  by (rule calm_quiet) simp_all

lemma calm_touched:
  assumes "touched F w w'" and "F \<subseteq> friends w pa" and "versioned e w pa"
  shows "calm e pa lim w w'"
proof (rule calm_quiet [OF assms(3) touchedD(1,6,9) [OF assms(1)]])
  have "i_vfs_inode (scorws w pa) \<notin> F" using assms(2,3) by (auto elim: versionedE)
  then have e: "file_of w' (i_vfs_inode (scorws w pa)) = file_of w (i_vfs_inode (scorws w pa))" by (rule touchedD(7) [OF assms(1)])
  show "view (file_of w' (i_vfs_inode (scorws w pa))) b = view (file_of w (i_vfs_inode (scorws w pa))) b"
    "i_size (file_of w (i_vfs_inode (scorws w pa))) \<le> i_size (file_of w' (i_vfs_inode (scorws w pa)))"
    "view (file_of w (i_vfs_inode (scorws w pa))) b \<noteq> None \<Longrightarrow> view (file_of w' (i_vfs_inode (scorws w pa))) b \<noteq> None" for b
    by (simp_all add: e)
  show "file_of w' x = file_of w x" if "x \<notin> friends w pa" "x \<noteq> i_vfs_inode (scorws w pa)" for x
    using that assms(2) by (intro touchedD(7) [OF assms(1)]) blast
qed

lemma calm_file:
  assumes "versioned e w pa" and "i_size (file_of w (i_vfs_inode (scorws w pa))) \<le> i_size g"
    and "\<And>b. b < lim \<Longrightarrow> view g b = view (file_of w (i_vfs_inode (scorws w pa))) b"
    and "\<And>b. view (file_of w (i_vfs_inode (scorws w pa))) b \<noteq> None \<Longrightarrow> view g b \<noteq> None"
  shows "calm e pa lim w (set_file (i_vfs_inode (scorws w pa)) g w)"
  using assms by (intro calm_quiet) simp_all

lemma calm_store:
  assumes v: "versioned e w pa" and g: "grows (fenv e (i_vfs_inode (scorws w pa))) (ver_of e w pa) v"
    and z: "i_size (file_of w (i_vfs_inode (scorws w pa))) \<le> i_size (data v)"
    and d: "\<And>b. b < lim \<Longrightarrow> view (data v) b = view (file_of w (i_vfs_inode (scorws w pa))) b"
    and r: "\<And>b. view (file_of w (i_vfs_inode (scorws w pa))) b \<noteq> None \<Longrightarrow> view (data v) b \<noteq> None"
  shows "calm e pa lim w (store_ver pa v w)" and "file_of (store_ver pa v w) (i_vfs_inode (scorws w pa)) = data v"
proof -
  let ?p = "i_vfs_inode (scorws w pa)" and ?w = "store_ver pa v w"
  from v obtain lg where lg: "i_log (scorws w pa) = Some lg" "lg \<noteq> ?p" by (rule versionedE)
  obtain f where f: "i_log_vfs_inode v = Some f" using g by (auto simp: grows_def elim: inode_okE)
  have w: "?w = set_file lg f (upd_scorw pa (\<lambda>s. s\<lparr>i_version := version v, i_versions := vcache v, i_t_locks := t_locks v\<rparr>) (set_file ?p (data v) w))"
    by (simp add: store_ver_def Let_def lg f)
  show p: "file_of ?w ?p = data v" using lg(2) by (simp add: w)
  have "version (ver_of e ?w pa) = version v" "vcache (ver_of e ?w pa) = vcache v"
    "i_log_vfs_inode (ver_of e ?w pa) = i_log_vfs_inode v" "orig_size (ver_of e ?w pa) = orig_size v"
    using lg g by (simp_all add: ver_of_def Let_def w f grows_def)
  then have "grows (fenv e ?p) v (ver_of e ?w pa)"
    using g by (intro growsI_same) (simp_all add: inode_ok_def inode_hist_def grows_def)
  from grows_trans [OF g this] show "calm e pa lim w ?w"
    using z d r p by (auto simp: calm_def Let_def fixed_def w lg)
qed

section \<open>Writes to the parent\<close>

lemma touched_find_targets:
  assumes "oloop (find_target e i pa blk) xs (t, w) = Ret (t', w')"
  shows "touched (friends w pa) w w'"
  using assms
proof (induction xs arbitrary: t w)
  case (Cons x xs)
  then obtain t1 w1 where 1: "find_target e i pa blk x (t, w) = Ret (t1, w1)"
    and 2: "oloop (find_target e i pa blk) xs (t1, w1) = Ret (t', w')" by (auto simp: obind_Ret_iff)
  have t1: "touched (friends w pa) w w1"
  proof (cases "i_child_scorw_inode (scorws w pa) x")
    case None
    with 1 show ?thesis by (simp add: find_target_def)
  next
    case (Some c)
    consider "w1 = w" | d where "block_copied e c blk w = Ret (d, w1)"
      using 1 Some by (auto simp: find_target_def obind_Ret_iff split: if_splits)
    then show ?thesis
    proof cases
      case 2
      then obtain f where f: "i_frnd_vfs_inode (scorws w c) = Some f" by (auto simp: block_copied_def split: option.splits)
      then have "f \<in> friends w pa" using Some by (auto simp: friends_def)
      then show ?thesis by (rule touched_block_copied [OF 2 f])
    qed simp
  qed
  from touched_trans [OF t1 Cons.IH [OF 2, unfolded friends_touched [OF t1, of pa]]] show ?case .
qed simp

lemma calm_inodes:
  assumes "versioned e w pa" and "\<And>b. links (scorws w' b) = links (scorws w b)" and "inodes w' = inodes w"
  shows "calm e pa lim w w'"
  using assms by (intro calm_quiet) simp_all

lemma calm_write_par_blocks:
  assumes "scorw_write_par_blocks e (i_vfs_inode (scorws w pa)) pos len (pg, up) w = Ret w'" and v: "versioned e w pa"
  shows "calm e pa lim w w'"
proof -
  let ?p = "i_vfs_inode (scorws w pa)"
  have "scorw_find_inode w ?p = Some pa" using v by (auto simp: scorw_find_inode_def elim: versionedE)
  with assms(1) consider "w' = w" | t w1 where
    "oloop (find_target e ?p pa (pos div PAGE_SIZE mod 2 ^ 32)) (child_slots (scorws w pa)) (\<lambda>_. False, w) = Ret (t, w1)"
    "w' = w1 \<or> (\<exists>b a full pg up t. scorw_prepare_page_copy e b pa a full (pg, up) t (w1\<lparr>next_addr := next_addr w1 + 1\<rparr>) = Ret w')"
    unfolding scorw_write_par_blocks_def Let_def by (auto simp: obind_Ret_iff split: if_splits) blast+
  then show ?thesis
  proof cases
    case 1
    with v show ?thesis by (simp add: calm_refl)
  next
    case 2
    have c: "calm e pa lim w w1" by (rule calm_touched [OF touched_find_targets [OF 2(1)] order_refl v])
    from 2(2) show ?thesis
    proof (elim disjE exE)
      fix b a full q up' t'
      assume "scorw_prepare_page_copy e b pa a full (q, up') t' (w1\<lparr>next_addr := next_addr w1 + 1\<rparr>) = Ret w'"
      note p = prepare_page_copy_effect(4,5) [OF this]
      have "calm e pa lim w1 w'" by (rule calm_inodes [OF calm_versioned [OF c v]]) (use p in simp_all)
      with c show ?thesis by (rule calm_trans)
    qed (use c in simp)
  qed
qed

lemma calm_write_page:
  assumes "write_page e wp (i_vfs_inode (scorws w pa)) pos bs k w = Ret (st, w')" and v: "versioned e w pa"
    and lim: "lim \<le> pos div PAGE_SIZE"
  shows "calm e pa lim w w'"
proof -
  let ?p = "i_vfs_inode (scorws w pa)"
  have "inode_ok (fenv e ?p) (ver_of e w pa)" using v by (rule versionedE)
  then have "pages_env_ok (fenv e ?p)" by (rule inode_okE) (simp add: vs_ok_def)
  then have ed: "end_res (fenv e ?p) (pos div PAGE_SIZE) = End_Done" by (rule pages_env_okD(3))
  obtain held w1 where b: "(if wp then write_par_begin e ?p pos w else Ret (None, w)) = Ret (held, w1)"
    using assms(1) by (auto simp: write_page_def obind_Ret_iff)
  have "touched {} w w1" using b
    by (auto simp: write_par_begin_def obind_Ret_iff Let_def dest!: touched_barrier_begin split: if_splits option.splits)
  then have c1: "calm e pa lim w w1" by (rule calm_touched [OF _ _ v]) simp
  note v1 = calm_versioned [OF c1 v] and vi = fixed_eqD(1) [OF calmD(1) [OF c1], of pa]
  show ?thesis
  proof (cases "write_begin (fenv e ?p) (junk_page e) (file_of w1 ?p) pos (length bs)")
    case None
    with assms(1) b c1 show ?thesis by (simp add: write_page_def Let_def)
  next
    case (Some p)
    define up got where "up = (cache (file_of w1 ?p) (pos div PAGE_SIZE) \<noteq> None)" and "got = copied_in up (length bs) k"
    obtain w2 where w2: "(if held \<noteq> None then scorw_write_par_blocks e ?p pos (length bs) (p, up) w1 else Ret w1) = Ret w2"
      and w3: "write_par_end ?p pos held (fill_page ?p pos p bs got w2) = Ret w'"
      using assms(1) b Some unfolding up_def got_def by (auto simp: end_page_done [OF ed] write_page_def obind_Ret_iff Let_def simp del: not_None_eq)
    have c2: "calm e pa lim w1 w2"
      using w2 calm_write_par_blocks [of e w1 pa] v1 by (auto simp: vi calm_refl split: if_splits)
    note v2 = calm_versioned [OF c2 v1] and vj = fixed_eqD(1) [OF calmD(1) [OF c2], of pa, unfolded vi]
    have c3: "calm e pa lim w2 (fill_page ?p pos p bs got w2)"
    proof (cases "got = 0")
      case False
      with calm_file [OF v2, of "write_end (file_of w2 ?p) (pos div PAGE_SIZE) pos got (memcpy_page p (pos mod PAGE_SIZE) (take got bs))" lim] lim
      show ?thesis by (simp add: fill_page_def vj)
    qed (simp add: fill_page_def calm_refl [OF v2])
    have "touched {} (fill_page ?p pos p bs got w2) w'"
      using w3 by (auto simp: write_par_end_def touched_barrier_end split: option.splits)
    then have "calm e pa lim (fill_page ?p pos p bs got w2) w'"
      by (rule calm_touched [OF _ _ calm_versioned [OF c3 v2]]) simp
    with c1 c2 c3 show ?thesis by (blast intro: calm_trans)
  qed
qed

lemma calm_write_loop:
  assumes "write_loop e wp seg (i_vfs_inode (scorws w pa)) turns n pos bs written w = Ret (r, w')" and "versioned e w pa"
    and "lim \<le> pos div PAGE_SIZE"
  shows "calm e pa lim w w'"
  using assms
proof (induction turns arbitrary: n pos bs written w)
  case (Cons t turns)
  obtain fatal k where t: "t = (fatal, k)" by (cases t)
  show ?case
  proof (cases fatal)
    case True
    with Cons.prems t show ?thesis by (auto intro: calm_refl)
  next
    case False
    let ?m = "min k n"
    obtain st w1 where st: "write_page e wp (i_vfs_inode (scorws w pa)) pos (take n bs) ?m w = Ret (st, w1)"
      using Cons.prems(1) t False by (auto simp: obind_Ret_iff)
    have c: "calm e pa lim w w1" by (rule calm_write_page [OF st Cons.prems(2,3)])
    note vi = fixed_eqD(1) [OF calmD(1) [OF c], of pa]
    have lim: "lim \<le> (pos + x) div PAGE_SIZE" for x using Cons.prems(3) div_le_mono [of pos "pos + x" PAGE_SIZE] by linarith
    have again: "calm e pa lim w w'"
      if "write_loop e wp seg (i_vfs_inode (scorws w1 pa)) turns b (pos + x) rest y w1 = Ret (r, w')" for b x rest y
      by (rule calm_trans [OF c Cons.IH [OF that calm_versioned [OF c Cons.prems(2)] lim]])
    show ?thesis
      using Cons.prems(1) t False st c again [of _ 0] again [of _ "nat st"] by (auto simp: vi Let_def split: if_splits)
  qed
qed simp

lemma copy_one_page_frame:
  assumes "pages_env_ok e" and "\<And>b. view f b \<noteq> None" and "dest mod PAGE_SIZE = 0"
  shows "\<exists>g r. scorw_internal_copy_blocks e junk f src dest PAGE_SIZE st = (r, g) \<and> 0 \<le> r \<and> i_size f \<le> i_size g \<and>
    (\<forall>b. view g b \<noteq> None) \<and> (\<forall>b<dest div PAGE_SIZE. view g b = view f b)"
proof -
  obtain q g where rd: "read_mapping_page f (pgoff src) = (q, g)" by fastforce
  have g: "i_size g = i_size f" "view g b = view f b" for b
    using read_mapping_page_frame [of f "pgoff src"] unfolding rd by simp_all
  obtain p where q: "q = Some p" using read_mapping_page_fst [of f "pgoff src"] assms(2) [of "pgoff src"] unfolding rd by auto
  obtain x where x: "write_begin e junk g dest PAGE_SIZE = Some x"
    using pages_env_okD(2) [OF assms(1)] by (cases "cache g (dest div PAGE_SIZE)") (auto simp: write_begin_def)
  show ?thesis using assms(2) by (simp add: copy_one_page [OF assms(3)] rd q x g)
qed

lemma see_thru_copies_frame:
  assumes "pages_env_ok e" and "\<And>b. view f b \<noteq> None" and "app mod PAGE_SIZE = 0"
  shows "\<exists>d. see_thru_copies e junk f pos n ls blk app = (False, d) \<and> i_size f \<le> i_size d \<and>
    (\<forall>b. view d b \<noteq> None) \<and> (\<forall>b<app div PAGE_SIZE. view d b = view f b)"
proof (cases "blk \<noteq> BLK_NOT_FOUND \<or> pos < ls")
  case True
  define last helper where "last = (pos + n + 2 ^ 64 - 1) mod 2 ^ 64 div PAGE_SIZE"
    and "helper = (last + 2 ^ 64 - pos div PAGE_SIZE) mod 2 ^ 64"
  obtain st1 f1 where 1: "(if pos mod PAGE_SIZE \<noteq> 0 \<or> (helper = 0 \<and> (pos + n) mod PAGE_SIZE \<noteq> 0)
      then scorw_internal_copy_blocks e junk f (blk * PAGE_SIZE mod 2 ^ 64) app PAGE_SIZE 0 else (0, f)) = (st1, f1)"
    and f1: "0 \<le> st1" "i_size f \<le> i_size f1" "\<And>b. view f1 b \<noteq> None" "\<And>b. b < app div PAGE_SIZE \<Longrightarrow> view f1 b = view f b"
    using copy_one_page_frame [OF assms, of junk "blk * PAGE_SIZE mod 2 ^ 64" 0] assms(2)
    by (cases "pos mod PAGE_SIZE \<noteq> 0 \<or> (helper = 0 \<and> (pos + n) mod PAGE_SIZE \<noteq> 0)") auto
  have m: "(app + helper * PAGE_SIZE) mod PAGE_SIZE = 0" "app div PAGE_SIZE \<le> (app + helper * PAGE_SIZE) div PAGE_SIZE"
    using assms(3) by (simp_all add: div_le_mono)
  obtain st2 f2 where 2: "(if (pos + n) mod PAGE_SIZE \<noteq> 0 \<and> 0 < helper \<and> last * PAGE_SIZE < ls
      then scorw_internal_copy_blocks e junk f1 (last * PAGE_SIZE) (app + helper * PAGE_SIZE) PAGE_SIZE 0 else (0, f1)) = (st2, f2)"
    and f2: "0 \<le> st2" "i_size f1 \<le> i_size f2" "\<And>b. view f2 b \<noteq> None" "\<And>b. b < app div PAGE_SIZE \<Longrightarrow> view f2 b = view f1 b"
    using copy_one_page_frame [OF assms(1) f1(3) m(1), of junk "last * PAGE_SIZE" 0] f1 m(2)
    by (cases "(pos + n) mod PAGE_SIZE \<noteq> 0 \<and> 0 < helper \<and> last * PAGE_SIZE < ls") auto
  have "see_thru_copies e junk f pos n ls blk app = (False, f2)"
    unfolding see_thru_copies_def Let_def last_def [symmetric] helper_def [symmetric] 1 prod.case 2 using True f1(1) f2(1) by simp
  with f1 f2 show ?thesis by auto
qed (use assms in \<open>simp add: see_thru_copies_def\<close>)

text \<open>The redirection of a write: the position it goes to is past every block of the file.\<close>

lemma redirect_frame:
  assumes "inode_ok e s" and "write_fits s pos n" and "version s < 2 ^ 31 - 1" and "pages_env_ok e"
    and "\<And>b. view (data s) b \<noteq> None" and "scorw_write_see_thru_ro e junk rjunk intr s f pos n = Ret (r, s')"
  shows "i_size (data s) \<le> i_size (data s')" "view (data s') b \<noteq> None" "0 \<le> r \<Longrightarrow> b * PAGE_SIZE < i_size (data s) \<Longrightarrow> b < nat r div PAGE_SIZE"
    "b * PAGE_SIZE < i_size (data s) \<Longrightarrow> view (data s') b = view (data s) b"
proof -
  let ?app = "page_align (i_size (data s))"
  have "i_size (data s) \<le> i_size (data s') \<and> view (data s') b \<noteq> None \<and> (0 \<le> r \<and> b * PAGE_SIZE < i_size (data s) \<longrightarrow> b < nat r div PAGE_SIZE) \<and>
    (b * PAGE_SIZE < i_size (data s) \<longrightarrow> view (data s') b = view (data s) b)"
  proof (cases "can_write s f")
    case True
    obtain d where d: "see_thru_copies e junk (data s) pos n (orig_size s) (write_source s pos) ?app = (False, d)"
      "i_size (data s) \<le> i_size d" "\<forall>b. view d b \<noteq> None" "\<forall>b<?app div PAGE_SIZE. view d b = view (data s) b"
      using see_thru_copies_frame [OF assms(4,5), of ?app junk pos n] by force
    have b: "b < ?app div PAGE_SIZE" if "b * PAGE_SIZE < i_size (data s)"
    proof -
      have "b * PAGE_SIZE < ?app" using that page_align_ge [of "i_size (data s)"] by linarith
      moreover have "?app div PAGE_SIZE * PAGE_SIZE = ?app" using page_align_mod [of "i_size (data s)"] by (metis add.right_neutral div_mult_mod_eq)
      ultimately show ?thesis by (metis mult_less_cancel2)
    qed
    have r: "r = int (?app + pos mod PAGE_SIZE)" "data s' = d"
      using write_see_thru_effect [OF assms(1-3) True d(1), of rjunk intr] assms(6) by auto
    have "?app div PAGE_SIZE \<le> nat r div PAGE_SIZE" unfolding r nat_int by (rule div_le_mono) simp
    with b have "b * PAGE_SIZE < i_size (data s) \<Longrightarrow> b < nat r div PAGE_SIZE" using order_less_le_trans by blast
    with b d r show ?thesis by auto
  next
    case False
    from write_refused [OF this, of e junk rjunk intr pos n] assms(5,6) show ?thesis by auto
  qed
  then show "i_size (data s) \<le> i_size (data s')" "view (data s') b \<noteq> None" "0 \<le> r \<Longrightarrow> b * PAGE_SIZE < i_size (data s) \<Longrightarrow> b < nat r div PAGE_SIZE"
    "b * PAGE_SIZE < i_size (data s) \<Longrightarrow> view (data s') b = view (data s) b" by simp_all
qed

lemma calm_buffered_write:
  assumes "ext4_buffered_write_iter e f intr seg turns (i_vfs_inode (scorws w pa)) bs pos w = Ret (r, w')"
    and v: "versioned e w pa" and env: "pages_env_ok (fenv e (i_vfs_inode (scorws w pa)))"
    and rd: "\<And>b. view (file_of w (i_vfs_inode (scorws w pa))) b \<noteq> None"
    and fits: "write_fits (ver_of e w pa) pos (length bs)" and ver: "i_version (scorws w pa) < 2 ^ 31 - 1"
    and blk: "blk * PAGE_SIZE < i_size (file_of w (i_vfs_inode (scorws w pa)))"
  shows "calm e pa (Suc blk) w w'"
proof -
  let ?p = "i_vfs_inode (scorws w pa)"
  from v have s: "i_scorw_inode (inodes w ?p) = Some pa" "i_par_vfs_inode (scorws w pa) = None" "i_see_thru_ro (scorws w pa) \<noteq> 0"
    "inode_ok (fenv e ?p) (ver_of e w pa)" by (auto elim: versionedE)
  obtain q u where q: "scorw_write_see_thru_ro (fenv e ?p) (junk_page e) (junk_attr e) intr (ver_of e w pa) f pos (length bs) = Ret (q, u)"
    and run: "(if q < 0 then Ret (q, store_ver pa u w) else write_loop e True seg ?p turns
      (min (PAGE_SIZE - nat q mod PAGE_SIZE) (length bs)) (nat q) bs 0 (store_ver pa u w)) = Ret (r, w')"
    using assms(1) s
    by (auto simp: ext4_buffered_write_iter_def scorw_is_child_file_def scorw_is_par_file_def scorw_find_inode_def
        scorw_is_child_inode_def scorw_generic_perform_write_def obind_Ret_iff)
  have ver': "version (ver_of e w pa) < 2 ^ 31 - 1" using ver by simp
  have rd': "\<And>b. view (data (ver_of e w pa)) b \<noteq> None" using rd by simp
  note fr = redirect_frame [OF s(4) fits ver' env rd' q, simplified ver_of_simps]
  have c1: "calm e pa (Suc blk) w (store_ver pa u w)"
  proof (rule calm_store(1) [OF v redirect_grows [OF s(4) fits ver' q] fr(1) _ fr(2)])
    fix b assume "b < Suc blk"
    then have "b * PAGE_SIZE \<le> blk * PAGE_SIZE" by simp
    then show "view (data u) b = view (file_of w ?p) b" using blk by (intro fr(4)) linarith
  qed
  show ?thesis
  proof (cases "q < 0")
    case True
    with run c1 show ?thesis by simp
  next
    case False
    have "Suc blk \<le> nat q div PAGE_SIZE" using blk fr(3) False by (simp add: Suc_le_eq)
    with run False calm_write_loop [OF _ calm_versioned [OF c1 v], of True seg turns _ "nat q" bs 0 r w'] fixed_eqD(1) [OF calmD(1) [OF c1], of pa]
    show ?thesis using calm_trans [OF c1] by simp
  qed
qed

section \<open>Reads\<close>

definition reads :: "world \<Rightarrow> addr \<Rightarrow> addr \<Rightarrow> bool" where
  "reads w pa a \<longleftrightarrow> a = pa \<or> i_par_vfs_inode (scorws w a) = Some (i_vfs_inode (scorws w pa))"

definition served_block :: "kernel \<Rightarrow> world \<Rightarrow> addr \<Rightarrow> addr \<Rightarrow> nat \<Rightarrow> nat" where
  "served_block e w pa a blk = resolve (inode_hist (ver_of e w pa)) (min (nat (i_version (scorws w a))) MAX_VERSIONS)
     (orig_size (ver_of e w pa)) blk"

lemma lookup_block_calm:
  assumes v: "versioned e w pa" and a: "reads w pa a"
  shows "\<exists>u. lookup_block e a blk w = Ret (served_block e w pa a blk, u) \<and> calm e pa lim w u \<and>
    file_of u (i_vfs_inode (scorws w pa)) = file_of w (i_vfs_inode (scorws w pa))"
proof -
  let ?p = "i_vfs_inode (scorws w pa)" and ?v = "ver_of e w pa" and ?n = "i_version (scorws w a)"
  from v have s: "i_scorw_inode (inodes w ?p) = Some pa" "i_par_vfs_inode (scorws w pa) = None"
    "inode_ok (fenv e ?p) ?v" by (auto elim: versionedE)
  obtain l where l: "i_log_vfs_inode ?v = Some l" "vs_ok (fenv e ?p) (vcache ?v, l)" "inode_hist ?v = log_records l"
    using s(3) by (rule inode_okE)
  then obtain vc l' where k: "scorw_lookup_physical_block (fenv e ?p) ?n (orig_size ?v) (Some l) (vcache ?v) blk =
      Some (served_block e w pa a blk, vc, Some l')"
    using lookup_physical_block_resolve [of "vcache ?v" l "fenv e ?p" ?n "orig_size ?v" blk]
    by (auto simp: vs_ok_def served_block_def)
  let ?u = "?v\<lparr>vcache := vc, i_log_vfs_inode := Some l'\<rparr>"
  have "grows (fenv e ?p) ?v ?u"
    by (rule ver_step_grows [OF ver_step.lookup s(3)], unfold l(1), rule k)
  note c = calm_store [OF v this, of lim]
  have "lookup_block e a blk w = Ret (served_block e w pa a blk, store_ver pa ?u w)"
    using a s(1,2) k l(1) by (auto simp: lookup_block_def reads_def scorw_find_inode_def Let_def simp del: ver_of_simps)
  with c show ?thesis by simp
qed

lemma calm_generic_read:
  assumes "generic_file_read_iter (i_vfs_inode (scorws w pa)) pos n w = (x, w')" and "versioned e w pa"
  shows "calm e pa lim w w'"
proof -
  obtain r g where g: "filemap_read (file_of w (i_vfs_inode (scorws w pa))) pos n [] = (r, g)" by fastforce
  with assms(1) have "w' = set_file (i_vfs_inode (scorws w pa)) g w" by (simp add: generic_file_read_iter_def)
  with filemap_read_frame [OF g] calm_file [OF assms(2), of g lim] show ?thesis by simp
qed

lemma versioned_read_routed:
  assumes v: "versioned e w pa" and i: "i_scorw_inode (inodes w i) = Some a" and a: "reads w pa a" and n: "0 < n"
  shows "ext4_file_read_iter e False dio direct i pos n w = (if direct then Ret (Inr [], w) else scorw_read_from_parent e a pos n w)"
proof -
  from v have "i_scorw_inode (inodes w (i_vfs_inode (scorws w pa))) = Some pa" "i_par_vfs_inode (scorws w pa) = None"
    "i_log (scorws w pa) \<noteq> None" by (auto elim: versionedE)
  with a i n show ?thesis
    by (auto simp: ext4_file_read_iter_def scorw_find_inode_def scorw_is_child_file_def scorw_is_child_inode_def reads_def Let_def)
qed

lemma read_inode_of:
  assumes "versioned e w pa" and "reads w pa a"
  shows "(case i_par_vfs_inode (scorws w a) of Some p \<Rightarrow> p | None \<Rightarrow> i_vfs_inode (scorws w a)) = i_vfs_inode (scorws w pa)"
  using assms by (auto simp: reads_def elim: versionedE)

lemma calm_read:
  assumes run: "ext4_file_read_iter e shutdown dio direct i pos n w = Ret (x, w')" and v: "versioned e w pa"
    and i: "i_scorw_inode (inodes w i) = Some a" and a: "reads w pa a"
  shows "calm e pa lim w w'"
proof (cases "shutdown \<or> n = 0 \<or> direct")
  case True
  with run versioned_read_routed [OF v i a, of n dio direct pos] v show ?thesis
    by (cases "shutdown \<or> n = 0") (auto simp: ext4_file_read_iter_def Let_def intro: calm_refl split: if_splits)
next
  case False
  obtain u where u: "lookup_block e a (pos div PAGE_SIZE) w = Ret (served_block e w pa a (pos div PAGE_SIZE), u)" "calm e pa lim w u"
    using lookup_block_calm [OF v a] by blast
  note vi = fixed_eqD(1) [OF calmD(1) [OF u(2)], of pa]
  have "w' = u \<or> (\<exists>q m y. generic_file_read_iter (i_vfs_inode (scorws u pa)) q m u = (y, w'))"
    using run False versioned_read_routed [OF v i a, of n dio direct pos]
    by (auto simp: scorw_read_from_parent_def Let_def read_inode_of [OF v a] u(1) vi split: if_splits)
  then show ?thesis using u(2) calm_generic_read [OF _ calm_versioned [OF u(2) v]] by (blast intro: calm_trans)
qed

lemma versioned_read_value:
  assumes v: "versioned e w pa" and i: "i_scorw_inode (inodes w i) = Some a" and a: "reads w pa a" and n: "0 < n"
    and b: "b = served_block e w pa a (pos div PAGE_SIZE)" and m: "m = min n (PAGE_SIZE - pos mod PAGE_SIZE)"
    and fit: "b * PAGE_SIZE + pos mod PAGE_SIZE + m \<le> i_size (file_of w (i_vfs_inode (scorws w pa)))"
    and wrap: "b * PAGE_SIZE < 2 ^ 63"
  shows "\<exists>u. ext4_file_read_iter e False dio False i pos n w = Ret (case view (file_of w (i_vfs_inode (scorws w pa))) b of
      None \<Rightarrow> Inl (- EIO) | Some p \<Rightarrow> Inr (page_bytes p (pos mod PAGE_SIZE) m), u)"
proof -
  let ?p = "i_vfs_inode (scorws w pa)"
  obtain u where u: "lookup_block e a (pos div PAGE_SIZE) w = Ret (b, u)" "file_of u ?p = file_of w ?p"
    using lookup_block_calm [OF v a] unfolding b by blast
  have off: "pos mod PAGE_SIZE < PAGE_SIZE" by simp
  then have m': "0 < m" "pos mod PAGE_SIZE + m \<le> PAGE_SIZE" using n unfolding m by linarith+
  have wrap: "b \<noteq> BLK_NOT_FOUND" "b * PAGE_SIZE mod 2 ^ 64 = b * PAGE_SIZE" using wrap by (auto simp: BLK_NOT_FOUND_def)
  obtain r w1 where g: "generic_file_read_iter ?p (b * PAGE_SIZE + pos mod PAGE_SIZE) m u = (r, w1)" by fastforce
  have "r = (case view (file_of w ?p) b of None \<Rightarrow> Inl (- EIO) | Some p \<Rightarrow> Inr (page_bytes p (pos mod PAGE_SIZE) m))"
    using g filemap_read_block [OF m'(2,1) fit] by (auto simp: generic_file_read_iter_def u(2) split: prod.splits)
  moreover have "scorw_read_from_parent e a pos n w = Ret (r, w1)"
    unfolding scorw_read_from_parent_def Let_def read_inode_of [OF v a] u(1) m [symmetric] obind.simps prod.case wrap(2) if_P [OF wrap(1)] g ..
  ultimately show ?thesis using versioned_read_routed [OF v i a n, of dio False pos] by simp
qed

section \<open>Runs\<close>

text \<open>
  Buffered writes to the parent, the transaction calls of open files, and reads of the
  parent and of its children. Each step is a call that returned.
\<close>

inductive see_thru_step :: "kernel \<Rightarrow> addr \<Rightarrow> world \<Rightarrow> world \<Rightarrow> bool" for e pa where
  parent_write: "write_fits (ver_of e w pa) pos (length bs) \<Longrightarrow> i_version (scorws w pa) < 2 ^ 31 - 1 \<Longrightarrow>
    ext4_buffered_write_iter e f intr seg turns (i_vfs_inode (scorws w pa)) bs pos w = Ret (r, w') \<Longrightarrow> see_thru_step e pa w w'"
| txn: "i_version (scorws w pa) < 2 ^ 31 - 1 \<Longrightarrow>
    scorw_set_transaction intr (Some (ver_of e w pa)) f val = Ret (r, v) \<Longrightarrow> see_thru_step e pa w (store_ver pa v w)"
| abort: "scorw_set_transaction_error (Some (ver_of e w pa)) f = (r, Some v) \<Longrightarrow> see_thru_step e pa w (store_ver pa v w)"
| file_read: "i_scorw_inode (inodes w i) = Some a \<Longrightarrow> reads w pa a \<Longrightarrow>
    ext4_file_read_iter e shutdown dio direct i pos n w = Ret (x, w') \<Longrightarrow> see_thru_step e pa w w'"

lemma txn_data: "scorw_set_transaction intr (Some s) f val = Ret (r, v) \<Longrightarrow> data v = data s"
  by (auto simp: scorw_set_transaction_def Let_def split: if_splits)

lemma see_thru_step_calm:
  assumes "see_thru_step e pa w w'" and v: "versioned e w pa" and env: "pages_env_ok (fenv e (i_vfs_inode (scorws w pa)))"
    and rd: "\<And>b. view (file_of w (i_vfs_inode (scorws w pa))) b \<noteq> None"
    and blk: "blk * PAGE_SIZE < i_size (file_of w (i_vfs_inode (scorws w pa)))"
  shows "calm e pa (Suc blk) w w'"
  using assms(1)
proof cases
  case (parent_write pos bs f intr seg turns r)
  show ?thesis by (rule calm_buffered_write [OF parent_write(3) v env rd parent_write(1,2) blk])
next
  case (txn intr f val r u)
  have ok: "inode_ok (fenv e (i_vfs_inode (scorws w pa))) (ver_of e w pa)" using v by (rule versionedE)
  have "grows (fenv e (i_vfs_inode (scorws w pa))) (ver_of e w pa) u"
    by (rule set_transaction_grows [OF ok _ txn(3)]) (use txn(2) in simp)
  from calm_store(1) [OF v this] txn_data [OF txn(3)] show ?thesis by (simp add: txn(1))
next
  case (abort f r u)
  have ok: "inode_ok (fenv e (i_vfs_inode (scorws w pa))) (ver_of e w pa)" using v by (rule versionedE)
  have "data u = data (ver_of e w pa)" using abort(2) by (auto simp: scorw_set_transaction_error_def split: if_splits)
  with calm_store(1) [OF v ver_step_grows [OF ver_step.abort_txn [OF abort(2)] ok]] show ?thesis by (simp add: abort(1))
next
  case (file_read i a shutdown dio direct pos n x)
  show ?thesis by (rule calm_read [OF file_read(3) v file_read(1,2)])
qed

lemma see_thru_run_calm:
  assumes "(see_thru_step e pa)\<^sup>*\<^sup>* w w'" and v: "versioned e w pa" and env: "pages_env_ok (fenv e (i_vfs_inode (scorws w pa)))"
    and rd: "\<And>b. view (file_of w (i_vfs_inode (scorws w pa))) b \<noteq> None"
    and blk: "blk * PAGE_SIZE < i_size (file_of w (i_vfs_inode (scorws w pa)))"
  shows "calm e pa (Suc blk) w w'"
  using assms(1)
proof (induction rule: rtranclp_induct)
  case (step u w')
  note c = step.IH and vi = fixed_eqD(1) [OF calmD(1) [OF step.IH], of pa]
  have "calm e pa (Suc blk) u w'"
  proof (rule see_thru_step_calm [OF step.hyps(2) calm_versioned [OF c v]], unfold vi)
    show "view (file_of u (i_vfs_inode (scorws w pa))) b \<noteq> None" for b using calmD(7) [OF c rd] .
    show "blk * PAGE_SIZE < i_size (file_of u (i_vfs_inode (scorws w pa)))" using blk calmD(6) [OF c] by linarith
  qed (rule env)
  with c show ?case by (rule calm_trans)
qed (rule calm_refl [OF v])

lemma served_block_calm:
  assumes c: "calm e pa lim w w'" and "a \<noteq> pa" and "i_version (scorws w a) \<le> i_version (scorws w pa)" and v: "versioned e w pa"
  shows "served_block e w' pa a blk = served_block e w pa a blk"
proof -
  let ?n = "min (nat (i_version (scorws w a))) MAX_VERSIONS"
  obtain rs where h: "inode_hist (ver_of e w' pa) = inode_hist (ver_of e w pa) @ rs"
    "\<forall>r\<in>set rs. version (ver_of e w pa) < int (version_num r)" and o: "orig_size (ver_of e w' pa) = orig_size (ver_of e w pa)"
    using calmD(4) [OF c] unfolding grows_def by blast
  have "\<forall>r\<in>set rs. ?n < version_num r"
  proof
    fix r assume "r \<in> set rs"
    then have "i_version (scorws w pa) < int (version_num r)" using h(2) by simp
    moreover have "0 \<le> i_version (scorws w pa)" using v by (auto simp: inode_ok_def elim: versionedE)
    ultimately have "nat (i_version (scorws w a)) < version_num r" using assms(3) by linarith
    then show "?n < version_num r" by simp
  qed
  from resolve_later [OF this] show ?thesis
    unfolding served_block_def h(1) o calmD(2) [OF c assms(2)] by blast
qed


text \<open>C3: what a child reads of a versioned parent is the block that the history of the parent
  gives for the version stored in the child, with the bytes it has now, and it stays the same
  whatever the parent is made to do: no run of buffered writes to the parent, of transactions
  begun, committed or given up, and of reads of parent and children changes the result of the
  read.\<close>

theorem versioned_read_isolation:
  assumes "versioned e w pa" and "pages_env_ok (fenv e (i_vfs_inode (scorws w pa)))"
    and "\<forall>k. view (file_of w (i_vfs_inode (scorws w pa))) k \<noteq> None"
    and "i_scorw_inode (inodes w i) = Some c" and "i_par_vfs_inode (scorws w c) = Some (i_vfs_inode (scorws w pa))"
    and "c \<noteq> pa" and "i_version (scorws w c) \<le> i_version (scorws w pa)"
    and "b = resolve (inode_hist (ver_of e w pa)) (min (nat (i_version (scorws w c))) MAX_VERSIONS)
           (orig_size (ver_of e w pa)) (pos div PAGE_SIZE)"
    and "0 < n" and "m = min n (PAGE_SIZE - pos mod PAGE_SIZE)"
    and "b * PAGE_SIZE + pos mod PAGE_SIZE + m \<le> i_size (file_of w (i_vfs_inode (scorws w pa)))"
    and "i_size (file_of w (i_vfs_inode (scorws w pa))) < 2 ^ 63" and "(see_thru_step e pa)\<^sup>*\<^sup>* w w'"
  shows "\<exists>p u. view (file_of w (i_vfs_inode (scorws w pa))) b = Some p \<and>
    ext4_file_read_iter e False dio False i pos n w' = Ret (Inr (page_bytes p (pos mod PAGE_SIZE) m), u)"
proof -
  let ?p = "i_vfs_inode (scorws w pa)"
  have "0 < m" using assms(9) unfolding assms(10) by simp
  then have in_file: "b * PAGE_SIZE < i_size (file_of w ?p)" using assms(11) by linarith
  note c = see_thru_run_calm [OF assms(13,1,2) spec [OF assms(3)] in_file]
  note f = calmD(1) [OF c] and vi = fixed_eqD(1) [OF f, of pa]
  have b: "b = served_block e w' pa c (pos div PAGE_SIZE)"
    using served_block_calm [OF c assms(6,7,1)] assms(8) by (simp add: served_block_def)
  have i: "i_scorw_inode (inodes w' i) = Some c" using calmD(3) [OF c] assms(4) by simp
  have r: "reads w' pa c" using assms(5) by (simp add: reads_def fixed_eqD(2) [OF f, of c] vi)
  have fit: "b * PAGE_SIZE + pos mod PAGE_SIZE + m \<le> i_size (file_of w' (i_vfs_inode (scorws w' pa)))"
    using assms(11) calmD(6) [OF c] by (simp add: vi)
  obtain p where "view (file_of w ?p) b = Some p" using assms(3) by blast
  with versioned_read_value [OF calm_versioned [OF c assms(1)] i r assms(9) b assms(10) fit] in_file assms(12) calmD(5) [OF c, of b]
  show ?thesis by (simp add: vi)
qed

text \<open>A write to a parent that has no open child.\<close>

lemma no_targets: "\<forall>j. i_child_scorw_inode (scorws w pa) j = None \<Longrightarrow> \<forall>j. \<not> t j \<Longrightarrow>
    \<exists>t'. oloop (find_target e i pa blk) xs (t, w) = Ret (t', w) \<and> (\<forall>j. \<not> t' j)"
  by (induction xs arbitrary: t) (simp_all add: find_target_def)

lemma no_barrier: "\<forall>j. i_child_scorw_inode (scorws w pa) j = None \<Longrightarrow> oloop (barrier_child e pa blk) xs (h, w) = Ret (h, w)"
  by (induction xs) (simp_all add: barrier_child_def)

lemma childless_write_page:
  assumes "\<forall>j. i_child_scorw_inode (scorws w pa) j = None" and "0 \<le> i_lock (scorws w pa)"
    and "i_scorw_inode (inodes w i) = Some pa" and "i_vfs_inode (scorws w pa) = i" and "pages_env_ok (fenv e i)"
    and "view (file_of w i) (pos div PAGE_SIZE) \<noteq> None" and "bs \<noteq> []"
  shows "\<exists>w'. write_page e True i pos bs (length bs) w = Ret (int (length bs), w')"
proof -
  obtain u where u: "down_read pa w = Ret u" "scorws u pa = (scorws w pa)\<lparr>i_lock := i_lock (scorws w pa) + 1\<rparr>" "inodes u = inodes w"
    using assms(2) by (simp add: down_read_def)
  then have ch: "\<forall>j. i_child_scorw_inode (scorws u pa) j = None" using assms(1) by simp
  have b: "scorw_read_barrier_begin e pa blk h w = Ret (h, u)" for blk h
    using no_barrier [OF ch] u(1) by (simp add: scorw_read_barrier_begin_def)
  obtain p where p: "write_begin (fenv e i) (junk_page e) (file_of u i) pos (length bs) = Some p"
    using assms(6) pages_env_okD(2) [OF assms(5)] u(3)
    by (cases "length bs = PAGE_SIZE") (auto simp: write_begin_def view_def split: option.splits)
  have t: "scorw_write_par_blocks e i pos (length bs) q u = Ret u" for q
  proof -
    obtain t where "oloop (find_target e i pa (pos div PAGE_SIZE mod 2 ^ 32)) (child_slots (scorws u pa)) (\<lambda>_. False, u) = Ret (t, u)"
      "\<forall>j. \<not> t j" using no_targets [OF ch, of "\<lambda>_. False"] by fastforce
    with assms(3,4) u(2,3) show ?thesis by (simp add: scorw_write_par_blocks_def Let_def scorw_find_inode_def)
  qed
  have "scorw_find_inode (fill_page i pos p bs k u) i = Some pa" for k
    using assms(3) u(3) by (simp add: scorw_find_inode_def fill_page_def)
  then show ?thesis
    using b p t assms(3) by (simp add: end_page_done [OF pages_env_okD(3) [OF assms(5)]] write_page_def write_par_begin_def write_par_end_def scorw_find_inode_def Let_def copied_in_def)
qed

definition block_file :: "nat \<Rightarrow> file" where
  "block_file n = \<lparr>i_size = n, cache = (\<lambda>_. None), pdirty = (\<lambda>_. False), disk = (\<lambda>b. Some (\<lambda>_. word_of_nat b))\<rparr>"

text \<open>A versioned parent (inode 1) of eight blocks, two of them in the original file, with
  its log (inode 4), and a child (inode 2) of version 1.\<close>

definition vdemo :: world where
  "vdemo = demo\<lparr>inodes := (inodes demo)(1 := (demo_inode 0 0 (Some 10))\<lparr>i_data := block_file 32768, i_xattrs := [par_org \<mapsto> le_bytes 8 8192]\<rparr>,
       4 := (demo_inode 0 0 None)\<lparr>i_data := sample_log\<rparr>),
     scorws := (scorws demo)(10 := zero_scorw\<lparr>i_ino_num := 1, i_vfs_inode := 1, i_process_usage_count := 1, i_see_thru_ro := 1, i_version := 2, i_log := Some 4\<rparr>,
       11 := (scorws demo 11)\<lparr>i_version := 1\<rparr>)\<rparr>"

lemma vdemo_simps [simp]:
  "i_scorw_inode (inodes vdemo (Suc 0)) = Some 10" "i_scorw_inode (inodes vdemo 2) = Some 11" "i_vfs_inode (scorws vdemo 10) = 1"
  "i_par_vfs_inode (scorws vdemo 10) = None" "i_see_thru_ro (scorws vdemo 10) = 1" "i_version (scorws vdemo 10) = 2"
  "i_log (scorws vdemo 10) = Some 4" "i_par_vfs_inode (scorws vdemo 11) = Some 1" "i_version (scorws vdemo 11) = 1"
  "i_versions (scorws vdemo 10) = empty_cache" "i_lock (scorws vdemo 10) = 0" "i_child_scorw_inode (scorws vdemo 10) j = None"
  "file_of vdemo (Suc 0) = block_file 32768" "file_of vdemo 4 = sample_log"
  "i_t_locks (scorws vdemo 10) = \<lparr>locked = False, owner = None, transaction = 0\<rparr>" "i_size (block_file n) = n"
  "view (block_file n) b = Some (\<lambda>_. word_of_nat b)"
  by (simp_all add: vdemo_def demo_simps block_file_def view_def)

lemma vdemo_orig [simp]: "scorw_get_original_parent_size junk (attrs_of vdemo (Suc 0)) = 8192"
  by (simp add: vdemo_def scorw_get_original_parent_size_def attr_val_def ext4_xattr_get_def le_val_le_bytes)

lemma vdemo_versioned: "versioned demo_kernel vdemo 10"
proof -
  have "inode_ok good_env (ver_of demo_kernel vdemo 10)"
    using sample_vs_ok by (simp add: inode_ok_def inode_hist_def sample_log_records newest_def sample_records_def make_record_def)
  moreover have "friends vdemo 10 = {}" by (simp add: friends_def)
  moreover have "fenv demo_kernel 1 = good_env" by (simp add: demo_kernel_def)
  ultimately show ?thesis by (simp add: versioned_def Let_def)
qed


lemma vdemo_write:
  "\<exists>r w'. ext4_buffered_write_iter demo_kernel 0 False id [(False, 1)] 1 [9] 4096 vdemo = Ret (r, w')"
proof -
  let ?v = "ver_of demo_kernel vdemo 10"
  have v: "inode_ok good_env ?v" using vdemo_versioned by (auto simp: demo_kernel_def elim: versionedE)
  have fits: "write_fits ?v 4096 1" by (simp add: write_fits_def)
  have rd: "view (data ?v) b \<noteq> None" for b by simp
  have al: "page_align 32768 = 32768" by (simp add: page_align_def)
  obtain d where d: "see_thru_copies good_env (junk_page demo_kernel) (data ?v) 4096 1 (orig_size ?v) (write_source ?v 4096) 32768 = (False, d)"
    "\<forall>b. view d b \<noteq> None"
    using see_thru_copies_frame [of good_env "data ?v" 32768 "junk_page demo_kernel" 4096 1] demo_env(1) rd
    by (force simp: demo_kernel_def)
  have can: "can_write ?v 0" by (simp add: can_write_def ver_of_def Let_def)
  obtain u where u: "scorw_write_see_thru_ro good_env (junk_page demo_kernel) (junk_attr demo_kernel) False ?v 0 4096 1 = Ret (32768, u)"
    "data u = d"
    using write_see_thru_effect [OF v fits _ can, of "junk_page demo_kernel" False d "junk_attr demo_kernel" False] d(1) al by auto
  let ?w = "store_ver 10 u vdemo"
  have w: "i_scorw_inode (inodes ?w 1) = Some 10" "file_of ?w 1 = d" "i_vfs_inode (scorws ?w 10) = 1" "i_lock (scorws ?w 10) = 0"
    "\<forall>j. i_child_scorw_inode (scorws ?w 10) j = None"
    using u(2) by (auto simp: store_ver_def Let_def split: option.splits)
  have env: "pages_env_ok (fenv demo_kernel 1)" using demo_env(1) by blast
  obtain w' where w': "write_page demo_kernel True 1 32768 [9] 1 ?w = Ret (1, w')"
    using childless_write_page [OF w(5) _ w(1,3) env, of 32768 "[9]"] w(2,4) d(2) by auto
  then have "write_loop demo_kernel True id 1 [(False, 1)] 1 32768 [9] 0 ?w = Ret (1, w')" by simp
  moreover have "fenv demo_kernel 1 = good_env" by (simp add: demo_kernel_def)
  ultimately show ?thesis using u(1)
    by (simp add: ext4_buffered_write_iter_def scorw_is_child_file_def scorw_is_par_file_def scorw_find_inode_def
        scorw_is_child_inode_def scorw_generic_perform_write_def)
qed

theorem versioned_read_isolation_witness:
  "\<exists>r w' u. ext4_buffered_write_iter demo_kernel 0 False id [(False, 1)] 1 [9] 4096 vdemo = Ret (r, w') \<and>
     ext4_file_read_iter demo_kernel False (\<lambda>_ _ _ w. (Inr [], w)) False 2 4096 3 w' = Ret (Inr [6, 6, 6], u)"
proof -
  obtain r w' where w': "ext4_buffered_write_iter demo_kernel 0 False id [(False, 1)] 1 [9] 4096 vdemo = Ret (r, w')"
    using vdemo_write by blast
  have "see_thru_step demo_kernel 10 vdemo w'"
    using see_thru_step.parent_write [of demo_kernel vdemo 10 4096 "[9]" 0 False id "[(False, 1)]" r w'] w' by (simp add: write_fits_def)
  then have run: "(see_thru_step demo_kernel 10)\<^sup>*\<^sup>* vdemo w'" by (rule r_into_rtranclp)
  have b: "6 = resolve (inode_hist (ver_of demo_kernel vdemo 10)) (min (nat (i_version (scorws vdemo 11))) MAX_VERSIONS)
      (orig_size (ver_of demo_kernel vdemo 10)) (4096 div PAGE_SIZE)"
    by (simp add: inode_hist_def sample_log_records resolve_def sample_records_def make_record_def covers_def target_def)
  have env: "pages_env_ok (fenv demo_kernel (i_vfs_inode (scorws vdemo 10)))" using demo_env(1) by blast
  have "\<exists>p u. view (file_of vdemo (i_vfs_inode (scorws vdemo 10))) 6 = Some p \<and>
      ext4_file_read_iter demo_kernel False (\<lambda>_ _ _ w. (Inr [], w)) False 2 4096 3 w' = Ret (Inr (page_bytes p (4096 mod PAGE_SIZE) 3), u)"
    by (rule versioned_read_isolation [OF vdemo_versioned env _ _ _ _ _ b _ _ _ _ run]) simp_all
  with w' show ?thesis by (auto simp: page_bytes_def upt_rec)
qed


end
