(* ===== verification/Writeback.thy ===== *)
theory Writeback
  imports Snapshot_Runs
begin

text \<open>
  Writing the dirty pages of a file back: \<open>filemap_fdatawrite_wbc\<close> of \<open>src/filemap.c\<close>
  with the mutex that the module added for parents.
\<close>

definition lock_sync :: "ino \<Rightarrow> world \<Rightarrow> world outcome" where
  "lock_sync i w = (if i_vfs_inode_writeback_sync_lock (inodes w i) then Blocks
     else Ret (upd_ino i (\<lambda>v. v\<lparr>i_vfs_inode_writeback_sync_lock := True\<rparr>) w))"

definition unlock_sync :: "ino \<Rightarrow> world \<Rightarrow> world" where
  "unlock_sync i = upd_ino i (\<lambda>v. v\<lparr>i_vfs_inode_writeback_sync_lock := False\<rparr>)"

text \<open>\<open>PAGECACHE_TAG_DIRTY\<close> of a mapping: no page past the end of the file is dirty.\<close>

definition mapping_dirty :: "file \<Rightarrow> bool" where
  "mapping_dirty f = list_ex (pdirty f) [0..<(i_size f + PAGE_SIZE - 1) div PAGE_SIZE]"

text \<open>
  \<open>filemap_fdatawrite_wbc\<close> of a file of the module. \<open>do_writepages\<close> is the writeback of
  ext4 with the given control block: its result and the file. The walk over the tagged
  pages of a parent has no effect: what it did for the children is commented out.
\<close>

definition filemap_fdatawrite_wbc :: "kernel \<Rightarrow> (file \<Rightarrow> int \<times> file) \<Rightarrow> ino \<Rightarrow> world \<Rightarrow> (int \<times> world) outcome" where
  "filemap_fdatawrite_wbc e do_writepages i w =
     obind (if i \<noteq> 0 \<and> scorw_is_par_file e w i True then lock_sync i w else Ret w) (\<lambda>w1.
       if \<not> mapping_dirty (file_of w1 i) then Ret (0, w1)
       else case do_writepages (file_of w1 i) of
         (ret, f) \<Rightarrow>
           let w2 = set_file i f w1
           in Ret (ret, if i \<noteq> 0 \<and> scorw_is_par_file e w2 i True then unlock_sync i w2 else w2))"

lemma par_file_attrs:
  assumes "i_scorw_inode (inodes w' i) = i_scorw_inode (inodes w i)" and "attrs_of w' i = attrs_of w i" and "scorws w' = scorws w"
  shows "scorw_is_par_file e w' i b = scorw_is_par_file e w i b"
  unfolding scorw_is_par_file_def scorw_find_inode_def assms ..

lemma par_file_upd [simp]:
  "scorw_is_par_file e (set_file i f w) i b = scorw_is_par_file e w i b"
  "scorw_is_par_file e (upd_ino i (\<lambda>v. v\<lparr>i_vfs_inode_writeback_sync_lock := x\<rparr>) w) i b = scorw_is_par_file e w i b"
  by (rule par_file_attrs; simp)+

text \<open>A sync that finds something to write gives the mutex back, so that the next one can
  go on.\<close>

lemma dirty_sync_unlocks:
  assumes "mapping_dirty (file_of w i)" and "\<not> i_vfs_inode_writeback_sync_lock (inodes w i)" and "wb (file_of w i) = (r, f)"
  shows "\<exists>w'. filemap_fdatawrite_wbc e wb i w = Ret (r, w') \<and> file_of w' i = f \<and> \<not> i_vfs_inode_writeback_sync_lock (inodes w' i)"
  using assms by (auto simp: filemap_fdatawrite_wbc_def lock_sync_def unlock_sync_def Let_def)

end
