(* ===== verification/Create_Child.thy ===== *)
theory Create_Child
  imports Writeback
begin

text \<open>
  Making a file a child, as a whole: the branch of \<open>ext4_xattr_set\<close>
  (\<open>src/ext4-module/xattr.c\<close>) for \<open>SCORW_PARENT\<close> with its locks, the attributes
  (\<open>Xattr_Store\<close>), the friend file (\<open>Friend_Bitmap\<close>) and \<open>special_open\<close> (\<open>Lifecycle\<close>).
  A child that is made while its parent is open joins the family of the parent, and its
  snapshot is what the parent holds at this moment.
\<close>

section \<open>The branch of \<open>ext4_xattr_set\<close>\<close>

text \<open>
  Parent, child and friend are different files. \<open>error\<close> is the result of the transaction
  that stores the attribute \<open>SCORW_PARENT\<close> itself (quota, credits, journal and
  \<open>ext4_xattr_set_handle\<close>), whose value has become the inode number of the parent. The
  results of \<open>ext4_iget\<close> are used without a test.
\<close>

definition ext4_xattr_set_parent :: "kernel \<Rightarrow> int \<Rightarrow> ino \<Rightarrow> helper_inodes \<Rightarrow> world \<Rightarrow> (int \<times> world) outcome" where
  "ext4_xattr_set_parent e error c h w =
     (let p = p_inode_num h; f = f_inode_num h;
          unlock = (\<lambda>w. unlock_sync p (unlock_open_close p (unlock_vfs p w)))
      in if \<not> iget_ok e p \<or> \<not> iget_ok e f then Oops
      else obind (lock_sync p w) (\<lambda>w. obind (lock_open_close p w) (\<lambda>w. obind (lock_vfs p w) (\<lambda>w.
        case xattr_set_parent (xset_ok e) (junk_attr e) c h (i_size (file_of w p)) (attrs_of w p) (attrs_of w c) (attrs_of w f) of
          Inl err \<Rightarrow> Ret (err, unlock w)
        | Inr (i, px, cx, fx) \<Rightarrow>
            let w1 = set_attrs f fx
                  (upd_ino c (\<lambda>v. v\<lparr>i_xattrs := cx, i_data := (i_data v)\<lparr>i_size := i_size (file_of w p)\<rparr>\<rparr>) (set_attrs p px w))
            in if error \<noteq> 0 then Ret (error, unlock w1)
               else
                 let w2 = set_attrs c ((attrs_of w1 c)(scorw_parent \<mapsto> le_bytes 8 p)) w1;
                     w3 = set_file f (scorw_init_friend_file (fenv e f) (junk_page e) (file_of w2 f) (i_size (file_of w2 c))) w2
                 in obind (special_open e p c i w3) (\<lambda>w4. Ret (0, unlock w4))))))"

section \<open>The new scorw inode\<close>

lemma prepare_ranges:
  assumes "\<forall>i\<in>set is. fst (scorw_get_range_attr_val x i (junk_crx e)) \<noteq> 0"
  shows "\<exists>r t. oloop (prepare_range e x) is s = Ret (s\<lparr>i_range := r, i_see_thru_ro := t\<rparr>)"
  using assms
proof (induction "is" arbitrary: s)
  case Nil
  show ?case by (intro exI [of _ "i_range s"] exI [of _ "i_see_thru_ro s"]) simp
next
  case (Cons i "is")
  obtain q crx where q: "scorw_get_range_attr_val x i (junk_crx e) = (q, crx)" by fastforce
  with Cons.prems obtain r t where "prepare_range e x i s = Ret (s\<lparr>i_range := r, i_see_thru_ro := t\<rparr>)"
    by (auto simp: prepare_range_def)
  with Cons.IH [of "s\<lparr>i_range := r, i_see_thru_ro := t\<rparr>"] Cons.prems show ?case by auto
qed

text \<open>What the attributes must say for the scorw inode of a child to be made.\<close>

definition child_attrs :: "kernel \<Rightarrow> ino \<Rightarrow> ino \<Rightarrow> nat \<Rightarrow> xattrs \<Rightarrow> xattrs \<Rightarrow> bool" where
  "child_attrs e p f n x fx \<longleftrightarrow>
     scorw_get_parent_attr_val (junk_attr e) x = p \<and> scorw_get_friend_attr_val (junk_attr e) x = f \<and>
     scorw_get_copy_size_attr_val (junk_attr e) x = int n \<and> scorw_get_curr_version_attr_val (junk_attr e) x = 1 \<and>
     scorw_get_child_version_attr_val (junk_attr e) x = 1 \<and> scorw_get_frnd_version_attr_val (junk_attr e) fx = 1 \<and>
     (\<forall>i. int i < scorw_get_num_ranges_attr_val (junk_attr e) x \<longrightarrow> fst (scorw_get_range_attr_val x i (junk_crx e)) \<noteq> 0)"

definition new_child :: "ino \<Rightarrow> ino \<Rightarrow> ino \<Rightarrow> nat \<Rightarrow> scorw_inode \<Rightarrow> bool" where
  "new_child c p f n s \<longleftrightarrow> i_ino_num s = c \<and> i_vfs_inode s = c \<and> i_par_vfs_inode s = Some p \<and> i_frnd_vfs_inode s = Some f \<and>
     i_copy_size s = int n \<and> i_process_usage_count s = 1 \<and> \<not> i_ino_unlinked s"

lemma get_new_child_inode:
  assumes "child_attrs e p f n (attrs_of w c) (attrs_of w f)" and "mem_ok e" and "iget_ok e p" and "iget_ok e f"
    and "p \<noteq> 0" and "f \<noteq> 0" and "\<not> i_vfs_inode_lock (inodes w c)" and "i_scorw_inode (inodes w c) = None"
    and "f \<noteq> c"
  obtains s w' where "scorw_get_child_inode e c w = Ret (Some (next_addr w), w')" "new_child c p f n s"
    "scorws w' = (scorws w)(next_addr w := s)" "inodes w' = (inodes w)(c := (inodes w c)\<lparr>i_scorw_inode := Some (next_addr w), i_vfs_inode_lock := False\<rparr>)"
    "page_copies w' = page_copies w" "page_copy_llist w' = page_copy_llist w" "page_copy_hlist w' = page_copy_hlist w"
    "next_addr w' = Suc (next_addr w)"
proof -
  let ?x = "attrs_of w c" and ?a = "next_addr w"
  define u where "u = upd_ino c (\<lambda>v. v\<lparr>i_vfs_inode_lock := True\<rparr>) w"
  define u1 where "u1 = u\<lparr>next_addr := ?a + 1, scorws := (scorws u)(?a := zero_scorw)\<rparr>"
  define s0 where "s0 = zero_scorw\<lparr>i_t_locks := free_t_locks, i_version := 1, i_ino_num := c, i_process_usage_count := 0,
     i_ino_unlinked := False, i_vfs_inode := c, i_par_vfs_inode := Some p, i_frnd_vfs_inode := Some f, i_copy_size := int n,
     i_pending_copy_pages := int (scorw_get_blocks_to_copy_attr_val (junk_attr e) ?x), i_at_index := - 1,
     i_num_ranges := scorw_get_num_ranges_attr_val (junk_attr e) ?x, i_see_thru_ro := 0\<rparr>"
  obtain r t where rt: "oloop (prepare_range e ?x) [0..<nat (scorw_get_num_ranges_attr_val (junk_attr e) ?x)] s0 =
      Ret (s0\<lparr>i_range := r, i_see_thru_ro := t\<rparr>)"
    using prepare_ranges [of "[0..<nat (scorw_get_num_ranges_attr_val (junk_attr e) ?x)]" ?x e s0] assms(1)
    by (auto simp: child_attrs_def zless_nat_eq_int_zless)
  define s where "s = s0\<lparr>i_range := r, i_see_thru_ro := t, i_uncopied_blocks := empty_amap active_map_size\<rparr>"
  have "s32 1 = 1" by (simp add: s32_id)
  moreover have "recover_friend e c f (int n) (upd_scorw ?a (\<lambda>_. s) u1) = Ret (upd_scorw ?a (\<lambda>_. s) u1)"
    using assms(1,9) by (simp add: recover_friend_def child_attrs_def u1_def u_def)
  ultimately have p: "scorw_prepare_child_inode e ?a c u1 = Ret (upd_scorw ?a (\<lambda>_. s) u1)"
    using assms(1-6) rt unfolding scorw_prepare_child_inode_def child_attrs_def Let_def
    by (simp add: u1_def u_def s0_def s_def)
  define w' where "w' = unlock_vfs c (scorw_add_inode_list ?a (attach_new ?a c (upd_scorw ?a (\<lambda>_. s) u1)))"
  show ?thesis
  proof (rule that [of w' "s\<lparr>i_process_usage_count := 1\<rparr>"])
    show "scorw_get_child_inode e c w = Ret (Some ?a, w')"
    proof -
      have "lock_vfs c w = Ret u" "scorw_alloc_inode u = (?a, u1)" "i_scorw_inode (inodes u c) = None"
        using assms(7,8) by (simp_all add: lock_vfs_def scorw_alloc_inode_def u1_def u_def)
      with assms(2) p show ?thesis by (simp add: scorw_get_child_inode_def w'_def)
    qed
    show "new_child c p f n (s\<lparr>i_process_usage_count := 1\<rparr>)" by (simp add: new_child_def s_def s0_def)
  qed (simp_all add: w'_def unlock_vfs_def scorw_add_inode_list_def attach_new_def scorw_inc_process_usage_count_def u1_def u_def s_def s0_def fun_eq_iff)
qed

lemma special_open_new:
  assumes "child_attrs e p f n (attrs_of w c) (attrs_of w f)" and "mem_ok e" and "iget_ok e p" and "iget_ok e f"
    and "p \<noteq> 0" and "f \<noteq> 0" and "\<not> i_vfs_inode_lock (inodes w c)" and "i_scorw_inode (inodes w c) = None"
    and "f \<noteq> c" and "p \<noteq> c" and "i_scorw_inode (inodes w p) = Some pa" and "pa < next_addr w" and "i_lock (scorws w pa) = 0"
  obtains s w' where "special_open e p c j w = Ret w'" "new_child c p f n s"
    "scorws w' = (scorws w)(next_addr w := s\<lparr>i_at_index := int j, i_process_usage_count := 2\<rparr>,
       pa := (scorws w pa)\<lparr>i_child_scorw_inode := (i_child_scorw_inode (scorws w pa))(j := Some (next_addr w)),
         i_last_child_index := max (i_last_child_index (scorws w pa)) (int j), i_process_usage_count := i_process_usage_count (scorws w pa) + 1\<rparr>)"
    "inodes w' = (inodes w)(c := (inodes w c)\<lparr>i_scorw_inode := Some (next_addr w), i_vfs_inode_lock := False\<rparr>)"
    "page_copies w' = page_copies w" "page_copy_llist w' = page_copy_llist w" "page_copy_hlist w' = page_copy_hlist w"
    "next_addr w' = Suc (next_addr w)"
proof -
  let ?a = "next_addr w"
  obtain s w1 where 1: "scorw_get_child_inode e c w = Ret (Some ?a, w1)" and s: "new_child c p f n s"
    and w1: "scorws w1 = (scorws w)(?a := s)" "inodes w1 = (inodes w)(c := (inodes w c)\<lparr>i_scorw_inode := Some ?a, i_vfs_inode_lock := False\<rparr>)"
      "page_copies w1 = page_copies w" "page_copy_llist w1 = page_copy_llist w" "page_copy_hlist w1 = page_copy_hlist w" "next_addr w1 = Suc ?a"
    using assms(1-9) by (rule get_new_child_inode)
  have pa: "pa \<noteq> ?a" using assms(12) by simp
  define w2 where "w2 = upd_scorw pa (\<lambda>s. s\<lparr>i_lock := - 1\<rparr>) w1"
  define w3 where "w3 = upd_scorw ?a (\<lambda>s. s\<lparr>i_at_index := int j\<rparr>)
    (upd_scorw pa (\<lambda>s. s\<lparr>i_child_scorw_inode := (i_child_scorw_inode s)(j := Some ?a)\<rparr>) w2)"
  define w4 where "w4 = (if i_last_child_index (scorws w3 pa) < int j then upd_scorw pa (\<lambda>s. s\<lparr>i_last_child_index := int j\<rparr>) w3 else w3)"
  define w5 where "w5 = up_write pa w4"
  define w6 where "w6 = unlock_vfs c (scorw_inc_process_usage_count pa (scorw_inc_process_usage_count ?a (upd_ino c (\<lambda>v. v\<lparr>i_vfs_inode_lock := True\<rparr>) w5)))"
  have dw: "down_write pa w1 = Ret w2" using assms(13) pa by (simp add: down_write_def w2_def w1)
  have i5: "inodes w5 = inodes w1" by (simp add: w5_def up_write_def w4_def w3_def w2_def)
  have s5: "scorws w5 ?a = s\<lparr>i_at_index := int j\<rparr>" using pa by (simp add: w5_def up_write_def w4_def w3_def w2_def w1)
  have "scorw_get_child_inode e c w5 = Ret (Some ?a, w6)"
    using s assms(10,11) pa
    by (simp add: scorw_get_child_inode_def lock_vfs_def i5 w1 get_existing_def s5 new_child_def w6_def Let_def scorw_inc_process_usage_count_def)
  then have run: "special_open e p c j w = Ret w6"
    unfolding special_open_def assms(11) 1 obind.simps prod.case option.case dw Let_def w3_def [symmetric] w4_def [symmetric] w5_def [symmetric]
    by simp
  have sc: "scorws w6 = (scorws w)(?a := s\<lparr>i_at_index := int j, i_process_usage_count := 2\<rparr>,
       pa := (scorws w pa)\<lparr>i_child_scorw_inode := (i_child_scorw_inode (scorws w pa))(j := Some ?a),
         i_last_child_index := max (i_last_child_index (scorws w pa)) (int j), i_process_usage_count := i_process_usage_count (scorws w pa) + 1\<rparr>)"
    using pa s assms(13)
    by (auto simp: w6_def w5_def w4_def w3_def w2_def w1 unlock_vfs_def scorw_inc_process_usage_count_def up_write_def new_child_def fun_eq_iff max_def
        intro!: scorw_inode.equality)
  show ?thesis
    by (rule that [OF run s sc]) (auto simp: w6_def w5_def w4_def w3_def w2_def w1 unlock_vfs_def scorw_inc_process_usage_count_def up_write_def fun_eq_iff)
qed


section \<open>Making a child of an open parent\<close>

text \<open>
  When a child can be made: the parent is open and none of its locks is held; a slot is
  free in its attributes, and a slot that is free there has no child in memory and no
  page copy waiting for it; the child has no scorw inode and the friend file is empty;
  neither belongs to another child; addresses from \<open>next_addr\<close> on are unused.
\<close>

definition can_create :: "ino \<Rightarrow> helper_inodes \<Rightarrow> world \<Rightarrow> addr \<Rightarrow> bool" where
  "can_create c h w pa \<longleftrightarrow>
     (let p = p_inode_num h; f = f_inode_num h; s = scorws w pa in
      i_vfs_inode s = p \<and> i_lock s = 0 \<and> \<not> i_vfs_inode_writeback_sync_lock (inodes w p) \<and>
      \<not> i_vfs_inode_open_close_lock (inodes w p) \<and> \<not> i_vfs_inode_lock (inodes w p) \<and>
      slots_ok (attrs_of w p) \<and> xattr_child_slot (attrs_of w p) < SCORW_MAX_CHILDS \<and>
      (\<forall>j. attrs_of w p (child_name j) = None \<longrightarrow> i_child_scorw_inode s j = None \<and>
         (\<forall>a\<in>set (page_copy_llist w). pc_par (page_copies w a) = pa \<longrightarrow> \<not> is_target_child (page_copies w a) j)) \<and>
      i_scorw_inode (inodes w c) = None \<and> \<not> i_vfs_inode_lock (inodes w c) \<and> (\<forall>b. disk (file_of w c) b \<noteq> None) \<and>
      i_size (file_of w f) = 0 \<and> 0 < i_size (file_of w p) \<and> i_size (file_of w p) \<le> 2 ^ 32 \<and>
      distinct [p, c, f] \<and> 0 < p \<and> p < 2 ^ 64 \<and> 0 < f \<and> f < 2 ^ 64 \<and> 0 \<le> h_num_ranges h \<and> h_num_ranges h \<le> int MAX_RANGES_SUPPORTED \<and>
      (\<forall>j k. i_child_scorw_inode s j = Some k \<longrightarrow> k < next_addr w \<and> {c, f} \<inter> inos (scorws w k) = {}) \<and>
      pa < next_addr w \<and> (\<forall>a\<in>set (page_copy_llist w). pc_par (page_copies w a) < next_addr w))"

lemma stored_child_attrs:
  assumes "cx copy_size = Some (le_bytes 8 n)" and "cx scorw_friend = Some (le_bytes 8 f)" and "cx version_attr = Some (le_bytes 8 1)"
    and "cx curr_version = Some (le_bytes 8 1)" and "cx num_ranges = Some (le_bytes 4 (nat (m mod 2 ^ 32)))"
    and "\<forall>j. int j < m \<longrightarrow> cx (range_name j) = Some (crx_bytes junk (crx_of_range (rg j)))" and "fx version_attr = Some (le_bytes 8 1)"
    and "n \<le> 2 ^ 32" and "f < 2 ^ 64" and "p < 2 ^ 64" and "0 \<le> m" and "m \<le> int MAX_RANGES_SUPPORTED"
  shows "child_attrs e p f n (cx(scorw_parent \<mapsto> le_bytes 8 p)) fx"
proof -
  let ?x = "cx(scorw_parent \<mapsto> le_bytes 8 p)"
  have nr: "scorw_get_num_ranges_attr_val (junk_attr e) ?x = m"
    using assms(5,11,12) by (simp add: scorw_get_num_ranges_attr_val_def s32_id)
  have sz: "scorw_get_copy_size_attr_val (junk_attr e) ?x = int n"
    using assms(1,8) by (simp add: scorw_get_copy_size_attr_val_def s64_id)
  have rng: "scorw_get_range_attr_val ?x j old = (12, crx_of_range (rg j))" if "int j < m" for j old
    using assms(6,12) that
    by (simp add: scorw_get_range_attr_val_def ext4_xattr_get_def crx_roundtrip [OF crx_of_range_bounds] range_name_def)
  show ?thesis unfolding child_attrs_def nr sz
    using assms(2-4,7,9,10) rng
    by (simp add: scorw_get_parent_attr_val_def scorw_get_friend_attr_val_def scorw_get_curr_version_attr_val_def
        scorw_get_child_version_attr_val_def scorw_get_frnd_version_attr_val_def)
qed

text \<open>What a new child changes: its scorw inode takes a free slot of the parent, and the
  files of child and friend are prepared.\<close>

definition child_added :: "ino \<Rightarrow> helper_inodes \<Rightarrow> addr \<Rightarrow> nat \<Rightarrow> file \<Rightarrow> world \<Rightarrow> world \<Rightarrow> bool" where
  "child_added c h pa j ff w w' \<longleftrightarrow>
     (let p = p_inode_num h; f = f_inode_num h; a = next_addr w in
      (\<exists>s. new_child c p f (i_size (file_of w p)) s \<and>
         scorws w' = (scorws w)(a := s\<lparr>i_at_index := int j, i_process_usage_count := 2\<rparr>,
           pa := (scorws w pa)\<lparr>i_child_scorw_inode := (i_child_scorw_inode (scorws w pa))(j := Some a),
             i_last_child_index := max (i_last_child_index (scorws w pa)) (int j), i_process_usage_count := i_process_usage_count (scorws w pa) + 1\<rparr>)) \<and>
      (\<forall>i. i_scorw_inode (inodes w' i) = (if i = c then Some a else i_scorw_inode (inodes w i))) \<and>
      (\<forall>i. file_of w' i = (if i = c then (file_of w c)\<lparr>i_size := i_size (file_of w p)\<rparr> else if i = f then ff else file_of w i)) \<and>
      page_copies w' = page_copies w \<and> page_copy_llist w' = page_copy_llist w \<and> page_copy_hlist w' = page_copy_hlist w \<and>
      next_addr w' = Suc a)"

lemma create_child_run:
  assumes "can_create c h w pa" and "i_scorw_inode (inodes w (p_inode_num h)) = Some pa" and "xset_ok e = (\<lambda>_ _. True)"
    and "mem_ok e" and "iget_ok e (p_inode_num h)" and "iget_ok e (f_inode_num h)"
  obtains j w' where "ext4_xattr_set_parent e 0 c h w = Ret (0, w')" "j < SCORW_MAX_CHILDS" "attrs_of w (p_inode_num h) (child_name j) = None"
    "child_added c h pa j (scorw_init_friend_file (fenv e (f_inode_num h)) (junk_page e) (file_of w (f_inode_num h)) (i_size (file_of w (p_inode_num h)))) w w'"
proof -
  define p f n where "p = p_inode_num h" and "f = f_inode_num h" and "n = i_size (file_of w (p_inode_num h))"
  have cc: "i_lock (scorws w pa) = 0" "\<not> i_vfs_inode_writeback_sync_lock (inodes w p)"
    "\<not> i_vfs_inode_open_close_lock (inodes w p)" "\<not> i_vfs_inode_lock (inodes w p)" "slots_ok (attrs_of w p)"
    "xattr_child_slot (attrs_of w p) < SCORW_MAX_CHILDS" "i_scorw_inode (inodes w c) = None" "\<not> i_vfs_inode_lock (inodes w c)"
    "0 < n" "n \<le> 2 ^ 32" "p \<noteq> c" "p \<noteq> f" "c \<noteq> f" "0 < p" "p < 2 ^ 64" "0 < f" "f < 2 ^ 64" "0 \<le> h_num_ranges h" "h_num_ranges h \<le> int MAX_RANGES_SUPPORTED"
    "pa < next_addr w"
    using assms(1) unfolding can_create_def Let_def p_def f_def n_def by (simp_all del: MAX_RANGES_SUPPORTED_def)
  define w0 where "w0 = upd_ino p (\<lambda>v. v\<lparr>i_vfs_inode_writeback_sync_lock := True, i_vfs_inode_open_close_lock := True, i_vfs_inode_lock := True\<rparr>) w"
  obtain j px cx fx st where x: "xattr_set_parent (\<lambda>_ _. True) (junk_attr e) c h n (attrs_of w p) (attrs_of w c) (attrs_of w f) = Inr (j, px, cx, fx)"
    and j: "j < SCORW_MAX_CHILDS" "attrs_of w p (child_name j) = None"
    and cx: "cx copy_size = Some (le_bytes 8 n)" "cx scorw_friend = Some (le_bytes 8 (f_inode_num h))" "cx version_attr = Some (le_bytes 8 1)"
      "cx curr_version = Some (le_bytes 8 1)" "cx num_ranges = Some (le_bytes 4 (nat (h_num_ranges h mod 2 ^ 32)))"
      "\<forall>j. int j < h_num_ranges h \<longrightarrow> cx (range_name j) = Some (crx_bytes (junk_attr e) (crx_of_range (h_range h j)))"
      "fx version_attr = Some (le_bytes 8 1)"
    by (rule create_child_stored [OF cc(9,5,6,19)])
  let ?cx = "cx(scorw_parent \<mapsto> le_bytes 8 p)"
  let ?ff = "scorw_init_friend_file (fenv e f) (junk_page e) (file_of w f) n"
  define w3 where "w3 = upd_ino f (\<lambda>v. v\<lparr>i_xattrs := fx, i_data := ?ff\<rparr>)
    (upd_ino c (\<lambda>v. v\<lparr>i_data := (i_data v)\<lparr>i_size := n\<rparr>, i_xattrs := ?cx\<rparr>) (set_attrs p px w0))"
  have at: "attrs_of w3 c = ?cx" "attrs_of w3 f = fx" using cc(11-13) by (simp_all add: w3_def)
  have ca: "child_attrs e p f n (attrs_of w3 c) (attrs_of w3 f)"
    unfolding at by (rule stored_child_attrs [where rg = "h_range h" and cx = cx and fx = fx and n = n and f = f and m = "h_num_ranges h" and p = p and junk = "junk_attr e", OF cx(1-7) [folded f_def] cc(10,17,15,18,19)])
  have w3: "\<not> i_vfs_inode_lock (inodes w3 c)" "i_scorw_inode (inodes w3 c) = None" "i_scorw_inode (inodes w3 p) = Some pa"
    "scorws w3 = scorws w" "next_addr w3 = next_addr w" "page_copies w3 = page_copies w" "page_copy_llist w3 = page_copy_llist w"
    "page_copy_hlist w3 = page_copy_hlist w"
    using cc(7,8,11-13) assms(2) by (simp_all add: w3_def w0_def p_def [symmetric])
  have nz: "p \<noteq> 0" "f \<noteq> 0" "f \<noteq> c" "pa < next_addr w3" "i_lock (scorws w3 pa) = 0" using cc w3(4,5) by simp_all
  obtain s w4 where run: "special_open e p c j w3 = Ret w4" and s: "new_child c p f n s"
    and w4: "scorws w4 = (scorws w3)(next_addr w3 := s\<lparr>i_at_index := int j, i_process_usage_count := 2\<rparr>,
       pa := (scorws w3 pa)\<lparr>i_child_scorw_inode := (i_child_scorw_inode (scorws w3 pa))(j := Some (next_addr w3)),
         i_last_child_index := max (i_last_child_index (scorws w3 pa)) (int j), i_process_usage_count := i_process_usage_count (scorws w3 pa) + 1\<rparr>)"
      "inodes w4 = (inodes w3)(c := (inodes w3 c)\<lparr>i_scorw_inode := Some (next_addr w3), i_vfs_inode_lock := False\<rparr>)"
      "page_copies w4 = page_copies w3" "page_copy_llist w4 = page_copy_llist w3" "page_copy_hlist w4 = page_copy_hlist w3"
      "next_addr w4 = Suc (next_addr w3)"
    using special_open_new [OF ca assms(4) assms(5,6) [folded p_def f_def] nz(1,2) w3(1,2) nz(3) cc(11) w3(3) nz(4,5)] by blast
  define w' where "w' = unlock_sync p (unlock_open_close p (unlock_vfs p w4))"
  define wa wb where "wa = upd_ino p (\<lambda>v. v\<lparr>i_vfs_inode_writeback_sync_lock := True\<rparr>) w"
    and "wb = upd_ino p (\<lambda>v. v\<lparr>i_vfs_inode_open_close_lock := True\<rparr>) wa"
  have lk: "lock_sync p w = Ret wa" "lock_open_close p wa = Ret wb" "lock_vfs p wb = Ret w0"
    using cc(2-4) by (simp_all add: lock_sync_def lock_open_close_def lock_vfs_def wa_def wb_def w0_def)
  have w0: "i_size (file_of w0 p) = n" "attrs_of w0 p = attrs_of w p" "attrs_of w0 c = attrs_of w c" "attrs_of w0 f = attrs_of w f"
    by (simp_all add: w0_def n_def p_def)
  define w1 where "w1 = set_attrs f fx (upd_ino c (\<lambda>v. v\<lparr>i_xattrs := cx, i_data := (i_data v)\<lparr>i_size := n\<rparr>\<rparr>) (set_attrs p px w0))"
  define w2 where "w2 = set_attrs c ((attrs_of w1 c)(scorw_parent \<mapsto> le_bytes 8 p)) w1"
  have w3': "set_file f (scorw_init_friend_file (fenv e f) (junk_page e) (file_of w2 f) (i_size (file_of w2 c))) w2 = w3"
    using cc(11-13) by (simp add: w3_def w2_def w1_def w0_def upd_ino_def fun_upd_twist)
  have "ext4_xattr_set_parent e 0 c h w = Ret (0, w')"
    using assms(5,6)
    unfolding ext4_xattr_set_parent_def Let_def p_def [symmetric] f_def [symmetric] lk obind.simps w0 assms(3) x sum.case prod.case
      w1_def [symmetric] w2_def [symmetric] w3' run w'_def [symmetric]
    by (simp add: run w'_def)
  moreover have "child_added c h pa j ?ff w w'"
    unfolding child_added_def Let_def p_def [symmetric] f_def [symmetric] n_def [folded p_def, symmetric]
    using s cc(11-13) by (auto simp: w'_def w4 w3(4-8) unlock_sync_def unlock_open_close_def unlock_vfs_def w3_def w0_def)
  ultimately show ?thesis using that j unfolding p_def f_def n_def by blast
qed


section \<open>The family with the new child\<close>

lemma can_createD:
  assumes "can_create c h w pa"
  shows "i_vfs_inode (scorws w pa) = p_inode_num h" "\<forall>b. disk (file_of w c) b \<noteq> None" "i_size (file_of w (f_inode_num h)) = 0"
    "0 < i_size (file_of w (p_inode_num h))" "i_size (file_of w (p_inode_num h)) \<le> 2 ^ 32" "p_inode_num h \<noteq> c" "p_inode_num h \<noteq> f_inode_num h"
    "c \<noteq> f_inode_num h" "pa < next_addr w" "x \<in> set (page_copy_llist w) \<Longrightarrow> pc_par (page_copies w x) < next_addr w"
    "i_child_scorw_inode (scorws w pa) i = Some k \<Longrightarrow> k < next_addr w \<and> {c, f_inode_num h} \<inter> inos (scorws w k) = {}"
    "attrs_of w (p_inode_num h) (child_name i) = None \<Longrightarrow> i_child_scorw_inode (scorws w pa) i = None"
    "attrs_of w (p_inode_num h) (child_name i) = None \<Longrightarrow> x \<in> set (page_copy_llist w) \<Longrightarrow> pc_par (page_copies w x) = pa \<Longrightarrow> \<not> is_target_child (page_copies w x) i"
  using assms unfolding can_create_def Let_def by (simp_all del: PAGE_BLOCKS_def)

lemma fresh_friend:
  assumes "pages_env_ok e" and "i_size f = 0" and "0 < n" and "n \<le> 2 ^ 32"
  shows "friend_covers (scorw_init_friend_file e junk f n) (int n)" and "b * PAGE_SIZE < n \<Longrightarrow> \<not> copied (scorw_init_friend_file e junk f n) b"
proof -
  let ?z = "zero_friend_pages e junk (friend_pages n) f"
  have i: "scorw_init_friend_file e junk f n = ?z" using assms(2) by (simp add: scorw_init_friend_file_def)
  have sz: "n < 2 ^ 58" using assms(4) by simp
  have ok: "friend_ok (friend_pages n) ?z" using zero_friend_pages_ok [OF assms(1), of junk "friend_pages n" f] by (simp add: friend_ok_def view_def)
  define k where "k = (n - 1) div PAGE_SIZE"
  have "k * PAGE_SIZE < n" "n \<le> Suc k * PAGE_SIZE"
    using assms(3) div_mult_mod_eq [of "n - 1" PAGE_SIZE] mod_less_divisor [of PAGE_SIZE "n - 1"] unfolding k_def by simp_all
  then have "Suc k \<le> friend_pages n * PAGE_BLOCKS" using friend_pages_cover [OF sz, of k] by simp
  then have "Suc k * PAGE_SIZE \<le> friend_pages n * PAGE_BLOCKS * PAGE_SIZE" by (rule mult_le_mono1)
  with \<open>n \<le> Suc k * PAGE_SIZE\<close> have "n \<le> friend_pages n * PAGE_BLOCKS * PAGE_SIZE" by (rule order_trans)
  with ok show "friend_covers (scorw_init_friend_file e junk f n) (int n)" unfolding friend_covers_def i of_nat_le_iff by blast
  show "b * PAGE_SIZE < n \<Longrightarrow> \<not> copied (scorw_init_friend_file e junk f n) b"
    using zero_friend_pages_bits [OF assms(1) friend_pages_cover [OF sz]] unfolding i by blast
qed

lemma queued_hlist:
  assumes "queue_ok w pa" and "x \<in> set (page_copy_hlist w b)"
  shows "x \<in> set (page_copy_llist w)"
  using assms by (auto simp: queue_ok_def)

lemma find_pc_child_added:
  assumes "child_added c h pa j ff w w'" and "can_create c h w pa" and "queue_ok w pa"
  shows "find_pc w' b p k = find_pc w b p k"
proof -
  have "pc_matches w' b p k x = pc_matches w b p k x" if "x \<in> set (page_copy_hlist w y)" for x y
    using can_createD(10) [OF assms(2) queued_hlist [OF assms(3) that]] assms(1)
    by (auto simp: child_added_def Let_def pc_matches_def)
  moreover have "page_copy_hlist w' = page_copy_hlist w" using assms(1) by (simp add: child_added_def Let_def)
  ultimately show ?thesis unfolding find_pc_def by (auto intro: find_cong)
qed

lemma no_page_copy_for_slot:
  assumes "can_create c h w pa" and "family w pa" and "attrs_of w (p_inode_num h) (child_name j) = None"
  shows "find_pc w b (p_inode_num h) j = None"
proof -
  have q: "queue_ok w pa" and ino: "i_ino_num (scorws w pa) = p_inode_num h"
    using familyD(1,4) [OF assms(2)] can_createD(1) [OF assms(1)] by simp_all
  have "\<not> pc_matches w b (p_inode_num h) j x" if "x \<in> set (page_copy_hlist w y)" for x y
  proof
    assume m: "pc_matches w b (p_inode_num h) j x"
    have x: "x \<in> set (page_copy_llist w)" by (rule queued_hlist [OF q that])
    then have "pc_par (page_copies w x) = pa" using q m ino by (simp add: queue_ok_def pc_matches_def Let_def)
    from can_createD(13) [OF assms(1,3) x this] m show False by (simp add: pc_matches_def Let_def)
  qed
  then show ?thesis unfolding find_pc_def find_None_iff by blast
qed


lemma child_addedD:
  assumes "child_added c h pa j ff w w'" and "can_create c h w pa"
  shows "x \<noteq> pa \<Longrightarrow> x \<noteq> next_addr w \<Longrightarrow> scorws w' x = scorws w x"
    "i_child_scorw_inode (scorws w' pa) = (i_child_scorw_inode (scorws w pa))(j := Some (next_addr w))"
    "i_last_child_index (scorws w' pa) = max (i_last_child_index (scorws w pa)) (int j)"
    "i_ino_num (scorws w' pa) = i_ino_num (scorws w pa)" "i_vfs_inode (scorws w' pa) = i_vfs_inode (scorws w pa)"
    "i_at_index (scorws w' (next_addr w)) = int j" "i_copy_size (scorws w' (next_addr w)) = int (i_size (file_of w (p_inode_num h)))"
    "i_par_vfs_inode (scorws w' (next_addr w)) = Some (p_inode_num h)" "i_frnd_vfs_inode (scorws w' (next_addr w)) = Some (f_inode_num h)"
    "i_vfs_inode (scorws w' (next_addr w)) = c"
    "file_of w' i = (if i = c then (file_of w c)\<lparr>i_size := i_size (file_of w (p_inode_num h))\<rparr> else if i = f_inode_num h then ff else file_of w i)"
    "i_scorw_inode (inodes w' i) = (if i = c then Some (next_addr w) else i_scorw_inode (inodes w i))"
    "page_copies w' = page_copies w" "page_copy_llist w' = page_copy_llist w" "page_copy_hlist w' = page_copy_hlist w" "next_addr w' = Suc (next_addr w)"
  using assms(1) can_createD(9) [OF assms(2)] unfolding child_added_def Let_def by (auto simp: new_child_def)

lemma old_child_files:
  assumes "can_create c h w pa" and "i_child_scorw_inode (scorws w pa) i = Some k"
  shows "i_vfs_inode (scorws w k) \<noteq> c" "i_vfs_inode (scorws w k) \<noteq> f_inode_num h" "k \<noteq> next_addr w"
    "i_frnd_vfs_inode (scorws w k) = Some g \<Longrightarrow> g \<noteq> c \<and> g \<noteq> f_inode_num h"
  using can_createD(11) [OF assms] by (auto simp: inos_def)

lemma queue_ok_child_added:
  assumes "child_added c h pa j ff w w'" and "can_create c h w pa" and "queue_ok w pa"
  shows "queue_ok w' pa"
proof -
  note d = child_addedD [OF assms(1,2)]
  have p: "file_of w' (i_vfs_inode (scorws w pa)) = file_of w (i_vfs_inode (scorws w pa))"
    using can_createD(1,6,7) [OF assms(2)] by (simp add: d(11))
  have "i_ino_num (scorws w' (pc_par (page_copies w x))) = i_ino_num (scorws w (pc_par (page_copies w x)))" if "x \<in> set (page_copy_llist w)" for x
    using can_createD(10) [OF assms(2) that] d(1,4) by (cases "pc_par (page_copies w x) = pa") simp_all
  then show ?thesis using assms(3) unfolding queue_ok_def d(13-16) d(4,5) p by (auto simp: less_Suc_eq)
qed

lemma member_child_added:
  assumes "child_added c h pa j ff w w'" and "can_create c h w pa" and "i_child_scorw_inode (scorws w pa) i = Some k" and "k \<noteq> pa"
    and "member w (p_inode_num h) i k"
  shows "member w' (p_inode_num h) i k"
proof -
  note d = child_addedD [OF assms(1,2)] and o = old_child_files [OF assms(2,3)]
  have k: "scorws w' k = scorws w k" using d(1) [OF assms(4) o(3)] .
  have fp: "file_of w' (p_inode_num h) = file_of w (p_inode_num h)" using can_createD(6,7) [OF assms(2)] by (simp add: d(11))
  have fk: "file_of w' (i_vfs_inode (scorws w k)) = file_of w (i_vfs_inode (scorws w k))" using o by (simp add: d(11))
  have ff: "file_of w' g = file_of w g" if "i_frnd_vfs_inode (scorws w k) = Some g" for g using o(4) [OF that] by (simp add: d(11))
  have sk: "i_scorw_inode (inodes w' (i_vfs_inode (scorws w k))) = i_scorw_inode (inodes w (i_vfs_inode (scorws w k)))" using o by (simp add: d(12))
  show ?thesis using assms(5) ff unfolding member_def Let_def k fp fk sk by auto
qed

lemma snapshot_child_added:
  assumes "child_added c h pa j ff w w'" and "can_create c h w pa" and "i_child_scorw_inode (scorws w pa) i = Some k" and "family w pa"
  shows "snapshot w' k b = snapshot w k b"
proof -
  note d = child_addedD [OF assms(1,2)] and o = old_child_files [OF assms(2,3)] and m = family_child [OF assms(4,3)]
  have k: "scorws w' k = scorws w k" using d(1) [OF m(3) o(3)] .
  obtain g where g: "i_par_vfs_inode (scorws w k) = Some (p_inode_num h)" "i_frnd_vfs_inode (scorws w k) = Some g"
    using m(4) can_createD(1) [OF assms(2)] by (auto simp: member_def Let_def)
  have fp: "file_of w' (p_inode_num h) = file_of w (p_inode_num h)" using can_createD(6,7) [OF assms(2)] by (simp add: d(11))
  have fk: "file_of w' (i_vfs_inode (scorws w k)) = file_of w (i_vfs_inode (scorws w k))" "file_of w' g = file_of w g"
    using o(1,2) o(4) [OF g(2)] by (simp_all add: d(11))
  have "pc_page w' (p_inode_num h) x = pc_page w (p_inode_num h) x" for x by (rule pc_page_cong) (simp_all add: d(13) fp)
  then show ?thesis
    unfolding snapshot_def child_page_def Let_def k g option.sel fp fk find_pc_child_added [OF assms(1,2) familyD(4) [OF assms(4)]] by (simp split: option.split)
qed

lemma new_child_member:
  assumes a: "child_added c h pa j ff w w'" and cc: "can_create c h w pa" and ff: "friend_covers ff (int (i_size (file_of w (p_inode_num h))))"
  shows "member w' (p_inode_num h) j (next_addr w)"
proof -
  note d = child_addedD [OF a cc] and e = can_createD [OF cc]
  have "file_of w' (p_inode_num h) = file_of w (p_inode_num h)" "file_of w' (f_inode_num h) = ff" using e(6-8) by (simp_all add: d(11))
  then show ?thesis using e ff d(12) [of c] unfolding member_def Let_def d(6-10) by (simp add: d(11) [of c])
qed

lemma family_child_added:
  assumes a: "child_added c h pa j ff w w'" and cc: "can_create c h w pa" and fam: "family w pa" and j: "j < SCORW_MAX_CHILDS"
    and ff: "friend_covers ff (int (i_size (file_of w (p_inode_num h))))"
  shows "family w' pa"
proof -
  note d = child_addedD [OF a cc] and e = can_createD [OF cc]
  have fp: "file_of w' (p_inode_num h) = file_of w (p_inode_num h)" using e(6,7) by (simp add: d(11))
  have new: "inos (scorws w' (next_addr w)) = {c, f_inode_num h}" by (simp add: inos_def d(9,10))
  have slot: "k < SCORW_MAX_CHILDS \<and> int k \<le> i_last_child_index (scorws w' pa) \<and> x \<noteq> pa \<and> member w' (p_inode_num h) k x"
    if "i_child_scorw_inode (scorws w' pa) k = Some x" for k x
  proof (cases "k = j")
    case True
    with that show ?thesis using j e(9) new_child_member [OF a cc ff] by (auto simp: d(2,3))
  next
    case False
    then have x: "i_child_scorw_inode (scorws w pa) k = Some x" using that by (simp add: d(2))
    note m = family_child [OF fam x]
    from member_child_added [OF a cc x m(3) m(4) [unfolded e(1)]] m show ?thesis by (simp add: d(3))
  qed
  have disj: "x \<noteq> y \<and> inos (scorws w' x) \<inter> inos (scorws w' y) = {}"
    if "i_child_scorw_inode (scorws w' pa) k = Some x" "i_child_scorw_inode (scorws w' pa) l = Some y" "k \<noteq> l" for k l x y
  proof -
    have old: "i_child_scorw_inode (scorws w pa) i = Some z" "z \<noteq> next_addr w" "scorws w' z = scorws w z"
        "{c, f_inode_num h} \<inter> inos (scorws w z) = {}"
      if "i_child_scorw_inode (scorws w' pa) i = Some z" "i \<noteq> j" for i z
    proof -
      show z: "i_child_scorw_inode (scorws w pa) i = Some z" using that by (simp add: d(2))
      show n: "z \<noteq> next_addr w" by (rule old_child_files(3) [OF cc z])
      show "scorws w' z = scorws w z" by (rule d(1) [OF family_child(3) [OF fam z] n])
      show "{c, f_inode_num h} \<inter> inos (scorws w z) = {}" using e(11) [OF z] by blast
    qed
    have nw: "z = next_addr w" if "i_child_scorw_inode (scorws w' pa) j = Some z" for z using that by (simp add: d(2))
    consider "k = j" "l \<noteq> j" | "k \<noteq> j" "l = j" | "k \<noteq> j" "l \<noteq> j" using \<open>k \<noteq> l\<close> by blast
    then show ?thesis
    proof cases
      case 1
      with old [OF that(2)] nw [of x] that(1) new show ?thesis by auto
    next
      case 2
      with old [OF that(1)] nw [of y] that(2) new show ?thesis by auto
    next
      case 3
      note ok = old [OF that(1) 3(1)] and ol = old [OF that(2) 3(2)]
      show ?thesis unfolding ok(3) ol(3) using family_disjoint [OF fam ok(1) ol(1) \<open>k \<noteq> l\<close>] by blast
    qed
  qed
  have "i_scorw_inode (inodes w' (p_inode_num h)) = Some pa" using familyD(2) [OF fam] e(1,6) by (simp add: d(12))
  then show ?thesis
    using familyD(1,3) [OF fam] slot disj queue_ok_child_added [OF a cc familyD(4) [OF fam]]
    unfolding family_def Let_def d(4,5) e(1) fp by blast
qed


text \<open>C4: a child made of an open parent joins the parent's family and keeps a snapshot of
  it: each block of its snapshot is the page the parent has at this moment, and the
  snapshots of the children the parent had before stay as they were.\<close>

theorem create_child_snapshot:
  assumes "family w pa" and "can_create c h w pa" and "xset_ok e = (\<lambda>_ _. True)" and "mem_ok e"
    and "iget_ok e (p_inode_num h)" and "iget_ok e (f_inode_num h)" and "pages_env_ok (fenv e (f_inode_num h))"
  shows "\<exists>w' j a. ext4_xattr_set_parent e 0 c h w = Ret (0, w') \<and> family w' pa \<and>
    i_child_scorw_inode (scorws w' pa) j = Some a \<and> i_vfs_inode (scorws w' a) = c \<and>
    (\<forall>b. b * PAGE_SIZE < i_size (file_of w (p_inode_num h)) \<longrightarrow> snapshot w' a b =
       map_option (\<lambda>q. cut_page q (page_copy_len (int (i_size (file_of w (p_inode_num h)))) b)) (view (file_of w (p_inode_num h)) b)) \<and>
    (\<forall>i k b. i_child_scorw_inode (scorws w pa) i = Some k \<longrightarrow> i_child_scorw_inode (scorws w' pa) i = Some k \<and> snapshot w' k b = snapshot w k b)"
proof -
  let ?p = "p_inode_num h" and ?a = "next_addr w"
  define ff where "ff = scorw_init_friend_file (fenv e (f_inode_num h)) (junk_page e) (file_of w (f_inode_num h)) (i_size (file_of w ?p))"
  note cc = can_createD [OF assms(2)]
  have pa: "i_scorw_inode (inodes w ?p) = Some pa" using familyD(2) [OF assms(1)] cc(1) by simp
  obtain j w' where run: "ext4_xattr_set_parent e 0 c h w = Ret (0, w')" and j: "j < SCORW_MAX_CHILDS" "attrs_of w ?p (child_name j) = None"
    and add: "child_added c h pa j ff w w'"
    using create_child_run [OF assms(2) pa assms(3-6)] unfolding ff_def by blast
  note fr = fresh_friend [OF assms(7) cc(3,4,5), where junk = "junk_page e", folded ff_def] and d = child_addedD [OF add assms(2)]
  have "file_of w' ?p = file_of w ?p" "file_of w' (f_inode_num h) = ff" using cc(6-8) by (simp_all add: d(11))
  moreover have "find_pc w' b ?p j = None" for b
    using find_pc_child_added [OF add assms(2) familyD(4) [OF assms(1)]] no_page_copy_for_slot [OF assms(2,1) j(2)] by simp
  ultimately have snap: "snapshot w' ?a b = map_option (\<lambda>q. cut_page q (page_copy_len (int (i_size (file_of w ?p))) b)) (view (file_of w ?p) b)"
    if "b * PAGE_SIZE < i_size (file_of w ?p)" for b
    using fr(2) [OF that] unfolding snapshot_def child_page_def Let_def d(6-10) option.sel nat_int by simp
  have "i_child_scorw_inode (scorws w' pa) i = Some k \<and> snapshot w' k b = snapshot w k b" if "i_child_scorw_inode (scorws w pa) i = Some k" for i k b
    using that snapshot_child_added [OF add assms(2) that assms(1)] cc(12) [OF j(2)] by (auto simp: d(2))
  with run snap family_child_added [OF add assms(2,1) j(1) fr(1)] d(2,10) show ?thesis by (intro exI [of _ w'] exI [of _ j] exI [of _ ?a]) simp
qed

definition slot_demo :: world where
  "slot_demo = set_attrs 1 [child_name 0 \<mapsto> le_bytes 8 2] demo"

definition new_helper :: helper_inodes where
  "new_helper = \<lparr>p_inode_num = 1, f_inode_num = 6, l_inode_num = 7, h_num_ranges = 0, h_range = (\<lambda>_. \<lparr>range_first = 0, range_last = 0, snapx_behavior = 0\<rparr>)\<rparr>"

lemma slot_demo_can_create: "can_create 5 new_helper slot_demo 10"
proof -
  let ?x = "[child_name 0 \<mapsto> le_bytes 8 2]"
  have n: "child_name j = child_name 0 \<longleftrightarrow> j = 0" for j by simp
  have slots: "slots_ok ?x" by (auto simp: slots_ok_def le_val_le_bytes n simp del: child_name_inj)
  have "xattr_child_slot ?x < SCORW_MAX_CHILDS"
  proof (rule ccontr)
    assume "\<not> ?thesis"
    then have "1 < child_slot ?x 0 0 SCORW_MAX_CHILDS" by (simp add: xattr_child_slot_def del: fun_upd_apply)
    then have "?x (child_name 1) \<noteq> None" using child_slot_first [OF slots, where i = 0 and num = 0 and k = SCORW_MAX_CHILDS] by blast
    then show False by simp
  qed
  with slots show ?thesis
    by (auto simp: can_create_def Let_def slot_demo_def demo_simps new_helper_def inos_def split: if_splits)
qed

theorem create_child_snapshot_witness:
  "\<exists>w' a. ext4_xattr_set_parent demo_kernel 0 5 new_helper slot_demo = Ret (0, w') \<and> i_vfs_inode (scorws w' a) = 5 \<and>
     snapshot w' a 1 = Some (\<lambda>k. if k < 4096 then 7 else 0) \<and> snapshot w' 11 1 = snapshot slot_demo 11 1"
proof -
  have "touched {} demo slot_demo"
    unfolding slot_demo_def touched_def by (auto simp: demo_simps scorw_get_original_parent_size_def attr_val_def ext4_xattr_get_def child_name_def)
  then have fam: "family slot_demo 10" by (rule family_touched) (use demo_plain in \<open>simp add: plain_parent_def\<close>)
  have p: "p_inode_num new_helper = 1" "i_size (file_of slot_demo 1) = 8192" "view (file_of slot_demo 1) 1 = Some (\<lambda>_. 7)"
    "i_child_scorw_inode (scorws slot_demo 10) 0 = Some 11"
    by (simp_all add: new_helper_def slot_demo_def demo_simps view_def)
  have k: "xset_ok demo_kernel = (\<lambda>_ _. True)" "mem_ok demo_kernel" "\<And>i. iget_ok demo_kernel i" by (simp_all add: demo_kernel_def)
  have len: "cut_page (\<lambda>_. 7) (page_copy_len 8192 1) = (\<lambda>k. if k < 4096 then 7 else (0 :: byte))"
    by (simp add: cut_page_def page_copy_len_def copy_len_def)
  from create_child_snapshot [OF fam slot_demo_can_create k(1,2) k(3) k(3), of] demo_env(1)
  obtain w' j a where w': "ext4_xattr_set_parent demo_kernel 0 5 new_helper slot_demo = Ret (0, w')" "i_vfs_inode (scorws w' a) = 5"
    "\<forall>b. b * PAGE_SIZE < i_size (file_of slot_demo 1) \<longrightarrow> snapshot w' a b =
       map_option (\<lambda>q. cut_page q (page_copy_len (int (i_size (file_of slot_demo 1))) b)) (view (file_of slot_demo 1) b)"
    "\<forall>i k b. i_child_scorw_inode (scorws slot_demo 10) i = Some k \<longrightarrow> i_child_scorw_inode (scorws w' 10) i = Some k \<and> snapshot w' k b = snapshot slot_demo k b"
    unfolding p(1) by blast
  have "snapshot w' a 1 = Some (\<lambda>k. if k < 4096 then 7 else 0)" using spec [OF w'(3), of 1] p(2,3) len by simp
  with w'(1,2) w'(4) p(4) show ?thesis by blast
qed

section \<open>Writeback and the making of children\<close>

text \<open>C39: syncing a parent that has nothing to write keeps the mutex of its writeback:
  the next sync of the parent waits for it, and so does whoever makes a child of it.\<close>

theorem clean_sync_deadlocks:
  assumes "p \<noteq> 0" and "scorw_is_par_file e w p True" and "\<not> mapping_dirty (file_of w p)"
    and "\<not> i_vfs_inode_writeback_sync_lock (inodes w p)"
    and "p_inode_num h = p" and "iget_ok e p" and "iget_ok e (f_inode_num h)"
  shows "\<exists>w'. filemap_fdatawrite_wbc e wb p w = Ret (0, w') \<and> filemap_fdatawrite_wbc e wb p w' = Blocks \<and>
    ext4_xattr_set_parent e error c h w' = Blocks"
proof -
  let ?w = "upd_ino p (\<lambda>v. v\<lparr>i_vfs_inode_writeback_sync_lock := True\<rparr>) w"
  have "filemap_fdatawrite_wbc e wb p w = Ret (0, ?w)" using assms(1-4) by (simp add: filemap_fdatawrite_wbc_def lock_sync_def)
  moreover have "lock_sync p ?w = Blocks" by (simp add: lock_sync_def)
  ultimately show ?thesis using assms(1,2,5-7) by (simp add: filemap_fdatawrite_wbc_def ext4_xattr_set_parent_def)
qed

theorem clean_sync_deadlocks_witness:
  "\<exists>w'. filemap_fdatawrite_wbc demo_kernel (\<lambda>f. (0, writeback_all f)) 1 demo = Ret (0, w') \<and>
     filemap_fdatawrite_wbc demo_kernel (\<lambda>f. (0, writeback_all f)) 1 w' = Blocks \<and> ext4_xattr_set_parent demo_kernel 0 5 new_helper w' = Blocks"
  by (rule clean_sync_deadlocks)
    (simp_all add: scorw_is_par_file_def scorw_find_inode_def scorw_is_child_inode_def demo_simps mapping_dirty_def new_helper_def list_ex_iff)

end
