(* ===== verification/Extent_Status.thy ===== *)
theory Extent_Status
  imports Extent_Entry "HOL-Library.Tree"
begin

unbundle bit_operations_syntax

text \<open>
  The extent status tree of an inode (\<open>src/ext4-module/extents_status.c\<close> and
  \<open>extents_status.h\<close>): what is known in memory about the blocks of a file, with the
  pending reservations of clusters. The operations, on the state of one inode; their
  contract is in \<open>Extent_Map\<close>.

  A red-black tree is a binary tree of its entries. \<open>lib/rbtree.c\<close> is not part of the
  sources: \<open>rb_insert_color\<close> and \<open>rb_erase\<close> are parameters. A pointer to an entry is the
  entry where it is only used before the entry changes, and the first block of the entry,
  which no other entry has, where it is kept (\<open>cache_es\<close>, \<open>left_es\<close>). \<^const>\<open>None\<close> is a
  \<open>BUG_ON\<close>, or a loop that does not end.
\<close>

section \<open>Red-black trees\<close>

record 'a rb_ops =
  rb_insert_color :: "'a tree \<Rightarrow> 'a tree"
  rb_erase :: "'a \<Rightarrow> 'a tree \<Rightarrow> 'a tree"

text \<open>What is relied on: recolouring and rotating keep the order of the entries, and
  erasing takes out the one entry.\<close>

definition rb_ok :: "'a rb_ops \<Rightarrow> bool" where
  "rb_ok rb \<longleftrightarrow> (\<forall>t. inorder (rb_insert_color rb t) = inorder t) \<and>
     (\<forall>x t. x \<in> set_tree t \<longrightarrow> inorder (rb_erase rb x t) = remove1 x (inorder t))"

fun next_in :: "'a \<Rightarrow> 'a list \<Rightarrow> 'a option" where
  "next_in x [] = None"
| "next_in x (y # ys) = (if y = x then (case ys of [] \<Rightarrow> None | z # _ \<Rightarrow> Some z) else next_in x ys)"

definition rb_next :: "'a tree \<Rightarrow> 'a \<Rightarrow> 'a option" where
  "rb_next t x = next_in x (inorder t)"

definition rb_prev :: "'a tree \<Rightarrow> 'a \<Rightarrow> 'a option" where
  "rb_prev t x = next_in x (rev (inorder t))"

text \<open>The entry at the place where the walk of an insertion ends.\<close>

fun rb_link_node :: "('a \<Rightarrow> nat) \<Rightarrow> 'a \<Rightarrow> 'a tree \<Rightarrow> 'a tree" where
  "rb_link_node k x Leaf = Node Leaf x Leaf"
| "rb_link_node k x (Node l y r) =
     (if k x < k y then Node (rb_link_node k x l) y r else Node l y (rb_link_node k x r))"

text \<open>An entry changed in place.\<close>

definition put_node :: "'a \<Rightarrow> 'a \<Rightarrow> 'a tree \<Rightarrow> 'a tree" where
  "put_node x y t = map_tree (\<lambda>z. if z = x then y else z) t"

section \<open>The state of an inode\<close>

record es_sb =
  es_rb :: "extent_status rb_ops"
  pr_rb :: "nat rb_ops"
  s_cluster_bits :: nat
  opt_delalloc :: bool
  fc_replay :: bool

definition s_cluster_ratio :: "es_sb \<Rightarrow> nat" where
  "s_cluster_ratio sbi = 2 ^ s_cluster_bits sbi"

definition EXT4_B2C :: "es_sb \<Rightarrow> nat \<Rightarrow> nat" where
  "EXT4_B2C sbi blk = drop_bit (s_cluster_bits sbi) blk"

definition EXT4_LBLK_COFF :: "es_sb \<Rightarrow> nat \<Rightarrow> nat" where
  "EXT4_LBLK_COFF sbi lblk = lblk AND (s_cluster_ratio sbi - 1)"

definition EXT4_LBLK_CMASK :: "es_sb \<Rightarrow> nat \<Rightarrow> nat" where
  "EXT4_LBLK_CMASK sbi lblk = lblk - EXT4_LBLK_COFF sbi lblk"

definition EXT4_LBLK_CFILL :: "es_sb \<Rightarrow> nat \<Rightarrow> nat" where
  "EXT4_LBLK_CFILL sbi lblk = lblk OR (s_cluster_ratio sbi - 1)"

text \<open>\<open>i_es_list\<close> is whether the inode is on the list of the shrinker. \<open>atomic_mem\<close> says
  which of the next allocations with \<open>GFP_ATOMIC\<close> succeed; all later ones do.\<close>

record es_inode =
  i_es_tree :: "extent_status tree"
  cache_es :: "nat option"
  i_es_all_nr :: nat
  i_es_shk_nr :: nat
  i_es_list :: bool
  i_es_shrink_lblk :: nat
  i_pending_tree :: "nat tree"
  i_reserved_data_blocks :: nat
  atomic_mem :: "bool list"

definition es_nodes :: "es_inode \<Rightarrow> extent_status list" where
  "es_nodes ei = inorder (i_es_tree ei)"

definition node_at :: "es_inode \<Rightarrow> nat \<Rightarrow> extent_status option" where
  "node_at ei lblk = find (\<lambda>es. es_lblk es = lblk) (es_nodes ei)"

definition atomic_alloc :: "es_inode \<Rightarrow> bool \<times> es_inode" where
  "atomic_alloc ei = (case atomic_mem ei of [] \<Rightarrow> (True, ei) | m # ms \<Rightarrow> (m, ei\<lparr>atomic_mem := ms\<rparr>))"

text \<open>\<open>ext4_es_init_extent\<close> without the three fields of the entry, and
  \<open>ext4_es_free_extent\<close>. The counters of the file system are statistics and left out.\<close>

definition ext4_es_init_extent :: "extent_status \<Rightarrow> es_inode \<Rightarrow> es_inode" where
  "ext4_es_init_extent es ei =
     (let ei1 = (if ext4_es_must_keep es then ei
                 else ei\<lparr>i_es_list := (if i_es_shk_nr ei = 0 then True else i_es_list ei),
                         i_es_shk_nr := (i_es_shk_nr ei + 1) mod 2 ^ 32\<rparr>)
      in ei1\<lparr>i_es_all_nr := (i_es_all_nr ei1 + 1) mod 2 ^ 32\<rparr>)"

definition ext4_es_free_extent :: "extent_status \<Rightarrow> es_inode \<Rightarrow> es_inode option" where
  "ext4_es_free_extent es ei =
     (let ei1 = ei\<lparr>i_es_all_nr := (i_es_all_nr ei + 2 ^ 32 - 1) mod 2 ^ 32\<rparr> in
      if ext4_es_must_keep es then Some ei1
      else if i_es_shk_nr ei1 = 0 then None
      else Some (ei1\<lparr>i_es_shk_nr := i_es_shk_nr ei1 - 1,
                     i_es_list := (if i_es_shk_nr ei1 = 1 then False else i_es_list ei1)\<rparr>))"

definition erase_es :: "es_sb \<Rightarrow> extent_status \<Rightarrow> es_inode \<Rightarrow> es_inode option" where
  "erase_es sbi es ei = ext4_es_free_extent es (ei\<lparr>i_es_tree := rb_erase (es_rb sbi) es (i_es_tree ei)\<rparr>)"

definition change_es :: "extent_status \<Rightarrow> extent_status \<Rightarrow> es_inode \<Rightarrow> es_inode" where
  "change_es es es' ei = ei\<lparr>i_es_tree := put_node es es' (i_es_tree ei)\<rparr>"

section \<open>Searching\<close>

text \<open>The walk to a block: whether an entry with the block was met, and the last entry
  that was met.\<close>

fun es_walk :: "extent_status tree \<Rightarrow> nat \<Rightarrow> extent_status option \<Rightarrow> (bool \<times> extent_status option) option" where
  "es_walk Leaf lblk last_es = Some (False, last_es)"
| "es_walk (Node l es r) lblk last_es =
     (if lblk < es_lblk es then es_walk l lblk (Some es)
      else case ext4_es_end es of
          None \<Rightarrow> None
        | Some es_end \<Rightarrow> if es_end < lblk then es_walk r lblk (Some es) else Some (True, Some es))"

text \<open>\<open>__es_tree_search\<close>.\<close>

definition es_tree_search :: "extent_status tree \<Rightarrow> nat \<Rightarrow> extent_status option option" where
  "es_tree_search t lblk =
     (case es_walk t lblk None of
        None \<Rightarrow> None
      | Some (True, es) \<Rightarrow> Some es
      | Some (False, None) \<Rightarrow> Some None
      | Some (False, Some es) \<Rightarrow>
          if lblk < es_lblk es then Some (Some es)
          else case ext4_es_end es of
              None \<Rightarrow> None
            | Some es_end \<Rightarrow> if es_end < lblk then Some (rb_next t es) else Some None)"

definition in_range :: "nat \<Rightarrow> extent_status \<Rightarrow> bool" where
  "in_range lblk es \<longleftrightarrow> es_lblk es \<le> lblk \<and> lblk < es_lblk es + es_len es"

text \<open>The entry that \<open>cache_es\<close> points to, when it has the block.\<close>

definition cached_es :: "es_inode \<Rightarrow> nat \<Rightarrow> extent_status option" where
  "cached_es ei lblk = (case Option.bind (cache_es ei) (node_at ei) of
     Some es \<Rightarrow> if in_range lblk es then Some es else None | None \<Rightarrow> None)"

text \<open>\<open>ext4_es_lookup_extent\<close>: the entry found, with the first block of the next entry
  (0 when there is none).\<close>

definition ext4_es_lookup_extent :: "es_sb \<Rightarrow> nat \<Rightarrow> es_inode \<Rightarrow> ((extent_status \<times> nat) option \<times> es_inode) option" where
  "ext4_es_lookup_extent sbi lblk ei =
     (if fc_replay sbi then Some (None, ei)
      else case (case cached_es ei lblk of Some es \<Rightarrow> Some (True, Some es) | None \<Rightarrow> es_walk (i_es_tree ei) lblk None) of
          None \<Rightarrow> None
        | Some (False, _) \<Rightarrow> Some (None, ei)
        | Some (True, None) \<Rightarrow> None
        | Some (True, Some es1) \<Rightarrow>
            let next_lblk = (case rb_next (i_es_tree ei) es1 of Some es2 \<Rightarrow> es_lblk es2 | None \<Rightarrow> 0);
                ei1 = (if ext4_es_is_referenced es1 then ei else change_es es1 (ext4_es_set_referenced es1) ei)
            in Some (Some (es1, next_lblk), ei1))"

text \<open>\<open>__es_find_extent_range\<close>: the first entry from \<open>lblk\<close> on that matches, none when the
  walk passes \<open>end\<close>. The first entry is not compared with \<open>end\<close>.\<close>

fun find_match :: "(extent_status \<Rightarrow> bool) \<Rightarrow> nat \<Rightarrow> extent_status list \<Rightarrow> extent_status option" where
  "find_match P last_blk [] = None"
| "find_match P last_blk (es # ess) = (if last_blk < es_lblk es then None else if P es then Some es else find_match P last_blk ess)"

definition es_from :: "extent_status tree \<Rightarrow> extent_status \<Rightarrow> extent_status list" where
  "es_from t es = dropWhile (\<lambda>x. x \<noteq> es) (inorder t)"

definition es_find_extent_range :: "(extent_status \<Rightarrow> bool) \<Rightarrow> nat \<Rightarrow> nat \<Rightarrow> es_inode \<Rightarrow> (extent_status option \<times> es_inode) option" where
  "es_find_extent_range matching_fn lblk end_blk ei =
     (case (case cached_es ei lblk of Some es \<Rightarrow> Some (Some es) | None \<Rightarrow> es_tree_search (i_es_tree ei) lblk) of
        None \<Rightarrow> None
      | Some None \<Rightarrow> Some (None, ei)
      | Some (Some es1) \<Rightarrow>
          (case (if matching_fn es1 then Some es1 else find_match matching_fn end_blk (tl (es_from (i_es_tree ei) es1))) of
             None \<Rightarrow> Some (None, ei)
           | Some es \<Rightarrow> Some (Some es, ei\<lparr>cache_es := Some (es_lblk es)\<rparr>)))"

definition ext4_es_find_extent_range ::
    "es_sb \<Rightarrow> (extent_status \<Rightarrow> bool) \<Rightarrow> nat \<Rightarrow> nat \<Rightarrow> es_inode \<Rightarrow> (extent_status option \<times> es_inode) option" where
  "ext4_es_find_extent_range sbi matching_fn lblk end_blk ei =
     (if fc_replay sbi then Some (None, ei) else es_find_extent_range matching_fn lblk end_blk ei)"

definition es_scan_range :: "(extent_status \<Rightarrow> bool) \<Rightarrow> nat \<Rightarrow> nat \<Rightarrow> es_inode \<Rightarrow> (bool \<times> es_inode) option" where
  "es_scan_range matching_fn start end_blk ei =
     (case es_find_extent_range matching_fn start end_blk ei of
        None \<Rightarrow> None
      | Some (None, ei1) \<Rightarrow> Some (False, ei1)
      | Some (Some es, ei1) \<Rightarrow>
          Some (if es_len es = 0 then False
                else if es_lblk es \<le> start \<and> start < (es_lblk es + es_len es) mod 2 ^ 32 then True
                else start \<le> es_lblk es \<and> es_lblk es \<le> end_blk, ei1))"

definition es_scan_clu :: "es_sb \<Rightarrow> (extent_status \<Rightarrow> bool) \<Rightarrow> nat \<Rightarrow> es_inode \<Rightarrow> (bool \<times> es_inode) option" where
  "es_scan_clu sbi matching_fn lblk ei =
     (let lblk_start = EXT4_LBLK_CMASK sbi lblk
      in es_scan_range matching_fn lblk_start ((lblk_start + s_cluster_ratio sbi - 1) mod 2 ^ 32) ei)"

definition ext4_es_scan_clu :: "es_sb \<Rightarrow> (extent_status \<Rightarrow> bool) \<Rightarrow> nat \<Rightarrow> es_inode \<Rightarrow> (bool \<times> es_inode) option" where
  "ext4_es_scan_clu sbi matching_fn lblk ei = (if fc_replay sbi then Some (False, ei) else es_scan_clu sbi matching_fn lblk ei)"

section \<open>Inserting\<close>

definition ext4_es_try_to_merge_left :: "es_sb \<Rightarrow> extent_status \<Rightarrow> es_inode \<Rightarrow> (extent_status \<times> es_inode) option" where
  "ext4_es_try_to_merge_left sbi es ei =
     (case rb_prev (i_es_tree ei) es of
        None \<Rightarrow> Some (es, ei)
      | Some es1 \<Rightarrow>
          if ext4_es_can_be_merged es1 es
          then let es1a = es1\<lparr>es_len := es_len es1 + es_len es\<rparr>;
                   es1b = (if ext4_es_is_referenced es then ext4_es_set_referenced es1a else es1a)
               in map_option (Pair es1b) (erase_es sbi es (change_es es1 es1b ei))
          else Some (es, ei))"

definition ext4_es_try_to_merge_right :: "es_sb \<Rightarrow> extent_status \<Rightarrow> es_inode \<Rightarrow> (extent_status \<times> es_inode) option" where
  "ext4_es_try_to_merge_right sbi es ei =
     (case rb_next (i_es_tree ei) es of
        None \<Rightarrow> Some (es, ei)
      | Some es1 \<Rightarrow>
          if ext4_es_can_be_merged es es1
          then let esa = es\<lparr>es_len := es_len es + es_len es1\<rparr>;
                   esb = (if ext4_es_is_referenced es1 then ext4_es_set_referenced esa else esa)
               in map_option (Pair esb) (erase_es sbi es1 (change_es es esb ei))
          else Some (es, ei))"

text \<open>\<open>__es_insert_extent\<close>: where the walk ends, at an entry that can be extended to the
  front or to the back, or at a free place.\<close>

datatype es_place = Front extent_status | Back extent_status | Fresh

fun es_insert_place :: "extent_status \<Rightarrow> extent_status tree \<Rightarrow> es_place option" where
  "es_insert_place newes Leaf = Some Fresh"
| "es_insert_place newes (Node l es r) =
     (if es_lblk newes < es_lblk es
      then (if ext4_es_can_be_merged newes es then Some (Front es) else es_insert_place newes l)
      else case ext4_es_end es of
          None \<Rightarrow> None
        | Some es_end \<Rightarrow>
            if es_end < es_lblk newes
            then (if ext4_es_can_be_merged es newes then Some (Back es) else es_insert_place newes r)
            else None)"

definition es_insert_extent :: "es_sb \<Rightarrow> extent_status \<Rightarrow> bool \<Rightarrow> es_inode \<Rightarrow> (int \<times> es_inode) option" where
  "es_insert_extent sbi newes prealloc ei =
     (let out = map_option (\<lambda>(es, ei). (0, ei\<lparr>cache_es := Some (es_lblk es)\<rparr>)) in
      case es_insert_place newes (i_es_tree ei) of
        None \<Rightarrow> None
      | Some (Front es) \<Rightarrow>
          let es1 = es\<lparr>es_lblk := es_lblk newes, es_len := es_len es + es_len newes\<rparr>;
              es2 = (if ext4_es_is_written es1 \<or> ext4_es_is_unwritten es1 then ext4_es_store_pblock es1 (es_pblk newes) else es1)
          in out (ext4_es_try_to_merge_left sbi es2 (change_es es es2 ei))
      | Some (Back es) \<Rightarrow>
          let es1 = es\<lparr>es_len := es_len es + es_len newes\<rparr>
          in out (ext4_es_try_to_merge_right sbi es1 (change_es es es1 ei))
      | Some Fresh \<Rightarrow>
          (case (if prealloc then (True, ei) else atomic_alloc ei) of
             (False, ei1) \<Rightarrow> Some (- ENOMEM, ei1)
           | (True, ei1) \<Rightarrow>
               let ei2 = ext4_es_init_extent newes ei1
               in out (Some (newes, ei2\<lparr>i_es_tree := rb_insert_color (es_rb sbi) (rb_link_node es_lblk newes (i_es_tree ei2))\<rparr>))))"

text \<open>\<open>ext4_es_cache_extent\<close>.\<close>

definition ext4_es_cache_extent :: "es_sb \<Rightarrow> nat \<Rightarrow> nat \<Rightarrow> 64 word \<Rightarrow> 64 word \<Rightarrow> es_inode \<Rightarrow> es_inode option" where
  "ext4_es_cache_extent sbi lblk len pblk status ei =
     (let end_blk = (lblk + len + 2 ^ 32 - 1) mod 2 ^ 32; newes = make_es lblk len pblk status in
      if fc_replay sbi then Some ei
      else if len = 0 then Some ei
      else if end_blk < lblk then None
      else case es_tree_search (i_es_tree ei) lblk of
          None \<Rightarrow> None
        | Some es \<Rightarrow>
            if (case es of None \<Rightarrow> True | Some es \<Rightarrow> end_blk < es_lblk es)
            then map_option snd (es_insert_extent sbi newes False ei)
            else Some ei)"

section \<open>Pending reservations\<close>

fun pr_walk :: "nat tree \<Rightarrow> nat \<Rightarrow> nat option \<Rightarrow> bool \<times> nat option" where
  "pr_walk Leaf lclu last_pr = (False, last_pr)"
| "pr_walk (Node l pr r) lclu last_pr =
     (if lclu < pr then pr_walk l lclu (Some pr) else if pr < lclu then pr_walk r lclu (Some pr) else (True, Some pr))"

text \<open>\<open>__pr_tree_search\<close> and \<open>__get_pending\<close>.\<close>

definition pr_tree_search :: "nat tree \<Rightarrow> nat \<Rightarrow> nat option" where
  "pr_tree_search t lclu =
     (case pr_walk t lclu None of
        (True, pr) \<Rightarrow> pr
      | (False, None) \<Rightarrow> None
      | (False, Some pr) \<Rightarrow> if lclu < pr then Some pr else if pr < lclu then rb_next t pr else None)"

definition get_pending :: "es_inode \<Rightarrow> nat \<Rightarrow> nat option" where
  "get_pending ei lclu = (case pr_walk (i_pending_tree ei) lclu None of (True, pr) \<Rightarrow> pr | (False, _) \<Rightarrow> None)"

definition ext4_is_pending :: "es_sb \<Rightarrow> nat \<Rightarrow> es_inode \<Rightarrow> bool" where
  "ext4_is_pending sbi lblk ei \<longleftrightarrow> get_pending ei (EXT4_B2C sbi lblk) \<noteq> None"

text \<open>\<open>__insert_pending\<close>: the result, whether \<open>prealloc\<close> is still there, and the inode.\<close>

definition insert_pending :: "es_sb \<Rightarrow> nat \<Rightarrow> bool \<Rightarrow> es_inode \<Rightarrow> int \<times> bool \<times> es_inode" where
  "insert_pending sbi lblk prealloc ei =
     (let lclu = EXT4_B2C sbi lblk in
      if fst (pr_walk (i_pending_tree ei) lclu None) then (0, prealloc, ei)
      else case (if prealloc then (True, ei) else atomic_alloc ei) of
          (False, ei1) \<Rightarrow> (- ENOMEM, prealloc, ei1)
        | (True, ei1) \<Rightarrow> (1, False,
            ei1\<lparr>i_pending_tree := rb_insert_color (pr_rb sbi) (rb_link_node id lclu (i_pending_tree ei1))\<rparr>))"

definition remove_pending :: "es_sb \<Rightarrow> nat \<Rightarrow> es_inode \<Rightarrow> es_inode" where
  "remove_pending sbi lblk ei =
     (case get_pending ei (EXT4_B2C sbi lblk) of
        None \<Rightarrow> ei
      | Some pr \<Rightarrow> ei\<lparr>i_pending_tree := rb_erase (pr_rb sbi) pr (i_pending_tree ei)\<rparr>)"

section \<open>Counting reservations\<close>

record rsvd_count =
  ndelayed :: int
  first_do_lblk_found :: bool
  first_do_lblk :: nat
  last_do_lblk :: nat
  left_es :: "nat option"
  partial_clu :: bool
  rc_lclu :: nat

text \<open>The fields that \<open>init_rsvd\<close> leaves as they are on the stack are only read after they
  were set.\<close>

definition init_rsvd :: "es_sb \<Rightarrow> nat \<Rightarrow> extent_status \<Rightarrow> es_inode \<Rightarrow> rsvd_count" where
  "init_rsvd sbi lblk es ei =
     \<lparr>ndelayed = 0, first_do_lblk_found = False, first_do_lblk = 0, last_do_lblk = 0,
      left_es = (if 1 < s_cluster_ratio sbi
                 then (if es_lblk es < lblk then Some (es_lblk es) else map_option es_lblk (rb_prev (i_es_tree ei) es))
                 else None),
      partial_clu = False, rc_lclu = 0\<rparr>"

text \<open>The steps of \<open>count_rsvd\<close> for clusters of several blocks: the partial cluster that was
  tracked, a cluster that starts outside the extent, whole clusters, and the partial cluster
  at the end.\<close>

definition end_partial :: "es_sb \<Rightarrow> nat \<Rightarrow> rsvd_count \<Rightarrow> rsvd_count" where
  "end_partial sbi i rc =
     (if partial_clu rc \<and> rc_lclu rc \<noteq> EXT4_B2C sbi i then rc\<lparr>ndelayed := ndelayed rc + 1, partial_clu := False\<rparr> else rc)"

definition count_first :: "es_sb \<Rightarrow> nat \<Rightarrow> nat \<Rightarrow> rsvd_count \<Rightarrow> nat \<times> rsvd_count" where
  "count_first sbi i end_blk rc =
     (if EXT4_LBLK_COFF sbi i \<noteq> 0 \<and> EXT4_LBLK_CFILL sbi i \<le> end_blk
      then (EXT4_LBLK_CFILL sbi i + 1, rc\<lparr>ndelayed := ndelayed rc + 1, partial_clu := False\<rparr>) else (i, rc))"

definition count_whole :: "es_sb \<Rightarrow> nat \<Rightarrow> nat \<Rightarrow> rsvd_count \<Rightarrow> nat \<times> rsvd_count" where
  "count_whole sbi i end_blk rc =
     (if i + s_cluster_ratio sbi - 1 \<le> end_blk
      then let nclu = drop_bit (s_cluster_bits sbi) (end_blk - i + 1)
           in (i + push_bit (s_cluster_bits sbi) nclu, rc\<lparr>ndelayed := ndelayed rc + int nclu\<rparr>)
      else (i, rc))"

definition start_partial :: "es_sb \<Rightarrow> nat \<Rightarrow> nat \<Rightarrow> rsvd_count \<Rightarrow> rsvd_count" where
  "start_partial sbi i end_blk rc =
     (if \<not> partial_clu rc \<and> i \<le> end_blk then rc\<lparr>partial_clu := True, rc_lclu := EXT4_B2C sbi i\<rparr> else rc)"

definition count_rsvd :: "es_sb \<Rightarrow> nat \<Rightarrow> nat \<Rightarrow> extent_status \<Rightarrow> rsvd_count \<Rightarrow> rsvd_count option" where
  "count_rsvd sbi lblk len es rc =
     (if \<not> ext4_es_is_delayed es then Some rc
      else if s_cluster_ratio sbi = 1 then Some (rc\<lparr>ndelayed := ndelayed rc + int len\<rparr>)
      else case ext4_es_end es of
          None \<Rightarrow> None
        | Some es_end \<Rightarrow>
            let i = (if lblk < es_lblk es then es_lblk es else lblk);
                end_blk = (if es_end < lblk + len - 1 then es_end else lblk + len - 1);
                rc1 = (if first_do_lblk_found rc then rc else rc\<lparr>first_do_lblk := i, first_do_lblk_found := True\<rparr>);
                (i2, rc2) = count_first sbi i end_blk (end_partial sbi i (rc1\<lparr>last_do_lblk := end_blk\<rparr>));
                (i3, rc3) = count_whole sbi i2 end_blk rc2
            in Some (start_partial sbi i3 end_blk rc3))"

text \<open>\<open>get_rsvd\<close>: the walks to the left and to the right for a delayed extent in the same
  cluster, and the release of the pending reservations.\<close>

fun left_delayed :: "nat \<Rightarrow> extent_status list \<Rightarrow> bool option" where
  "left_delayed first_blk [] = Some False"
| "left_delayed first_blk (es # ess) =
     (case ext4_es_end es of
        None \<Rightarrow> None
      | Some es_end \<Rightarrow>
          if es_end < first_blk then Some False
          else if ext4_es_is_delayed es then Some True
          else left_delayed first_blk ess)"

fun right_delayed :: "nat \<Rightarrow> extent_status list \<Rightarrow> bool" where
  "right_delayed last_blk [] = False"
| "right_delayed last_blk (es # ess) =
     (if last_blk < es_lblk es then False else if ext4_es_is_delayed es then True else right_delayed last_blk ess)"

fun release_pending :: "es_sb \<Rightarrow> nat \<Rightarrow> nat list \<Rightarrow> int \<Rightarrow> nat tree \<Rightarrow> int \<times> nat tree" where
  "release_pending sbi last_lclu [] n t = (n, t)"
| "release_pending sbi last_lclu (pr # prs) n t =
     (if last_lclu < pr then (n, t) else release_pending sbi last_lclu prs (n - 1) (rb_erase (pr_rb sbi) pr t))"

definition right_of :: "nat \<Rightarrow> extent_status option \<Rightarrow> es_inode \<Rightarrow> extent_status list option" where
  "right_of end_blk right_es ei =
     (case right_es of
        None \<Rightarrow> Some []
      | Some es \<Rightarrow>
          (case ext4_es_end es of
             None \<Rightarrow> None
           | Some es_end \<Rightarrow> Some (if end_blk < es_end then es_from (i_es_tree ei) es else tl (es_from (i_es_tree ei) es))))"

definition left_of :: "nat option \<Rightarrow> es_inode \<Rightarrow> extent_status list" where
  "left_of first_blk ei = (case Option.bind first_blk (node_at ei) of
     None \<Rightarrow> [] | Some es \<Rightarrow> dropWhile (\<lambda>x. x \<noteq> es) (rev (es_nodes ei)))"

definition get_rsvd :: "es_sb \<Rightarrow> nat \<Rightarrow> extent_status option \<Rightarrow> rsvd_count \<Rightarrow> es_inode \<Rightarrow> (nat \<times> es_inode) option" where
  "get_rsvd sbi end_blk right_es rc ei =
     (if s_cluster_ratio sbi \<le> 1 then Some (nat (ndelayed rc mod 2 ^ 32), ei)
      else
        let n0 = (if partial_clu rc then ndelayed rc + 1 else ndelayed rc);
            first_lclu = EXT4_B2C sbi (first_do_lblk rc); last_lclu = EXT4_B2C sbi (last_do_lblk rc)
        in if n0 = 0 then Some (0, ei)
           else Option.bind (left_delayed (EXT4_LBLK_CMASK sbi (first_do_lblk rc)) (left_of (left_es rc) ei)) (\<lambda>ld.
             Option.bind (if right_es \<noteq> None \<and> (\<not> ld \<or> first_lclu \<noteq> last_lclu) then right_of end_blk right_es ei else Some []) (\<lambda>rs.
               let rd = right_delayed (EXT4_LBLK_CFILL sbi (last_do_lblk rc)) rs;
                   n1 = n0 - (if ld then 1 else 0) - (if rd then 1 else 0);
                   f = (if first_lclu \<noteq> last_lclu \<and> ld then first_lclu + 1 else first_lclu);
                   l = (if first_lclu \<noteq> last_lclu \<and> rd then last_lclu - 1 else last_lclu);
                   count_pending = (if first_lclu = last_lclu then \<not> (ld \<or> rd) else f \<le> l);
                   prs = (case pr_tree_search (i_pending_tree ei) f of
                            None \<Rightarrow> [] | Some pr \<Rightarrow> dropWhile (\<lambda>x. x \<noteq> pr) (inorder (i_pending_tree ei)));
                   (n2, t) = (if count_pending then release_pending sbi l prs n1 (i_pending_tree ei) else (n1, i_pending_tree ei))
               in Some (nat (n2 mod 2 ^ 32), ei\<lparr>i_pending_tree := t\<rparr>))))"

section \<open>Removing\<close>

text \<open>The loop over the entries that lie in the range, from a given entry on: the entries
  that are left, the counts and the inode.\<close>

fun remove_whole :: "es_sb \<Rightarrow> bool \<Rightarrow> nat \<Rightarrow> extent_status list \<Rightarrow> rsvd_count \<Rightarrow> es_inode \<Rightarrow>
    (extent_status list \<times> rsvd_count \<times> es_inode) option" where
  "remove_whole sbi count_reserved end_blk [] rc ei = Some ([], rc, ei)"
| "remove_whole sbi count_reserved end_blk (es # ess) rc ei =
     (case ext4_es_end es of
        None \<Rightarrow> None
      | Some es_end \<Rightarrow>
          if end_blk < es_end then Some (es # ess, rc, ei)
          else Option.bind (if count_reserved then count_rsvd sbi (es_lblk es) (es_len es) es rc else Some rc) (\<lambda>rc1.
            Option.bind (erase_es sbi es ei) (\<lambda>ei1. remove_whole sbi count_reserved end_blk ess rc1 ei1)))"

definition cut_front :: "extent_status \<Rightarrow> nat \<Rightarrow> nat \<Rightarrow> extent_status" where
  "cut_front es end_blk len2 =
     (let es1 = es\<lparr>es_lblk := end_blk + 1, es_len := len2\<rparr> in
      if ext4_es_is_written es1 \<or> ext4_es_is_unwritten es1
      then ext4_es_store_pblock es1 (es_pblk es + of_nat (es_len es) - of_nat len2) else es1)"

definition tail_es :: "extent_status \<Rightarrow> nat \<Rightarrow> nat \<Rightarrow> extent_status" where
  "tail_es orig_es end_blk len2 =
     make_es (end_blk + 1) len2
       (if ext4_es_is_written orig_es \<or> ext4_es_is_unwritten orig_es
        then ext4_es_pblock orig_es + of_nat (es_len orig_es) - of_nat len2 else 0x7FDEADBEEF)
       (ext4_es_status orig_es)"

text \<open>The end of \<open>__es_remove_extent\<close>: the reservations that become free. \<open>reserved\<close> is what
  the caller had in the variable before; it is only changed here.\<close>

definition out_get_reserved :: "es_sb \<Rightarrow> bool \<Rightarrow> nat \<Rightarrow> extent_status option \<Rightarrow> rsvd_count \<Rightarrow> nat \<Rightarrow> es_inode \<Rightarrow>
    (int \<times> nat \<times> es_inode) option" where
  "out_get_reserved sbi count_reserved end_blk es rc reserved ei =
     (if count_reserved then map_option (\<lambda>(n, ei). (0, n, ei)) (get_rsvd sbi end_blk es rc ei) else Some (0, reserved, ei))"

text \<open>A range that lies inside one entry.\<close>

definition split_es :: "es_sb \<Rightarrow> bool \<Rightarrow> nat \<Rightarrow> bool \<Rightarrow> extent_status \<Rightarrow> nat \<Rightarrow> nat \<Rightarrow> rsvd_count \<Rightarrow> nat \<Rightarrow> es_inode \<Rightarrow>
    (int \<times> nat \<times> es_inode) option" where
  "split_es sbi count_reserved end_blk prealloc orig_es len1 len2 rc reserved ei =
     (let es = orig_es\<lparr>es_len := len1\<rparr>; newes = tail_es orig_es end_blk len2 in
      case es_insert_extent sbi newes prealloc (change_es orig_es es ei) of
        None \<Rightarrow> None
      | Some (err, ei1) \<Rightarrow>
          if err \<noteq> 0
          then Some (if ext4_es_must_keep newes then (err, reserved, change_es es orig_es ei1) else (0, reserved, ei1))
          else Option.bind (if count_reserved then count_rsvd sbi (es_lblk orig_es + len1) (es_len orig_es - len1 - len2) orig_es rc else Some rc) (\<lambda>rc1.
            out_get_reserved sbi count_reserved end_blk (Some es) rc1 reserved ei1))"

text \<open>Entries from \<open>es\<close> on: whole ones and the front of the next one.\<close>

definition remove_rest :: "es_sb \<Rightarrow> bool \<Rightarrow> nat \<Rightarrow> extent_status list \<Rightarrow> rsvd_count \<Rightarrow> nat \<Rightarrow> es_inode \<Rightarrow> (int \<times> nat \<times> es_inode) option" where
  "remove_rest sbi count_reserved end_blk ess rc reserved ei =
     Option.bind (remove_whole sbi count_reserved end_blk ess rc ei) (\<lambda>(rest, rc1, ei1).
       case rest of
         [] \<Rightarrow> out_get_reserved sbi count_reserved end_blk None rc1 reserved ei1
       | es # _ \<Rightarrow>
           if es_lblk es < end_blk + 1
           then Option.bind (ext4_es_end es) (\<lambda>es_end.
             let len1 = es_end - end_blk; es' = cut_front es end_blk len1 in
             Option.bind (if count_reserved then count_rsvd sbi (es_lblk es) (es_len es - len1) es rc1 else Some rc1) (\<lambda>rc2.
               out_get_reserved sbi count_reserved end_blk (Some es') rc2 reserved (change_es es es' ei1)))
           else out_get_reserved sbi count_reserved end_blk (Some es) rc1 reserved ei1)"

text \<open>What \<open>__es_remove_extent\<close> does once the first entry is found, which ends at \<open>es_end\<close>. An
  entry ends before the last 32 bit number, so the block after \<open>end_blk\<close> is only used where
  it does not wrap.\<close>

definition remove_found :: "es_sb \<Rightarrow> bool \<Rightarrow> nat \<Rightarrow> nat \<Rightarrow> nat \<Rightarrow> bool \<Rightarrow> extent_status \<Rightarrow> nat \<Rightarrow> es_inode \<Rightarrow> (int \<times> nat \<times> es_inode) option" where
  "remove_found sbi count_reserved lblk end_blk reserved prealloc es es_end ei =
     (let rc = init_rsvd sbi lblk es ei;
          len1 = (if es_lblk es < lblk then lblk - es_lblk es else 0);
          len2 = (if end_blk < es_end then es_end - end_blk else 0)
      in if 0 < len1 \<and> 0 < len2 then split_es sbi count_reserved end_blk prealloc es len1 len2 rc reserved ei
         else if 0 < len2
         then let es' = cut_front es end_blk len2 in
           Option.bind (if count_reserved then count_rsvd sbi (es_lblk es) (es_len es - len2) es rc else Some rc) (\<lambda>rc1.
             out_get_reserved sbi count_reserved end_blk (Some es') rc1 reserved (change_es es es' ei))
         else if 0 < len1
         then let es' = es\<lparr>es_len := len1\<rparr>; ei2 = change_es es es' ei in
           Option.bind (if count_reserved then count_rsvd sbi lblk (es_len es - len1) es rc else Some rc) (\<lambda>rc1.
             remove_rest sbi count_reserved end_blk (tl (es_from (i_es_tree ei2) es')) rc1 reserved ei2)
         else remove_rest sbi count_reserved end_blk (es_from (i_es_tree ei) es) rc reserved ei)"

text \<open>\<open>__es_remove_extent\<close> for blocks \<open>lblk\<close> to \<open>end_blk\<close>: the error, the variable that
  \<open>reserved\<close> points to (\<open>None\<close> for a null pointer) and the inode.\<close>

definition es_remove_extent :: "es_sb \<Rightarrow> nat \<Rightarrow> nat \<Rightarrow> nat option \<Rightarrow> bool \<Rightarrow> es_inode \<Rightarrow> (int \<times> nat \<times> es_inode) option" where
  "es_remove_extent sbi lblk end_blk reserved_p prealloc ei =
     (let count_reserved = (reserved_p \<noteq> None \<and> opt_delalloc sbi);
          reserved = (case reserved_p of None \<Rightarrow> 0 | Some r \<Rightarrow> r)
      in case es_tree_search (i_es_tree ei) lblk of
          None \<Rightarrow> None
        | Some None \<Rightarrow> Some (0, reserved, ei)
        | Some (Some es) \<Rightarrow>
            if end_blk < es_lblk es then Some (0, reserved, ei)
            else Option.bind (ext4_es_end es) (\<lambda>es_end.
              remove_found sbi count_reserved lblk end_blk reserved prealloc es es_end (ei\<lparr>cache_es := None\<rparr>)))"

section \<open>Reservations of delayed blocks\<close>

text \<open>\<open>src/ext4-module/inode.c\<close>: \<open>ext4_da_update_reserve_space\<close> and
  \<open>ext4_da_release_space\<close> for one inode. The counter of the file system, the quota and the
  preallocations are left out.\<close>

definition ext4_da_update_reserve_space :: "nat \<Rightarrow> es_inode \<Rightarrow> es_inode" where
  "ext4_da_update_reserve_space used ei =
     (let n = (if i_reserved_data_blocks ei < used then i_reserved_data_blocks ei else used)
      in ei\<lparr>i_reserved_data_blocks := i_reserved_data_blocks ei - n\<rparr>)"

definition ext4_da_release_space :: "nat \<Rightarrow> es_inode \<Rightarrow> es_inode" where
  "ext4_da_release_space to_free ei =
     (if to_free = 0 then ei
      else let n = (if i_reserved_data_blocks ei < to_free then i_reserved_data_blocks ei else to_free)
           in ei\<lparr>i_reserved_data_blocks := i_reserved_data_blocks ei - n\<rparr>)"

text \<open>\<open>ext4_da_reserve_space\<close>; \<open>claim\<close> is the result of the quota and of the claim of free
  clusters.\<close>

definition ext4_da_reserve_space :: "int \<Rightarrow> nat \<Rightarrow> es_inode \<Rightarrow> int \<times> es_inode" where
  "ext4_da_reserve_space claim nr_resv ei =
     (if claim \<noteq> 0 then (claim, ei) else (0, ei\<lparr>i_reserved_data_blocks := (i_reserved_data_blocks ei + nr_resv) mod 2 ^ 32\<rparr>))"

section \<open>The operations with their retries\<close>

text \<open>\<open>ext4_es_remove_extent\<close>. Allocations of the second attempt do not fail.\<close>

partial_function (option) remove_retry :: "es_sb \<Rightarrow> nat \<Rightarrow> nat \<Rightarrow> bool \<Rightarrow> nat \<Rightarrow> es_inode \<Rightarrow> (nat \<times> es_inode) option" where
  "remove_retry sbi lblk end_blk prealloc reserved ei =
     Option.bind (es_remove_extent sbi lblk end_blk (Some reserved) prealloc ei) (\<lambda>(err, reserved1, ei1).
       if err \<noteq> 0 then remove_retry sbi lblk end_blk True reserved1 ei1 else Some (reserved1, ei1))"

definition ext4_es_remove_extent :: "es_sb \<Rightarrow> nat \<Rightarrow> nat \<Rightarrow> es_inode \<Rightarrow> es_inode option" where
  "ext4_es_remove_extent sbi lblk len ei =
     (let end_blk = (lblk + len + 2 ^ 32 - 1) mod 2 ^ 32 in
      if fc_replay sbi then Some ei
      else if len = 0 then Some ei
      else if end_blk < lblk then None
      else map_option (\<lambda>(reserved, ei). ext4_da_release_space reserved ei) (remove_retry sbi lblk end_blk False 0 ei))"

text \<open>\<open>__revise_pending\<close>: a delayed block in the first or the last cluster outside the range.\<close>

definition delayed_before :: "es_sb \<Rightarrow> nat \<Rightarrow> es_inode \<Rightarrow> (bool \<times> es_inode) option" where
  "delayed_before sbi lblk ei =
     (if EXT4_LBLK_CMASK sbi lblk \<noteq> lblk then es_scan_range ext4_es_is_delayed (EXT4_LBLK_CMASK sbi lblk) (lblk - 1) ei else Some (False, ei))"

definition delayed_after :: "es_sb \<Rightarrow> nat \<Rightarrow> es_inode \<Rightarrow> (bool \<times> es_inode) option" where
  "delayed_after sbi end_blk ei =
     (let last_blk = (EXT4_LBLK_CMASK sbi end_blk + s_cluster_ratio sbi - 1) mod 2 ^ 32
      in if last_blk \<noteq> end_blk then es_scan_range ext4_es_is_delayed (end_blk + 1) last_blk ei else Some (False, ei))"

definition revise_last :: "es_sb \<Rightarrow> nat \<Rightarrow> bool \<Rightarrow> int \<Rightarrow> es_inode \<Rightarrow> (int \<times> bool \<times> es_inode) option" where
  "revise_last sbi end_blk pr pendings ei =
     (let last_blk = (EXT4_LBLK_CMASK sbi end_blk + s_cluster_ratio sbi - 1) mod 2 ^ 32 in
      Option.bind (delayed_after sbi end_blk ei) (\<lambda>(l_del, ei1).
        if l_del
        then (case insert_pending sbi last_blk pr ei1 of (ret, pr1, ei2) \<Rightarrow> Some (if ret < 0 then ret else pendings + ret, pr1, ei2))
        else Some (pendings, pr, remove_pending sbi last_blk ei1)))"

definition revise_pending :: "es_sb \<Rightarrow> nat \<Rightarrow> nat \<Rightarrow> bool \<Rightarrow> es_inode \<Rightarrow> (int \<times> bool \<times> es_inode) option" where
  "revise_pending sbi lblk len pr ei =
     (let end_blk = lblk + len - 1; one = (EXT4_B2C sbi lblk = EXT4_B2C sbi end_blk); first = EXT4_LBLK_CMASK sbi lblk in
      if len = 0 then Some (0, pr, ei)
      else Option.bind (delayed_before sbi lblk ei) (\<lambda>(f_del, ei1).
        if f_del
        then (case insert_pending sbi first pr ei1 of (ret, pr1, ei2) \<Rightarrow>
               if ret < 0 then Some (ret, pr1, ei2)
               else if one then Some (ret, pr1, ei2)
               else revise_last sbi end_blk pr1 ret ei2)
        else revise_last sbi end_blk pr 0 (if one then ei1 else remove_pending sbi first ei1)))"

text \<open>\<open>ext4_es_insert_extent\<close>. One attempt: the three errors, which of the preallocated
  entries are left, the variable \<open>resv_used\<close> and the inode.\<close>

type_synonym es_attempt = "(int \<times> int \<times> int) \<times> (bool \<times> bool \<times> bool) \<times> nat \<times> es_inode"

definition insert_attempt :: "es_sb \<Rightarrow> extent_status \<Rightarrow> bool \<Rightarrow> es_attempt \<Rightarrow> es_attempt option" where
  "insert_attempt sbi newes revise s =
     (case s of ((err1, err2, err3), (es1, es2, pr), resv_used, ei) \<Rightarrow>
        let end_blk = es_lblk newes + es_len newes - 1;
            es1a = (es1 \<or> err1 \<noteq> 0); es2a = (es2 \<or> err1 \<noteq> 0 \<or> err2 \<noteq> 0);
            pra = (pr \<or> (err1 \<noteq> 0 \<or> err2 \<noteq> 0 \<or> err3 < 0) \<and> revise);
            out = (\<lambda>errs pre used pending ei.
              let used1 = (used + pending) mod 2 ^ 32 in
              Some (errs, pre, used1, if used1 \<noteq> 0 then ext4_da_update_reserve_space used1 ei else ei))
        in Option.bind (es_remove_extent sbi (es_lblk newes) end_blk (Some resv_used) es1a ei) (\<lambda>(err1a, used, ei1).
          if err1a \<noteq> 0 then out (err1a, err2, err3) (es1a, es2a, pra) used 0 ei1
          else Option.bind (es_insert_extent sbi newes es2a ei1) (\<lambda>(e2, ei2).
            let err2a = (if e2 = - ENOMEM \<and> \<not> ext4_es_must_keep newes then 0 else e2) in
            if err2a \<noteq> 0 then out (0, err2a, err3) (False, es2a, pra) used 0 ei2
            else if revise
            then Option.bind (revise_pending sbi (es_lblk newes) (es_len newes) pra ei2) (\<lambda>(err3a, prb, ei3).
              if err3a < 0 then out (0, 0, err3a) (False, False, prb) used 0 ei3
              else out (0, 0, err3a) (False, False, False) used (nat err3a) ei3)
            else out (0, 0, err3) (False, False, pra) used 0 ei2)))"

partial_function (option) insert_retry :: "es_sb \<Rightarrow> extent_status \<Rightarrow> bool \<Rightarrow> es_attempt \<Rightarrow> es_inode option" where
  "insert_retry sbi newes revise s =
     Option.bind (insert_attempt sbi newes revise s) (\<lambda>s1.
       case s1 of ((err1, err2, err3), pre, used, ei) \<Rightarrow>
         if err1 \<noteq> 0 \<or> err2 \<noteq> 0 \<or> err3 < 0 then insert_retry sbi newes revise s1 else Some ei)"

definition ext4_es_insert_extent :: "es_sb \<Rightarrow> nat \<Rightarrow> nat \<Rightarrow> 64 word \<Rightarrow> 64 word \<Rightarrow> es_inode \<Rightarrow> es_inode option" where
  "ext4_es_insert_extent sbi lblk len pblk status ei =
     (let end_blk = (lblk + len + 2 ^ 32 - 1) mod 2 ^ 32; newes = make_es lblk len pblk status;
          revise = (1 < s_cluster_ratio sbi \<and> opt_delalloc sbi \<and> status AND (EXTENT_STATUS_WRITTEN OR EXTENT_STATUS_UNWRITTEN) \<noteq> 0)
      in if fc_replay sbi then Some ei
         else if len = 0 then Some ei
         else if end_blk < lblk then None
         else insert_retry sbi newes revise ((0, 0, 0), (False, False, False), 0, ei))"

text \<open>\<open>ext4_es_insert_delayed_extent\<close>.\<close>

type_synonym da_attempt = "(int \<times> int \<times> int) \<times> (bool \<times> bool \<times> bool \<times> bool) \<times> es_inode"

definition delayed_attempt :: "es_sb \<Rightarrow> extent_status \<Rightarrow> bool \<Rightarrow> bool \<Rightarrow> da_attempt \<Rightarrow> da_attempt option" where
  "delayed_attempt sbi newes lclu_allocated end_allocated s =
     (case s of ((err1, err2, err3), (es1, es2, pr1, pr2), ei) \<Rightarrow>
        let end_blk = es_lblk newes + es_len newes - 1; again = (err1 \<noteq> 0 \<or> err2 \<noteq> 0 \<or> err3 < 0);
            es1a = (es1 \<or> err1 \<noteq> 0); es2a = (es2 \<or> err1 \<noteq> 0 \<or> err2 \<noteq> 0);
            pr1a = (pr1 \<or> again \<and> lclu_allocated); pr2a = (pr2 \<or> again \<and> end_allocated)
        in Option.bind (es_remove_extent sbi (es_lblk newes) end_blk None es1a ei) (\<lambda>(err1a, _, ei1).
          if err1a \<noteq> 0 then Some ((err1a, err2, err3), (es1a, es2a, pr1a, pr2a), ei1)
          else Option.bind (es_insert_extent sbi newes es2a ei1) (\<lambda>(err2a, ei2).
            if err2a \<noteq> 0 then Some ((0, err2a, err3), (False, es2a, pr1a, pr2a), ei2)
            else
              let (err3a, pr1b, ei3) = (if lclu_allocated then insert_pending sbi (es_lblk newes) pr1a ei2 else (err3, pr1a, ei2))
              in if lclu_allocated \<and> err3a < 0 then Some ((0, 0, err3a), (False, False, pr1b, pr2a), ei3)
                 else
                   let pr1c = (if lclu_allocated then False else pr1b);
                       (err3b, pr2b, ei4) = (if end_allocated then insert_pending sbi end_blk pr2a ei3 else (err3a, pr2a, ei3))
                   in if end_allocated \<and> err3b < 0 then Some ((0, 0, err3b), (False, False, pr1c, pr2b), ei4)
                      else Some ((0, 0, err3b), (False, False, pr1c, if end_allocated then False else pr2b), ei4))))"

partial_function (option) delayed_retry :: "es_sb \<Rightarrow> extent_status \<Rightarrow> bool \<Rightarrow> bool \<Rightarrow> da_attempt \<Rightarrow> es_inode option" where
  "delayed_retry sbi newes lclu_allocated end_allocated s =
     Option.bind (delayed_attempt sbi newes lclu_allocated end_allocated s) (\<lambda>s1.
       case s1 of ((err1, err2, err3), pre, ei) \<Rightarrow>
         if err1 \<noteq> 0 \<or> err2 \<noteq> 0 \<or> err3 < 0 then delayed_retry sbi newes lclu_allocated end_allocated s1 else Some ei)"

definition ext4_es_insert_delayed_extent :: "es_sb \<Rightarrow> nat \<Rightarrow> nat \<Rightarrow> bool \<Rightarrow> bool \<Rightarrow> es_inode \<Rightarrow> es_inode option" where
  "ext4_es_insert_delayed_extent sbi lblk len lclu_allocated end_allocated ei =
     (if fc_replay sbi then Some ei
      else if len = 0 then Some ei
      else delayed_retry sbi (make_es lblk len (- 1) EXTENT_STATUS_DELAYED) lclu_allocated end_allocated
             ((0, 0, 0), (False, False, False, False), ei))"

text \<open>\<open>ext4_clu_alloc_state\<close> and \<open>ext4_insert_delayed_blocks\<close> of \<open>inode.c\<close>.
  \<open>clu_mapped\<close> is what \<open>ext4_clu_mapped\<close> finds in the extent tree.\<close>

definition ext4_clu_alloc_state :: "es_sb \<Rightarrow> (nat \<Rightarrow> int) \<Rightarrow> nat \<Rightarrow> es_inode \<Rightarrow> (int \<times> es_inode) option" where
  "ext4_clu_alloc_state sbi clu_mapped lblk ei =
     Option.bind (ext4_es_scan_clu sbi ext4_es_is_delayed lblk ei) (\<lambda>(d, ei1).
       if d then Some (1, ei1)
       else Option.bind (ext4_es_scan_clu sbi ext4_es_is_mapped lblk ei1) (\<lambda>(a, ei2).
         Some (if a then 2 else let ret = clu_mapped (EXT4_B2C sbi lblk) in if ret < 0 then ret else if 0 < ret then 2 else 0, ei2)))"

definition ext4_insert_delayed_blocks :: "es_sb \<Rightarrow> (nat \<Rightarrow> int) \<Rightarrow> int \<Rightarrow> nat \<Rightarrow> nat \<Rightarrow> es_inode \<Rightarrow> (int \<times> es_inode) option" where
  "ext4_insert_delayed_blocks sbi clu_mapped claim lblk len ei =
     (let end_blk = lblk + len - 1; many = (EXT4_B2C sbi lblk \<noteq> EXT4_B2C sbi end_blk);
          reserve = (\<lambda>n lclu_allocated end_allocated ei.
            case (if n = 0 then (0, ei) else ext4_da_reserve_space claim n ei) of (ret, ei1) \<Rightarrow>
              if ret \<noteq> 0 then Some (ret, ei1)
              else map_option (Pair 0) (ext4_es_insert_delayed_extent sbi lblk len lclu_allocated end_allocated ei1))
      in if s_cluster_ratio sbi = 1
         then (case ext4_da_reserve_space claim len ei of (ret, ei1) \<Rightarrow>
                if ret \<noteq> 0 then Some (ret, ei1)
                else map_option (Pair 0) (ext4_es_insert_delayed_extent sbi lblk len False False ei1))
         else
           let resv_clu = EXT4_B2C sbi end_blk - EXT4_B2C sbi lblk + 1 in
           Option.bind (ext4_clu_alloc_state sbi clu_mapped lblk ei) (\<lambda>(ret, ei1).
             if ret < 0 then Some (ret, ei1)
             else
               let resv1 = (if 0 < ret then resv_clu - 1 else resv_clu); la = (ret = 2) in
               if many
               then Option.bind (ext4_clu_alloc_state sbi clu_mapped end_blk ei1) (\<lambda>(ret, ei2).
                 if ret < 0 then Some (ret, ei2)
                 else reserve (if 0 < ret then resv1 - 1 else resv1) la (ret = 2) ei2)
               else reserve resv1 la False ei1))"

section \<open>Reclaiming\<close>

text \<open>\<open>es_do_reclaim_extents\<close>: the loop over the entries from one on, with the numbers of
  entries to scan and of entries freed.\<close>

fun reclaim_loop :: "es_sb \<Rightarrow> nat \<Rightarrow> extent_status list \<Rightarrow> int \<Rightarrow> nat \<Rightarrow> es_inode \<Rightarrow> (int \<times> int \<times> nat \<times> es_inode) option" where
  "reclaim_loop sbi end_blk [] nr_to_scan nr_shrunk ei = Some (0, nr_to_scan, nr_shrunk, ei\<lparr>i_es_shrink_lblk := 0\<rparr>)"
| "reclaim_loop sbi end_blk (es # ess) nr_to_scan nr_shrunk ei =
     (if nr_to_scan \<le> 0 then Some (1, nr_to_scan, nr_shrunk, ei\<lparr>i_es_shrink_lblk := es_lblk es\<rparr>)
      else if end_blk < es_lblk es then Some (0, nr_to_scan, nr_shrunk, ei\<lparr>i_es_shrink_lblk := (end_blk + 1) mod 2 ^ 32\<rparr>)
      else if ext4_es_must_keep es then reclaim_loop sbi end_blk ess (nr_to_scan - 1) nr_shrunk ei
      else if ext4_es_is_referenced es
      then reclaim_loop sbi end_blk ess (nr_to_scan - 1) nr_shrunk (change_es es (ext4_es_clear_referenced es) ei)
      else Option.bind (erase_es sbi es ei) (\<lambda>ei1. reclaim_loop sbi end_blk ess (nr_to_scan - 1) (nr_shrunk + 1) ei1))"

definition es_do_reclaim_extents :: "es_sb \<Rightarrow> nat \<Rightarrow> int \<Rightarrow> nat \<Rightarrow> es_inode \<Rightarrow> (int \<times> int \<times> nat \<times> es_inode) option" where
  "es_do_reclaim_extents sbi end_blk nr_to_scan nr_shrunk ei =
     (case es_tree_search (i_es_tree ei) (i_es_shrink_lblk ei) of
        None \<Rightarrow> None
      | Some None \<Rightarrow> Some (0, nr_to_scan, nr_shrunk, ei\<lparr>i_es_shrink_lblk := 0\<rparr>)
      | Some (Some es) \<Rightarrow> reclaim_loop sbi end_blk (es_from (i_es_tree ei) es) nr_to_scan nr_shrunk ei)"

definition es_reclaim_extents :: "es_sb \<Rightarrow> int \<Rightarrow> es_inode \<Rightarrow> (nat \<times> int \<times> es_inode) option" where
  "es_reclaim_extents sbi nr_to_scan ei =
     (let start = i_es_shrink_lblk ei in
      if i_es_shk_nr ei = 0 then Some (0, nr_to_scan, ei)
      else Option.bind (es_do_reclaim_extents sbi EXT_MAX_BLOCKS nr_to_scan 0 ei) (\<lambda>(r, n1, k1, ei1).
        Option.bind (if r = 0 \<and> start \<noteq> 0 then map_option snd (es_do_reclaim_extents sbi (start - 1) n1 k1 ei1) else Some (n1, k1, ei1)) (\<lambda>(n2, k2, ei2).
          Some (k2, n2, ei2\<lparr>cache_es := None\<rparr>))))"

text \<open>\<open>ext4_clear_inode_es\<close>.\<close>

fun clear_loop :: "es_sb \<Rightarrow> extent_status list \<Rightarrow> es_inode \<Rightarrow> es_inode option" where
  "clear_loop sbi [] ei = Some ei"
| "clear_loop sbi (es # ess) ei =
     (if ext4_es_must_keep es then clear_loop sbi ess ei else Option.bind (erase_es sbi es ei) (clear_loop sbi ess))"

definition ext4_clear_inode_es :: "es_sb \<Rightarrow> es_inode \<Rightarrow> es_inode option" where
  "ext4_clear_inode_es sbi ei = clear_loop sbi (es_nodes ei) (ei\<lparr>cache_es := None\<rparr>)"

end
