(* ===== verification/Extent_Map.thy ===== *)
theory Extent_Map
  imports Extent_Status
begin

unbundle bit_operations_syntax

text \<open>
  The contract of the extent status tree (\<open>Extent_Status\<close>): a partial map from the blocks
  of a file to their status and place on disk.
\<close>

section \<open>Entries\<close>

lemma not_ES_MASK: "NOT ES_MASK = mask 59"
  by (rule bit_eqI) (auto simp: ES_MASK_def bit_simps)

lemma es_type_mask: "ES_TYPE_MASK = mask 4"
  by (simp add: ES_TYPE_MASK_def EXTENT_STATUS_WRITTEN_def EXTENT_STATUS_UNWRITTEN_def EXTENT_STATUS_DELAYED_def EXTENT_STATUS_HOLE_def mask_eq_exp_minus_1)

lemma es_store_pblock [simp]:
  "es_lblk (ext4_es_store_pblock es pb) = es_lblk es" "es_len (ext4_es_store_pblock es pb) = es_len es"
  "ext4_es_type (ext4_es_store_pblock es pb) = ext4_es_type es"
  "ext4_es_pblock (ext4_es_store_pblock es pb) = pb AND mask 59"
  "ext4_es_status (ext4_es_store_pblock es pb) = ext4_es_status es"
proof -
  show "ext4_es_type (ext4_es_store_pblock es pb) = ext4_es_type es"
    "ext4_es_status (ext4_es_store_pblock es pb) = ext4_es_status es"
    by (rule bit_eqI; auto simp: ext4_es_type_def ext4_es_status_def ext4_es_store_pblock_def not_ES_MASK es_type_mask ES_MASK_def bit_simps
        dest: bit_imp_le_length)+
  show "ext4_es_pblock (ext4_es_store_pblock es pb) = pb AND mask 59"
    by (rule bit_eqI) (auto simp: ext4_es_pblock_def ext4_es_store_pblock_def not_ES_MASK es_type_mask ES_MASK_def bit_simps)
qed (simp_all add: ext4_es_store_pblock_def)

lemma bit_referenced: "bit EXTENT_STATUS_REFERENCED n \<longleftrightarrow> n = 4"
proof -
  have r: "EXTENT_STATUS_REFERENCED = 2 ^ 4" by (simp add: EXTENT_STATUS_REFERENCED_def)
  show ?thesis unfolding r bit_exp_iff by auto
qed

lemma es_set_referenced [simp]:
  "es_lblk (ext4_es_set_referenced es) = es_lblk es" "es_len (ext4_es_set_referenced es) = es_len es"
  "ext4_es_type (ext4_es_set_referenced es) = ext4_es_type es"
  "ext4_es_pblock (ext4_es_set_referenced es) = ext4_es_pblock es"
proof -
  show "ext4_es_type (ext4_es_set_referenced es) = ext4_es_type es" "ext4_es_pblock (ext4_es_set_referenced es) = ext4_es_pblock es"
    by (rule bit_eqI; auto simp: ext4_es_type_def ext4_es_pblock_def ext4_es_set_referenced_def not_ES_MASK es_type_mask bit_referenced bit_simps)+
qed (simp_all add: ext4_es_set_referenced_def)

lemma es_clear_referenced [simp]:
  "es_lblk (ext4_es_clear_referenced es) = es_lblk es" "es_len (ext4_es_clear_referenced es) = es_len es"
  "ext4_es_type (ext4_es_clear_referenced es) = ext4_es_type es"
  "ext4_es_pblock (ext4_es_clear_referenced es) = ext4_es_pblock es"
proof -
  show "ext4_es_type (ext4_es_clear_referenced es) = ext4_es_type es" "ext4_es_pblock (ext4_es_clear_referenced es) = ext4_es_pblock es"
    by (rule bit_eqI; auto simp: ext4_es_type_def ext4_es_pblock_def ext4_es_clear_referenced_def not_ES_MASK es_type_mask bit_referenced bit_simps)+
qed (simp_all add: ext4_es_clear_referenced_def)

lemma make_es [simp]:
  "es_lblk (make_es lblk len pb status) = lblk" "es_len (make_es lblk len pb status) = len"
  "ext4_es_type (make_es lblk len pb status) = status AND mask 4"
  "ext4_es_pblock (make_es lblk len pb status) = pb AND mask 59"
proof -
  show "ext4_es_type (make_es lblk len pb status) = status AND mask 4"
    by (rule bit_eqI) (auto simp: make_es_def ext4_es_type_def ext4_es_store_pblock_status_def not_ES_MASK es_type_mask ES_MASK_def bit_simps)
  show "ext4_es_pblock (make_es lblk len pb status) = pb AND mask 59"
    by (rule bit_eqI) (auto simp: make_es_def ext4_es_pblock_def ext4_es_store_pblock_status_def not_ES_MASK es_type_mask ES_MASK_def bit_simps)
qed (simp_all add: make_es_def ext4_es_store_pblock_status_def)

lemma es_update [simp]:
  "ext4_es_type (es\<lparr>es_lblk := l\<rparr>) = ext4_es_type es" "ext4_es_type (es\<lparr>es_len := n\<rparr>) = ext4_es_type es"
  "ext4_es_pblock (es\<lparr>es_lblk := l\<rparr>) = ext4_es_pblock es" "ext4_es_pblock (es\<lparr>es_len := n\<rparr>) = ext4_es_pblock es"
  by (simp_all add: ext4_es_type_def ext4_es_pblock_def)

lemma type_of_status: "ext4_es_status es AND mask 4 = ext4_es_type es"
  by (simp add: ext4_es_status_def ext4_es_type_def es_type_mask)

lemmas es_kinds = ext4_es_is_written_def ext4_es_is_unwritten_def ext4_es_is_delayed_def ext4_es_is_hole_def
  EXTENT_STATUS_WRITTEN_def EXTENT_STATUS_UNWRITTEN_def EXTENT_STATUS_DELAYED_def EXTENT_STATUS_HOLE_def

text \<open>What is the same for two entries with the same type.\<close>

lemma same_type:
  assumes "ext4_es_type es = ext4_es_type es'"
  shows "ext4_es_is_written es = ext4_es_is_written es'" "ext4_es_is_unwritten es = ext4_es_is_unwritten es'"
    "ext4_es_is_delayed es = ext4_es_is_delayed es'" "ext4_es_is_hole es = ext4_es_is_hole es'"
    "ext4_es_is_mapped es = ext4_es_is_mapped es'" "ext4_es_must_keep es = ext4_es_must_keep es'"
  using assms by (simp_all add: es_kinds ext4_es_is_mapped_def ext4_es_must_keep_def)

text \<open>A well-formed entry: not empty, before the last block number, of one of the four
  types, and with physical blocks that fit.\<close>

definition es_ok :: "extent_status \<Rightarrow> bool" where
  "es_ok es \<longleftrightarrow> 0 < es_len es \<and> es_lblk es + es_len es < 2 ^ 32 \<and> ext4_es_type es \<in> {1, 2, 4, 8} \<and>
     (ext4_es_is_mapped es \<longrightarrow> unat (ext4_es_pblock es) + es_len es \<le> 2 ^ 59)"

lemma es_ok_kind:
  assumes "es_ok es"
  shows "ext4_es_is_written es \<longleftrightarrow> ext4_es_type es = 1" "ext4_es_is_unwritten es \<longleftrightarrow> ext4_es_type es = 2"
    "ext4_es_is_delayed es \<longleftrightarrow> ext4_es_type es = 4" "ext4_es_is_hole es \<longleftrightarrow> ext4_es_type es = 8"
    "ext4_es_is_mapped es \<longleftrightarrow> \<not> ext4_es_is_delayed es \<and> \<not> ext4_es_is_hole es"
  using assms by (auto simp: es_ok_def es_kinds ext4_es_is_mapped_def)

lemma es_end:
  assumes "0 < es_len es" and "es_lblk es + es_len es < 2 ^ 32"
  shows "ext4_es_end es = Some (es_lblk es + es_len es - 1)"
proof -
  have "es_lblk es + es_len es + 2 ^ 32 - 1 = (es_lblk es + es_len es - 1) + 2 ^ 32" using assms(1) by linarith
  moreover have "((es_lblk es + es_len es - 1) + 2 ^ 32) mod 2 ^ 32 = es_lblk es + es_len es - 1"
    using assms(2) by (simp only: mod_add_self2) (simp add: less_imp_diff_less)
  ultimately show ?thesis unfolding ext4_es_end_def using assms by (simp only: mod_less) simp
qed

lemma es_ok_end: "es_ok es \<Longrightarrow> ext4_es_end es = Some (es_lblk es + es_len es - 1)"
  by (rule es_end) (auto simp: es_ok_def)

section \<open>The map\<close>

definition es_val :: "extent_status \<Rightarrow> nat \<Rightarrow> 64 word \<times> 64 word option" where
  "es_val es b = (ext4_es_type es, if ext4_es_is_mapped es then Some (ext4_es_pblock es + of_nat (b - es_lblk es)) else None)"

definition es_says :: "extent_status list \<Rightarrow> nat \<Rightarrow> 64 word \<times> 64 word option \<Rightarrow> bool" where
  "es_says xs b v \<longleftrightarrow> (\<exists>x\<in>set xs. in_range b x \<and> v = es_val x b)"

definition es_map :: "extent_status list \<Rightarrow> nat \<Rightarrow> (64 word \<times> 64 word option) option" where
  "es_map xs b = map_option (\<lambda>x. es_val x b) (find (in_range b) xs)"

definition wf_nodes :: "extent_status list \<Rightarrow> bool" where
  "wf_nodes xs \<longleftrightarrow> (\<forall>x\<in>set xs. es_ok x) \<and> sorted_wrt (\<lambda>x y. es_lblk x + es_len x \<le> es_lblk y) xs"

lemma wf_nodes_simps [simp]:
  "wf_nodes []"
  "wf_nodes (x # xs) \<longleftrightarrow> es_ok x \<and> (\<forall>y\<in>set xs. es_lblk x + es_len x \<le> es_lblk y) \<and> wf_nodes xs"
  "wf_nodes (xs @ ys) \<longleftrightarrow> wf_nodes xs \<and> wf_nodes ys \<and> (\<forall>x\<in>set xs. \<forall>y\<in>set ys. es_lblk x + es_len x \<le> es_lblk y)"
  by (auto simp: wf_nodes_def sorted_wrt_append)

lemma es_map_Some: 
  assumes "wf_nodes xs"
  shows "es_map xs b = Some v \<longleftrightarrow> es_says xs b v"
  using assms
proof (induction xs)
  case (Cons x xs)
  show ?case
  proof (cases "in_range b x")
    case True
    then have "\<not> in_range b y" if "y \<in> set xs" for y using Cons.prems that by (auto simp: in_range_def)
    with True show ?thesis by (auto simp: es_map_def es_says_def)
  next
    case False
    with Cons show ?thesis by (auto simp: es_map_def es_says_def)
  qed
qed (simp add: es_map_def es_says_def)

lemma es_map_eqI:
  assumes "wf_nodes xs" and "wf_nodes ys" and "\<And>b v. es_says xs b v \<longleftrightarrow> es_says ys b v"
  shows "es_map xs = es_map ys"
  using assms es_map_Some option.exhaust by (metis (no_types, lifting) ext)

lemma es_says_simps [simp]:
  "\<not> es_says [] b v" "es_says (x # xs) b v \<longleftrightarrow> in_range b x \<and> v = es_val x b \<or> es_says xs b v"
  "es_says (xs @ ys) b v \<longleftrightarrow> es_says xs b v \<or> es_says ys b v"
  by (auto simp: es_says_def)

lemma wf_distinct: "wf_nodes xs \<Longrightarrow> distinct xs"
  by (induction xs) (auto simp: es_ok_def)

lemma wf_nodes_ok: "wf_nodes xs \<Longrightarrow> x \<in> set xs \<Longrightarrow> es_ok x"
  by (simp add: wf_nodes_def)

lemma wf_same_start:
  assumes "wf_nodes (as @ x # bs)" and "es_lblk y = es_lblk x"
  shows "y \<notin> set as" and "y \<notin> set bs"
proof -
  show "y \<notin> set as"
  proof
    assume y: "y \<in> set as"
    with assms(1) have "es_lblk y + es_len y \<le> es_lblk x" by simp
    with assms(2) wf_nodes_ok [OF assms(1), of y] y show False by (simp add: es_ok_def)
  qed
  show "y \<notin> set bs"
  proof
    assume y: "y \<in> set bs"
    with assms(1) have "es_lblk x + es_len x \<le> es_lblk y" by simp
    with assms(2) wf_nodes_ok [OF assms(1), of x] show False by (simp add: es_ok_def)
  qed
qed

text \<open>Two entries that can be merged say together what the merged one says.\<close>

lemma merged_val:
  assumes "es_ok x" and "es_ok y" and "ext4_es_can_be_merged x y"
    and "es_lblk z = es_lblk x" "es_len z = es_len x + es_len y" "ext4_es_type z = ext4_es_type x"
    and "ext4_es_is_mapped x \<Longrightarrow> ext4_es_pblock z = ext4_es_pblock x"
  shows "es_ok z" and "in_range b z \<and> v = es_val z b \<longleftrightarrow> in_range b x \<and> v = es_val x b \<or> in_range b y \<and> v = es_val y b"
proof -
  have t: "ext4_es_type y = ext4_es_type x" and l: "es_lblk y = es_lblk x + es_len x"
    and p: "ext4_es_is_mapped x \<Longrightarrow> ext4_es_pblock y = ext4_es_pblock x + of_nat (es_len x)"
    using assms(1,3) by (auto simp: ext4_es_can_be_merged_def es_ok_kind split: if_splits)
  have m: "ext4_es_is_mapped z = ext4_es_is_mapped x" "ext4_es_is_mapped y = ext4_es_is_mapped x"
    using same_type(5) [of z x] same_type(5) [of y x] assms(6) t by auto
  have u: "unat (ext4_es_pblock y) = unat (ext4_es_pblock x) + es_len x" if "ext4_es_is_mapped x"
  proof -
    have "unat (ext4_es_pblock x) + es_len x < 2 ^ 64" using assms(1) that by (simp add: es_ok_def)
    moreover have "unat (of_nat (es_len x) :: 64 word) = es_len x" using assms(1) by (simp add: es_ok_def unat_of_nat take_bit_eq_mod)
    ultimately show ?thesis unfolding p [OF that] by (subst unat_add_lem [THEN iffD1]) simp_all
  qed
  show "es_ok z" using assms(1,2,4,5,6) assms(7) l m u t by (auto simp: es_ok_def)
  have "es_val z b = es_val x b" if "in_range b x"
    using that assms(4,6) assms(7) m by (auto simp: es_val_def)
  moreover have "es_val z b = es_val y b" if "in_range b y"
  proof -
    have "(of_nat (b - es_lblk x) :: 64 word) = of_nat (es_len x) + of_nat (b - es_lblk y)"
    proof -
      have "b - es_lblk x = es_len x + (b - es_lblk y)" using that l by (simp add: in_range_def)
      then show ?thesis by (metis of_nat_add)
    qed
    then show ?thesis using that assms(4,6) assms(7) m t p by (auto simp: es_val_def)
  qed
  moreover have "in_range b z \<longleftrightarrow> in_range b x \<or> in_range b y" using assms(4,5) l by (auto simp: in_range_def)
  ultimately show "in_range b z \<and> v = es_val z b \<longleftrightarrow> in_range b x \<and> v = es_val x b \<or> in_range b y \<and> v = es_val y b" by auto
qed

section \<open>Trees\<close>

lemma inorder_put_node: "inorder (put_node x y t) = map (\<lambda>z. if z = x then y else z) (inorder t)"
  unfolding put_node_def by (induction t) simp_all

lemma put_mid:
  assumes "inorder t = as @ x # bs" and "distinct (inorder t)"
  shows "inorder (put_node x y t) = as @ y # bs"
proof -
  have "x \<notin> set as" "x \<notin> set bs" using assms by auto
  then have "map (\<lambda>z. if z = x then y else z) as = as" "map (\<lambda>z. if z = x then y else z) bs = bs" by (auto intro: map_idI)
  with assms(1) show ?thesis by (simp add: inorder_put_node)
qed

lemma next_in_mid: "x \<notin> set as \<Longrightarrow> next_in x (as @ x # bs) = (case bs of [] \<Rightarrow> None | z # _ \<Rightarrow> Some z)"
  by (induction as) auto

lemma rb_next_mid:
  assumes "inorder t = as @ x # bs" and "distinct (inorder t)"
  shows "rb_next t x = (case bs of [] \<Rightarrow> None | z # _ \<Rightarrow> Some z)"
  using assms by (simp add: rb_next_def next_in_mid)

lemma rb_prev_mid:
  assumes "inorder t = as @ x # bs" and "distinct (inorder t)"
  shows "rb_prev t x = (case rev as of [] \<Rightarrow> None | z # _ \<Rightarrow> Some z)"
  using assms by (simp add: rb_prev_def next_in_mid)

lemma rb_link_inorder:
  assumes "sorted_wrt (\<lambda>x y. k x < k y) (inorder t)" and "\<forall>y\<in>set_tree t. k y \<noteq> k x"
  obtains as bs where "inorder t = as @ bs" "inorder (rb_link_node k x t) = as @ x # bs" "\<forall>a\<in>set as. k a < k x" "\<forall>b\<in>set bs. k x < k b"
  using assms
proof (induction t arbitrary: thesis)
  case Leaf
  show ?case by (rule Leaf.prems(1) [of "[]" "[]"]) simp_all
next
  case (Node l y r)
  have s: "sorted_wrt (\<lambda>x y. k x < k y) (inorder l)" "sorted_wrt (\<lambda>x y. k x < k y) (inorder r)"
    "\<forall>a\<in>set_tree l. k a < k y" "\<forall>b\<in>set_tree r. k y < k b" "k y \<noteq> k x"
    using Node.prems(2,3) by (auto simp: sorted_wrt_append)
  show ?case
  proof (cases "k x < k y")
    case True
    obtain as bs where *: "inorder l = as @ bs" "inorder (rb_link_node k x l) = as @ x # bs" "\<forall>a\<in>set as. k a < k x" "\<forall>b\<in>set bs. k x < k b"
      using Node.IH(1) [OF _ s(1)] Node.prems(3) by auto
    show ?thesis
    proof (rule Node.prems(1) [of as "bs @ y # inorder r"])
      show "\<forall>b\<in>set (bs @ y # inorder r). k x < k b" using *(4) True s(4) by fastforce
    qed (use * True in auto)
  next
    case False
    obtain as bs where *: "inorder r = as @ bs" "inorder (rb_link_node k x r) = as @ x # bs" "\<forall>a\<in>set as. k a < k x" "\<forall>b\<in>set bs. k x < k b"
      using Node.IH(2) [OF _ s(2)] Node.prems(3) by auto
    show ?thesis
    proof (rule Node.prems(1) [of "inorder l @ y # as" bs])
      show "\<forall>a\<in>set (inorder l @ y # as). k a < k x" using *(3) False s(3,5) by fastforce
    qed (use * False in auto)
  qed
qed

section \<open>Searching\<close>

lemma es_walk_found:
  assumes "wf_nodes (inorder t)" and "x \<in> set_tree t" and "in_range lblk x"
  shows "es_walk t lblk l = Some (True, Some x)"
  using assms
proof (induction t arbitrary: l)
  case (Node l y r k)
  have w: "wf_nodes (inorder l)" "wf_nodes (inorder r)" "es_ok y" "\<forall>a\<in>set_tree l. es_lblk a + es_len a \<le> es_lblk y"
    "\<forall>b\<in>set_tree r. es_lblk y + es_len y \<le> es_lblk b"
    using Node.prems by auto
  consider "x \<in> set_tree l" | "x = y" | "x \<in> set_tree r" using Node.prems(2) by auto
  then show ?case
  proof cases
    case 1
    then have "lblk < es_lblk y" using w(4) Node.prems(3) by (fastforce simp: in_range_def)
    with Node.IH(1) [OF w(1) 1 Node.prems(3)] show ?thesis by simp
  next
    case 2
    then show ?thesis using w(3) Node.prems(3) by (auto simp: in_range_def es_ok_end)
  next
    case 3
    then have "es_lblk y + es_len y \<le> lblk" using w(5) Node.prems(3) by (fastforce simp: in_range_def)
    with Node.IH(2) [OF w(2) 3 Node.prems(3)] w(3) show ?thesis by (auto simp: es_ok_end es_ok_def)
  qed
qed simp

lemma es_walk_missed:
  assumes "wf_nodes (inorder t)" and "\<forall>x\<in>set_tree t. \<not> in_range lblk x"
  shows "if t = Leaf then es_walk t lblk l = Some (False, l)
    else \<exists>as x bs. es_walk t lblk l = Some (False, Some x) \<and> inorder t = as @ x # bs \<and>
      (\<forall>y\<in>set as. es_lblk y + es_len y \<le> lblk) \<and> (\<forall>y\<in>set bs. lblk < es_lblk y)"
  using assms
proof (induction t arbitrary: l)
  case (Node l y r k)
  have w: "wf_nodes (inorder l)" "wf_nodes (inorder r)" "es_ok y" "\<forall>a\<in>set_tree l. es_lblk a + es_len a \<le> es_lblk y"
    "\<forall>b\<in>set_tree r. es_lblk y + es_len y \<le> es_lblk b" "\<not> in_range lblk y"
    using Node.prems by auto
  show ?case
  proof (cases "lblk < es_lblk y")
    case True
    have r: "\<forall>b\<in>set (inorder r). lblk < es_lblk b" using w(5) True by fastforce
    show ?thesis
    proof (cases "l = Leaf")
      case True
      with \<open>lblk < es_lblk y\<close> r show ?thesis by (intro if_not_P [THEN iffD2] exI [of _ "[]"] exI [of _ y] exI [of _ "inorder r"]) auto
    next
      case False
      with Node.IH(1) [OF w(1), of "Some y"] Node.prems(2) obtain as x bs where
        "es_walk l lblk (Some y) = Some (False, Some x)" "inorder l = as @ x # bs"
        "\<forall>y\<in>set as. es_lblk y + es_len y \<le> lblk" "\<forall>y\<in>set bs. lblk < es_lblk y" by auto
      with r True show ?thesis by (intro if_not_P [THEN iffD2] exI [of _ as] exI [of _ x] exI [of _ "bs @ y # inorder r"]) auto
    qed
  next
    case False
    then have y: "es_lblk y + es_len y \<le> lblk" using w(6) by (simp add: in_range_def)
    then have l: "\<forall>a\<in>set (inorder l). es_lblk a + es_len a \<le> lblk" using w(4) by fastforce
    have e: "es_walk (Node l y r) lblk k = es_walk r lblk (Some y)" using False y w(3) by (auto simp: es_ok_end es_ok_def)
    show ?thesis
    proof (cases "r = Leaf")
      case True
      with e l show ?thesis by (intro if_not_P [THEN iffD2] exI [of _ "inorder l"] exI [of _ y] exI [of _ "[]"]) auto
    next
      case False
      with Node.IH(2) [OF w(2), of "Some y"] Node.prems(2) obtain as x bs where
        "es_walk r lblk (Some y) = Some (False, Some x)" "inorder r = as @ x # bs"
        "\<forall>y\<in>set as. es_lblk y + es_len y \<le> lblk" "\<forall>y\<in>set bs. lblk < es_lblk y" by auto
      with l y e show ?thesis by (intro if_not_P [THEN iffD2] exI [of _ "inorder l @ y # as"] exI [of _ x] exI [of _ bs]) auto
    qed
  qed
qed simp

lemma es_tree_search_find:
  assumes "wf_nodes (inorder t)"
  shows "es_tree_search t lblk = Some (find (\<lambda>x. lblk < es_lblk x + es_len x) (inorder t))"
proof (cases "\<exists>x\<in>set_tree t. in_range lblk x")
  case True
  then obtain x where x: "x \<in> set_tree t" "in_range lblk x" by blast
  then obtain as bs where t: "inorder t = as @ x # bs" by (metis set_inorder split_list)
  have "\<not> lblk < es_lblk y + es_len y" if "y \<in> set as" for y using assms x(2) that t by (fastforce simp: in_range_def)
  then have "find (\<lambda>x. lblk < es_lblk x + es_len x) as = None" by (auto simp: find_None_iff)
  with x(2) t es_walk_found [OF assms x] show ?thesis by (simp add: es_tree_search_def find_append in_range_def)
next
  case False
  then have n: "\<forall>x\<in>set_tree t. \<not> in_range lblk x" by blast
  show ?thesis
  proof (cases "t = Leaf")
    case True
    then show ?thesis by (simp add: es_tree_search_def)
  next
    case F: False
    with es_walk_missed [OF assms n, of None] obtain as x bs where w: "es_walk t lblk None = Some (False, Some x)"
      and t: "inorder t = as @ x # bs" and as: "\<forall>y\<in>set as. es_lblk y + es_len y \<le> lblk" and bs: "\<forall>y\<in>set bs. lblk < es_lblk y" by auto
    have x: "es_ok x" "\<not> in_range lblk x" using assms t n set_inorder [of t] by auto
    have "find (\<lambda>x. lblk < es_lblk x + es_len x) as = None" using as by (auto simp: find_None_iff)
    moreover have "find (\<lambda>x. lblk < es_lblk x + es_len x) bs = (case bs of [] \<Rightarrow> None | z # _ \<Rightarrow> Some z)" using bs by (cases bs) auto
    moreover have "rb_next t x = (case bs of [] \<Rightarrow> None | z # _ \<Rightarrow> Some z)" by (rule rb_next_mid [OF t wf_distinct [OF assms]])
    ultimately show ?thesis using x w t by (auto simp: es_tree_search_def find_append in_range_def es_ok_end es_ok_def)
  qed
qed

section \<open>The invariant\<close>

text \<open>The entries are disjoint and in order, the counters are right, the inode is on the list
  of the shrinker when it has something to reclaim, and \<open>cache_es\<close> does not dangle.\<close>

definition counts_ok :: "es_inode \<Rightarrow> bool" where
  "counts_ok ei \<longleftrightarrow> i_es_all_nr ei = length (es_nodes ei) \<and>
     i_es_shk_nr ei = length (filter (\<lambda>es. \<not> ext4_es_must_keep es) (es_nodes ei)) \<and> i_es_list ei = (0 < i_es_shk_nr ei)"

definition cache_ok :: "es_inode \<Rightarrow> bool" where
  "cache_ok ei \<longleftrightarrow> (\<forall>k. cache_es ei = Some k \<longrightarrow> (\<exists>x\<in>set (es_nodes ei). es_lblk x = k))"

definition es_inv :: "es_inode \<Rightarrow> bool" where
  "es_inv ei \<longleftrightarrow> wf_nodes (es_nodes ei) \<and> counts_ok ei \<and> cache_ok ei"

text \<open>What the operations on entries leave alone.\<close>

definition other :: "es_inode \<Rightarrow> nat tree \<times> nat \<times> nat" where
  "other ei = (i_pending_tree ei, i_reserved_data_blocks ei, i_es_shrink_lblk ei)"

lemma wf_length:
  assumes "wf_nodes xs"
  shows "length xs < 2 ^ 32"
proof -
  have "xs = [] \<or> length xs \<le> es_lblk (last xs) + es_len (last xs)" using assms
  proof (induction xs rule: rev_induct)
    case (snoc x xs)
    then have x: "es_ok x" "xs = [] \<or> length xs \<le> es_lblk (last xs) + es_len (last xs)"
      "\<forall>y\<in>set xs. es_lblk y + es_len y \<le> es_lblk x" by auto
    have "xs = [] \<or> length xs \<le> es_lblk x" using x(2,3) last_in_set [of xs] le_trans by blast
    with x(1) show ?case by (auto simp: es_ok_def)
  qed simp
  moreover have "es_lblk (last xs) + es_len (last xs) < 2 ^ 32" if "xs \<noteq> []"
    using assms last_in_set [OF that] by (auto simp: wf_nodes_def es_ok_def)
  ultimately show ?thesis by (cases "xs = []") auto
qed

lemma es_nodes_simps [simp]:
  "es_nodes (ei\<lparr>i_es_tree := t\<rparr>) = inorder t" "es_nodes (ei\<lparr>cache_es := c\<rparr>) = es_nodes ei" "es_nodes (ei\<lparr>i_es_all_nr := n\<rparr>) = es_nodes ei"
  "es_nodes (ei\<lparr>i_es_shk_nr := n\<rparr>) = es_nodes ei" "es_nodes (ei\<lparr>i_es_list := l\<rparr>) = es_nodes ei"
  "es_nodes (ei\<lparr>i_es_shrink_lblk := n\<rparr>) = es_nodes ei" "es_nodes (ei\<lparr>i_pending_tree := p\<rparr>) = es_nodes ei"
  "es_nodes (ei\<lparr>i_reserved_data_blocks := n\<rparr>) = es_nodes ei" "es_nodes (ei\<lparr>atomic_mem := a\<rparr>) = es_nodes ei"
  by (simp_all add: es_nodes_def)

lemma es_nodes_change:
  assumes "es_nodes ei = as @ es # bs" and "wf_nodes (es_nodes ei)"
  shows "es_nodes (change_es es es' ei) = as @ es' # bs"
  using put_mid [of "i_es_tree ei" as es bs es'] wf_distinct [OF assms(2)] assms(1) by (simp add: change_es_def es_nodes_def)

lemma change_es_frame [simp]:
  "cache_es (change_es es es' ei) = cache_es ei" "other (change_es es es' ei) = other ei"
  "atomic_mem (change_es es es' ei) = atomic_mem ei"
  by (simp_all add: change_es_def other_def)

lemma counts_change:
  assumes "counts_ok ei" and "es_nodes ei = as @ es # bs" and "es_nodes (change_es es es' ei) = as @ es' # bs"
    and "ext4_es_type es' = ext4_es_type es"
  shows "counts_ok (change_es es es' ei)"
proof -
  have "i_es_all_nr (change_es es es' ei) = i_es_all_nr ei" "i_es_shk_nr (change_es es es' ei) = i_es_shk_nr ei"
    "i_es_list (change_es es es' ei) = i_es_list ei" by (simp_all add: change_es_def)
  with assms(1) same_type(6) [OF assms(4)] show ?thesis unfolding counts_ok_def assms(2,3) by simp
qed

lemma erase_es:
  assumes "rb_ok (es_rb sbi)" and "es_nodes ei = as @ es # bs" and "distinct (es_nodes ei)" and "length (es_nodes ei) < 2 ^ 32" and "counts_ok ei"
  obtains ei' where "erase_es sbi es ei = Some ei'" "es_nodes ei' = as @ bs" "counts_ok ei'" "cache_es ei' = cache_es ei"
    "other ei' = other ei" "atomic_mem ei' = atomic_mem ei"
proof -
  have "inorder (rb_erase (es_rb sbi) es (i_es_tree ei)) = remove1 es (as @ es # bs)"
    using assms(1,2) unfolding rb_ok_def es_nodes_def by (metis in_set_conv_decomp set_inorder)
  moreover have "es \<notin> set as" using assms(2,3) by auto
  ultimately have e: "inorder (rb_erase (es_rb sbi) es (i_es_tree ei)) = as @ bs" by (simp add: remove1_append)
  have "(i_es_all_nr ei + 2 ^ 32 - 1) mod 2 ^ 32 = length as + length bs"
  proof -
    have "i_es_all_nr ei + 2 ^ 32 - 1 = (length as + length bs) + 2 ^ 32" "length as + length bs < 2 ^ 32"
      using assms(2,4,5) by (auto simp: counts_ok_def)
    then show ?thesis by (simp only: mod_add_self2) simp
  qed
  with assms(2,5) show ?thesis
    by (intro that [of "the (erase_es sbi es ei)"])
      (simp_all add: erase_es_def ext4_es_free_extent_def Let_def counts_ok_def e other_def del: length_inorder)
qed

section \<open>Inserting\<close>

lemma merge_left:
  assumes rb: "rb_ok (es_rb sbi)" and n: "es_nodes ei = as @ es # bs" and wf: "wf_nodes (es_nodes ei)" and c: "counts_ok ei"
  obtains es' ei' as' where "ext4_es_try_to_merge_left sbi es ei = Some (es', ei')" "es_nodes ei' = as' @ es' # bs" "wf_nodes (es_nodes ei')"
    "counts_ok ei'" "other ei' = other ei" "atomic_mem ei' = atomic_mem ei" "\<And>b v. es_says (es_nodes ei') b v \<longleftrightarrow> es_says (es_nodes ei) b v"
proof (cases "as \<noteq> [] \<and> ext4_es_can_be_merged (last as) es")
  case True
  define es1 cs es2 where "es1 = last as" and "cs = butlast as" and
    "es2 = (if ext4_es_is_referenced es then ext4_es_set_referenced (es1\<lparr>es_len := es_len es1 + es_len es\<rparr>) else es1\<lparr>es_len := es_len es1 + es_len es\<rparr>)"
  have as: "as = cs @ [es1]" using True by (simp add: es1_def cs_def)
  have p: "rb_prev (i_es_tree ei) es = Some es1"
    using rb_prev_mid [of "i_es_tree ei" as es bs] n wf_distinct [OF wf] as by (simp add: es_nodes_def)
  have f: "es_lblk es2 = es_lblk es1" "es_len es2 = es_len es1 + es_len es" "ext4_es_type es2 = ext4_es_type es1"
    "ext4_es_pblock es2 = ext4_es_pblock es1" by (simp_all add: es2_def)
  have m: "ext4_es_can_be_merged es1 es" using True by (simp add: es1_def)
  have ok: "es_ok es1" "es_ok es" "es_lblk es1 + es_len es1 = es_lblk es"
    using wf n as m by (auto simp: ext4_es_can_be_merged_def split: if_splits)
  note mv = merged_val [OF ok(1,2) m f(1-3) f(4)]
  have n1: "es_nodes ei = cs @ es1 # es # bs" using n as by simp
  have c1: "es_nodes (change_es es1 es2 ei) = cs @ es2 # es # bs" by (rule es_nodes_change [OF n1 wf])
  have d: "distinct (cs @ es2 # es # bs)"
  proof -
    have "es2 \<noteq> es" using f(1) ok(1,3) by (auto simp: es_ok_def)
    moreover have "es2 \<notin> set cs" "es2 \<notin> set (es # bs)" by (rule wf_same_start [OF wf [unfolded n1] f(1)])+
    ultimately show ?thesis using wf_distinct [OF wf] n1 by auto
  qed
  obtain ei' where e: "erase_es sbi es (change_es es1 es2 ei) = Some ei'" "es_nodes ei' = (cs @ [es2]) @ bs" "counts_ok ei'"
    "other ei' = other ei" "atomic_mem ei' = atomic_mem ei"
    by (rule erase_es [OF rb, of "change_es es1 es2 ei" "cs @ [es2]" es bs])
      (use c1 d wf_length [OF wf] n1 counts_change [OF c n1 c1 f(3)] in \<open>simp_all\<close>)
  show ?thesis
  proof (rule that [of es2 ei' cs])
    show "ext4_es_try_to_merge_left sbi es ei = Some (es2, ei')"
      using p m e(1) by (simp add: ext4_es_try_to_merge_left_def Let_def es2_def)
    show "wf_nodes (es_nodes ei')" using wf n1 e(2) mv(1) f(1,2) ok(3) by auto
    show "es_says (es_nodes ei') b v \<longleftrightarrow> es_says (es_nodes ei) b v" for b v using e(2) n1 mv(2) [of b v] by auto
  qed (use e in simp_all)
next
  case False
  have "rb_prev (i_es_tree ei) es = (case rev as of [] \<Rightarrow> None | z # _ \<Rightarrow> Some z)"
    using rb_prev_mid [of "i_es_tree ei" as es bs] n wf_distinct [OF wf] by (simp add: es_nodes_def)
  then have "ext4_es_try_to_merge_left sbi es ei = Some (es, ei)"
    using False by (cases as rule: rev_cases) (auto simp: ext4_es_try_to_merge_left_def)
  then show ?thesis by (rule that) (use n wf c in simp_all)
qed

lemma merge_right:
  assumes rb: "rb_ok (es_rb sbi)" and n: "es_nodes ei = as @ es # bs" and wf: "wf_nodes (es_nodes ei)" and c: "counts_ok ei"
  obtains es' ei' bs' where "ext4_es_try_to_merge_right sbi es ei = Some (es', ei')" "es_nodes ei' = as @ es' # bs'" "wf_nodes (es_nodes ei')"
    "counts_ok ei'" "other ei' = other ei" "atomic_mem ei' = atomic_mem ei" "\<And>b v. es_says (es_nodes ei') b v \<longleftrightarrow> es_says (es_nodes ei) b v"
proof (cases "bs \<noteq> [] \<and> ext4_es_can_be_merged es (hd bs)")
  case True
  define es1 cs es2 where "es1 = hd bs" and "cs = tl bs" and
    "es2 = (if ext4_es_is_referenced es1 then ext4_es_set_referenced (es\<lparr>es_len := es_len es + es_len es1\<rparr>) else es\<lparr>es_len := es_len es + es_len es1\<rparr>)"
  have bs: "bs = es1 # cs" using True by (simp add: es1_def cs_def)
  have p: "rb_next (i_es_tree ei) es = Some es1"
    using rb_next_mid [of "i_es_tree ei" as es bs] n wf_distinct [OF wf] bs by (simp add: es_nodes_def)
  have f: "es_lblk es2 = es_lblk es" "es_len es2 = es_len es + es_len es1" "ext4_es_type es2 = ext4_es_type es"
    "ext4_es_pblock es2 = ext4_es_pblock es" by (simp_all add: es2_def)
  have m: "ext4_es_can_be_merged es es1" using True by (simp add: es1_def)
  have ok: "es_ok es" "es_ok es1" "es_lblk es + es_len es = es_lblk es1"
    using wf n bs m by (auto simp: ext4_es_can_be_merged_def split: if_splits)
  note mv = merged_val [OF ok(1,2) m f(1-3) f(4)]
  have n1: "es_nodes ei = as @ es # es1 # cs" using n bs by simp
  have c1: "es_nodes (change_es es es2 ei) = as @ es2 # es1 # cs" by (rule es_nodes_change [OF n1 wf])
  have d: "distinct (as @ es2 # es1 # cs)"
  proof -
    have "es2 \<noteq> es1" using f(1) ok(1,3) by (auto simp: es_ok_def)
    moreover have "es2 \<notin> set as" "es2 \<notin> set (es1 # cs)" by (rule wf_same_start [OF wf [unfolded n1] f(1)])+
    ultimately show ?thesis using wf_distinct [OF wf] n1 by auto
  qed
  obtain ei' where e: "erase_es sbi es1 (change_es es es2 ei) = Some ei'" "es_nodes ei' = (as @ [es2]) @ cs" "counts_ok ei'"
    "other ei' = other ei" "atomic_mem ei' = atomic_mem ei"
    by (rule erase_es [OF rb, of "change_es es es2 ei" "as @ [es2]" es1 cs])
      (use c1 d wf_length [OF wf] n1 counts_change [OF c n1 c1 f(3)] in \<open>simp_all\<close>)
  show ?thesis
  proof (rule that [of es2 ei' cs])
    show "ext4_es_try_to_merge_right sbi es ei = Some (es2, ei')"
      using p m e(1) by (simp add: ext4_es_try_to_merge_right_def Let_def es2_def)
    show "wf_nodes (es_nodes ei')" using wf n1 e(2) mv(1) f(1,2) ok(3) by auto
    show "es_says (es_nodes ei') b v \<longleftrightarrow> es_says (es_nodes ei) b v" for b v using e(2) n1 mv(2) [of b v] by auto
  qed (use e in simp_all)
next
  case False
  have "rb_next (i_es_tree ei) es = (case bs of [] \<Rightarrow> None | z # _ \<Rightarrow> Some z)"
    using rb_next_mid [of "i_es_tree ei" as es bs] n wf_distinct [OF wf] by (simp add: es_nodes_def)
  then have "ext4_es_try_to_merge_right sbi es ei = Some (es, ei)"
    using False by (cases bs) (auto simp: ext4_es_try_to_merge_right_def)
  then show ?thesis by (rule that) (use n wf c in simp_all)
qed

definition apart :: "extent_status \<Rightarrow> extent_status \<Rightarrow> bool" where
  "apart x y \<longleftrightarrow> es_lblk y + es_len y \<le> es_lblk x \<or> es_lblk x + es_len x \<le> es_lblk y"

lemma insert_place:
  assumes "wf_nodes (inorder t)" and "es_ok newes" and "\<forall>x\<in>set_tree t. apart newes x"
  shows "\<exists>p. es_insert_place newes t = Some p \<and>
    (case p of Front es \<Rightarrow> es \<in> set_tree t \<and> ext4_es_can_be_merged newes es
     | Back es \<Rightarrow> es \<in> set_tree t \<and> ext4_es_can_be_merged es newes | Fresh \<Rightarrow> True)"
  using assms
proof (induction t)
  case (Node l y r)
  have y: "es_ok y" "apart newes y" using Node.prems by auto
  have l: "\<exists>p. es_insert_place newes l = Some p \<and> (case p of Front es \<Rightarrow> es \<in> set_tree l \<and> ext4_es_can_be_merged newes es
     | Back es \<Rightarrow> es \<in> set_tree l \<and> ext4_es_can_be_merged es newes | Fresh \<Rightarrow> True)"
    and r: "\<exists>p. es_insert_place newes r = Some p \<and> (case p of Front es \<Rightarrow> es \<in> set_tree r \<and> ext4_es_can_be_merged newes es
     | Back es \<Rightarrow> es \<in> set_tree r \<and> ext4_es_can_be_merged es newes | Fresh \<Rightarrow> True)"
    using Node by auto
  show ?case
  proof (cases "es_lblk newes < es_lblk y")
    case True
    with l show ?thesis by (auto split: es_place.splits)
  next
    case False
    then have "es_lblk y + es_len y \<le> es_lblk newes" using y(2) assms(2) by (auto simp: apart_def es_ok_def)
    with False r y(1) show ?thesis by (auto simp: es_ok_end es_ok_def split: es_place.splits)
  qed
qed simp

lemma wf_put_front:
  assumes "wf_nodes (as @ es # bs)" and "es_ok newes" and "\<forall>x\<in>set as. apart newes x" and "es_lblk newes + es_len newes = es_lblk es"
    and "es_ok z" and "es_lblk z = es_lblk newes" and "es_len z = es_len newes + es_len es"
  shows "wf_nodes (as @ z # bs)"
proof -
  have "es_lblk x + es_len x \<le> es_lblk newes" if "x \<in> set as" for x
  proof -
    have "es_lblk x + es_len x \<le> es_lblk es" "0 < es_len x" using assms(1) that wf_nodes_ok [OF assms(1), of x] by (auto simp: es_ok_def)
    with assms(3,4) that show ?thesis by (auto simp: apart_def)
  qed
  then show ?thesis using assms by auto
qed

lemma wf_put_back:
  assumes "wf_nodes (as @ es # bs)" and "es_ok newes" and "\<forall>x\<in>set bs. apart newes x" and "es_lblk es + es_len es = es_lblk newes"
    and "es_ok z" and "es_lblk z = es_lblk es" and "es_len z = es_len es + es_len newes"
  shows "wf_nodes (as @ z # bs)"
proof -
  have "es_lblk newes + es_len newes \<le> es_lblk x" if "x \<in> set bs" for x
  proof -
    have "es_lblk es + es_len es \<le> es_lblk x" "0 < es_len x" using assms(1) that wf_nodes_ok [OF assms(1), of x] by (auto simp: es_ok_def)
    with assms(3,4) that show ?thesis by (auto simp: apart_def)
  qed
  then show ?thesis using assms by (auto simp: add.assoc [symmetric])
qed

lemma mergedD: "ext4_es_can_be_merged x y \<Longrightarrow> ext4_es_type y = ext4_es_type x \<and> es_lblk x + es_len x = es_lblk y"
  by (auto simp: ext4_es_can_be_merged_def split: if_splits)

text \<open>A new entry that is apart from all others: it is added or, when no memory can be had,
  nothing changes.\<close>

definition added :: "extent_status \<Rightarrow> es_inode \<Rightarrow> es_inode \<Rightarrow> bool" where
  "added newes ei ei' \<longleftrightarrow> es_inv ei' \<and> other ei' = other ei \<and> set (atomic_mem ei') \<subseteq> set (atomic_mem ei) \<and>
     (\<forall>b v. es_says (es_nodes ei') b v \<longleftrightarrow> es_says (es_nodes ei) b v \<or> in_range b newes \<and> v = es_val newes b)"

lemma es_invI: "wf_nodes (es_nodes ei) \<Longrightarrow> counts_ok ei \<Longrightarrow> x \<in> set (es_nodes ei) \<Longrightarrow> es_inv (ei\<lparr>cache_es := Some (es_lblk x)\<rparr>)"
  by (auto simp: es_inv_def counts_ok_def cache_ok_def)

lemma insert_front:
  assumes rb: "rb_ok (es_rb sbi)" and wf: "wf_nodes (es_nodes ei)" and c: "counts_ok ei" and new: "es_ok newes"
    and ap: "\<forall>x\<in>set (es_nodes ei). apart newes x" and p: "es_insert_place newes (i_es_tree ei) = Some (Front es)"
    and es: "es \<in> set (es_nodes ei)" "ext4_es_can_be_merged newes es"
  shows "\<exists>ei'. es_insert_extent sbi newes prealloc ei = Some (0, ei') \<and> added newes ei ei'"
proof -
  obtain as bs where n: "es_nodes ei = as @ es # bs" using es(1) by (metis split_list)
  define es1 es2 where "es1 = es\<lparr>es_lblk := es_lblk newes, es_len := es_len es + es_len newes\<rparr>" and
    "es2 = (if ext4_es_is_written es1 \<or> ext4_es_is_unwritten es1 then ext4_es_store_pblock es1 (es_pblk newes) else es1)"
  have t: "ext4_es_type es = ext4_es_type newes" "es_lblk newes + es_len newes = es_lblk es" using mergedD [OF es(2)] by auto
  have f: "es_lblk es2 = es_lblk newes" "es_len es2 = es_len newes + es_len es" "ext4_es_type es2 = ext4_es_type newes"
    using t(1) by (simp_all add: es2_def es1_def)
  have "ext4_es_is_mapped es1 = ext4_es_is_mapped newes" by (rule same_type) (simp add: es1_def t)
  then have f4: "ext4_es_is_mapped newes \<Longrightarrow> ext4_es_pblock es2 = ext4_es_pblock newes"
    by (auto simp: es2_def ext4_es_is_mapped_def ext4_es_pblock_def [of newes] not_ES_MASK)
  note ok = wf_nodes_ok [OF wf es(1)] and mv = merged_val [OF new wf_nodes_ok [OF wf es(1)] es(2) f f4]
  have n1: "es_nodes (change_es es es2 ei) = as @ es2 # bs" by (rule es_nodes_change [OF n wf])
  have w1: "wf_nodes (as @ es2 # bs)" by (rule wf_put_front [OF wf [unfolded n] new _ t(2) mv(1) f(1,2)]) (use ap n in simp)
  have c1: "counts_ok (change_es es es2 ei)" by (rule counts_change [OF c n n1]) (simp add: f t)
  obtain es' ei' as' where e: "ext4_es_try_to_merge_left sbi es2 (change_es es es2 ei) = Some (es', ei')" "es_nodes ei' = as' @ es' # bs"
    "wf_nodes (es_nodes ei')" "counts_ok ei'" "other ei' = other ei" "atomic_mem ei' = atomic_mem ei"
    and sa: "\<And>b v. es_says (es_nodes ei') b v \<longleftrightarrow> es_says (as @ es2 # bs) b v"
    using merge_left [OF rb n1 w1 [folded n1] c1] n1 by (metis change_es_frame(2,3))
  have "es_insert_extent sbi newes prealloc ei = Some (0, ei'\<lparr>cache_es := Some (es_lblk es')\<rparr>)"
    unfolding es_insert_extent_def p option.case es_place.case Let_def es1_def [symmetric] es2_def [symmetric] e(1) by simp
  moreover have "added newes ei (ei'\<lparr>cache_es := Some (es_lblk es')\<rparr>)"
    using es_invI [OF e(3,4), of es'] e(2,5,6) sa mv(2) n by (auto simp: added_def other_def)
  ultimately show ?thesis by blast
qed

lemma insert_back:
  assumes rb: "rb_ok (es_rb sbi)" and wf: "wf_nodes (es_nodes ei)" and c: "counts_ok ei" and new: "es_ok newes"
    and ap: "\<forall>x\<in>set (es_nodes ei). apart newes x" and p: "es_insert_place newes (i_es_tree ei) = Some (Back es)"
    and es: "es \<in> set (es_nodes ei)" "ext4_es_can_be_merged es newes"
  shows "\<exists>ei'. es_insert_extent sbi newes prealloc ei = Some (0, ei') \<and> added newes ei ei'"
proof -
  obtain as bs where n: "es_nodes ei = as @ es # bs" using es(1) by (metis split_list)
  define es1 where "es1 = es\<lparr>es_len := es_len es + es_len newes\<rparr>"
  have t: "ext4_es_type newes = ext4_es_type es" "es_lblk es + es_len es = es_lblk newes" using mergedD [OF es(2)] by auto
  have f: "es_lblk es1 = es_lblk es" "es_len es1 = es_len es + es_len newes" "ext4_es_type es1 = ext4_es_type es"
    "ext4_es_pblock es1 = ext4_es_pblock es" by (simp_all add: es1_def)
  note mv = merged_val [OF wf_nodes_ok [OF wf es(1)] new es(2) f(1-3) f(4)]
  have n1: "es_nodes (change_es es es1 ei) = as @ es1 # bs" by (rule es_nodes_change [OF n wf])
  have w1: "wf_nodes (as @ es1 # bs)" by (rule wf_put_back [OF wf [unfolded n] new _ t(2) mv(1) f(1,2)]) (use ap n in simp)
  have c1: "counts_ok (change_es es es1 ei)" by (rule counts_change [OF c n n1]) (simp add: f t)
  obtain es' ei' bs' where e: "ext4_es_try_to_merge_right sbi es1 (change_es es es1 ei) = Some (es', ei')" "es_nodes ei' = as @ es' # bs'"
    "wf_nodes (es_nodes ei')" "counts_ok ei'" "other ei' = other ei" "atomic_mem ei' = atomic_mem ei"
    and sa: "\<And>b v. es_says (es_nodes ei') b v \<longleftrightarrow> es_says (as @ es1 # bs) b v"
    using merge_right [OF rb n1 w1 [folded n1] c1] n1 by (metis change_es_frame(2,3))
  have "es_insert_extent sbi newes prealloc ei = Some (0, ei'\<lparr>cache_es := Some (es_lblk es')\<rparr>)"
    unfolding es_insert_extent_def p option.case es_place.case Let_def es1_def [symmetric] e(1) by simp
  moreover have "added newes ei (ei'\<lparr>cache_es := Some (es_lblk es')\<rparr>)"
    using es_invI [OF e(3,4), of es'] e(2,5,6) sa mv(2) n by (auto simp: added_def other_def)
  ultimately show ?thesis by blast
qed

lemma insert_fresh:
  assumes rb: "rb_ok (es_rb sbi)" and wf: "wf_nodes (es_nodes ei)" and c: "counts_ok ei" and new: "es_ok newes"
    and ap: "\<forall>x\<in>set (es_nodes ei). apart newes x" and p: "es_insert_place newes (i_es_tree ei) = Some Fresh"
    and mem: "(if prealloc then (True, ei) else atomic_alloc ei) = (True, ei1)"
  shows "\<exists>ei'. es_insert_extent sbi newes prealloc ei = Some (0, ei') \<and> added newes ei ei'"
proof -
  have m: "\<exists>a. ei1 = ei\<lparr>atomic_mem := a\<rparr> \<and> set a \<subseteq> set (atomic_mem ei)"
    using mem by (cases "prealloc"; cases "atomic_mem ei")
      (force simp: atomic_alloc_def intro: exI [of _ "atomic_mem ei"] exI [of _ "tl (atomic_mem ei)"])+
  then obtain a where a: "ei1 = ei\<lparr>atomic_mem := a\<rparr>" "set a \<subseteq> set (atomic_mem ei)" by blast
  let ?t = "i_es_tree ei"
  have "sorted_wrt (\<lambda>x y. es_lblk x < es_lblk y) (es_nodes ei)"
  proof (rule sorted_wrt_mono_rel [where P = "\<lambda>x y. es_lblk x + es_len x \<le> es_lblk y"])
    show "es_lblk x < es_lblk y" if "x \<in> set (es_nodes ei)" "es_lblk x + es_len x \<le> es_lblk y" for x y
      using that wf_nodes_ok [OF wf that(1)] by (simp add: es_ok_def)
  qed (use wf in \<open>simp add: wf_nodes_def\<close>)
  moreover have ne: "es_lblk x \<noteq> es_lblk newes" if "x \<in> set (es_nodes ei)" for x
    using ap wf_nodes_ok [OF wf that] new that by (auto simp: apart_def es_ok_def)
  ultimately obtain as bs where k: "es_nodes ei = as @ bs" "inorder (rb_link_node es_lblk newes ?t) = as @ newes # bs"
    "\<forall>x\<in>set as. es_lblk x < es_lblk newes" "\<forall>x\<in>set bs. es_lblk newes < es_lblk x"
    using rb_link_inorder [of es_lblk ?t newes] unfolding es_nodes_def set_inorder by metis
  have w: "wf_nodes (as @ newes # bs)"
  proof -
    have "es_lblk x + es_len x \<le> es_lblk newes" if "x \<in> set as" for x
      using ap k(1) bspec [OF k(3) that] that unfolding apart_def by (metis UnCI add_leD1 leD set_append)
    moreover have "es_lblk newes + es_len newes \<le> es_lblk x" if "x \<in> set bs" for x
      using ap k(1) bspec [OF k(4) that] that unfolding apart_def by (metis UnCI add_leD1 leD set_append)
    ultimately show ?thesis using wf k(1) new by simp
  qed
  define ei' where "ei' = (ext4_es_init_extent newes ei1)\<lparr>i_es_tree := rb_insert_color (es_rb sbi) (rb_link_node es_lblk newes (i_es_tree (ext4_es_init_extent newes ei1)))\<rparr>"
  have t: "i_es_tree (ext4_es_init_extent newes ei1) = ?t" by (simp add: ext4_es_init_extent_def Let_def a)
  have n: "es_nodes ei' = as @ newes # bs" using rb k(2) by (simp add: ei'_def t rb_ok_def)
  have cs: "counts_ok ei'"
  proof -
    have "length (filter (\<lambda>es. \<not> ext4_es_must_keep es) (as @ bs)) \<le> length (as @ bs)" by (rule length_filter_le)
    moreover have "length as + length bs + 1 < 2 ^ 32" using wf_length [OF w] by simp
    ultimately have l: "length as + length bs + 1 < 2 ^ 32" "i_es_shk_nr ei + 1 < 2 ^ 32" using c by (auto simp: counts_ok_def k)
    then show ?thesis using c unfolding counts_ok_def n
      by (auto simp: ei'_def ext4_es_init_extent_def Let_def k a)
  qed
  have "es_insert_extent sbi newes prealloc ei = Some (0, ei'\<lparr>cache_es := Some (es_lblk newes)\<rparr>)"
    unfolding es_insert_extent_def p option.case es_place.case mem prod.case bool.case Let_def by (simp add: ei'_def)
  moreover have "added newes ei (ei'\<lparr>cache_es := Some (es_lblk newes)\<rparr>)"
  proof -
    have "i_pending_tree ei' = i_pending_tree ei" "i_reserved_data_blocks ei' = i_reserved_data_blocks ei"
      "i_es_shrink_lblk ei' = i_es_shrink_lblk ei" "atomic_mem ei' = a"
      by (simp_all add: ei'_def ext4_es_init_extent_def Let_def a(1))
    with es_invI [OF w [folded n] cs, of newes] n a(2) show ?thesis by (auto simp: added_def other_def k(1))
  qed
  ultimately show ?thesis by blast
qed

lemma es_insert:
  assumes rb: "rb_ok (es_rb sbi)" and wf: "wf_nodes (es_nodes ei)" and c: "counts_ok ei" and new: "es_ok newes"
    and ap: "\<forall>x\<in>set (es_nodes ei). apart newes x"
  obtains (ins) ei' where "es_insert_extent sbi newes prealloc ei = Some (0, ei')" "added newes ei ei'"
  | (nomem) ms where "es_insert_extent sbi newes prealloc ei = Some (- ENOMEM, ei\<lparr>atomic_mem := ms\<rparr>)" "\<not> prealloc" "atomic_mem ei = False # ms"
proof -
  obtain p where p: "es_insert_place newes (i_es_tree ei) = Some p"
    "case p of Front es \<Rightarrow> es \<in> set (es_nodes ei) \<and> ext4_es_can_be_merged newes es
     | Back es \<Rightarrow> es \<in> set (es_nodes ei) \<and> ext4_es_can_be_merged es newes | Fresh \<Rightarrow> True"
    using insert_place [of "i_es_tree ei" newes] wf new ap unfolding es_nodes_def set_inorder by blast
  show ?thesis
  proof (cases p)
    case (Front es)
    with insert_front [OF rb wf c new ap, of es prealloc] p show ?thesis using that(1) by auto
  next
    case (Back es)
    with insert_back [OF rb wf c new ap, of es prealloc] p show ?thesis using that(1) by auto
  next
    case Fresh
    obtain m ei1 where m: "(if prealloc then (True, ei) else atomic_alloc ei) = (m, ei1)" by fastforce
    show ?thesis
    proof (cases m)
      case True
      with insert_fresh [OF rb wf c new ap, of prealloc ei1] p m Fresh show ?thesis using that(1) by auto
    next
      case False
      then obtain ms where "\<not> prealloc" "atomic_mem ei = False # ms" "ei1 = ei\<lparr>atomic_mem := ms\<rparr>"
        using m by (auto simp: atomic_alloc_def split: if_splits list.splits)
      moreover have "es_insert_extent sbi newes prealloc ei = Some (- ENOMEM, ei1)"
        using m False p(1) Fresh by (simp add: es_insert_extent_def Let_def)
      ultimately show ?thesis using that(2) by blast
    qed
  qed
qed

section \<open>Parts of entries\<close>

lemma unat_add_small:
  fixes x :: "64 word"
  assumes "unat x + n < 2 ^ 64"
  shows "unat (x + of_nat n) = unat x + n"
proof -
  have "unat (of_nat n :: 64 word) = n" using assms by (simp add: unat_of_nat take_bit_eq_mod)
  then show ?thesis using assms by (subst unat_add_lem [THEN iffD1]) simp_all
qed

lemma part_of_es:
  assumes "es_ok es" and "0 < es_len z" and "es_lblk es \<le> es_lblk z" and "es_lblk z + es_len z \<le> es_lblk es + es_len es"
    and "ext4_es_type z = ext4_es_type es" and "ext4_es_is_mapped es \<Longrightarrow> ext4_es_pblock z = ext4_es_pblock es + of_nat (es_lblk z - es_lblk es)"
  shows "es_ok z" and "in_range b z \<Longrightarrow> in_range b es \<and> es_val z b = es_val es b"
proof -
  have m: "ext4_es_is_mapped z = ext4_es_is_mapped es" by (rule same_type) (rule assms(5))
  have "unat (ext4_es_pblock z) + es_len z \<le> 2 ^ 59" if "ext4_es_is_mapped es"
  proof -
    have le: "unat (ext4_es_pblock es) + es_len es \<le> 2 ^ 59" using assms(1) that by (simp add: es_ok_def)
    moreover have "(2::nat) ^ 59 < 2 ^ 64" by simp
    ultimately have "unat (ext4_es_pblock es) + (es_lblk z - es_lblk es) < 2 ^ 64" using assms(2-4) by linarith
    from unat_add_small [OF this] le assms(2-4) show ?thesis unfolding assms(6) [OF that] by linarith
  qed
  then show "es_ok z" using assms(1-5) m by (auto simp: es_ok_def)
  show "in_range b es \<and> es_val z b = es_val es b" if b: "in_range b z"
  proof -
    have "b - es_lblk es = (es_lblk z - es_lblk es) + (b - es_lblk z)" using b assms(3) by (simp add: in_range_def)
    then have "(of_nat (b - es_lblk es) :: 64 word) = of_nat (es_lblk z - es_lblk es) + of_nat (b - es_lblk z)" by (metis of_nat_add)
    then show ?thesis using b assms(3-6) m by (auto simp: in_range_def es_val_def)
  qed
qed

lemma unat_mask59: "unat ((x :: 64 word) AND mask 59) = unat x mod 2 ^ 59"
  unfolding take_bit_eq_mask [symmetric] unsigned_take_bit_eq by (rule take_bit_eq_mod)

lemma mask_add:
  fixes x :: "64 word"
  assumes "unat (x AND mask 59) + n < 2 ^ 59"
  shows "(x + of_nat n) AND mask 59 = (x AND mask 59) + of_nat n"
proof -
  have "unat (x + of_nat n) = (unat x + n) mod 2 ^ 64"
    by (simp add: unat_word_ariths unat_of_nat take_bit_eq_mod mod_add_right_eq)
  moreover have "(unat x + n) mod 2 ^ 64 mod 2 ^ 59 = (unat x mod 2 ^ 59 + n) mod 2 ^ 59"
    by (subst mod_mod_cancel) (auto simp: mod_add_left_eq intro: le_imp_power_dvd)
  moreover have "(unat x mod 2 ^ 59 + n) mod 2 ^ 59 = unat (x AND mask 59) + n" using assms unfolding unat_mask59 by (rule mod_less)
  ultimately have "unat ((x + of_nat n) AND mask 59) = unat (x AND mask 59) + n" by (simp only: unat_mask59 [of "x + of_nat n"])
  moreover have "unat ((x AND mask 59) + of_nat n) = unat (x AND mask 59) + n" by (rule unat_add_small) (use assms in simp)
  ultimately show ?thesis by (simp only: word_unat_eq_iff)
qed

text \<open>The two ways the back of an entry is made.\<close>

lemma back_pblock:
  assumes "es_ok es" and "ext4_es_is_mapped es" and "0 < n" and "n \<le> es_len es"
  shows "(ext4_es_pblock es + of_nat (es_len es) - of_nat n) AND mask 59 = ext4_es_pblock es + of_nat (es_len es - n)"
    and "(es_pblk es + of_nat (es_len es) - of_nat n) AND mask 59 = ext4_es_pblock es + of_nat (es_len es - n)"
proof -
  have p: "ext4_es_pblock es = es_pblk es AND mask 59" by (simp add: ext4_es_pblock_def not_ES_MASK)
  have d: "x + of_nat (es_len es) - of_nat n = x + of_nat (es_len es - n)" for x :: "64 word"
    using assms(4) by (simp add: of_nat_diff)
  have "unat (es_pblk es AND mask 59) + es_len es \<le> 2 ^ 59" using assms(1,2) p by (simp add: es_ok_def)
  then have lt: "unat (es_pblk es AND mask 59) + (es_len es - n) < 2 ^ 59" using assms(3,4) by linarith
  show "(es_pblk es + of_nat (es_len es) - of_nat n) AND mask 59 = ext4_es_pblock es + of_nat (es_len es - n)"
    unfolding d p by (rule mask_add [OF lt])
  show "(ext4_es_pblock es + of_nat (es_len es) - of_nat n) AND mask 59 = ext4_es_pblock es + of_nat (es_len es - n)"
    unfolding d p using mask_add [of "es_pblk es AND mask 59" "es_len es - n"] lt by (simp add: and.assoc)
qed

definition is_back :: "extent_status \<Rightarrow> nat \<Rightarrow> extent_status \<Rightarrow> bool" where
  "is_back es end_blk z \<longleftrightarrow> es_lblk z = end_blk + 1 \<and> es_lblk z + es_len z = es_lblk es + es_len es \<and> ext4_es_type z = ext4_es_type es \<and>
     (ext4_es_is_mapped es \<longrightarrow> ext4_es_pblock z = ext4_es_pblock es + of_nat (end_blk + 1 - es_lblk es))"

lemma cut_front_back:
  assumes "es_ok es" and "es_lblk es \<le> end_blk" and "end_blk + 1 < es_lblk es + es_len es" and "n = es_lblk es + es_len es - 1 - end_blk"
  shows "is_back es end_blk (cut_front es end_blk n)" and "is_back es end_blk (tail_es es end_blk n)"
proof -
  have n: "0 < n" "n \<le> es_len es" "end_blk + 1 + n = es_lblk es + es_len es" "end_blk + 1 - es_lblk es = es_len es - n"
    using assms(2-4) by linarith+
  let ?u = "es\<lparr>es_lblk := end_blk + 1, es_len := n\<rparr>"
  have t: "ext4_es_is_written ?u = ext4_es_is_written es" "ext4_es_is_unwritten ?u = ext4_es_is_unwritten es"
    by (rule same_type, simp)+
  show "is_back es end_blk (cut_front es end_blk n)"
    using back_pblock(2) [OF assms(1) _ n(1,2)] n(3,4)
    unfolding is_back_def cut_front_def Let_def t ext4_es_is_mapped_def by simp
  show "is_back es end_blk (tail_es es end_blk n)"
    using back_pblock(1) [OF assms(1) _ n(1,2)] n(3,4) type_of_status [of es]
    unfolding is_back_def tail_es_def ext4_es_is_mapped_def by simp
qed

lemma is_back:
  assumes "es_ok es" and "es_lblk es \<le> end_blk" and "end_blk + 1 < es_lblk es + es_len es" and "is_back es end_blk z"
  shows "es_ok z" and "in_range b z \<and> v = es_val z b \<longleftrightarrow> in_range b es \<and> v = es_val es b \<and> end_blk < b"
proof -
  have z: "0 < es_len z" "es_lblk es \<le> es_lblk z" "es_lblk z + es_len z \<le> es_lblk es + es_len es" using assms(2-4) by (auto simp: is_back_def)
  have p: "ext4_es_pblock z = ext4_es_pblock es + of_nat (es_lblk z - es_lblk es)" if "ext4_es_is_mapped es" using that assms(4) by (simp add: is_back_def)
  have t: "ext4_es_type z = ext4_es_type es" using assms(4) by (simp add: is_back_def)
  show "es_ok z" by (rule part_of_es(1) [OF assms(1) z t p])
  have "in_range b z \<longleftrightarrow> in_range b es \<and> end_blk < b" using assms(2-4) by (auto simp: is_back_def in_range_def)
  with part_of_es(2) [OF assms(1) z t p, of b] show "in_range b z \<and> v = es_val z b \<longleftrightarrow> in_range b es \<and> v = es_val es b \<and> end_blk < b" by auto
qed

lemma is_front:
  assumes "es_ok es" and "es_lblk es < lblk" and "lblk < es_lblk es + es_len es"
  shows "es_ok (es\<lparr>es_len := lblk - es_lblk es\<rparr>)"
    and "in_range b (es\<lparr>es_len := lblk - es_lblk es\<rparr>) \<and> v = es_val (es\<lparr>es_len := lblk - es_lblk es\<rparr>) b \<longleftrightarrow> in_range b es \<and> v = es_val es b \<and> b < lblk"
proof -
  let ?z = "es\<lparr>es_len := lblk - es_lblk es\<rparr>"
  have z: "0 < es_len ?z" "es_lblk es \<le> es_lblk ?z" "es_lblk ?z + es_len ?z \<le> es_lblk es + es_len es" using assms by auto
  show "es_ok ?z" by (rule part_of_es(1) [OF assms(1) z]) simp_all
  have "in_range b ?z \<longleftrightarrow> in_range b es \<and> b < lblk" using assms by (auto simp: in_range_def)
  with part_of_es(2) [OF assms(1) z, of b] show "in_range b ?z \<and> v = es_val ?z b \<longleftrightarrow> in_range b es \<and> v = es_val es b \<and> b < lblk" by auto
qed

end
