(* ===== verification/Extent_Remove.thy ===== *)
theory Extent_Remove
  imports Extent_Map
begin

text \<open>
  Removing blocks from the extent status tree: what \<open>__es_remove_extent\<close> does to the map,
  and how many reservations it counts.
\<close>

section \<open>Delayed blocks\<close>

lemma addedD:
  assumes "added newes ei ei'"
  shows "es_inv ei'" "other ei' = other ei" "set (atomic_mem ei') \<subseteq> set (atomic_mem ei)"
    "es_says (es_nodes ei') b v \<longleftrightarrow> es_says (es_nodes ei) b v \<or> in_range b newes \<and> v = es_val newes b"
  using assms unfolding added_def by blast+

definition delayed_blocks :: "extent_status list \<Rightarrow> nat set" where
  "delayed_blocks xs = {b. \<exists>v. es_says xs b v \<and> fst v = 4}"

definition dlen :: "extent_status \<Rightarrow> nat" where
  "dlen es = (if ext4_es_is_delayed es then es_len es else 0)"

definition dl :: "extent_status list \<Rightarrow> nat" where
  "dl xs = sum_list (map dlen xs)"

lemma dl_simps [simp]: "dl [] = 0" "dl (x # xs) = dlen x + dl xs" "dl (xs @ ys) = dl xs + dl ys"
  by (simp_all add: dl_def)

lemma delayed_blocks_Cons:
  assumes "es_ok x"
  shows "delayed_blocks (x # xs) = (if ext4_es_is_delayed x then {es_lblk x..<es_lblk x + es_len x} else {}) \<union> delayed_blocks xs"
  using assms by (auto simp: delayed_blocks_def es_val_def es_ok_kind in_range_def)

lemma dl_card:
  assumes "wf_nodes xs"
  shows "finite (delayed_blocks xs) \<and> card (delayed_blocks xs) = dl xs"
  using assms
proof (induction xs)
  case Nil
  show ?case by (simp add: delayed_blocks_def)
next
  case (Cons x xs)
  have x: "es_ok x" "\<forall>y\<in>set xs. es_lblk x + es_len x \<le> es_lblk y" and IH: "finite (delayed_blocks xs)" "card (delayed_blocks xs) = dl xs"
    using Cons by auto
  have "{es_lblk x..<es_lblk x + es_len x} \<inter> delayed_blocks xs = {}"
    using x(2) by (fastforce simp: delayed_blocks_def es_says_def in_range_def)
  with IH show ?case unfolding delayed_blocks_Cons [OF x(1)] by (auto simp: dlen_def card_Un_disjoint)
qed

lemma delayed_blocks_cong: "(\<And>b v. es_says xs b v \<longleftrightarrow> es_says ys b v) \<Longrightarrow> delayed_blocks xs = delayed_blocks ys"
  by (simp add: delayed_blocks_def)

section \<open>Counting\<close>

lemma count_rsvd_ok:
  assumes "es_ok es"
  obtains rc' where "count_rsvd sbi lblk len es rc = Some rc'"
    "s_cluster_ratio sbi = 1 \<longrightarrow> ndelayed rc' = ndelayed rc + (if ext4_es_is_delayed es then int len else 0)"
proof (cases "ext4_es_is_delayed es \<and> s_cluster_ratio sbi \<noteq> 1")
  case True
  with es_ok_end [OF assms] have "count_rsvd sbi lblk len es rc \<noteq> None" by (simp add: count_rsvd_def Let_def split: prod.split)
  with True show ?thesis using that by auto
next
  case False
  then show ?thesis using that by (cases "ext4_es_is_delayed es") (auto simp: count_rsvd_def)
qed

lemma left_delayed_ok: "\<forall>x\<in>set xs. es_ok x \<Longrightarrow> \<exists>d. left_delayed first_blk xs = Some d"
  by (induction xs) (auto simp: es_ok_end)

lemma left_of_ok: "\<forall>x\<in>set (es_nodes ei). es_ok x \<Longrightarrow> \<forall>x\<in>set (left_of k ei). es_ok x"
  by (auto simp: left_of_def dest: set_dropWhileD split: option.splits)

lemma get_rsvd_ok:
  assumes "\<forall>x\<in>set (es_nodes ei). es_ok x" and "\<forall>es. right_es = Some es \<longrightarrow> es_ok es"
  obtains n t where "get_rsvd sbi end_blk right_es rc ei = Some (n, ei\<lparr>i_pending_tree := t\<rparr>)"
    "s_cluster_ratio sbi = 1 \<longrightarrow> int n = ndelayed rc mod 2 ^ 32"
proof (cases "s_cluster_ratio sbi \<le> 1")
  case True
  then have "get_rsvd sbi end_blk right_es rc ei = Some (nat (ndelayed rc mod 2 ^ 32), ei\<lparr>i_pending_tree := i_pending_tree ei\<rparr>)"
    by (simp add: get_rsvd_def)
  then show ?thesis by (rule that) simp
next
  case False
  obtain ld where ld: "left_delayed (EXT4_LBLK_CMASK sbi (first_do_lblk rc)) (left_of (left_es rc) ei) = Some ld"
    using left_delayed_ok [OF left_of_ok [OF assms(1)]] by blast
  have "\<exists>rs. right_of end_blk right_es ei = Some rs" using assms(2) by (cases right_es) (auto simp: right_of_def es_ok_end)
  then obtain rs where rs: "(if right_es \<noteq> None \<and> (\<not> ld \<or> EXT4_B2C sbi (first_do_lblk rc) \<noteq> EXT4_B2C sbi (last_do_lblk rc))
      then right_of end_blk right_es ei else Some []) = Some rs" by metis
  have "\<exists>n t. get_rsvd sbi end_blk right_es rc ei = Some (n, ei\<lparr>i_pending_tree := t\<rparr>)"
  proof (cases "(if partial_clu rc then ndelayed rc + 1 else ndelayed rc) = 0")
    case True
    with False have "get_rsvd sbi end_blk right_es rc ei = Some (0, ei\<lparr>i_pending_tree := i_pending_tree ei\<rparr>)"
      unfolding get_rsvd_def Let_def by simp
    then show ?thesis by blast
  next
    case F: False
    show ?thesis unfolding get_rsvd_def Let_def if_not_P [OF False] if_not_P [OF F] ld rs case_prod_beta Option.bind.simps by blast
  qed
  with False show ?thesis using that by auto
qed

text \<open>The number of reservations a call of \<open>__es_remove_extent\<close> reports when \<open>k\<close> delayed blocks
  were removed.\<close>

definition rsvd :: "es_sb \<Rightarrow> bool \<Rightarrow> nat \<Rightarrow> int \<Rightarrow> nat \<Rightarrow> bool" where
  "rsvd sbi count_reserved reserved k r \<longleftrightarrow>
     (if count_reserved then s_cluster_ratio sbi = 1 \<longrightarrow> int r = k mod 2 ^ 32 else r = reserved)"

lemma out_reserved:
  assumes "\<forall>x\<in>set (es_nodes ei). es_ok x" and "\<forall>es. right_es = Some es \<longrightarrow> es_ok es"
  obtains r t where "out_get_reserved sbi count_reserved end_blk right_es rc reserved ei = Some (0, r, ei\<lparr>i_pending_tree := t\<rparr>)"
    "rsvd sbi count_reserved reserved (ndelayed rc) r"
proof (cases count_reserved)
  case True
  obtain n t where "get_rsvd sbi end_blk right_es rc ei = Some (n, ei\<lparr>i_pending_tree := t\<rparr>)"
    "s_cluster_ratio sbi = 1 \<longrightarrow> int n = ndelayed rc mod 2 ^ 32"
    by (rule get_rsvd_ok [OF assms])
  with True show ?thesis by (intro that [of n t]) (auto simp: out_get_reserved_def rsvd_def)
next
  case False
  then show ?thesis by (intro that [of reserved "i_pending_tree ei"]) (auto simp: out_get_reserved_def rsvd_def)
qed

lemma maybe_count:
  assumes "es_ok es"
  obtains rc' where "(if count_reserved then count_rsvd sbi lblk len es rc else Some rc) = Some rc'"
    "count_reserved \<longrightarrow> s_cluster_ratio sbi = 1 \<longrightarrow> ndelayed rc' = ndelayed rc + (if ext4_es_is_delayed es then int len else 0)"
  by (rule count_rsvd_ok [OF assms, of sbi lblk len rc]) (cases count_reserved; auto)

section \<open>Removing whole entries\<close>

text \<open>The state while entries are removed: no cached entry, and only entries, counters and
  pending reservations differ.\<close>

definition mid_ok :: "es_inode \<Rightarrow> bool" where
  "mid_ok ei \<longleftrightarrow> wf_nodes (es_nodes ei) \<and> counts_ok ei \<and> cache_es ei = None"

definition rest_same :: "es_inode \<Rightarrow> es_inode \<Rightarrow> bool" where
  "rest_same ei ei' \<longleftrightarrow> i_reserved_data_blocks ei' = i_reserved_data_blocks ei \<and> i_es_shrink_lblk ei' = i_es_shrink_lblk ei \<and>
     set (atomic_mem ei') \<subseteq> set (atomic_mem ei)"

lemma rest_same_trans: "rest_same a b \<Longrightarrow> rest_same b c \<Longrightarrow> rest_same a c"
  by (auto simp: rest_same_def)

lemma rest_sameI: "other ei' = other ei \<Longrightarrow> atomic_mem ei' = atomic_mem ei \<Longrightarrow> rest_same ei ei'"
  by (simp add: other_def rest_same_def)

lemma mid_change:
  assumes "mid_ok ei" and "es_nodes ei = as @ es # bs" and "wf_nodes (as @ es' # bs)" and "ext4_es_type es' = ext4_es_type es"
  shows "mid_ok (change_es es es' ei)" and "es_nodes (change_es es es' ei) = as @ es' # bs" and "rest_same ei (change_es es es' ei)"
proof -
  have wf: "wf_nodes (es_nodes ei)" and c: "counts_ok ei" using assms(1) by (auto simp: mid_ok_def)
  show n: "es_nodes (change_es es es' ei) = as @ es' # bs" by (rule es_nodes_change [OF assms(2) wf])
  show "mid_ok (change_es es es' ei)" using assms(1,3) n counts_change [OF c assms(2) n assms(4)] by (simp add: mid_ok_def)
  show "rest_same ei (change_es es es' ei)" by (rule rest_sameI) simp_all
qed

lemma mid_pending [simp]: "mid_ok (ei\<lparr>i_pending_tree := t\<rparr>) = mid_ok ei" "rest_same x (ei\<lparr>i_pending_tree := t\<rparr>) = rest_same x ei"
  by (simp_all add: mid_ok_def counts_ok_def rest_same_def)

lemma remove_whole_ok:
  assumes "rb_ok (es_rb sbi)" and "es_nodes ei = cs @ ess" and "mid_ok ei"
  obtains ds rest rc' ei' where "remove_whole sbi count_reserved end_blk ess rc ei = Some (rest, rc', ei')" "es_nodes ei' = cs @ rest"
    "mid_ok ei'" "rest_same ei ei'" "ess = ds @ rest" "\<forall>d\<in>set ds. es_lblk d + es_len d \<le> end_blk + 1"
    "rest \<noteq> [] \<longrightarrow> end_blk + 1 < es_lblk (hd rest) + es_len (hd rest)"
    "count_reserved \<longrightarrow> s_cluster_ratio sbi = 1 \<longrightarrow> ndelayed rc' = ndelayed rc + int (dl ds)"
  using assms(2,3)
proof (induction ess arbitrary: ei rc thesis)
  case Nil
  show ?case by (rule Nil.prems(1) [of "[]" rc ei "[]"]) (use Nil.prems in \<open>auto simp: rest_same_def\<close>)
next
  case (Cons es ess)
  have wf: "wf_nodes (es_nodes ei)" and c: "counts_ok ei" using Cons.prems(3) by (auto simp: mid_ok_def)
  have ok: "es_ok es" using wf Cons.prems(2) by simp
  show ?case
  proof (cases "end_blk < es_lblk es + es_len es - 1")
    case True
    show ?thesis
      by (rule Cons.prems(1) [of "es # ess" rc ei "[]"]) (use Cons.prems True es_ok_end [OF ok] in \<open>auto simp: rest_same_def\<close>)
  next
    case False
    obtain rc1 where rc1: "(if count_reserved then count_rsvd sbi (es_lblk es) (es_len es) es rc else Some rc) = Some rc1"
      "count_reserved \<longrightarrow> s_cluster_ratio sbi = 1 \<longrightarrow> ndelayed rc1 = ndelayed rc + (if ext4_es_is_delayed es then int (es_len es) else 0)"
      by (rule maybe_count [OF ok])
    obtain ei1 where e: "erase_es sbi es ei = Some ei1" "es_nodes ei1 = cs @ ess" "counts_ok ei1" "cache_es ei1 = cache_es ei"
      "other ei1 = other ei" "atomic_mem ei1 = atomic_mem ei"
      by (rule erase_es [OF assms(1) Cons.prems(2) wf_distinct [OF wf] wf_length [OF wf] c])
    have m: "mid_ok ei1" using Cons.prems(2,3) e by (simp add: mid_ok_def)
    obtain rest rc' ei' ds where i: "remove_whole sbi count_reserved end_blk ess rc1 ei1 = Some (rest, rc', ei')" "es_nodes ei' = cs @ rest"
      "mid_ok ei'" "rest_same ei1 ei'" "ess = ds @ rest" "\<forall>d\<in>set ds. es_lblk d + es_len d \<le> end_blk + 1"
      "rest \<noteq> [] \<longrightarrow> end_blk + 1 < es_lblk (hd rest) + es_len (hd rest)"
      "count_reserved \<longrightarrow> s_cluster_ratio sbi = 1 \<longrightarrow> ndelayed rc' = ndelayed rc1 + int (dl ds)"
      by (rule Cons.IH [OF _ e(2) m])
    show ?thesis
    proof (rule Cons.prems(1) [of rest rc' ei' "es # ds"])
      show "remove_whole sbi count_reserved end_blk (es # ess) rc ei = Some (rest, rc', ei')"
        using es_ok_end [OF ok] False rc1(1) e(1) i(1) by simp
      show "rest_same ei ei'" using i(4) e(5,6) by (metis rest_sameI rest_same_trans)
      show "\<forall>d\<in>set (es # ds). es_lblk d + es_len d \<le> end_blk + 1" using i(6) False ok by (auto simp: es_ok_def)
      show "count_reserved \<longrightarrow> s_cluster_ratio sbi = 1 \<longrightarrow> ndelayed rc' = ndelayed rc + int (dl (es # ds))"
        using i(8) rc1(2) by (simp add: dlen_def)
    qed (use i in simp_all)
  qed
qed

lemma dlen_back:
  assumes "es_lblk es \<le> end_blk" and "end_blk + 1 < es_lblk es + es_len es" and "is_back es end_blk z"
  shows "dlen es = (if ext4_es_is_delayed es then es_len es - (es_lblk es + es_len es - 1 - end_blk) else 0) + dlen z"
proof -
  have "ext4_es_is_delayed z = ext4_es_is_delayed es" using assms(3) by (intro same_type) (simp add: is_back_def)
  then show ?thesis using assms by (auto simp: dlen_def is_back_def)
qed

lemma wf_back:
  assumes "wf_nodes (as @ es # bs)" and "es_lblk es \<le> end_blk" and "end_blk + 1 < es_lblk es + es_len es" and "is_back es end_blk z"
  shows "wf_nodes (as @ z # bs)"
  using assms is_back(1) [OF _ assms(2-4)] by (force simp: is_back_def)

lemma remove_rest_ok:
  assumes rb: "rb_ok (es_rb sbi)" and n: "es_nodes ei = cs @ ess" and m: "mid_ok ei"
  obtains r ei' k where "remove_rest sbi count_reserved end_blk ess rc reserved ei = Some (0, r, ei')" "mid_ok ei'" "rest_same ei ei'"
    "\<forall>b v. es_says (es_nodes ei') b v \<longleftrightarrow> es_says cs b v \<or> es_says ess b v \<and> end_blk < b"
    "dl (es_nodes ei) = dl (es_nodes ei') + k" "rsvd sbi count_reserved reserved (ndelayed rc + int k) r"
proof -
  obtain ds rest rc1 ei1 where w: "remove_whole sbi count_reserved end_blk ess rc ei = Some (rest, rc1, ei1)" "es_nodes ei1 = cs @ rest"
    "mid_ok ei1" "rest_same ei ei1" "ess = ds @ rest" "\<forall>d\<in>set ds. es_lblk d + es_len d \<le> end_blk + 1"
    "rest \<noteq> [] \<longrightarrow> end_blk + 1 < es_lblk (hd rest) + es_len (hd rest)"
    "count_reserved \<longrightarrow> s_cluster_ratio sbi = 1 \<longrightarrow> ndelayed rc1 = ndelayed rc + int (dl ds)"
    by (rule remove_whole_ok [OF rb n m])
  have wf: "wf_nodes (cs @ rest)" using w(2,3) by (simp add: mid_ok_def)
  have ds: "\<not> (es_says ds b v \<and> end_blk < b)" for b v using w(6) by (fastforce simp: es_says_def in_range_def)
  have ok1: "\<forall>x\<in>set (es_nodes ei1). es_ok x" using wf w(2) by (simp add: wf_nodes_def)
  have rs: "rsvd sbi count_reserved reserved (ndelayed rc + int (dl ds)) r" if "rsvd sbi count_reserved reserved (ndelayed rc1) r" for r
    using that w(8) by (auto simp: rsvd_def)
  show ?thesis
  proof (cases "rest = [] \<or> end_blk < es_lblk (hd rest)")
    case True
    define res where "res = (case rest of [] \<Rightarrow> None | x # _ \<Rightarrow> Some x)"
    have "\<forall>es. res = Some es \<longrightarrow> es_ok es" using wf by (auto simp: res_def split: list.splits)
    then obtain r t where o: "out_get_reserved sbi count_reserved end_blk res rc1 reserved ei1 = Some (0, r, ei1\<lparr>i_pending_tree := t\<rparr>)"
      "rsvd sbi count_reserved reserved (ndelayed rc1) r" by (rule out_reserved [OF ok1])
    have "es_says rest b v \<longleftrightarrow> es_says rest b v \<and> end_blk < b" for b v
      using True wf by (cases rest) (fastforce simp: es_says_def in_range_def)+
    then have "\<forall>b v. es_says (es_nodes ei1) b v \<longleftrightarrow> es_says cs b v \<or> es_says ess b v \<and> end_blk < b" using ds w(2,5) by auto
    with o w True show ?thesis
      by (intro that [of r "ei1\<lparr>i_pending_tree := t\<rparr>" "dl ds"] rs)
        (auto simp: remove_rest_def res_def n split: list.split)
  next
    case False
    then obtain es tl' where r: "rest = es # tl'" "es_lblk es \<le> end_blk" by (cases rest) auto
    have es: "es_ok es" "end_blk + 1 < es_lblk es + es_len es" using wf w(7) r by auto
    define len1 where "len1 = es_lblk es + es_len es - 1 - end_blk"
    define z where "z = cut_front es end_blk len1"
    have z: "is_back es end_blk z" unfolding z_def by (rule cut_front_back(1) [OF es(1) r(2) es(2) len1_def])
    have wz: "wf_nodes (cs @ z # tl')" by (rule wf_back [OF wf [unfolded r(1)] r(2) es(2) z])
    have zt: "ext4_es_type z = ext4_es_type es" using z by (simp add: is_back_def)
    note mc = mid_change [OF w(3) w(2) [unfolded r(1)] wz zt]
    obtain rc2 where rc2: "(if count_reserved then count_rsvd sbi (es_lblk es) (es_len es - len1) es rc1 else Some rc1) = Some rc2"
      "count_reserved \<longrightarrow> s_cluster_ratio sbi = 1 \<longrightarrow> ndelayed rc2 = ndelayed rc1 + (if ext4_es_is_delayed es then int (es_len es - len1) else 0)"
      by (rule maybe_count [OF es(1)])
    have "\<forall>x\<in>set (es_nodes (change_es es z ei1)). es_ok x" using wz mc(2) by (simp add: wf_nodes_def)
    moreover have "\<forall>x. Some z = Some x \<longrightarrow> es_ok x" using is_back(1) [OF es(1) r(2) es(2) z] by simp
    ultimately obtain q t where o: "out_get_reserved sbi count_reserved end_blk (Some z) rc2 reserved (change_es es z ei1) =
        Some (0, q, (change_es es z ei1)\<lparr>i_pending_tree := t\<rparr>)" "rsvd sbi count_reserved reserved (ndelayed rc2) q"
      by (rule out_reserved)
    have e: "ext4_es_end es = Some (es_lblk es + es_len es - 1)" by (rule es_ok_end [OF es(1)])
    have "dl (es_nodes ei) = dl (cs @ z # tl') + (dl ds + (if ext4_es_is_delayed es then es_len es - len1 else 0))"
      using dlen_back [OF r(2) es(2) z] by (simp add: n w(5) r(1) len1_def)
    moreover have "rsvd sbi count_reserved reserved (ndelayed rc + int (dl ds + (if ext4_es_is_delayed es then es_len es - len1 else 0))) q"
      using o(2) rc2(2) w(8) by (auto simp: rsvd_def add.assoc)
    moreover have "remove_rest sbi count_reserved end_blk ess rc reserved ei = Some (0, q, (change_es es z ei1)\<lparr>i_pending_tree := t\<rparr>)"
    proof -
      have lt: "es_lblk es < end_blk + 1" using r(2) by simp
      show ?thesis
        unfolding remove_rest_def w(1) r(1) Option.bind.simps prod.case list.case if_P [OF lt] e Let_def len1_def [symmetric] z_def [symmetric]
          rc2(1) o(1) ..
    qed
    moreover have "\<forall>b v. es_says (cs @ z # tl') b v \<longleftrightarrow> es_says cs b v \<or> es_says ess b v \<and> end_blk < b"
    proof (intro allI)
      fix b v
      have "es_says tl' b v \<Longrightarrow> end_blk < b" using wf r es(2) by (fastforce simp: es_says_def in_range_def)
      with is_back(2) [OF es(1) r(2) es(2) z, of b v] ds [of b v]
      show "es_says (cs @ z # tl') b v \<longleftrightarrow> es_says cs b v \<or> es_says ess b v \<and> end_blk < b" by (auto simp: w(5) r(1))
    qed
    moreover have "rest_same ei (change_es es z ei1)" by (rule rest_same_trans [OF w(4) mc(3)])
    ultimately show ?thesis using mc(1,2)
      by (intro that [of q "(change_es es z ei1)\<lparr>i_pending_tree := t\<rparr>" "dl ds + (if ext4_es_is_delayed es then es_len es - len1 else 0)"]) simp_all
  qed
qed

section \<open>Removing a range\<close>

lemma dl_cong:
  assumes "wf_nodes xs" and "wf_nodes ys" and "\<And>b v. es_says xs b v \<longleftrightarrow> es_says ys b v"
  shows "dl xs = dl ys"
  using dl_card [OF assms(1)] dl_card [OF assms(2)] delayed_blocks_cong [OF assms(3)] by simp

lemma dl_less:
  assumes "wf_nodes xs"
  shows "dl xs < 2 ^ 32"
proof -
  have "delayed_blocks xs \<subseteq> {..<2 ^ 32 - 1}"
    using assms by (fastforce simp: delayed_blocks_def es_says_def in_range_def wf_nodes_def es_ok_def)
  then have "card (delayed_blocks xs) \<le> card {..<(2::nat) ^ 32 - 1}" by (intro card_mono) simp_all
  then show ?thesis using dl_card [OF assms] by simp
qed

text \<open>The blocks of the range are gone; other blocks are only gone when no memory could be had
  and they were not delayed.\<close>

definition cut :: "nat \<Rightarrow> nat \<Rightarrow> bool \<Rightarrow> es_inode \<Rightarrow> es_inode \<Rightarrow> bool" where
  "cut lblk end_blk sure ei ei' \<longleftrightarrow> es_inv ei' \<and> rest_same ei ei' \<and>
     (\<forall>b v. es_says (es_nodes ei') b v \<longrightarrow> es_says (es_nodes ei) b v \<and> \<not> (lblk \<le> b \<and> b \<le> end_blk)) \<and>
     (\<forall>b v. es_says (es_nodes ei) b v \<longrightarrow> \<not> (lblk \<le> b \<and> b \<le> end_blk) \<longrightarrow> sure \<or> fst v = 4 \<longrightarrow> es_says (es_nodes ei') b v)"

lemma cutI:
  assumes "mid_ok ei'" and "rest_same ei ei'"
    and "\<And>b v. es_says (es_nodes ei') b v \<longleftrightarrow> es_says (es_nodes ei) b v \<and> \<not> (lblk \<le> b \<and> b \<le> end_blk)"
  shows "cut lblk end_blk sure ei ei'"
  using assms unfolding cut_def mid_ok_def es_inv_def cache_ok_def by (simp del: split_paired_All)

text \<open>How many reservations are reported, for clusters of one block.\<close>

definition freed :: "es_sb \<Rightarrow> nat option \<Rightarrow> es_inode \<Rightarrow> es_inode \<Rightarrow> nat \<Rightarrow> bool" where
  "freed sbi reserved_p ei ei' r \<longleftrightarrow>
     (s_cluster_ratio sbi = 1 \<and> opt_delalloc sbi \<and> reserved_p = Some 0 \<longrightarrow> r + dl (es_nodes ei') = dl (es_nodes ei))"

lemma freedI:
  assumes "wf_nodes (es_nodes ei)" and "rsvd sbi (reserved_p \<noteq> None \<and> opt_delalloc sbi) reserved (int k) r" and "dl (es_nodes ei) = dl (es_nodes ei') + k"
  shows "freed sbi reserved_p ei ei' r"
proof -
  have "int k mod 2 ^ 32 = int k" using dl_less [OF assms(1)] assms(3) by simp
  then show ?thesis using assms(2,3) by (auto simp: freed_def rsvd_def)
qed

text \<open>A range inside one entry.\<close>

lemma split_ok:
  assumes rb: "rb_ok (es_rb sbi)" and n: "es_nodes ei = as @ es # bs" and m: "mid_ok ei"
    and l: "es_lblk es < lblk" "lblk \<le> end_blk" "end_blk + 1 < es_lblk es + es_len es"
    and k: "len1 = lblk - es_lblk es" "len2 = es_lblk es + es_len es - 1 - end_blk" and rc: "ndelayed rc = 0"
    and cr: "count_reserved = (reserved_p \<noteq> None \<and> opt_delalloc sbi)" and re: "reserved = (case reserved_p of None \<Rightarrow> 0 | Some r \<Rightarrow> r)"
  obtains (gone) r ei' where "split_es sbi count_reserved end_blk prealloc es len1 len2 rc reserved ei = Some (0, r, ei')"
      "cut lblk end_blk (prealloc \<or> False \<notin> set (atomic_mem ei)) ei ei'" "freed sbi reserved_p ei ei' r"
  | (kept) ei' where "split_es sbi count_reserved end_blk prealloc es len1 len2 rc reserved ei = Some (- ENOMEM, reserved, ei')"
      "\<not> prealloc" "mid_ok ei'" "es_nodes ei' = es_nodes ei" "rest_same ei ei'"
proof -
  have wf: "wf_nodes (as @ es # bs)" using n m by (simp add: mid_ok_def)
  have es: "es_ok es" using wf by simp
  define x z where "x = es\<lparr>es_len := len1\<rparr>" and "z = tail_es es end_blk len2"
  have xs: "es_ok x" "in_range b x \<and> v = es_val x b \<longleftrightarrow> in_range b es \<and> v = es_val es b \<and> b < lblk" for b v
    using is_front(1) [OF es l(1)] is_front(2) [OF es l(1), of b v] l(2,3) by (simp_all add: x_def k(1))
  have z: "is_back es end_blk z" unfolding z_def by (rule cut_front_back(2) [OF es _ l(3) k(2)]) (use l in simp)
  have zs: "es_ok z" "in_range b z \<and> v = es_val z b \<longleftrightarrow> in_range b es \<and> v = es_val es b \<and> end_blk < b" for b v
    using is_back(1) [OF es _ l(3) z] is_back(2) [OF es _ l(3) z, of b v] l by simp_all
  have zt: "ext4_es_type z = ext4_es_type es" using z by (simp add: is_back_def)
  have xl: "es_lblk x = es_lblk es" "es_len x = len1" "ext4_es_type x = ext4_es_type es" by (simp_all add: x_def)
  have wz: "wf_nodes (as @ x # z # bs)" using wf xs(1) zs(1) xl l k z by (auto simp: is_back_def)
  then have wx: "wf_nodes (as @ x # bs)" by simp
  note mc = mid_change [OF m n wx xl(3)]
  have ap: "\<forall>y\<in>set (es_nodes (change_es es x ei)). apart z y" using wz mc(2) by (auto simp: apart_def)
  have says: "es_says (as @ x # z # bs) b v \<longleftrightarrow> es_says (es_nodes ei) b v \<and> \<not> (lblk \<le> b \<and> b \<le> end_blk)" for b v
  proof -
    have "es_says as b v \<Longrightarrow> b < lblk" using wf l(1) by (fastforce simp: es_says_def in_range_def)
    moreover have "es_says bs b v \<Longrightarrow> end_blk < b" using wf l(3) by (fastforce simp: es_says_def in_range_def)
    ultimately show ?thesis using xs(2) [of b v] zs(2) [of b v] l(2) by (auto simp: n)
  qed
  have wfc: "wf_nodes (es_nodes (change_es es x ei))" "counts_ok (change_es es x ei)" using mc(1) by (auto simp: mid_ok_def)
  show ?thesis
  proof (cases rule: es_insert [OF rb wfc zs(1) ap, where prealloc = prealloc])
    case (1 ei1)
    note ins = 1
    have n1: "es_says (es_nodes ei1) b v \<longleftrightarrow> es_says (as @ x # z # bs) b v" for b v
      using addedD(4) [OF ins(2), of b v] mc(2) by auto
    have i1: "es_inv ei1" "rest_same ei ei1"
      using addedD(1-3) [OF ins(2)] mc(3) by (auto simp: rest_same_def other_def)
    then have w1: "wf_nodes (es_nodes ei1)" by (simp add: es_inv_def)
    obtain rc1 where rc1: "(if count_reserved then count_rsvd sbi (es_lblk es + len1) (es_len es - len1 - len2) es rc else Some rc) = Some rc1"
      "count_reserved \<longrightarrow> s_cluster_ratio sbi = 1 \<longrightarrow> ndelayed rc1 = ndelayed rc + (if ext4_es_is_delayed es then int (es_len es - len1 - len2) else 0)"
      by (rule maybe_count [OF es])
    have "\<forall>y\<in>set (es_nodes ei1). es_ok y" "\<forall>y. Some x = Some y \<longrightarrow> es_ok y" using w1 xs(1) by (auto simp: wf_nodes_def)
    then obtain r t where o: "out_get_reserved sbi count_reserved end_blk (Some x) rc1 reserved ei1 = Some (0, r, ei1\<lparr>i_pending_tree := t\<rparr>)"
      "rsvd sbi count_reserved reserved (ndelayed rc1) r" by (rule out_reserved)
    define d where "d = (if ext4_es_is_delayed es then es_len es - len1 - len2 else 0)"
    have "dl (es_nodes ei) = dl (as @ x # z # bs) + d"
    proof -
      have "ext4_es_is_delayed x = ext4_es_is_delayed es" "ext4_es_is_delayed z = ext4_es_is_delayed es"
        by (rule same_type, simp add: xl zt)+
      then show ?thesis using l k z by (auto simp: n dlen_def d_def xl is_back_def)
    qed
    then have "dl (es_nodes ei) = dl (es_nodes ei1) + d" using dl_cong [OF w1 wz n1] by simp
    moreover have "rsvd sbi (reserved_p \<noteq> None \<and> opt_delalloc sbi) reserved (int d) r" using o(2) rc1(2) rc by (auto simp: rsvd_def d_def cr)
    ultimately have "freed sbi reserved_p ei (ei1\<lparr>i_pending_tree := t\<rparr>) r"
      using freedI [of ei sbi reserved_p reserved d r "ei1\<lparr>i_pending_tree := t\<rparr>"] wf n by simp
    moreover have "split_es sbi count_reserved end_blk prealloc es len1 len2 rc reserved ei = Some (0, r, ei1\<lparr>i_pending_tree := t\<rparr>)"
      using ins(1) rc1(1) o(1) by (simp add: split_es_def Let_def x_def z_def)
    moreover have "cut lblk end_blk (prealloc \<or> False \<notin> set (atomic_mem ei)) ei (ei1\<lparr>i_pending_tree := t\<rparr>)"
    proof -
      have "es_inv (ei1\<lparr>i_pending_tree := t\<rparr>)" using i1(1) by (simp add: es_inv_def counts_ok_def cache_ok_def)
      with i1(2) n1 says show ?thesis unfolding cut_def by (simp del: split_paired_All)
    qed
    ultimately show ?thesis using gone by blast
  next
    case (2 ms)
    note nomem = 2
    have a: "atomic_mem ei = False # ms" using nomem(3) by simp
    let ?e1 = "(change_es es x ei)\<lparr>atomic_mem := ms\<rparr>"
    have m1: "mid_ok ?e1" "es_nodes ?e1 = as @ x # bs" "rest_same ei ?e1"
      using mc a by (auto simp: mid_ok_def counts_ok_def rest_same_def)
    show ?thesis
    proof (cases "ext4_es_must_keep z")
      case True
      note mb = mid_change [OF m1(1,2) wf xl(3) [symmetric]]
      have "split_es sbi count_reserved end_blk prealloc es len1 len2 rc reserved ei = Some (- ENOMEM, reserved, change_es x es ?e1)"
        using nomem(1) True by (simp add: split_es_def Let_def x_def z_def)
      then show ?thesis by (rule kept) (use mb nomem(2) n m1(3) in \<open>auto intro: rest_same_trans\<close>)
    next
      case False
      then have nd: "ext4_es_type es \<noteq> 4" using same_type(6) [OF zt] es_ok_kind(3) [OF es] by (simp add: ext4_es_must_keep_def)
      have s: "split_es sbi count_reserved end_blk prealloc es len1 len2 rc reserved ei = Some (0, reserved, ?e1)"
        using nomem(1) False by (simp add: split_es_def Let_def x_def z_def)
      have "es_says (as @ x # bs) b v \<Longrightarrow> es_says (as @ x # z # bs) b v" for b v by auto
      moreover have "fst v = 4 \<Longrightarrow> es_says (as @ x # z # bs) b v \<Longrightarrow> es_says (as @ x # bs) b v" for b v
        using nd zt by (auto simp: es_val_def)
      ultimately have "cut lblk end_blk (prealloc \<or> False \<notin> set (atomic_mem ei)) ei ?e1"
        using m1 says a nomem(2) unfolding cut_def mid_ok_def es_inv_def cache_ok_def m1(2) by (simp del: split_paired_All es_says_simps)
      moreover have "freed sbi reserved_p ei ?e1 reserved"
        using False same_type(6) [OF zt] same_type(3) [OF xl(3)] by (simp add: freed_def re mc(2) n dlen_def ext4_es_must_keep_def)
      ultimately show ?thesis using s gone by blast
    qed
  qed
qed

lemma find_split:
  assumes "find P xs = Some x"
  obtains as bs where "xs = as @ x # bs" "\<forall>y\<in>set as. \<not> P y" "P x"
  using assms
proof (induction xs arbitrary: thesis)
  case (Cons y ys)
  show ?case
  proof (cases "P y")
    case True
    with Cons.prems show ?thesis by (intro Cons.prems(1) [of "[]" ys]) auto
  next
    case False
    with Cons.prems(2) obtain as bs where "ys = as @ x # bs" "\<forall>y\<in>set as. \<not> P y" "P x" using Cons.IH by auto
    with False show ?thesis by (intro Cons.prems(1) [of "y # as" bs]) auto
  qed
qed simp

lemma nothing_to_remove:
  assumes "es_inv ei" and "\<And>b v. es_says (es_nodes ei) b v \<Longrightarrow> \<not> (lblk \<le> b \<and> b \<le> end_blk)"
  shows "cut lblk end_blk sure ei ei"
  using assms unfolding cut_def rest_same_def by blast

lemma es_from_mid:
  assumes "inorder t = as @ x # bs" and "x \<notin> set as"
  shows "es_from t x = x # bs"
  unfolding es_from_def assms(1) using assms(2) by (induction as) auto

text \<open>The case without a tail: the front of the first entry may stay.\<close>

lemma remove_from:
  assumes rb: "rb_ok (es_rb sbi)" and n: "es_nodes ei = as @ es # bs" and m: "mid_ok ei"
    and as: "\<forall>y\<in>set as. es_lblk y + es_len y \<le> lblk" and l: "lblk < es_lblk es + es_len es" "es_lblk es + es_len es \<le> end_blk + 1" "lblk \<le> end_blk"
    and rc: "ndelayed rc = 0" and cr: "count_reserved = (reserved_p \<noteq> None \<and> opt_delalloc sbi)" and re: "reserved = (case reserved_p of None \<Rightarrow> 0 | Some r \<Rightarrow> r)"
  shows "lblk \<le> es_lblk es \<Longrightarrow> \<exists>r ei'. remove_rest sbi count_reserved end_blk (es # bs) rc reserved ei = Some (0, r, ei') \<and>
      cut lblk end_blk sure ei ei' \<and> freed sbi reserved_p ei ei' r"
    and "es_lblk es < lblk \<Longrightarrow> \<exists>r ei'. Option.bind (if count_reserved then count_rsvd sbi lblk (es_len es - (lblk - es_lblk es)) es rc else Some rc)
      (\<lambda>rc1. remove_rest sbi count_reserved end_blk bs rc1 reserved (change_es es (es\<lparr>es_len := lblk - es_lblk es\<rparr>) ei)) = Some (0, r, ei') \<and>
      cut lblk end_blk sure ei ei' \<and> freed sbi reserved_p ei ei' r"
proof -
  have wf: "wf_nodes (as @ es # bs)" using n m by (simp add: mid_ok_def)
  have es: "es_ok es" using wf by simp
  have as_b: "es_says as b v \<Longrightarrow> b < lblk" for b v using as by (fastforce simp: es_says_def in_range_def)
  have bs_b: "es_says bs b v \<Longrightarrow> lblk \<le> b" for b v using wf l(1) by (fastforce simp: es_says_def in_range_def)
  show "\<exists>r ei'. remove_rest sbi count_reserved end_blk (es # bs) rc reserved ei = Some (0, r, ei') \<and>
      cut lblk end_blk sure ei ei' \<and> freed sbi reserved_p ei ei' r" if "lblk \<le> es_lblk es"
  proof -
    obtain r ei' k where r: "remove_rest sbi count_reserved end_blk (es # bs) rc reserved ei = Some (0, r, ei')" "mid_ok ei'" "rest_same ei ei'"
      "\<forall>b v. es_says (es_nodes ei') b v \<longleftrightarrow> es_says as b v \<or> es_says (es # bs) b v \<and> end_blk < b"
      "dl (es_nodes ei) = dl (es_nodes ei') + k" "rsvd sbi count_reserved reserved (ndelayed rc + int k) r"
      by (rule remove_rest_ok [OF rb n m])
    have "es_says (es_nodes ei') b v \<longleftrightarrow> es_says (es_nodes ei) b v \<and> \<not> (lblk \<le> b \<and> b \<le> end_blk)" for b v
      using r(4) [rule_format, of b v] as_b [of b v] bs_b [of b v] that l(3) by (auto simp: n in_range_def)
    then have "cut lblk end_blk sure ei ei'" by (rule cutI [OF r(2,3)])
    moreover have "freed sbi reserved_p ei ei' r" using freedI [OF _ _ r(5)] r(6) wf by (simp add: n rc cr)
    ultimately show ?thesis using r(1) by blast
  qed
  show "\<exists>r ei'. Option.bind (if count_reserved then count_rsvd sbi lblk (es_len es - (lblk - es_lblk es)) es rc else Some rc)
      (\<lambda>rc1. remove_rest sbi count_reserved end_blk bs rc1 reserved (change_es es (es\<lparr>es_len := lblk - es_lblk es\<rparr>) ei)) = Some (0, r, ei') \<and>
      cut lblk end_blk sure ei ei' \<and> freed sbi reserved_p ei ei' r" if lt: "es_lblk es < lblk"
  proof -
    define x where "x = es\<lparr>es_len := lblk - es_lblk es\<rparr>"
    have x: "es_ok x" "in_range b x \<and> v = es_val x b \<longleftrightarrow> in_range b es \<and> v = es_val es b \<and> b < lblk" for b v
      using is_front(1) [OF es lt l(1)] is_front(2) [OF es lt l(1), of b v] by (simp_all add: x_def)
    have xl: "es_lblk x = es_lblk es" "es_len x = lblk - es_lblk es" "ext4_es_type x = ext4_es_type es" by (simp_all add: x_def)
    have wx: "wf_nodes (as @ x # bs)" using wf x(1) xl lt l(1) by force
    note mc = mid_change [OF m n wx xl(3)]
    obtain rc1 where rc1: "(if count_reserved then count_rsvd sbi lblk (es_len es - (lblk - es_lblk es)) es rc else Some rc) = Some rc1"
      "count_reserved \<longrightarrow> s_cluster_ratio sbi = 1 \<longrightarrow> ndelayed rc1 = ndelayed rc + (if ext4_es_is_delayed es then int (es_len es - (lblk - es_lblk es)) else 0)"
      by (rule maybe_count [OF es])
    have n1: "es_nodes (change_es es x ei) = (as @ [x]) @ bs" using mc(2) by simp
    obtain r ei' k where r: "remove_rest sbi count_reserved end_blk bs rc1 reserved (change_es es x ei) = Some (0, r, ei')" "mid_ok ei'"
      "rest_same (change_es es x ei) ei'" "\<forall>b v. es_says (es_nodes ei') b v \<longleftrightarrow> es_says (as @ [x]) b v \<or> es_says bs b v \<and> end_blk < b"
      "dl (es_nodes (change_es es x ei)) = dl (es_nodes ei') + k" "rsvd sbi count_reserved reserved (ndelayed rc1 + int k) r"
      by (rule remove_rest_ok [OF rb n1 mc(1)])
    have "es_says (es_nodes ei') b v \<longleftrightarrow> es_says (es_nodes ei) b v \<and> \<not> (lblk \<le> b \<and> b \<le> end_blk)" for b v
      using r(4) [rule_format, of b v] as_b [of b v] bs_b [of b v] x(2) [of b v] l(2) by (auto simp: n in_range_def)
    then have "cut lblk end_blk sure ei ei'" by (rule cutI [OF r(2) rest_same_trans [OF mc(3) r(3)]])
    moreover have "dl (es_nodes ei) = dl (es_nodes ei') + (k + (if ext4_es_is_delayed es then es_len es - (lblk - es_lblk es) else 0))"
      using r(5) same_type(3) [OF xl(3)] l(1) lt by (auto simp: n n1 dlen_def xl)
    then have "freed sbi reserved_p ei ei' r" using freedI [of ei sbi reserved_p reserved _ r ei'] r(6) rc1(2) wf
      by (auto simp: n rc cr rsvd_def add.commute freed_def)
    ultimately show ?thesis using r(1) rc1(1) by (auto simp: x_def)
  qed
qed

text \<open>The front of one entry.\<close>

lemma remove_front:
  assumes n: "es_nodes ei = as @ es # bs" and m: "mid_ok ei"
    and as: "\<forall>y\<in>set as. es_lblk y + es_len y \<le> lblk" and l: "lblk \<le> es_lblk es" "es_lblk es \<le> end_blk" "end_blk + 1 < es_lblk es + es_len es"
    and k: "len2 = es_lblk es + es_len es - 1 - end_blk" and rc: "ndelayed rc = 0"
    and cr: "count_reserved = (reserved_p \<noteq> None \<and> opt_delalloc sbi)"
  shows "\<exists>r ei'. Option.bind (if count_reserved then count_rsvd sbi (es_lblk es) (es_len es - len2) es rc else Some rc) (\<lambda>rc1.
      out_get_reserved sbi count_reserved end_blk (Some (cut_front es end_blk len2)) rc1 reserved (change_es es (cut_front es end_blk len2) ei)) = Some (0, r, ei') \<and>
      cut lblk end_blk sure ei ei' \<and> freed sbi reserved_p ei ei' r"
proof -
  have wf: "wf_nodes (as @ es # bs)" using n m by (simp add: mid_ok_def)
  have es: "es_ok es" using wf by simp
  define z where "z = cut_front es end_blk len2"
  have z: "is_back es end_blk z" unfolding z_def by (rule cut_front_back(1) [OF es l(2,3) k])
  have wz: "wf_nodes (as @ z # bs)" by (rule wf_back [OF wf l(2,3) z])
  have zt: "ext4_es_type z = ext4_es_type es" using z by (simp add: is_back_def)
  note mc = mid_change [OF m n wz zt]
  obtain rc1 where rc1: "(if count_reserved then count_rsvd sbi (es_lblk es) (es_len es - len2) es rc else Some rc) = Some rc1"
    "count_reserved \<longrightarrow> s_cluster_ratio sbi = 1 \<longrightarrow> ndelayed rc1 = ndelayed rc + (if ext4_es_is_delayed es then int (es_len es - len2) else 0)"
    by (rule maybe_count [OF es])
  have "\<forall>x\<in>set (es_nodes (change_es es z ei)). es_ok x" "\<forall>x. Some z = Some x \<longrightarrow> es_ok x"
    using wz mc(2) is_back(1) [OF es l(2,3) z] by (auto simp: wf_nodes_def)
  then obtain q t where o: "out_get_reserved sbi count_reserved end_blk (Some z) rc1 reserved (change_es es z ei) =
      Some (0, q, (change_es es z ei)\<lparr>i_pending_tree := t\<rparr>)" "rsvd sbi count_reserved reserved (ndelayed rc1) q"
    by (rule out_reserved)
  have says: "es_says (as @ z # bs) b v \<longleftrightarrow> es_says (es_nodes ei) b v \<and> \<not> (lblk \<le> b \<and> b \<le> end_blk)" for b v
  proof -
    have "es_says as b v \<Longrightarrow> b < lblk" using as by (fastforce simp: es_says_def in_range_def)
    moreover have "es_says bs b v \<Longrightarrow> end_blk < b" using wf l(3) by (fastforce simp: es_says_def in_range_def)
    moreover have "in_range b es \<Longrightarrow> lblk \<le> b" using l(1) by (simp add: in_range_def)
    ultimately show ?thesis using is_back(2) [OF es l(2,3) z, of b v] l(1,2) by (auto simp: n)
  qed
  have "cut lblk end_blk sure ei ((change_es es z ei)\<lparr>i_pending_tree := t\<rparr>)"
    by (rule cutI) (use mc says in simp_all)
  moreover have "freed sbi reserved_p ei ((change_es es z ei)\<lparr>i_pending_tree := t\<rparr>) q"
  proof (rule freedI)
    show "wf_nodes (es_nodes ei)" using wf n by simp
    show "dl (es_nodes ei) = dl (es_nodes ((change_es es z ei)\<lparr>i_pending_tree := t\<rparr>)) + (if ext4_es_is_delayed es then es_len es - len2 else 0)"
      using dlen_back [OF l(2,3) z] by (simp add: mc(2) n k)
    show "rsvd sbi (reserved_p \<noteq> None \<and> opt_delalloc sbi) reserved (int (if ext4_es_is_delayed es then es_len es - len2 else 0)) q"
      using o(2) rc1(2) rc by (auto simp: rsvd_def cr)
  qed
  ultimately show ?thesis using rc1(1) o(1) by (auto simp: z_def)
qed

lemma remove_found_ok:
  assumes rb: "rb_ok (es_rb sbi)" and n: "es_nodes ei = as @ es # bs" and m: "mid_ok ei"
    and as: "\<forall>y\<in>set as. es_lblk y + es_len y \<le> lblk" and l: "lblk < es_lblk es + es_len es" "es_lblk es \<le> end_blk" "lblk \<le> end_blk"
    and cr: "count_reserved = (reserved_p \<noteq> None \<and> opt_delalloc sbi)" and re: "reserved = (case reserved_p of None \<Rightarrow> 0 | Some r \<Rightarrow> r)"
    and e: "es_end = es_lblk es + es_len es - 1"
  obtains (gone) r ei' where "remove_found sbi count_reserved lblk end_blk reserved prealloc es es_end ei = Some (0, r, ei')"
      "cut lblk end_blk (prealloc \<or> False \<notin> set (atomic_mem ei)) ei ei'" "freed sbi reserved_p ei ei' r"
  | (kept) ei' where "remove_found sbi count_reserved lblk end_blk reserved prealloc es es_end ei = Some (- ENOMEM, reserved, ei')"
      "\<not> prealloc" "mid_ok ei'" "es_nodes ei' = es_nodes ei" "rest_same ei ei'"
proof -
  let ?rc = "init_rsvd sbi lblk es ei"
  have rc: "ndelayed ?rc = 0" by (simp add: init_rsvd_def)
  have wf: "wf_nodes (as @ es # bs)" using m n by (simp add: mid_ok_def)
  have d: "es \<notin> set as" using wf_distinct [OF wf] by simp
  consider (split) "es_lblk es < lblk" "end_blk < es_end" | (front) "lblk \<le> es_lblk es" "end_blk < es_end"
    | (tail) "es_lblk es < lblk" "es_end \<le> end_blk" | (whole) "lblk \<le> es_lblk es" "es_end \<le> end_blk" by linarith
  then show ?thesis
  proof cases
    case split
    have r: "remove_found sbi count_reserved lblk end_blk reserved prealloc es es_end ei =
        split_es sbi count_reserved end_blk prealloc es (lblk - es_lblk es) (es_end - end_blk) ?rc reserved ei"
      using split by (simp add: remove_found_def Let_def)
    have lt: "end_blk + 1 < es_lblk es + es_len es" using split(2) e by linarith
    have k: "es_end - end_blk = es_lblk es + es_len es - 1 - end_blk" using e by simp
    show ?thesis
      by (rule split_ok [OF rb n m split(1) l(3) lt refl k rc cr re, where prealloc = prealloc]; unfold r [symmetric]) (fact gone kept)+
  next
    case front
    have lt: "end_blk + 1 < es_lblk es + es_len es" using front(2) e by linarith
    have k: "es_end - end_blk = es_lblk es + es_len es - 1 - end_blk" using e by simp
    have r: "remove_found sbi count_reserved lblk end_blk reserved prealloc es es_end ei =
        Option.bind (if count_reserved then count_rsvd sbi (es_lblk es) (es_len es - (es_end - end_blk)) es ?rc else Some ?rc) (\<lambda>rc1.
          out_get_reserved sbi count_reserved end_blk (Some (cut_front es end_blk (es_end - end_blk))) rc1 reserved
            (change_es es (cut_front es end_blk (es_end - end_blk)) ei))"
      using front by (simp add: remove_found_def Let_def)
    show ?thesis
      using remove_front [OF n m as front(1) l(2) lt k rc cr, where reserved = reserved] gone unfolding r [symmetric] by blast
  next
    case tail
    have le: "es_lblk es + es_len es \<le> end_blk + 1" using tail(2) e by linarith
    let ?x = "es\<lparr>es_len := lblk - es_lblk es\<rparr>"
    have nx: "es_nodes (change_es es ?x ei) = as @ ?x # bs" by (rule es_nodes_change [OF n]) (use m in \<open>simp add: mid_ok_def\<close>)
    have "?x \<notin> set as" using wf_same_start(1) [OF wf, of ?x] by simp
    then have f: "es_from (i_es_tree (change_es es ?x ei)) ?x = ?x # bs" using nx es_from_mid by (simp add: es_nodes_def)
    have r: "remove_found sbi count_reserved lblk end_blk reserved prealloc es es_end ei =
        Option.bind (if count_reserved then count_rsvd sbi lblk (es_len es - (lblk - es_lblk es)) es ?rc else Some ?rc)
          (\<lambda>rc1. remove_rest sbi count_reserved end_blk bs rc1 reserved (change_es es ?x ei))"
      using tail f by (simp add: remove_found_def Let_def)
    show ?thesis using remove_from(2) [OF rb n m as l(1) le l(3) rc cr re tail(1)] gone unfolding r [symmetric] by blast
  next
    case whole
    have le: "es_lblk es + es_len es \<le> end_blk + 1" using whole(2) e by linarith
    have "es_from (i_es_tree ei) es = es # bs" using n d es_from_mid by (simp add: es_nodes_def)
    then have r: "remove_found sbi count_reserved lblk end_blk reserved prealloc es es_end ei =
        remove_rest sbi count_reserved end_blk (es # bs) ?rc reserved ei"
      using whole by (simp add: remove_found_def Let_def)
    show ?thesis using remove_from(1) [OF rb n m as l(1) le l(3) rc cr re whole(1)] gone unfolding r [symmetric] by blast
  qed
qed

lemma es_remove:
  assumes rb: "rb_ok (es_rb sbi)" and inv: "es_inv ei" and le: "lblk \<le> end_blk"
  obtains (gone) r ei' where "es_remove_extent sbi lblk end_blk reserved_p prealloc ei = Some (0, r, ei')"
      "cut lblk end_blk (prealloc \<or> False \<notin> set (atomic_mem ei)) ei ei'" "freed sbi reserved_p ei ei' r"
  | (kept) ei' where "es_remove_extent sbi lblk end_blk reserved_p prealloc ei = Some (- ENOMEM, case reserved_p of None \<Rightarrow> 0 | Some r \<Rightarrow> r, ei')"
      "\<not> prealloc" "es_inv ei'" "es_nodes ei' = es_nodes ei" "rest_same ei ei'"
proof -
  let ?re = "case reserved_p of None \<Rightarrow> 0 | Some r \<Rightarrow> r"
  have wf: "wf_nodes (es_nodes ei)" using inv by (simp add: es_inv_def)
  have search: "es_tree_search (i_es_tree ei) lblk = Some (find (\<lambda>x. lblk < es_lblk x + es_len x) (es_nodes ei))"
    using es_tree_search_find wf by (simp add: es_nodes_def)
  have none: thesis if "\<And>b v. es_says (es_nodes ei) b v \<Longrightarrow> \<not> (lblk \<le> b \<and> b \<le> end_blk)"
    "es_remove_extent sbi lblk end_blk reserved_p prealloc ei = Some (0, ?re, ei)"
    using gone [OF that(2) nothing_to_remove [OF inv that(1)]] by (simp add: freed_def)
  show ?thesis
  proof (cases "find (\<lambda>x. lblk < es_lblk x + es_len x) (es_nodes ei)")
    case None
    show ?thesis
    proof (rule none)
      show "es_says (es_nodes ei) b v \<Longrightarrow> \<not> (lblk \<le> b \<and> b \<le> end_blk)" for b v
        using None by (fastforce simp: find_None_iff es_says_def in_range_def)
    qed (simp add: es_remove_extent_def Let_def search None)
  next
    case (Some es)
    obtain as bs where n: "es_nodes ei = as @ es # bs" and as: "\<forall>y\<in>set as. \<not> lblk < es_lblk y + es_len y" and es: "lblk < es_lblk es + es_len es"
      by (rule find_split [OF Some])
    show ?thesis
    proof (cases "end_blk < es_lblk es")
      case True
      show ?thesis
      proof (rule none)
        fix b v assume "es_says (es_nodes ei) b v"
        then consider "es_says as b v" | "es_lblk es \<le> b" using wf n by (fastforce simp: es_says_def in_range_def)
        then show "\<not> (lblk \<le> b \<and> b \<le> end_blk)" using as True by cases (auto simp: es_says_def in_range_def)
      qed (use True search Some in \<open>simp add: es_remove_extent_def Let_def\<close>)
    next
      case False
      let ?e1 = "ei\<lparr>cache_es := None\<rparr>"
      have m: "mid_ok ?e1" and n1: "es_nodes ?e1 = as @ es # bs" using inv n by (auto simp: mid_ok_def es_inv_def counts_ok_def)
      have same: "cut lblk end_blk s ei ei' \<longleftrightarrow> cut lblk end_blk s ?e1 ei'" "freed sbi reserved_p ei ei' r \<longleftrightarrow> freed sbi reserved_p ?e1 ei' r"
        "rest_same ei ei' \<longleftrightarrow> rest_same ?e1 ei'" for s ei' r
        by (simp_all add: cut_def freed_def rest_same_def)
      have un: "es_remove_extent sbi lblk end_blk reserved_p prealloc ei =
          remove_found sbi (reserved_p \<noteq> None \<and> opt_delalloc sbi) lblk end_blk ?re prealloc es (es_lblk es + es_len es - 1) ?e1"
        using False search Some es_ok_end [of es] wf n by (simp add: es_remove_extent_def Let_def)
      show ?thesis
        by (rule remove_found_ok [OF rb n1 m _ es _ le refl refl refl, where prealloc = prealloc])
          (use as False gone kept un same in \<open>auto simp: mid_ok_def es_inv_def cache_ok_def\<close>)
    qed
  qed
qed

end
