(* ===== verification/Extent_Ops.thy ===== *)
theory Extent_Ops
  imports Extent_Remove
begin

unbundle bit_operations_syntax

text \<open>
  The operations of the extent status tree as other code calls them, with their retries when
  memory runs out, and every sequence of them: the tree is a cache of a map from blocks to
  their state that may forget, but never forgets delayed blocks, and the number of reserved
  blocks of the inode is the number of delayed blocks. Clusters have one block.
\<close>

section \<open>The map\<close>

type_synonym blk_map = "nat \<Rightarrow> (64 word \<times> 64 word option) option"

definition es_set_range :: "nat \<Rightarrow> nat \<Rightarrow> blk_map \<Rightarrow> blk_map \<Rightarrow> blk_map" where
  "es_set_range lblk len x m = (\<lambda>b. if lblk \<le> b \<and> b < lblk + len then x b else m b)"

text \<open>What may be left of a map: nothing else is said, and delayed blocks are kept.\<close>

definition kept_of :: "blk_map \<Rightarrow> blk_map \<Rightarrow> bool" where
  "kept_of m m' \<longleftrightarrow> (\<forall>b. m' b = None \<and> (\<forall>p. m b \<noteq> Some (4, p)) \<or> m' b = m b)"

lemma kept_of_refl [simp]: "kept_of m m"
  by (simp add: kept_of_def)

lemma kept_of_trans: "kept_of a b \<Longrightarrow> kept_of b c \<Longrightarrow> kept_of a c"
  unfolding kept_of_def by metis

lemma kept_of_set: "kept_of m m' \<Longrightarrow> kept_of (es_set_range lblk len x m) (es_set_range lblk len x m')"
  by (simp add: kept_of_def es_set_range_def)

definition emap :: "es_inode \<Rightarrow> blk_map" where
  "emap ei = es_map (es_nodes ei)"

definition es_state :: "nat \<Rightarrow> 64 word \<Rightarrow> 64 word \<Rightarrow> blk_map" where
  "es_state lblk pblk status b = Some (status, if status = 1 \<or> status = 2 then Some (pblk + of_nat (b - lblk)) else None)"

definition fits :: "nat \<Rightarrow> nat \<Rightarrow> 64 word \<Rightarrow> 64 word \<Rightarrow> bool" where
  "fits lblk len pblk status \<longleftrightarrow> 0 < len \<and> lblk + len < 2 ^ 32 \<and> status \<in> {1, 2, 4, 8} \<and> (status \<in> {1, 2} \<longrightarrow> unat pblk + len \<le> 2 ^ 59)"

lemma make_es_ok:
  assumes "fits lblk len pblk status"
  shows "es_ok (make_es lblk len pblk status)" and "Some (es_val (make_es lblk len pblk status) b) = es_state lblk pblk status b"
    and "ext4_es_is_delayed (make_es lblk len pblk status) \<longleftrightarrow> status = 4"
proof -
  have t: "ext4_es_type (make_es lblk len pblk status) = status" using assms by (auto simp: fits_def mask_eq_exp_minus_1)
  have k: "ext4_es_is_mapped (make_es lblk len pblk status) \<longleftrightarrow> status = 1 \<or> status = 2"
    "ext4_es_is_delayed (make_es lblk len pblk status) \<longleftrightarrow> status = 4"
    using assms unfolding ext4_es_is_mapped_def es_kinds t by (auto simp: fits_def)
  have p: "pblk AND mask 59 = pblk" if "status = 1 \<or> status = 2"
  proof -
    have "unat pblk < 2 ^ 59" using assms that by (auto simp: fits_def)
    then have "unat (pblk AND mask 59) = unat pblk" unfolding unat_mask59 by (rule mod_less)
    then show ?thesis by (simp only: word_unat_eq_iff)
  qed
  show "es_ok (make_es lblk len pblk status)" using assms t k p by (auto simp: es_ok_def fits_def)
  show "Some (es_val (make_es lblk len pblk status) b) = es_state lblk pblk status b" using t k p by (auto simp: es_val_def es_state_def)
  show "ext4_es_is_delayed (make_es lblk len pblk status) \<longleftrightarrow> status = 4" by (rule k)
qed

lemma emap_Some: "es_inv ei \<Longrightarrow> emap ei b = Some v \<longleftrightarrow> es_says (es_nodes ei) b v"
  unfolding emap_def by (rule es_map_Some) (simp add: es_inv_def)

lemma emap_eqI:
  assumes "es_inv ei" and "es_inv ei'" and "\<And>b v. es_says (es_nodes ei') b v \<longleftrightarrow> es_says (es_nodes ei) b v"
  shows "emap ei' = emap ei"
  unfolding emap_def using assms by (intro es_map_eqI) (simp_all add: es_inv_def)

lemma cut_map:
  assumes "es_inv ei" and "cut lblk end_blk sure ei ei'" and "end_blk = lblk + len - 1" and "0 < len"
  shows "kept_of (es_set_range lblk len (\<lambda>_. None) (emap ei)) (emap ei')" and "sure \<Longrightarrow> emap ei' = es_set_range lblk len (\<lambda>_. None) (emap ei)"
proof -
  have i: "es_inv ei'" and c: "es_says (es_nodes ei') b v \<Longrightarrow> es_says (es_nodes ei) b v \<and> \<not> (lblk \<le> b \<and> b \<le> end_blk)"
    "es_says (es_nodes ei) b v \<Longrightarrow> \<not> (lblk \<le> b \<and> b \<le> end_blk) \<Longrightarrow> sure \<or> fst v = 4 \<Longrightarrow> es_says (es_nodes ei') b v" for b v
    using assms(2) unfolding cut_def by blast+
  have r: "lblk \<le> b \<and> b < lblk + len \<longleftrightarrow> lblk \<le> b \<and> b \<le> end_blk" for b using assms(3,4) by auto
  have e: "emap ei' b = None \<and> \<not> (sure \<and> emap ei b \<noteq> None) \<and> (\<forall>p. emap ei b \<noteq> Some (4, p)) \<or> emap ei' b = emap ei b" if "\<not> (lblk \<le> b \<and> b \<le> end_blk)" for b
  proof (cases "emap ei' b")
    case None
    then have "\<not> (emap ei b = Some v \<and> (sure \<or> fst v = 4))" for v
      using c(2) [of b v] that emap_Some [OF i, of b v] emap_Some [OF assms(1), of b v] by auto
    then have x: "\<forall>v. emap ei b = Some v \<longrightarrow> \<not> sure \<and> fst v \<noteq> 4" by blast
    with None show ?thesis by (cases "emap ei b") auto
  next
    case (Some v)
    then have "emap ei b = Some v" using c(1) [of b v] emap_Some [OF i, of b v] emap_Some [OF assms(1), of b v] by blast
    with Some show ?thesis by simp
  qed
  have n: "emap ei' b = None" if "lblk \<le> b \<and> b \<le> end_blk" for b
    using c(1) [of b] that emap_Some [OF i, of b] by (cases "emap ei' b") auto
  show "kept_of (es_set_range lblk len (\<lambda>_. None) (emap ei)) (emap ei')"
    unfolding kept_of_def es_set_range_def r using e n by metis
  show "emap ei' = es_set_range lblk len (\<lambda>_. None) (emap ei)" if sure
    unfolding es_set_range_def r using e n that by (intro ext) metis
qed

lemma added_map:
  assumes "es_inv ei" and "added (make_es lblk len pblk status) ei ei'" and "fits lblk len pblk status"
    and "\<forall>b. lblk \<le> b \<longrightarrow> b < lblk + len \<longrightarrow> emap ei b = None"
  shows "emap ei' = es_set_range lblk len (es_state lblk pblk status) (emap ei)"
proof
  fix b
  have i: "es_inv ei'" by (rule addedD(1) [OF assms(2)])
  have s: "emap ei' b = Some v \<longleftrightarrow> emap ei b = Some v \<or> (lblk \<le> b \<and> b < lblk + len) \<and> es_state lblk pblk status b = Some v" for v
    using addedD(4) [OF assms(2), of b v] emap_Some [OF i, of b v] emap_Some [OF assms(1), of b v] make_es_ok(2) [OF assms(3), of b]
    by (auto simp: in_range_def)
  show "emap ei' b = es_set_range lblk len (es_state lblk pblk status) (emap ei) b"
  proof (cases "lblk \<le> b \<and> b < lblk + len")
    case True
    obtain v where "es_state lblk pblk status b = Some v" by (simp add: es_state_def)
    with True s [of v] show ?thesis by (simp add: es_set_range_def)
  next
    case False
    with s show ?thesis unfolding es_set_range_def by (metis option.exhaust)
  qed
qed

section \<open>The invariant with reservations\<close>

text \<open>The reserved blocks of the inode are the delayed blocks.\<close>

definition da_inv :: "es_inode \<Rightarrow> bool" where
  "da_inv ei \<longleftrightarrow> es_inv ei \<and> i_reserved_data_blocks ei = card (delayed_blocks (es_nodes ei))"

definition plain_sb :: "es_sb \<Rightarrow> bool" where
  "plain_sb sbi \<longleftrightarrow> rb_ok (es_rb sbi) \<and> s_cluster_bits sbi = 0 \<and> opt_delalloc sbi \<and> \<not> fc_replay sbi"

lemma plain_sbD: "plain_sb sbi \<Longrightarrow> rb_ok (es_rb sbi)" "plain_sb sbi \<Longrightarrow> s_cluster_ratio sbi = 1" "plain_sb sbi \<Longrightarrow> opt_delalloc sbi" "plain_sb sbi \<Longrightarrow> \<not> fc_replay sbi"
  by (simp_all add: plain_sb_def s_cluster_ratio_def)

lemma da_inv_dl: "es_inv ei \<Longrightarrow> da_inv ei \<longleftrightarrow> i_reserved_data_blocks ei = dl (es_nodes ei)"
  using dl_card [of "es_nodes ei"] by (simp add: da_inv_def es_inv_def)

lemma es_inv_reserved [simp]: "es_inv (ei\<lparr>i_reserved_data_blocks := n\<rparr>) = es_inv ei" "emap (ei\<lparr>i_reserved_data_blocks := n\<rparr>) = emap ei"
  by (simp_all add: es_inv_def counts_ok_def cache_ok_def emap_def)

lemma release_space:
  assumes "da_inv ei" and "es_inv ei'" and "rest_same ei ei'" and "r + dl (es_nodes ei') = dl (es_nodes ei)"
  shows "da_inv (ext4_da_release_space r ei')" and "da_inv (if r \<noteq> 0 then ext4_da_update_reserve_space r ei' else ei')"
proof -
  have n: "i_reserved_data_blocks ei' = r + dl (es_nodes ei')" using assms da_inv_dl [of ei] by (simp add: rest_same_def da_inv_def)
  show "da_inv (ext4_da_release_space r ei')" "da_inv (if r \<noteq> 0 then ext4_da_update_reserve_space r ei' else ei')"
    using n assms(2) by (auto simp: da_inv_dl ext4_da_release_space_def ext4_da_update_reserve_space_def Let_def)
qed

lemma space_frame [simp]:
  "es_nodes (ext4_da_release_space r ei) = es_nodes ei" "emap (ext4_da_release_space r ei) = emap ei"
  "es_nodes (ext4_da_update_reserve_space r ei) = es_nodes ei" "emap (ext4_da_update_reserve_space r ei) = emap ei"
  "atomic_mem (ext4_da_release_space r ei) = atomic_mem ei" "atomic_mem (ext4_da_update_reserve_space r ei) = atomic_mem ei"
  by (simp_all add: ext4_da_release_space_def ext4_da_update_reserve_space_def Let_def emap_def)

section \<open>Removing\<close>

lemma wrap_end:
  assumes "0 < len" and "lblk + len < 2 ^ 32"
  shows "(lblk + len + 2 ^ 32 - 1) mod 2 ^ 32 = lblk + len - (1::nat)"
proof -
  have "lblk + len + 2 ^ 32 - 1 = (lblk + len - 1) + (2 ^ 32 :: nat)" using assms(1) by linarith
  moreover have "lblk + len - 1 < 2 ^ 32" using assms(2) by linarith
  ultimately show ?thesis by (simp only: mod_add_self2) simp
qed

lemma remove_retry:
  assumes "plain_sb sbi" and "da_inv ei" and "0 < len" and "end_blk = lblk + len - 1"
  obtains r ei' where "remove_retry sbi lblk end_blk False 0 ei = Some (r, ei')" "es_inv ei'" "rest_same ei ei'" "r + dl (es_nodes ei') = dl (es_nodes ei)"
    "kept_of (es_set_range lblk len (\<lambda>_. None) (emap ei)) (emap ei')" "False \<notin> set (atomic_mem ei) \<longrightarrow> emap ei' = es_set_range lblk len (\<lambda>_. None) (emap ei)"
proof -
  note sb = plain_sbD [OF assms(1)]
  have inv: "es_inv ei" using assms(2) by (simp add: da_inv_def)
  have le: "lblk \<le> end_blk" using assms(3,4) by simp
  show ?thesis
  proof (cases rule: es_remove [OF sb(1) inv le, where reserved_p = "Some 0" and prealloc = False])
    case (1 r ei')
    have "remove_retry sbi lblk end_blk False 0 ei = Some (r, ei')" by (subst remove_retry.simps) (simp add: 1(1))
    then show ?thesis
      using that [of r ei'] 1(2,3) cut_map [OF inv 1(2) assms(4,3)] sb by (simp add: freed_def cut_def)
  next
    case (2 ei1)
    show ?thesis
    proof (cases rule: es_remove [OF sb(1) 2(3) le, where reserved_p = "Some 0" and prealloc = True])
      case (1 r ei')
      have m: "emap ei1 = emap ei" using 2(4) by (simp add: emap_def)
      have "remove_retry sbi lblk end_blk False 0 ei = Some (r, ei')"
        by (subst remove_retry.simps) (use 2(1) in simp, subst remove_retry.simps, use 1(1) in simp)
      then show ?thesis
        using that [of r ei'] 1(2,3) 2(4,5) cut_map [OF 2(3) 1(2) assms(4,3)] sb m rest_same_trans [OF 2(5)] by (simp add: freed_def cut_def)
    qed simp
  qed
qed

lemma es_remove_extent_spec:
  assumes "plain_sb sbi" and "da_inv ei" and "0 < len" and "lblk + len < 2 ^ 32"
  obtains ei' where "ext4_es_remove_extent sbi lblk len ei = Some ei'" "da_inv ei'"
    "kept_of (es_set_range lblk len (\<lambda>_. None) (emap ei)) (emap ei')" "False \<notin> set (atomic_mem ei) \<longrightarrow> emap ei' = es_set_range lblk len (\<lambda>_. None) (emap ei)"
    "set (atomic_mem ei') \<subseteq> set (atomic_mem ei)"
proof -
  obtain r ei' where r: "remove_retry sbi lblk (lblk + len - 1) False 0 ei = Some (r, ei')" "es_inv ei'" "rest_same ei ei'"
    "r + dl (es_nodes ei') = dl (es_nodes ei)" "kept_of (es_set_range lblk len (\<lambda>_. None) (emap ei)) (emap ei')"
    "False \<notin> set (atomic_mem ei) \<longrightarrow> emap ei' = es_set_range lblk len (\<lambda>_. None) (emap ei)"
    by (rule remove_retry [OF assms(1-3) refl])
  have "ext4_es_remove_extent sbi lblk len ei = Some (ext4_da_release_space r ei')"
    using plain_sbD(4) [OF assms(1)] assms(3) r(1) unfolding ext4_es_remove_extent_def wrap_end [OF assms(3,4)] by (simp add: Let_def)
  then show ?thesis
    by (rule that) (use release_space(1) [OF assms(2) r(2-4)] r in \<open>auto simp: rest_same_def\<close>)
qed

section \<open>Inserting\<close>

lemma apart_of_none:
  assumes "es_inv ei" and "\<forall>b. lblk \<le> b \<longrightarrow> b < lblk + len \<longrightarrow> emap ei b = None" and "es_lblk newes = lblk" and "es_len newes = len" and "0 < len"
  shows "\<forall>x\<in>set (es_nodes ei). apart newes x"
proof
  fix x assume x: "x \<in> set (es_nodes ei)"
  have "0 < es_len x" using assms(1) x by (auto simp: es_inv_def wf_nodes_def es_ok_def)
  show "apart newes x"
  proof (rule ccontr)
    assume "\<not> apart newes x"
    then have r: "es_lblk x < lblk + len" "lblk < es_lblk x + es_len x" using assms(3,4) by (auto simp: apart_def)
    define b where "b = max lblk (es_lblk x)"
    have "in_range b x" "lblk \<le> b" "b < lblk + len" using r \<open>0 < es_len x\<close> assms(5) by (auto simp: b_def in_range_def)
    with x emap_Some [OF assms(1), of b "es_val x b"] assms(2) show False by (auto simp: es_says_def)
  qed
qed

text \<open>Inserting where nothing is known.\<close>

lemma insert_none:
  assumes "plain_sb sbi" and "es_inv ei" and "\<forall>b. lblk \<le> b \<longrightarrow> b < lblk + len \<longrightarrow> emap ei b = None" and "fits lblk len pblk status"
  obtains (ins) ei' where "es_insert_extent sbi (make_es lblk len pblk status) prealloc ei = Some (0, ei')" "es_inv ei'" "rest_same ei ei'"
      "emap ei' = es_set_range lblk len (es_state lblk pblk status) (emap ei)"
  | (nomem) ms where "es_insert_extent sbi (make_es lblk len pblk status) prealloc ei = Some (- ENOMEM, ei\<lparr>atomic_mem := ms\<rparr>)"
      "\<not> prealloc" "atomic_mem ei = False # ms"
proof -
  have w: "wf_nodes (es_nodes ei)" "counts_ok ei" using assms(2) by (auto simp: es_inv_def)
  have ap: "\<forall>x\<in>set (es_nodes ei). apart (make_es lblk len pblk status) x"
    by (rule apart_of_none [OF assms(2,3)]) (use assms(4) in \<open>auto simp: fits_def\<close>)
  show ?thesis
  proof (cases rule: es_insert [OF plain_sbD(1) [OF assms(1)] w make_es_ok(1) [OF assms(4)] ap, where prealloc = prealloc])
    case (1 ei')
    show ?thesis
      by (rule ins [OF 1(1)]) (use addedD(1-3) [OF 1(2)] added_map [OF assms(2) 1(2) assms(4,3)] in \<open>auto simp: rest_same_def other_def\<close>)
  next
    case (2 ms)
    then show ?thesis by (rule nomem)
  qed
qed

lemma cut_none:
  assumes "es_inv ei" and "cut lblk end_blk sure ei ei'" and "end_blk = lblk + len - 1" and "lblk \<le> b" and "b < lblk + len"
  shows "emap ei' b = None"
  using cut_map(1) [OF assms(1-3)] assms(4,5) by (auto simp: kept_of_def es_set_range_def)

lemma es_set_range_twice [simp]: "es_set_range lblk len x (es_set_range lblk len y m) = es_set_range lblk len x m"
  by (auto simp: es_set_range_def)

text \<open>What an insertion leaves: the new state in the range, or nothing known of it.\<close>

definition inserted :: "nat \<Rightarrow> nat \<Rightarrow> 64 word \<Rightarrow> 64 word \<Rightarrow> es_inode \<Rightarrow> es_inode \<Rightarrow> bool" where
  "inserted lblk len pblk status ei ei' \<longleftrightarrow> da_inv ei' \<and> kept_of (es_set_range lblk len (es_state lblk pblk status) (emap ei)) (emap ei') \<and>
     (False \<notin> set (atomic_mem ei) \<longrightarrow> emap ei' = es_set_range lblk len (es_state lblk pblk status) (emap ei)) \<and> set (atomic_mem ei') \<subseteq> set (atomic_mem ei)"

lemma kept_none:
  assumes "kept_of (es_set_range lblk len (\<lambda>_. None) m) m'" and "status \<noteq> 4"
  shows "kept_of (es_set_range lblk len (es_state lblk pblk status) m) m'"
proof (unfold kept_of_def, rule allI)
  fix b
  have "m' b = None \<and> (\<forall>p. es_set_range lblk len (\<lambda>_. None) m b \<noteq> Some (4, p)) \<or> m' b = es_set_range lblk len (\<lambda>_. None) m b"
    using assms(1) unfolding kept_of_def by blast
  then show "m' b = None \<and> (\<forall>p. es_set_range lblk len (es_state lblk pblk status) m b \<noteq> Some (4, p)) \<or> m' b = es_set_range lblk len (es_state lblk pblk status) m b"
    using assms(2) by (cases "lblk \<le> b \<and> b < lblk + len") (auto simp: es_set_range_def es_state_def)
qed

lemma new_dl:
  assumes "es_inv ei" and "es_inv ei'" and "fits lblk len pblk status" and "status \<noteq> 4"
    and "\<forall>b. lblk \<le> b \<longrightarrow> b < lblk + len \<longrightarrow> emap ei b = None" and "emap ei' = es_set_range lblk len (es_state lblk pblk status) (emap ei)"
  shows "dl (es_nodes ei') = dl (es_nodes ei)"
proof -
  have "delayed_blocks (es_nodes ei') = delayed_blocks (es_nodes ei)"
  proof (rule set_eqI)
    fix b
    have "(\<exists>p. emap ei' b = Some (4, p)) \<longleftrightarrow> (\<exists>p. emap ei b = Some (4, p))"
      using assms(4) assms(5) [rule_format, of b] unfolding assms(6) by (auto simp: es_set_range_def es_state_def)
    then show "b \<in> delayed_blocks (es_nodes ei') \<longleftrightarrow> b \<in> delayed_blocks (es_nodes ei)"
      unfolding delayed_blocks_def using emap_Some [OF assms(1), of b] emap_Some [OF assms(2), of b] by fastforce
  qed
  then show ?thesis using dl_card [of "es_nodes ei"] dl_card [of "es_nodes ei'"] assms(1,2) by (simp add: es_inv_def)
qed

lemma attempt_ok:
  assumes sb: "plain_sb sbi" and inv: "da_inv ei" and fits: "fits lblk len pblk status" and st: "status \<noteq> 4"
    and e: "e1 \<longleftrightarrow> es1 \<or> err1 \<noteq> 0" "e2 \<longleftrightarrow> es2 \<or> err1 \<noteq> 0 \<or> err2 \<noteq> 0"
  obtains (again) ei' where "insert_attempt sbi (make_es lblk len pblk status) False ((err1, err2, 0), (es1, es2, pr), 0, ei) =
      Some ((- ENOMEM, err2, 0), (e1, e2, pr), 0, ei')" "\<not> e1" "da_inv ei'" "emap ei' = emap ei" "rest_same ei ei'"
  | (ready) r ei' where "insert_attempt sbi (make_es lblk len pblk status) False ((err1, err2, 0), (es1, es2, pr), 0, ei) =
      Some ((0, 0, 0), (False, False, pr), r, ei')" "inserted lblk len pblk status ei ei'"
proof -
  let ?new = "make_es lblk len pblk status" and ?last = "lblk + len - 1"
  have ei: "es_inv ei" using inv by (simp add: da_inv_def)
  have len: "0 < len" "lblk \<le> ?last" using fits by (auto simp: fits_def)
  have mk: "\<not> ext4_es_must_keep ?new" using make_es_ok(3) [OF fits] st by (simp add: ext4_es_must_keep_def)
  show ?thesis
  proof (cases rule: es_remove [OF plain_sbD(1) [OF sb] ei len(2), where reserved_p = "Some 0" and prealloc = e1])
    case (1 r ei1)
    have i1: "es_inv ei1" "rest_same ei ei1" using 1(2) by (auto simp: cut_def)
    have r: "r + dl (es_nodes ei1) = dl (es_nodes ei)" using 1(3) plain_sbD [OF sb] by (simp add: freed_def)
    have r32: "r mod 2 ^ 32 = r" using r dl_less [of "es_nodes ei"] ei by (simp add: es_inv_def)
    note cm = cut_map [OF ei 1(2) refl len(1)]
    have none: "\<forall>b. lblk \<le> b \<longrightarrow> b < lblk + len \<longrightarrow> emap ei1 b = None" using cut_none [OF ei 1(2) refl] by blast
    have att: "insert_attempt sbi ?new False ((err1, err2, 0), (es1, es2, pr), 0, ei) = Some ((0, 0, 0), (False, False, pr), r,
        if r \<noteq> 0 then ext4_da_update_reserve_space r ei2 else ei2)" if "es_insert_extent sbi ?new e2 ei1 = Some (q, ei2)" "q = 0 \<or> q = - ENOMEM" for q ei2
      using that 1(1) mk r32 e by (auto simp: insert_attempt_def Let_def)
    show ?thesis
    proof (cases rule: insert_none [OF sb i1(1) none fits, where prealloc = e2])
      case (1 ei2)
      have d: "dl (es_nodes ei2) = dl (es_nodes ei1)" by (rule new_dl [OF i1(1) 1(2) fits st none 1(4)])
      have rs: "rest_same ei ei2" by (rule rest_same_trans [OF i1(2) 1(3)])
      let ?u = "if r \<noteq> 0 then ext4_da_update_reserve_space r ei2 else ei2"
      have "emap ?u = es_set_range lblk len (es_state lblk pblk status) (emap ei1)" using 1(4) by simp
      then have "inserted lblk len pblk status ei ?u"
        using release_space(2) [OF inv 1(2) rs] d r cm kept_of_set [OF cm(1), of lblk len "es_state lblk pblk status"] rs
        by (auto simp: inserted_def rest_same_def)
      with att [OF 1(1)] show ?thesis using ready by blast
    next
      case (2 ms)
      let ?e2 = "ei1\<lparr>atomic_mem := ms\<rparr>"
      have e2: "es_inv ?e2" "rest_same ei ?e2" "emap ?e2 = emap ei1" using i1 2(3) by (auto simp: es_inv_def counts_ok_def cache_ok_def rest_same_def emap_def)
      let ?u = "if r \<noteq> 0 then ext4_da_update_reserve_space r ?e2 else ?e2"
      have "emap ?u = emap ei1" using e2(3) by simp
      moreover have "False \<in> set (atomic_mem ei)" using i1(2) 2(3) by (auto simp: rest_same_def)
      ultimately have "inserted lblk len pblk status ei ?u"
        using release_space(2) [OF inv e2(1,2)] r kept_none [OF cm(1) st] e2(2) by (auto simp: inserted_def rest_same_def)
      with att [OF 2(1)] show ?thesis using ready by blast
    qed
  next
    case (2 ei1)
    have "insert_attempt sbi ?new False ((err1, err2, 0), (es1, es2, pr), 0, ei) = Some ((- ENOMEM, err2, 0), (e1, e2, pr), 0, ei1)"
      using 2(1) e by (simp add: insert_attempt_def Let_def)
    moreover have "da_inv ei1" using inv 2(3-5) by (simp add: da_inv_def rest_same_def)
    ultimately show ?thesis using again 2(2,4,5) by (simp add: emap_def)
  qed
qed

lemma es_insert_extent_spec:
  assumes "plain_sb sbi" and "da_inv ei" and "fits lblk len pblk status" and "status \<noteq> 4"
  shows "\<exists>ei'. ext4_es_insert_extent sbi lblk len pblk status ei = Some ei' \<and> inserted lblk len pblk status ei ei'"
proof -
  let ?new = "make_es lblk len pblk status"
  have len: "0 < len" "lblk + len < 2 ^ 32" using assms(3) by (auto simp: fits_def)
  have un: "ext4_es_insert_extent sbi lblk len pblk status ei = insert_retry sbi ?new False ((0, 0, 0), (False, False, False), 0, ei)"
    using len plain_sbD [OF assms(1)] unfolding ext4_es_insert_extent_def wrap_end [OF len] by (auto simp: Let_def)
  show ?thesis
  proof (cases rule: attempt_ok [OF assms, where ?e1.0 = False and ?es1.0 = False and ?err1.0 = 0 and ?e2.0 = False and ?es2.0 = False and ?err2.0 = 0 and pr = False])
    case (3 ei1)
    have i1: "inserted lblk len pblk status ei1 ei' \<Longrightarrow> inserted lblk len pblk status ei ei'" for ei'
      using 3(4,5) by (auto simp: inserted_def rest_same_def)
    show ?thesis
    proof (cases rule: attempt_ok [OF assms(1) 3(3) assms(3,4), where ?e1.0 = True and ?es1.0 = False and ?err1.0 = "- ENOMEM" and ?e2.0 = True and ?es2.0 = False and ?err2.0 = 0 and pr = False])
      case (4 r ei')
      have "insert_retry sbi ?new False ((0, 0, 0), (False, False, False), 0, ei) = Some ei'"
        by (subst insert_retry.simps) (use 3(1) in simp, subst insert_retry.simps, use 4(1) in simp)
      with i1 [OF 4(2)] show ?thesis by (simp add: un)
    qed simp_all
  next
    case (4 r ei')
    have "insert_retry sbi ?new False ((0, 0, 0), (False, False, False), 0, ei) = Some ei'"
      by (subst insert_retry.simps) (use 4(1) in simp)
    with 4(2) show ?thesis by (simp add: un)
  qed simp_all
qed

section \<open>Delayed blocks\<close>

lemma kept_delayed: "kept_of m m' \<Longrightarrow> m' b = Some (4, p) \<longleftrightarrow> m b = Some (4, p)"
  unfolding kept_of_def by (metis option.distinct(1))

lemma es_remove_nothing:
  assumes "es_inv ei" and "lblk \<le> end_blk" and "\<forall>b. lblk \<le> b \<longrightarrow> b \<le> end_blk \<longrightarrow> emap ei b = None"
  shows "es_remove_extent sbi lblk end_blk None prealloc ei = Some (0, 0, ei)"
proof -
  have wf: "wf_nodes (es_nodes ei)" using assms(1) by (simp add: es_inv_def)
  have search: "es_tree_search (i_es_tree ei) lblk = Some (find (\<lambda>x. lblk < es_lblk x + es_len x) (es_nodes ei))"
    using es_tree_search_find wf by (simp add: es_nodes_def)
  show ?thesis
  proof (cases "find (\<lambda>x. lblk < es_lblk x + es_len x) (es_nodes ei)")
    case None
    then show ?thesis by (simp add: es_remove_extent_def search)
  next
    case (Some es)
    then have es: "es \<in> set (es_nodes ei)" "lblk < es_lblk es + es_len es" by (auto dest: find_SomeD)
    have "end_blk < es_lblk es"
    proof (rule ccontr)
      assume "\<not> end_blk < es_lblk es"
      define b where "b = max lblk (es_lblk es)"
      have "in_range b es" "lblk \<le> b" "b \<le> end_blk"
        using es(2) \<open>\<not> end_blk < es_lblk es\<close> assms(2) wf_nodes_ok [OF wf es(1)] by (auto simp: b_def in_range_def es_ok_def)
      with es(1) emap_Some [OF assms(1), of b "es_val es b"] assms(3) show False by (auto simp: es_says_def)
    qed
    then show ?thesis by (simp add: es_remove_extent_def search Some)
  qed
qed

definition delay :: "nat \<Rightarrow> nat \<Rightarrow> es_inode \<Rightarrow> es_inode \<Rightarrow> bool" where
  "delay lblk len ei ei' \<longleftrightarrow> es_inv ei' \<and> rest_same ei ei' \<and> kept_of (es_set_range lblk len (es_state lblk (- 1) 4) (emap ei)) (emap ei') \<and>
     (False \<notin> set (atomic_mem ei) \<longrightarrow> emap ei' = es_set_range lblk len (es_state lblk (- 1) 4) (emap ei))"

text \<open>One attempt: the removal or the insertion may have to be repeated.\<close>

lemma delayed_attempt_ok:
  assumes sb: "plain_sb sbi" and inv: "es_inv ei" and fits: "fits lblk len (- 1) 4"
    and e: "e1 \<longleftrightarrow> es1 \<or> err1 \<noteq> 0" "e2 \<longleftrightarrow> es2 \<or> err1 \<noteq> 0 \<or> err2 \<noteq> 0"
  obtains (again) ei' where "delayed_attempt sbi (make_es lblk len (- 1) 4) False False ((err1, err2, 0), (es1, es2, pr1, pr2), ei) =
      Some ((- ENOMEM, err2, 0), (e1, e2, pr1, pr2), ei')" "\<not> e1" "es_inv ei'" "emap ei' = emap ei" "rest_same ei ei'"
  | (nomem) ei' where "delayed_attempt sbi (make_es lblk len (- 1) 4) False False ((err1, err2, 0), (es1, es2, pr1, pr2), ei) =
      Some ((0, - ENOMEM, 0), (False, e2, pr1, pr2), ei')" "\<not> e2" "es_inv ei'" "rest_same ei ei'" "False \<in> set (atomic_mem ei)"
      "kept_of (es_set_range lblk len (\<lambda>_. None) (emap ei)) (emap ei')"
  | (ready) ei' where "delayed_attempt sbi (make_es lblk len (- 1) 4) False False ((err1, err2, 0), (es1, es2, pr1, pr2), ei) =
      Some ((0, 0, 0), (False, False, pr1, pr2), ei')" "delay lblk len ei ei'"
proof -
  let ?new = "make_es lblk len (- 1) 4" and ?last = "lblk + len - 1"
  have len: "0 < len" "lblk \<le> ?last" using fits by (auto simp: fits_def)
  show ?thesis
  proof (cases rule: es_remove [OF plain_sbD(1) [OF sb] inv len(2), where reserved_p = None and prealloc = e1])
    case (1 r ei1)
    have i1: "es_inv ei1" "rest_same ei ei1" using 1(2) by (auto simp: cut_def)
    note cm = cut_map [OF inv 1(2) refl len(1)]
    have none: "\<forall>b. lblk \<le> b \<longrightarrow> b < lblk + len \<longrightarrow> emap ei1 b = None" using cut_none [OF inv 1(2) refl] by blast
    have att: "delayed_attempt sbi ?new False False ((err1, err2, 0), (es1, es2, pr1, pr2), ei) =
        Some ((0, q, 0), (False, if q = 0 then False else e2, pr1, pr2), ei2)" if "es_insert_extent sbi ?new e2 ei1 = Some (q, ei2)" for q ei2
      using that 1(1) e by (auto simp: delayed_attempt_def Let_def)
    show ?thesis
    proof (cases rule: insert_none [OF sb i1(1) none fits, where prealloc = e2])
      case (1 ei2)
      have "delay lblk len ei ei2"
        using 1(2,4) rest_same_trans [OF i1(2) 1(3)] kept_of_set [OF cm(1), of lblk len "es_state lblk (- 1) 4"] cm(2)
        by (auto simp: delay_def)
      with att [OF 1(1)] show ?thesis using ready by simp
    next
      case (2 ms)
      let ?e2 = "ei1\<lparr>atomic_mem := ms\<rparr>"
      have e2: "es_inv ?e2" "rest_same ei ?e2" "emap ?e2 = emap ei1" using i1 2(3) by (auto simp: es_inv_def counts_ok_def cache_ok_def rest_same_def emap_def)
      moreover have "False \<in> set (atomic_mem ei)" using i1(2) 2(3) by (auto simp: rest_same_def)
      ultimately show ?thesis using nomem att [OF 2(1)] 2(2) cm(1) by simp
    qed
  next
    case (2 ei1)
    have "delayed_attempt sbi ?new False False ((err1, err2, 0), (es1, es2, pr1, pr2), ei) = Some ((- ENOMEM, err2, 0), (e1, e2, pr1, pr2), ei1)"
      using 2(1) e by (simp add: delayed_attempt_def Let_def)
    then show ?thesis using again 2(2-5) by (simp add: emap_def)
  qed
qed

lemma delay_after_nomem:
  assumes "es_inv ei" and "es_inv ei1" and "rest_same ei ei1" and "False \<in> set (atomic_mem ei)" and "kept_of (es_set_range lblk len (\<lambda>_. None) (emap ei)) (emap ei1)"
    and "delay lblk len ei1 ei'"
  shows "delay lblk len ei ei'"
proof -
  have "kept_of (es_set_range lblk len (es_state lblk (- 1) 4) (emap ei)) (es_set_range lblk len (es_state lblk (- 1) 4) (emap ei1))"
    using kept_of_set [OF assms(5), of lblk len "es_state lblk (- 1) 4"] by simp
  with assms(3,4,6) show ?thesis by (auto simp: delay_def intro: kept_of_trans rest_same_trans)
qed

lemma es_insert_delayed_spec:
  assumes sb: "plain_sb sbi" and inv: "es_inv ei" and fits: "fits lblk len (- 1) 4"
  shows "\<exists>ei'. ext4_es_insert_delayed_extent sbi lblk len False False ei = Some ei' \<and> delay lblk len ei ei'"
proof -
  let ?new = "make_es lblk len (- 1) 4"
  have len: "0 < len" "lblk \<le> lblk + len - 1" using fits by (auto simp: fits_def)
  have un: "ext4_es_insert_delayed_extent sbi lblk len False False ei = delayed_retry sbi ?new False False ((0, 0, 0), (False, False, False, False), ei)"
    using len plain_sbD [OF sb] by (simp add: ext4_es_insert_delayed_extent_def EXTENT_STATUS_DELAYED_def)
  show ?thesis
  proof (cases rule: delayed_attempt_ok [OF assms, where ?e1.0 = False and ?es1.0 = False and ?err1.0 = 0 and ?e2.0 = False and ?es2.0 = False and ?err2.0 = 0
      and ?pr1.0 = False and ?pr2.0 = False])
    case (3 ei1)
    have i1: "delay lblk len ei1 ei' \<Longrightarrow> delay lblk len ei ei'" for ei' using 3(4,5) by (auto simp: delay_def rest_same_def)
    show ?thesis
    proof (cases rule: delayed_attempt_ok [OF sb 3(3) fits, where ?e1.0 = True and ?es1.0 = False and ?err1.0 = "- ENOMEM" and ?e2.0 = True and ?es2.0 = False
        and ?err2.0 = 0 and ?pr1.0 = False and ?pr2.0 = False])
      case (5 ei')
      have "delayed_retry sbi ?new False False ((0, 0, 0), (False, False, False, False), ei) = Some ei'"
        by (subst delayed_retry.simps) (use 3(1) in simp, subst delayed_retry.simps, use 5(1) in simp)
      with i1 [OF 5(2)] show ?thesis by (simp add: un)
    qed simp_all
  next
    case (4 ei1)
    have none: "\<forall>b. lblk \<le> b \<longrightarrow> b < lblk + len \<longrightarrow> emap ei1 b = None"
      using 4(6) by (auto simp: kept_of_def es_set_range_def)
    have "es_remove_extent sbi lblk (lblk + len - 1) None False ei1 = Some (0, 0, ei1)"
      by (rule es_remove_nothing [OF 4(3) len(2)]) (use none len in auto)
    then have at: "delayed_attempt sbi ?new False False ((0, - ENOMEM, 0), (False, False, False, False), ei1) = Some ((0, 0, 0), (False, False, False, False), ei2)"
      if "es_insert_extent sbi ?new True ei1 = Some (0, ei2)" for ei2
      using that by (auto simp: delayed_attempt_def Let_def)
    show ?thesis
    proof (cases rule: insert_none [OF sb 4(3) none fits, where prealloc = True])
      case (1 ei')
      have "delayed_retry sbi ?new False False ((0, 0, 0), (False, False, False, False), ei) = Some ei'"
        by (subst delayed_retry.simps) (use 4(1) in simp, subst delayed_retry.simps, use at [OF 1(1)] in simp)
      moreover have "delay lblk len ei ei'" by (rule delay_after_nomem [OF inv 4(3-6)]) (use 1 in \<open>simp add: delay_def\<close>)
      ultimately show ?thesis by (simp add: un)
    qed simp
  next
    case (5 ei')
    have "delayed_retry sbi ?new False False ((0, 0, 0), (False, False, False, False), ei) = Some ei'"
      by (subst delayed_retry.simps) (use 5(1) in simp)
    with 5(2) show ?thesis by (simp add: un)
  qed simp_all
qed

text \<open>Reserving space for blocks that are not delayed yet and making them delayed.\<close>

lemma insert_delayed_blocks_spec:
  assumes sb: "plain_sb sbi" and inv: "da_inv ei" and fits: "fits lblk len (- 1) 4"
    and new: "\<forall>b p. lblk \<le> b \<longrightarrow> b < lblk + len \<longrightarrow> emap ei b \<noteq> Some (4, p)"
  shows "\<exists>ei'. ext4_insert_delayed_blocks sbi clu_mapped 0 lblk len ei = Some (0, ei') \<and> da_inv ei' \<and>
    kept_of (es_set_range lblk len (es_state lblk (- 1) 4) (emap ei)) (emap ei') \<and>
    (False \<notin> set (atomic_mem ei) \<longrightarrow> emap ei' = es_set_range lblk len (es_state lblk (- 1) 4) (emap ei)) \<and> set (atomic_mem ei') \<subseteq> set (atomic_mem ei)"
proof -
  define e1 where "e1 = ei\<lparr>i_reserved_data_blocks := (i_reserved_data_blocks ei + len) mod 2 ^ 32\<rparr>"
  have i1: "es_inv e1" "emap e1 = emap ei" "atomic_mem e1 = atomic_mem ei" using inv by (simp_all add: e1_def da_inv_def)
  obtain ei' where d: "ext4_es_insert_delayed_extent sbi lblk len False False e1 = Some ei'" "delay lblk len e1 ei'"
    using es_insert_delayed_spec [OF sb i1(1) fits] by blast
  have e': "es_inv ei'" "kept_of (es_set_range lblk len (es_state lblk (- 1) 4) (emap ei)) (emap ei')" "rest_same e1 ei'"
    using d(2) i1 by (auto simp: delay_def)
  have inv0: "es_inv ei" using inv by (simp add: da_inv_def)
  have w: "wf_nodes (es_nodes ei)" "wf_nodes (es_nodes ei')" using inv0 e'(1) by (auto simp: es_inv_def)
  have "delayed_blocks (es_nodes ei') = {lblk..<lblk + len} \<union> delayed_blocks (es_nodes ei)"
  proof (rule set_eqI)
    fix b
    have "b \<in> delayed_blocks (es_nodes ei') \<longleftrightarrow> (\<exists>p. emap ei' b = Some (4, p))"
      unfolding delayed_blocks_def using emap_Some [OF e'(1), of b] by fastforce
    also have "\<dots> \<longleftrightarrow> (\<exists>p. es_set_range lblk len (es_state lblk (- 1) 4) (emap ei) b = Some (4, p))" using kept_delayed [OF e'(2)] by simp
    also have "\<dots> \<longleftrightarrow> b \<in> {lblk..<lblk + len} \<or> (\<exists>p. emap ei b = Some (4, p))" using new by (auto simp: es_set_range_def es_state_def)
    also have "(\<exists>p. emap ei b = Some (4, p)) \<longleftrightarrow> b \<in> delayed_blocks (es_nodes ei)"
      unfolding delayed_blocks_def using emap_Some [OF inv0, of b] by fastforce
    finally show "b \<in> delayed_blocks (es_nodes ei') \<longleftrightarrow> b \<in> {lblk..<lblk + len} \<union> delayed_blocks (es_nodes ei)" by simp
  qed
  moreover have "{lblk..<lblk + len} \<inter> delayed_blocks (es_nodes ei) = {}"
    using new emap_Some [OF inv0] by (fastforce simp: delayed_blocks_def)
  ultimately have c: "card (delayed_blocks (es_nodes ei')) = len + card (delayed_blocks (es_nodes ei))"
    using dl_card [OF w(1)] by (simp add: card_Un_disjoint)
  then have "i_reserved_data_blocks ei' = card (delayed_blocks (es_nodes ei'))"
    using e'(3) inv dl_card [OF w(2)] dl_less [OF w(2)] by (simp add: rest_same_def e1_def da_inv_def)
  then have "da_inv ei'" using e'(1) by (simp add: da_inv_def)
  moreover have "ext4_insert_delayed_blocks sbi clu_mapped 0 lblk len ei = Some (0, ei')"
    using d(1) plain_sbD(2) [OF sb] by (simp add: ext4_insert_delayed_blocks_def ext4_da_reserve_space_def e1_def Let_def)
  ultimately show ?thesis using e'(2,3) d(2) i1 by (auto simp: delay_def rest_same_def)
qed

section \<open>Looking up\<close>

lemma change_same:
  assumes "es_inv ei" and "es \<in> set (es_nodes ei)" and "es_lblk es' = es_lblk es" and "es_len es' = es_len es"
    and "ext4_es_type es' = ext4_es_type es" and "ext4_es_pblock es' = ext4_es_pblock es"
  shows "es_inv (change_es es es' ei)" and "emap (change_es es es' ei) = emap ei" and "rest_same ei (change_es es es' ei)"
    and "dl (es_nodes (change_es es es' ei)) = dl (es_nodes ei)"
proof -
  obtain as bs where n: "es_nodes ei = as @ es # bs" using assms(2) by (metis split_list)
  have wf: "wf_nodes (es_nodes ei)" and c: "counts_ok ei" and ca: "cache_ok ei" using assms(1) by (auto simp: es_inv_def)
  have n1: "es_nodes (change_es es es' ei) = as @ es' # bs" by (rule es_nodes_change [OF n wf])
  have mp: "ext4_es_is_mapped es' = ext4_es_is_mapped es" "ext4_es_is_delayed es' = ext4_es_is_delayed es" by (rule same_type, rule assms(5))+
  have ok: "es_ok es'" using wf n assms(3-6) mp by (simp add: es_ok_def)
  have w1: "wf_nodes (as @ es' # bs)" using wf n ok assms(3,4) by simp
  have v: "in_range b es' = in_range b es" "es_val es' b = es_val es b" for b using assms(3-6) mp by (simp_all add: in_range_def es_val_def)
  show i: "es_inv (change_es es es' ei)"
    using w1 n1 counts_change [OF c n n1 assms(5)] ca n assms(3) by (auto simp: es_inv_def cache_ok_def)
  show "emap (change_es es es' ei) = emap ei" by (rule emap_eqI [OF assms(1) i]) (simp add: n n1 v)
  show "rest_same ei (change_es es es' ei)" by (rule rest_sameI) simp_all
  show "dl (es_nodes (change_es es es' ei)) = dl (es_nodes ei)" by (simp add: n n1 dlen_def mp assms(4))
qed

lemma node_atD: "node_at ei k = Some es \<Longrightarrow> es \<in> set (es_nodes ei) \<and> es_lblk es = k"
  unfolding node_at_def by (drule find_SomeD) simp

lemma cached_esD: "cached_es ei b = Some es \<Longrightarrow> es \<in> set (es_nodes ei) \<and> in_range b es"
  by (auto simp: cached_es_def dest: node_atD split: option.splits if_splits bind_splits)

text \<open>The entry with a block, from the cached entry or from the tree.\<close>

lemma find_entry:
  assumes "es_inv ei"
  shows "(case cached_es ei b of Some es \<Rightarrow> Some (True, Some es) | None \<Rightarrow> es_walk (i_es_tree ei) b None) =
    (case find (in_range b) (es_nodes ei) of Some es \<Rightarrow> Some (True, Some es)
     | None \<Rightarrow> es_walk (i_es_tree ei) b None)" and "find (in_range b) (es_nodes ei) = None \<Longrightarrow> \<exists>l. es_walk (i_es_tree ei) b None = Some (False, l)"
proof -
  have wf: "wf_nodes (inorder (i_es_tree ei))" using assms by (simp add: es_inv_def es_nodes_def)
  have uniq: "x = y" if "x \<in> set (es_nodes ei)" "y \<in> set (es_nodes ei)" "in_range b x" "in_range b y" for x y
    using es_walk_found [OF wf, of x b None] es_walk_found [OF wf, of y b None] that by (simp add: es_nodes_def)
  show "(case cached_es ei b of Some es \<Rightarrow> Some (True, Some es) | None \<Rightarrow> es_walk (i_es_tree ei) b None) =
    (case find (in_range b) (es_nodes ei) of Some es \<Rightarrow> Some (True, Some es) | None \<Rightarrow> es_walk (i_es_tree ei) b None)"
  proof (cases "find (in_range b) (es_nodes ei)")
    case None
    then have "cached_es ei b = None" using cached_esD [of ei b] by (cases "cached_es ei b") (auto simp: find_None_iff)
    with None show ?thesis by simp
  next
    case (Some es)
    then have es: "es \<in> set (es_nodes ei)" "in_range b es" by (auto dest: find_SomeD)
    have "es_walk (i_es_tree ei) b None = Some (True, Some es)" using es_walk_found [OF wf _ es(2)] es(1) by (simp add: es_nodes_def)
    moreover have "es' = es" if "cached_es ei b = Some es'" for es' using cached_esD [OF that] uniq es by blast
    ultimately show ?thesis using Some by (cases "cached_es ei b") auto
  qed
  show "\<exists>l. es_walk (i_es_tree ei) b None = Some (False, l)" if "find (in_range b) (es_nodes ei) = None"
    using es_walk_missed [OF wf, of b None] that by (auto simp: find_None_iff es_nodes_def split: if_splits)
qed

lemma lookup_spec:
  assumes "plain_sb sbi" and "da_inv ei"
  obtains (missing) "ext4_es_lookup_extent sbi b ei = Some (None, ei)" "emap ei b = None"
  | (found) es as bs ei' where "ext4_es_lookup_extent sbi b ei = Some (Some (es, case bs of [] \<Rightarrow> 0 | y # _ \<Rightarrow> es_lblk y), ei')" "es_nodes ei = as @ es # bs"
      "in_range b es" "emap ei b = Some (es_val es b)" "da_inv ei'" "emap ei' = emap ei" "rest_same ei ei'"
proof (cases "find (in_range b) (es_nodes ei)")
  case None
  have inv: "es_inv ei" using assms(2) by (simp add: da_inv_def)
  have "ext4_es_lookup_extent sbi b ei = Some (None, ei)"
    using find_entry [OF inv, of b] None plain_sbD(4) [OF assms(1)] by (auto simp: ext4_es_lookup_extent_def)
  then show ?thesis by (rule missing) (simp add: emap_def es_map_def None)
next
  case (Some es)
  have inv: "es_inv ei" using assms(2) by (simp add: da_inv_def)
  have es: "es \<in> set (es_nodes ei)" "in_range b es" using Some by (auto dest: find_SomeD)
  obtain as bs where n: "es_nodes ei = as @ es # bs" using es(1) by (metis split_list)
  have nx: "rb_next (i_es_tree ei) es = (case bs of [] \<Rightarrow> None | z # _ \<Rightarrow> Some z)"
  proof (rule rb_next_mid)
    show "inorder (i_es_tree ei) = as @ es # bs" using n by (simp add: es_nodes_def)
    show "distinct (inorder (i_es_tree ei))" using wf_distinct [of "es_nodes ei"] inv by (simp only: es_nodes_def es_inv_def)
  qed
  let ?e = "if ext4_es_is_referenced es then ei else change_es es (ext4_es_set_referenced es) ei"
  note cs = change_same [OF inv es(1), of "ext4_es_set_referenced es"]
  have l: "ext4_es_lookup_extent sbi b ei = Some (Some (es, case bs of [] \<Rightarrow> 0 | y # _ \<Rightarrow> es_lblk y), ?e)"
    unfolding ext4_es_lookup_extent_def find_entry(1) [OF inv] Some using plain_sbD(4) [OF assms(1)] nx by (auto simp: Let_def split: list.split)
  have d: "da_inv ?e" using assms(2) cs inv da_inv_dl [of ei] da_inv_dl [of ?e] by (auto simp: rest_same_def)
  show ?thesis by (rule found [OF l n es(2)]) (use d cs Some in \<open>auto simp: emap_def es_map_def rest_same_def\<close>)
qed

end
