(* ===== verification/Extent_Cache.thy ===== *)
theory Extent_Cache
  imports Extent_Ops
begin

unbundle bit_operations_syntax

text \<open>
  Reclaiming entries of the extent status tree, searching ranges of it, caching what is
  on the disk, and every sequence of operations on one tree.
\<close>

section \<open>Forgetting\<close>

text \<open>What the shrinker may do: entries go, except the delayed ones.\<close>

definition forget :: "es_inode \<Rightarrow> es_inode \<Rightarrow> bool" where
  "forget ei ei' \<longleftrightarrow> wf_nodes (es_nodes ei') \<and> counts_ok ei' \<and> (\<forall>b v. es_says (es_nodes ei') b v \<longrightarrow> es_says (es_nodes ei) b v) \<and>
     (\<forall>b v. es_says (es_nodes ei) b v \<longrightarrow> fst v = 4 \<longrightarrow> es_says (es_nodes ei') b v) \<and> dl (es_nodes ei') = dl (es_nodes ei) \<and>
     i_reserved_data_blocks ei' = i_reserved_data_blocks ei \<and> atomic_mem ei' = atomic_mem ei"

lemma forget_refl: "wf_nodes (es_nodes ei) \<Longrightarrow> counts_ok ei \<Longrightarrow> forget ei ei"
  by (simp add: forget_def)

lemma forget_trans: "forget a b \<Longrightarrow> forget b c \<Longrightarrow> forget a c"
  unfolding forget_def by metis

lemma forget_fields [simp]:
  "forget ei (ei'\<lparr>i_es_shrink_lblk := n\<rparr>) = forget ei ei'" "forget ei (ei'\<lparr>cache_es := c\<rparr>) = forget ei ei'"
  by (simp_all add: forget_def counts_ok_def)

lemma forget_from [simp]: "forget (ei\<lparr>cache_es := c\<rparr>) ei' = forget ei ei'"
  by (simp add: forget_def)

lemma forget_erase:
  assumes "rb_ok (es_rb sbi)" and "es_nodes ei = as @ es # bs" and "wf_nodes (es_nodes ei)" and "counts_ok ei" and "\<not> ext4_es_must_keep es"
  obtains ei' where "erase_es sbi es ei = Some ei'" "es_nodes ei' = as @ bs" "forget ei ei'"
proof -
  obtain ei' where e: "erase_es sbi es ei = Some ei'" "es_nodes ei' = as @ bs" "counts_ok ei'" "cache_es ei' = cache_es ei"
    "other ei' = other ei" "atomic_mem ei' = atomic_mem ei"
    by (rule erase_es [OF assms(1,2) wf_distinct [OF assms(3)] wf_length [OF assms(3)] assms(4)])
  have "es_ok es" and w: "wf_nodes (as @ bs)" using assms(2,3) by auto
  then have "\<not> ext4_es_is_delayed es" "fst (es_val es b) \<noteq> 4" for b using assms(5) es_ok_kind(3) [of es] by (auto simp: ext4_es_must_keep_def es_val_def)
  then have "forget ei ei'" using e w assms(2) by (auto simp: forget_def other_def dlen_def)
  with e show ?thesis by (intro that)
qed

lemma forget_clear:
  assumes "es_nodes ei = as @ es # bs" and "wf_nodes (es_nodes ei)" and "counts_ok ei"
  shows "forget ei (change_es es (ext4_es_clear_referenced es) ei)"
    and "es_nodes (change_es es (ext4_es_clear_referenced es) ei) = as @ ext4_es_clear_referenced es # bs"
proof -
  let ?e = "ext4_es_clear_referenced es"
  show n: "es_nodes (change_es es ?e ei) = as @ ?e # bs" by (rule es_nodes_change [OF assms(1,2)])
  have mp: "ext4_es_is_mapped ?e = ext4_es_is_mapped es" "ext4_es_is_delayed ?e = ext4_es_is_delayed es" by (rule same_type, simp)+
  have ok: "es_ok ?e" using assms(1,2) mp by (simp add: es_ok_def)
  have v: "in_range b ?e = in_range b es" "es_val ?e b = es_val es b" for b using mp by (simp_all add: in_range_def es_val_def)
  have w: "wf_nodes (as @ ?e # bs)" using assms(1,2) ok by simp
  have o: "other (change_es es ?e ei) = other ei" "atomic_mem (change_es es ?e ei) = atomic_mem ei" by simp_all
  show "forget ei (change_es es ?e ei)"
    using w o counts_change [OF assms(3,1) n] unfolding forget_def n assms(1) by (simp add: v dlen_def mp other_def)
qed

lemma forgetD:
  assumes "forget ei ei'" and "da_inv ei" and "cache_es ei' = None"
  shows "da_inv ei'" and "kept_of (emap ei) (emap ei')"
proof -
  have i: "es_inv ei" "es_inv ei'" using assms by (auto simp: da_inv_def es_inv_def forget_def cache_ok_def)
  show "da_inv ei'" using assms(1,2) i da_inv_dl by (simp add: forget_def)
  have s: "emap ei' b = Some v \<Longrightarrow> emap ei b = Some v" "emap ei b = Some (4, p) \<Longrightarrow> emap ei' b = Some (4, p)" for b v p
    using assms(1) emap_Some [OF i(1), of b] emap_Some [OF i(2), of b] unfolding forget_def by (metis fst_conv)+
  have "emap ei' b = None \<and> (\<forall>p. emap ei b \<noteq> Some (4, p)) \<or> emap ei' b = emap ei b" for b
    using s [of b] by (cases "emap ei' b") auto
  then show "kept_of (emap ei) (emap ei')" by (simp add: kept_of_def)
qed

section \<open>Reclaiming\<close>

text \<open>What a pass of the shrinker returns.\<close>

definition reclaims :: "es_inode \<Rightarrow> nat \<Rightarrow> (int \<times> int \<times> nat \<times> es_inode) option \<Rightarrow> bool" where
  "reclaims ei k out \<longleftrightarrow> (\<exists>r n' k' ei'. out = Some (r, n', k', ei') \<and> forget ei ei' \<and> k' + length (es_nodes ei') = k + length (es_nodes ei))"

lemma reclaims_after:
  assumes "forget ei ei1" and "reclaims ei1 k1 out" and "k1 + length (es_nodes ei1) = k + length (es_nodes ei)"
  shows "reclaims ei k out"
  using assms forget_trans unfolding reclaims_def by metis

lemma reclaim_loop_ok:
  assumes "rb_ok (es_rb sbi)" and "es_nodes ei = as @ ess" and "wf_nodes (es_nodes ei)" and "counts_ok ei"
  shows "reclaims ei k (reclaim_loop sbi end_blk ess n k ei)"
  using assms(2-)
proof (induction ess arbitrary: as n k ei)
  case Nil
  then show ?case by (simp add: reclaims_def forget_refl)
next
  case (Cons es ess)
  consider (stop) "n \<le> 0 \<or> end_blk < es_lblk es" | (keep) "\<not> (n \<le> 0 \<or> end_blk < es_lblk es)" "ext4_es_must_keep es"
    | (young) "\<not> (n \<le> 0 \<or> end_blk < es_lblk es)" "\<not> ext4_es_must_keep es" "ext4_es_is_referenced es"
    | (old) "\<not> (n \<le> 0 \<or> end_blk < es_lblk es)" "\<not> ext4_es_must_keep es" "\<not> ext4_es_is_referenced es"
    by blast
  then show ?case
  proof cases
    case stop
    then show ?thesis using forget_refl [OF Cons.prems(2,3)] by (auto simp: reclaims_def)
  next
    case keep
    have "reclaims ei k (reclaim_loop sbi end_blk ess (n - 1) k ei)" by (rule Cons.IH [of _ "as @ [es]"]) (use Cons.prems in auto)
    with keep show ?thesis by simp
  next
    case young
    note c = forget_clear [OF Cons.prems]
    let ?e = "change_es es (ext4_es_clear_referenced es) ei"
    have "reclaims ?e k (reclaim_loop sbi end_blk ess (n - 1) k ?e)"
      by (rule Cons.IH [of _ "as @ [ext4_es_clear_referenced es]"]) (use c in \<open>auto simp: forget_def\<close>)
    then have "reclaims ei k (reclaim_loop sbi end_blk ess (n - 1) k ?e)" by (rule reclaims_after [OF c(1)]) (simp add: c(2) Cons.prems(1))
    with young show ?thesis by simp
  next
    case old
    obtain e1 where e: "erase_es sbi es ei = Some e1" "es_nodes e1 = as @ ess" "forget ei e1"
      by (rule forget_erase [OF assms(1) Cons.prems old(2)])
    have "reclaims e1 (k + 1) (reclaim_loop sbi end_blk ess (n - 1) (k + 1) e1)"
      by (rule Cons.IH [of _ as]) (use e in \<open>auto simp: forget_def\<close>)
    then have "reclaims ei k (reclaim_loop sbi end_blk ess (n - 1) (k + 1) e1)" by (rule reclaims_after [OF e(3)]) (simp add: e(2) Cons.prems(1))
    with old e(1) show ?thesis by simp
  qed
qed

lemma do_reclaim_ok:
  assumes "rb_ok (es_rb sbi)" and "wf_nodes (es_nodes ei)" and "counts_ok ei"
  shows "reclaims ei k (es_do_reclaim_extents sbi end_blk n k ei)"
proof -
  let ?s = "i_es_shrink_lblk ei"
  have search: "es_tree_search (i_es_tree ei) ?s = Some (find (\<lambda>x. ?s < es_lblk x + es_len x) (es_nodes ei))"
    using es_tree_search_find assms(2) by (simp add: es_nodes_def)
  show ?thesis
  proof (cases "find (\<lambda>x. ?s < es_lblk x + es_len x) (es_nodes ei)")
    case None
    then show ?thesis using forget_refl [OF assms(2,3)] by (simp add: es_do_reclaim_extents_def search reclaims_def)
  next
    case (Some es)
    then obtain as bs where n: "es_nodes ei = as @ es # bs" by (rule find_split)
    have d: "distinct (as @ es # bs)" using wf_distinct [OF assms(2)] n by simp
    have from_es: "es_from (i_es_tree ei) es = es # bs"
      by (rule es_from_mid [of _ as]) (use n d in \<open>simp_all add: es_nodes_def\<close>)
    show ?thesis
      unfolding es_do_reclaim_extents_def search Some using reclaim_loop_ok [OF assms(1) n assms(2,3)] from_es by simp
  qed
qed

lemma es_reclaim_spec:
  assumes "plain_sb sbi" and "da_inv ei"
  obtains k n' ei' where "es_reclaim_extents sbi n ei = Some (k, n', ei')" "da_inv ei'" "kept_of (emap ei) (emap ei')"
    "atomic_mem ei' = atomic_mem ei" "k + i_es_all_nr ei' = i_es_all_nr ei"
proof (cases "i_es_shk_nr ei = 0")
  case True
  then show ?thesis using that assms(2) by (simp add: es_reclaim_extents_def Let_def)
next
  case False
  note rb = plain_sbD(1) [OF assms(1)]
  have w: "wf_nodes (es_nodes ei)" "counts_ok ei" using assms(2) by (auto simp: da_inv_def es_inv_def)
  obtain r n1 k1 e1 where e1: "es_do_reclaim_extents sbi EXT_MAX_BLOCKS n 0 ei = Some (r, n1, k1, e1)" "forget ei e1"
    "k1 + length (es_nodes e1) = 0 + length (es_nodes ei)" using do_reclaim_ok [OF rb w] unfolding reclaims_def by blast
  have w1: "wf_nodes (es_nodes e1)" "counts_ok e1" using e1(2) by (auto simp: forget_def)
  obtain r2 n2 k2 e2 where e2: "es_do_reclaim_extents sbi (i_es_shrink_lblk ei - 1) n1 k1 e1 = Some (r2, n2, k2, e2)" "forget e1 e2"
    "k2 + length (es_nodes e2) = k1 + length (es_nodes e1)" using do_reclaim_ok [OF rb w1] unfolding reclaims_def by blast
  have fin: "da_inv (e\<lparr>cache_es := None\<rparr>) \<and> kept_of (emap ei) (emap (e\<lparr>cache_es := None\<rparr>)) \<and> atomic_mem (e\<lparr>cache_es := None\<rparr>) = atomic_mem ei \<and>
      k' + i_es_all_nr (e\<lparr>cache_es := None\<rparr>) = i_es_all_nr ei" if "forget ei e" "k' + length (es_nodes e) = length (es_nodes ei)" for k' e
  proof -
    have f: "forget ei (e\<lparr>cache_es := None\<rparr>)" using that(1) by simp
    have c: "i_es_all_nr e = length (es_nodes e)" "i_es_all_nr ei = length (es_nodes ei)" using that(1) w(2) by (auto simp: forget_def counts_ok_def)
    show ?thesis using forgetD [OF f assms(2)] f c that(2) by (simp add: forget_def)
  qed
  show ?thesis
  proof (cases "r = 0 \<and> i_es_shrink_lblk ei \<noteq> 0")
    case True
    have "es_reclaim_extents sbi n ei = Some (k2, n2, e2\<lparr>cache_es := None\<rparr>)" using True False e1 e2 by (simp add: es_reclaim_extents_def Let_def)
    then show ?thesis using that fin [OF forget_trans [OF e1(2) e2(2)], of k2] e1(3) e2(3) by simp
  next
    case no: False
    have "es_reclaim_extents sbi n ei = Some (k1, n1, e1\<lparr>cache_es := None\<rparr>)" using no False e1 by (auto simp: es_reclaim_extents_def Let_def)
    then show ?thesis using that fin [OF e1(2), of k1] e1(3) by simp
  qed
qed

text \<open>Dropping everything that may be dropped.\<close>

lemma clear_loop_ok:
  assumes "rb_ok (es_rb sbi)" and "es_nodes ei = as @ ess" and "wf_nodes (es_nodes ei)" and "counts_ok ei"
  shows "\<exists>ei'. clear_loop sbi ess ei = Some ei' \<and> forget ei ei' \<and> es_nodes ei' = as @ filter ext4_es_must_keep ess \<and> cache_es ei' = cache_es ei"
  using assms(2-)
proof (induction ess arbitrary: as ei)
  case Nil
  then show ?case by (simp add: forget_refl)
next
  case (Cons es ess)
  show ?case
  proof (cases "ext4_es_must_keep es")
    case True
    then show ?thesis using Cons.IH [of ei "as @ [es]"] Cons.prems by simp
  next
    case False
    obtain e1 where e: "erase_es sbi es ei = Some e1" "es_nodes e1 = as @ ess" "forget ei e1"
      by (rule forget_erase [OF assms(1) Cons.prems False])
    have c: "cache_es e1 = cache_es ei" using e(1) by (auto simp: erase_es_def ext4_es_free_extent_def Let_def split: if_splits)
    obtain ei' where "clear_loop sbi ess e1 = Some ei'" "forget e1 ei'" "es_nodes ei' = as @ filter ext4_es_must_keep ess" "cache_es ei' = cache_es e1"
      using Cons.IH [OF e(2)] e(3) by (auto simp: forget_def)
    with e c False forget_trans [OF e(3)] show ?thesis by auto
  qed
qed

lemma clear_spec:
  assumes "plain_sb sbi" and "da_inv ei"
  obtains ei' where "ext4_clear_inode_es sbi ei = Some ei'" "da_inv ei'" "kept_of (emap ei) (emap ei')" "atomic_mem ei' = atomic_mem ei"
    "es_nodes ei' = filter ext4_es_must_keep (es_nodes ei)"
proof -
  let ?e = "ei\<lparr>cache_es := None\<rparr>"
  have w: "wf_nodes (es_nodes ?e)" "counts_ok ?e" using assms(2) by (auto simp: da_inv_def es_inv_def counts_ok_def)
  obtain ei' where e: "clear_loop sbi (es_nodes ei) ?e = Some ei'" "forget ei ei'" "es_nodes ei' = filter ext4_es_must_keep (es_nodes ei)" "cache_es ei' = None"
    using clear_loop_ok [OF plain_sbD(1) [OF assms(1)] _ w, of "[]" "es_nodes ei"] by auto
  have "atomic_mem ei' = atomic_mem ei" using e(2) by (simp add: forget_def)
  then show ?thesis using that [of ei'] e(1,3) forgetD [OF e(2) assms(2) e(4)] by (simp add: ext4_clear_inode_es_def)
qed

section \<open>Caching what is on the disk\<close>

lemma nothing_from:
  assumes "es_inv ei" and "end_blk = lblk + len - 1"
    and "case find (\<lambda>x. lblk < es_lblk x + es_len x) (es_nodes ei) of None \<Rightarrow> True | Some es \<Rightarrow> end_blk < es_lblk es" and "lblk \<le> b" and "b < lblk + len"
  shows "emap ei b = None"
proof (rule ccontr)
  assume "emap ei b \<noteq> None"
  then obtain x where x: "x \<in> set (es_nodes ei)" "in_range b x" using emap_Some [OF assms(1), of b] by (auto simp: es_says_def)
  then have l: "lblk < es_lblk x + es_len x" using assms(4) by (auto simp: in_range_def)
  then obtain es where f: "find (\<lambda>x. lblk < es_lblk x + es_len x) (es_nodes ei) = Some es"
    using x(1) by (cases "find (\<lambda>x. lblk < es_lblk x + es_len x) (es_nodes ei)") (auto simp: find_None_iff)
  obtain as bs where n: "es_nodes ei = as @ es # bs" "\<forall>y\<in>set as. \<not> lblk < es_lblk y + es_len y" "lblk < es_lblk es + es_len es" by (rule find_split [OF f])
  have "wf_nodes (as @ es # bs)" using assms(1) n(1) by (simp add: es_inv_def)
  then have "es_lblk es \<le> es_lblk x" using x(1) l n by auto
  with x(2) assms(2,3,5) f show False by (auto simp: in_range_def)
qed

lemma cache_spec:
  assumes "plain_sb sbi" and "da_inv ei" and "fits lblk len pblk status" and "status \<noteq> 4"
  obtains ei' where "ext4_es_cache_extent sbi lblk len pblk status ei = Some ei'" "da_inv ei'" "set (atomic_mem ei') \<subseteq> set (atomic_mem ei)"
    "emap ei' = emap ei \<or> (\<forall>b. lblk \<le> b \<and> b < lblk + len \<longrightarrow> emap ei b = None) \<and> emap ei' = es_set_range lblk len (es_state lblk pblk status) (emap ei)"
    "(\<forall>b. lblk \<le> b \<and> b < lblk + len \<longrightarrow> emap ei b = None) \<and> False \<notin> set (atomic_mem ei) \<longrightarrow> emap ei' = es_set_range lblk len (es_state lblk pblk status) (emap ei)"
proof -
  let ?f = "find (\<lambda>x. lblk < es_lblk x + es_len x) (es_nodes ei)" and ?last = "lblk + len - 1"
  have inv: "es_inv ei" using assms(2) by (simp add: da_inv_def)
  have len: "0 < len" "lblk + len < 2 ^ 32" using assms(3) by (auto simp: fits_def)
  have search: "es_tree_search (i_es_tree ei) lblk = Some ?f" using es_tree_search_find inv by (simp add: es_nodes_def es_inv_def)
  let ?c = "case ?f of None \<Rightarrow> True | Some es \<Rightarrow> ?last < es_lblk es"
  have run: "ext4_es_cache_extent sbi lblk len pblk status ei = (if ?c then map_option snd (es_insert_extent sbi (make_es lblk len pblk status) False ei) else Some ei)"
  proof -
    have "\<not> ?last < lblk" "len \<noteq> 0" using len(1) by auto
    then show ?thesis unfolding ext4_es_cache_extent_def wrap_end [OF len] search Let_def using plain_sbD(4) [OF assms(1)] by (cases ?f) simp_all
  qed
  show ?thesis
  proof (cases ?c)
    case True
    then have none: "\<forall>b. lblk \<le> b \<longrightarrow> b < lblk + len \<longrightarrow> emap ei b = None" using nothing_from [OF inv refl] by blast
    show ?thesis
    proof (cases rule: insert_none [OF assms(1) inv none assms(3), where prealloc = False])
      case (1 ei')
      have "da_inv ei'" using assms(2) new_dl [OF inv 1(2) assms(3,4) none 1(4)] 1(2,3) inv da_inv_dl by (simp add: rest_same_def)
      with 1 True none show ?thesis by (intro that [of ei']) (auto simp: run rest_same_def)
    next
      case (2 ms)
      let ?e = "ei\<lparr>atomic_mem := ms\<rparr>"
      have "da_inv ?e" "emap ?e = emap ei" using assms(2) by (simp_all add: da_inv_def es_inv_def counts_ok_def cache_ok_def emap_def)
      with 2 True show ?thesis by (intro that [of ?e]) (auto simp: run)
    qed
  next
    case False
    then obtain es where f: "?f = Some es" "es_lblk es \<le> ?last" by (auto split: option.splits)
    then have es: "es \<in> set (es_nodes ei)" "lblk < es_lblk es + es_len es" by (auto dest: find_SomeD)
    define k where "k = max lblk (es_lblk es)"
    have "in_range k es" using es wf_nodes_ok [of "es_nodes ei" es] inv by (auto simp: k_def in_range_def es_inv_def es_ok_def)
    then have known: "emap ei k \<noteq> None" using es(1) emap_Some [OF inv, of k "es_val es k"] unfolding es_says_def by (metis option.distinct(1))
    have "lblk \<le> k" "k < lblk + len" using f(2) len(1) by (auto simp: k_def)
    with known have "\<not> (\<forall>b. lblk \<le> b \<and> b < lblk + len \<longrightarrow> emap ei b = None)" by metis
    then show ?thesis by (intro that [of ei]) (use assms(2) False in \<open>simp_all only: run if_False, auto\<close>)
  qed
qed

section \<open>Searching a range\<close>

lemma find_match_spec:
  assumes "wf_nodes xs"
  shows "(case find_match P end_blk xs of None \<Rightarrow> False | Some es \<Rightarrow> es_lblk es \<le> end_blk) \<longleftrightarrow> (\<exists>x\<in>set xs. P x \<and> es_lblk x \<le> end_blk)"
    and "find_match P end_blk xs = Some es \<Longrightarrow> es \<in> set xs \<and> P es"
  using assms by (induction xs) (auto simp: es_ok_def split: if_splits)

lemma find_range_spec:
  assumes "da_inv ei" and m: "m = (case find (\<lambda>x. start < es_lblk x + es_len x) (es_nodes ei) of None \<Rightarrow> None
    | Some es \<Rightarrow> if P es then Some es else find_match P end_blk (tl (es_from (i_es_tree ei) es)))"
  shows "es_find_extent_range P start end_blk ei = Some (m, case m of None \<Rightarrow> ei | Some x \<Rightarrow> ei\<lparr>cache_es := Some (es_lblk x)\<rparr>)"
proof -
  let ?f = "find (\<lambda>x. start < es_lblk x + es_len x) (es_nodes ei)"
  have wf: "wf_nodes (es_nodes ei)" using assms(1) by (auto simp: da_inv_def es_inv_def)
  have search: "es_tree_search (i_es_tree ei) start = Some ?f" using es_tree_search_find wf by (simp add: es_nodes_def)
  have first: "?f = Some es" if "cached_es ei start = Some es" for es
  proof -
    have es: "es \<in> set (es_nodes ei)" "in_range start es" using cached_esD [OF that] by auto
    obtain as bs where n: "es_nodes ei = as @ es # bs" using es(1) by (metis split_list)
    have "\<forall>y\<in>set as. es_lblk y + es_len y \<le> es_lblk es" using wf n by simp
    then have "\<forall>y\<in>set as. \<not> start < es_lblk y + es_len y" using es(2) by (auto simp: in_range_def)
    then have "find (\<lambda>x. start < es_lblk x + es_len x) as = None" by (auto simp: find_None_iff)
    with es(2) n show ?thesis by (simp add: find_append in_range_def)
  qed
  have go: "(case cached_es ei start of Some es \<Rightarrow> Some (Some es) | None \<Rightarrow> es_tree_search (i_es_tree ei) start) = Some ?f"
    using first search by (cases "cached_es ei start") auto
  show ?thesis unfolding es_find_extent_range_def go m by (auto split: option.split)
qed

definition overlaps :: "nat \<Rightarrow> nat \<Rightarrow> extent_status \<Rightarrow> bool" where
  "overlaps start end_blk x \<longleftrightarrow> start < es_lblk x + es_len x \<and> es_lblk x \<le> end_blk"

lemma scan_range_spec:
  assumes "da_inv ei" and "start \<le> end_blk"
  obtains ei' where "es_scan_range P start end_blk ei = Some (\<exists>x\<in>set (es_nodes ei). P x \<and> overlaps start end_blk x, ei')"
    "da_inv ei'" "emap ei' = emap ei" "rest_same ei ei'"
proof -
  let ?f = "find (\<lambda>x. start < es_lblk x + es_len x) (es_nodes ei)"
  have inv: "es_inv ei" and wf: "wf_nodes (es_nodes ei)" using assms(1) by (auto simp: da_inv_def es_inv_def)
  note fr = find_range_spec [OF assms(1) refl, of P start end_blk]
  show ?thesis
  proof (cases ?f)
    case None
    then have "\<not> (\<exists>x\<in>set (es_nodes ei). P x \<and> overlaps start end_blk x)" by (auto simp: find_None_iff overlaps_def)
    then have "es_scan_range P start end_blk ei = Some (\<exists>x\<in>set (es_nodes ei). P x \<and> overlaps start end_blk x, ei)"
      unfolding es_scan_range_def fr None by simp
    then show ?thesis by (rule that) (use assms(1) in \<open>simp_all add: rest_same_def\<close>)
  next
    case (Some es)
    then obtain as bs where n: "es_nodes ei = as @ es # bs" "\<forall>y\<in>set as. \<not> start < es_lblk y + es_len y" "start < es_lblk es + es_len es" by (rule find_split)
    have d: "es \<notin> set as" using wf_distinct [OF wf] n(1) by auto
    have fe: "es_from (i_es_tree ei) es = es # bs" by (rule es_from_mid [of _ as]) (use n d in \<open>simp_all add: es_nodes_def\<close>)
    have wb: "wf_nodes bs" "es_ok es" "\<forall>y\<in>set bs. es_lblk es + es_len es \<le> es_lblk y" "\<forall>y\<in>set bs. es_ok y" using wf n(1) wf_nodes_ok [OF wf] by auto
    define m where "m = (if P es then Some es else find_match P end_blk bs)"
    let ?e = "case m of None \<Rightarrow> ei | Some x \<Rightarrow> ei\<lparr>cache_es := Some (es_lblk x)\<rparr>"
    have run: "es_find_extent_range P start end_blk ei = Some (m, ?e)" using fr unfolding Some by (simp add: fe m_def)
    have q: "(\<exists>x\<in>set (es_nodes ei). P x \<and> overlaps start end_blk x) \<longleftrightarrow> (case m of None \<Rightarrow> False | Some x \<Rightarrow> es_lblk x \<le> end_blk)"
    proof -
      have "(\<exists>x\<in>set (es_nodes ei). P x \<and> overlaps start end_blk x) \<longleftrightarrow> (\<exists>x\<in>set (es # bs). P x \<and> es_lblk x \<le> end_blk)"
        using n wb by (fastforce simp: es_ok_def overlaps_def)
      also have "\<dots> \<longleftrightarrow> (case m of None \<Rightarrow> False | Some x \<Rightarrow> es_lblk x \<le> end_blk)"
        using find_match_spec(1) [OF wb(1), where P = P and end_blk = end_blk] wb(3) by (auto simp: m_def)
      finally show ?thesis .
    qed
    have m: "x \<in> set (es_nodes ei) \<and> es_ok x \<and> start < es_lblk x + es_len x" if "m = Some x" for x
      using find_match_spec(2) [OF wb(1), where P = P and end_blk = end_blk and es = x] wb n that by (fastforce simp: es_ok_def m_def split: if_splits)
    have "es_scan_range P start end_blk ei = Some (\<exists>x\<in>set (es_nodes ei). P x \<and> overlaps start end_blk x, ?e)"
      unfolding es_scan_range_def run q using m assms(2) by (auto simp: es_ok_def split: option.split)
    moreover have "da_inv ?e" using assms(1) m by (auto simp: da_inv_def es_inv_def counts_ok_def cache_ok_def split: option.split)
    ultimately show ?thesis by (intro that [of ?e]) (auto simp: rest_same_def emap_def split: option.split)
  qed
qed

end
