(* ===== verification/Extent_Run.thy ===== *)
theory Extent_Run
  imports Extent_Cache
begin

unbundle bit_operations_syntax

text \<open>
  Every sequence of operations on the extent status tree of an inode refines a plain map from
  blocks to states that may forget all but delayed blocks.
\<close>

section \<open>Sequences of operations\<close>

fun run_calls :: "('c \<Rightarrow> 's \<Rightarrow> 's option) \<Rightarrow> 'c list \<Rightarrow> 's \<Rightarrow> 's option" where
  "run_calls step [] s = Some s"
| "run_calls step (c # cs) s = Option.bind (step c s) (run_calls step cs)"

fun all_allowed :: "('c \<Rightarrow> 'm \<Rightarrow> bool) \<Rightarrow> ('c \<Rightarrow> 'm \<Rightarrow> 'm) \<Rightarrow> 'c list \<Rightarrow> 'm \<Rightarrow> bool" where
  "all_allowed allowed tell [] m = True"
| "all_allowed allowed tell (c # cs) m = (allowed c m \<and> all_allowed allowed tell cs (tell c m))"

text \<open>A cache of a map that may forget: each operation returns, and what is left is a part of
  what it was told.\<close>

locale forgetting_cache =
  fixes step :: "'c \<Rightarrow> 's \<Rightarrow> 's option"
    and tell :: "'c \<Rightarrow> 'm \<Rightarrow> 'm"
    and allowed :: "'c \<Rightarrow> 'm \<Rightarrow> bool"
    and inv :: "'s \<Rightarrow> bool"
    and view :: "'s \<Rightarrow> 'm"
    and kept :: "'m \<Rightarrow> 'm \<Rightarrow> bool"
  assumes step_keeps: "inv s \<Longrightarrow> kept m (view s) \<Longrightarrow> allowed c m \<Longrightarrow> \<exists>s'. step c s = Some s' \<and> inv s' \<and> kept (tell c m) (view s')"
begin

lemma run_keeps:
  assumes "inv s" and "kept m (view s)" and "all_allowed allowed tell cs m"
  shows "\<exists>s'. run_calls step cs s = Some s' \<and> inv s' \<and> kept (fold tell cs m) (view s')"
  using assms
proof (induction cs arbitrary: s m)
  case (Cons c cs)
  obtain s' where "step c s = Some s'" "inv s'" "kept (tell c m) (view s')" using step_keeps [of s m c] Cons.prems by auto
  then show ?case using Cons.IH [of s' "tell c m"] Cons.prems by simp
qed simp

end

section \<open>The operations\<close>

datatype es_call =
    Lookup nat
  | Scan "extent_status \<Rightarrow> bool" nat nat
  | Cache nat nat "64 word" "64 word"
  | Insert nat nat "64 word" "64 word"
  | Delay "nat \<Rightarrow> int" int nat nat
  | Remove nat nat
  | Reclaim int
  | Clear

fun es_step :: "es_sb \<Rightarrow> es_call \<Rightarrow> es_inode \<Rightarrow> es_inode option" where
  "es_step sbi (Lookup b) ei = map_option snd (ext4_es_lookup_extent sbi b ei)"
| "es_step sbi (Scan P start end_blk) ei = map_option snd (es_scan_range P start end_blk ei)"
| "es_step sbi (Cache lblk len pblk status) ei = ext4_es_cache_extent sbi lblk len pblk status ei"
| "es_step sbi (Insert lblk len pblk status) ei = ext4_es_insert_extent sbi lblk len pblk status ei"
| "es_step sbi (Delay clu_mapped claim lblk len) ei = map_option snd (ext4_insert_delayed_blocks sbi clu_mapped claim lblk len ei)"
| "es_step sbi (Remove lblk len) ei = ext4_es_remove_extent sbi lblk len ei"
| "es_step sbi (Reclaim n) ei = map_option (snd \<circ> snd) (es_reclaim_extents sbi n ei)"
| "es_step sbi Clear ei = ext4_clear_inode_es sbi ei"

text \<open>What the tree is told.\<close>

fun es_tell :: "es_call \<Rightarrow> blk_map \<Rightarrow> blk_map" where
  "es_tell (Cache lblk len pblk status) m = es_set_range lblk len (es_state lblk pblk status) m"
| "es_tell (Insert lblk len pblk status) m = es_set_range lblk len (es_state lblk pblk status) m"
| "es_tell (Delay clu_mapped claim lblk len) m = (if claim = 0 then es_set_range lblk len (es_state lblk (- 1) 4) m else m)"
| "es_tell (Remove lblk len) m = es_set_range lblk len (\<lambda>_. None) m"
| "es_tell _ m = m"

text \<open>What callers keep to: states have room in the fields, only \<open>ext4_insert_delayed_blocks\<close>
  makes blocks delayed and only those that are not, and what is cached is not news.\<close>

fun es_allowed :: "es_call \<Rightarrow> blk_map \<Rightarrow> bool" where
  "es_allowed (Scan P start end_blk) m = (start \<le> end_blk)"
| "es_allowed (Cache lblk len pblk status) m =
     (fits lblk len pblk status \<and> status \<noteq> 4 \<and> (\<forall>b\<in>{lblk..<lblk + len}. m b = None \<or> m b = es_state lblk pblk status b))"
| "es_allowed (Insert lblk len pblk status) m = (fits lblk len pblk status \<and> status \<noteq> 4)"
| "es_allowed (Delay clu_mapped claim lblk len) m =
     (fits lblk len (- 1) 4 \<and> (\<forall>b\<in>{lblk..<lblk + len}. \<forall>p. m b \<noteq> Some (4, p)))"
| "es_allowed (Remove lblk len) m = (0 < len \<and> lblk + len < 2 ^ 32)"
| "es_allowed _ m = True"

lemma kept_cache:
  assumes "kept_of m v" and "\<forall>b\<in>{lblk..<lblk + len}. m b = None \<or> m b = es_state lblk pblk status b" and "status \<noteq> 4"
    and "v' = v \<or> v' = es_set_range lblk len (es_state lblk pblk status) v"
  shows "kept_of (es_set_range lblk len (es_state lblk pblk status) m) v'"
proof (cases "v' = v")
  case True
  have "v b = None \<and> (\<forall>p. es_set_range lblk len (es_state lblk pblk status) m b \<noteq> Some (4, p)) \<or> v b = es_set_range lblk len (es_state lblk pblk status) m b" for b
  proof (cases "lblk \<le> b \<and> b < lblk + len")
    case True
    then have "m b = None \<or> m b = es_state lblk pblk status b" using assms(2) by simp
    moreover have "v b = None \<or> v b = m b" using assms(1) unfolding kept_of_def by blast
    ultimately show ?thesis using True assms(3) by (auto simp: es_set_range_def es_state_def)
  next
    case False
    then show ?thesis using assms(1) by (auto simp: kept_of_def es_set_range_def)
  qed
  with True show ?thesis by (simp add: kept_of_def)
next
  case False
  with assms(4) kept_of_set [OF assms(1)] show ?thesis by simp
qed

lemma es_step_keeps:
  assumes "plain_sb sbi" and "da_inv ei" and "kept_of m (emap ei)" and "es_allowed c m"
  shows "\<exists>ei'. es_step sbi c ei = Some ei' \<and> da_inv ei' \<and> kept_of (es_tell c m) (emap ei')"
proof (cases c)
  case (Lookup b)
  show ?thesis by (rule lookup_spec [OF assms(1,2), of b]) (use assms Lookup in auto)
next
  case (Scan P start end_blk)
  show ?thesis by (rule scan_range_spec [OF assms(2), of start end_blk P]) (use assms Scan in auto)
next
  case (Cache lblk len pblk status)
  then have a: "fits lblk len pblk status" "status \<noteq> 4" "\<forall>b\<in>{lblk..<lblk + len}. m b = None \<or> m b = es_state lblk pblk status b" using assms(4) by auto
  show ?thesis by (rule cache_spec [OF assms(1,2) a(1,2)]) (use Cache kept_cache [OF assms(3) a(3,2)] in auto)
next
  case (Insert lblk len pblk status)
  then have "fits lblk len pblk status" "status \<noteq> 4" using assms(4) by auto
  from es_insert_extent_spec [OF assms(1,2) this] show ?thesis
    using Insert kept_of_trans [OF kept_of_set [OF assms(3)]] by (auto simp: inserted_def)
next
  case (Delay clu_mapped claim lblk len)
  show ?thesis
  proof (cases "claim = 0")
    case True
    have "\<forall>b p. lblk \<le> b \<longrightarrow> b < lblk + len \<longrightarrow> emap ei b \<noteq> Some (4, p)" using Delay assms(4) kept_delayed [OF assms(3)] by auto
    with insert_delayed_blocks_spec [OF assms(1,2), of lblk len clu_mapped] Delay assms(4) obtain ei' where
      "ext4_insert_delayed_blocks sbi clu_mapped 0 lblk len ei = Some (0, ei')" "da_inv ei'" "kept_of (es_set_range lblk len (es_state lblk (- 1) 4) (emap ei)) (emap ei')" by auto
    with Delay True show ?thesis using kept_of_trans [OF kept_of_set [OF assms(3)]] by auto
  next
    case False
    then show ?thesis using Delay assms plain_sbD(2) [OF assms(1)] by (simp add: ext4_insert_delayed_blocks_def ext4_da_reserve_space_def Let_def)
  qed
next
  case (Remove lblk len)
  then have "0 < len" "lblk + len < 2 ^ 32" using assms(4) by auto
  then show ?thesis
    by (rule es_remove_extent_spec [OF assms(1,2)]) (use Remove kept_of_trans [OF kept_of_set [OF assms(3)]] in auto)
next
  case (Reclaim n)
  show ?thesis by (rule es_reclaim_spec [OF assms(1,2), of n]) (use Reclaim kept_of_trans [OF assms(3)] in auto)
next
  case Clear
  show ?thesis by (rule clear_spec [OF assms(1,2)]) (use Clear kept_of_trans [OF assms(3)] in auto)
qed

fun es_sys_step :: "es_call \<Rightarrow> es_sb \<times> es_inode \<Rightarrow> (es_sb \<times> es_inode) option" where
  "es_sys_step c (sbi, ei) = map_option (Pair sbi) (es_step sbi c ei)"

definition es_sys_inv :: "es_sb \<times> es_inode \<Rightarrow> bool" where
  "es_sys_inv s \<longleftrightarrow> plain_sb (fst s) \<and> da_inv (snd s)"

interpretation es_cache: forgetting_cache es_sys_step es_tell es_allowed es_sys_inv "\<lambda>s. emap (snd s)" kept_of
proof
  fix s m c
  assume "es_sys_inv s" "kept_of m (emap (snd s))" "es_allowed c m"
  then show "\<exists>s'. es_sys_step c s = Some s' \<and> es_sys_inv s' \<and> kept_of (es_tell c m) (emap (snd s'))"
    using es_step_keeps [of "fst s" "snd s" m c] by (cases s) (auto simp: es_sys_inv_def)
qed

text \<open>The tree of a new inode (\<open>ext4_es_init_tree\<close>, \<open>ext4_init_pending_tree\<close> and the counters
  set by \<open>ext4_alloc_inode\<close>).\<close>

definition ext4_es_init_tree :: "bool list \<Rightarrow> es_inode" where
  "ext4_es_init_tree mem = \<lparr>i_es_tree = Leaf, cache_es = None, i_es_all_nr = 0, i_es_shk_nr = 0, i_es_list = False, i_es_shrink_lblk = 0,
     i_pending_tree = Leaf, i_reserved_data_blocks = 0, atomic_mem = mem\<rparr>"

lemma init_tree_inv: "da_inv (ext4_es_init_tree mem)" "emap (ext4_es_init_tree mem) = (\<lambda>_. None)"
  by (simp_all add: da_inv_def es_inv_def counts_ok_def cache_ok_def ext4_es_init_tree_def es_nodes_def delayed_blocks_def emap_def es_map_def fun_eq_iff)

definition es_run :: "es_sb \<Rightarrow> es_call list \<Rightarrow> es_inode \<Rightarrow> es_inode option" where
  "es_run sbi cs ei = map_option snd (run_calls es_sys_step cs (sbi, ei))"

definition es_told :: "es_call list \<Rightarrow> blk_map" where
  "es_told cs = fold es_tell cs (\<lambda>_. None)"

lemma run_ok:
  assumes "plain_sb sbi" and "all_allowed es_allowed es_tell cs (\<lambda>_. None)"
  obtains ei where "es_run sbi cs (ext4_es_init_tree mem) = Some ei" "da_inv ei" "kept_of (es_told cs) (emap ei)"
  using es_cache.run_keeps [of "(sbi, ext4_es_init_tree mem)" "\<lambda>_. None" cs] assms init_tree_inv [of mem]
  by (auto simp: es_sys_inv_def es_run_def es_told_def)

lemma delayed_told:
  assumes "da_inv ei" and "kept_of m (emap ei)"
  shows "delayed_blocks (es_nodes ei) = {b. \<exists>p. m b = Some (4, p)}"
proof (rule set_eqI)
  fix b
  have inv: "es_inv ei" using assms(1) by (simp add: da_inv_def)
  have "b \<in> delayed_blocks (es_nodes ei) \<longleftrightarrow> (\<exists>p. emap ei b = Some (4, p))"
    unfolding delayed_blocks_def using emap_Some [OF inv, of b] by fastforce
  then show "b \<in> delayed_blocks (es_nodes ei) \<longleftrightarrow> b \<in> {b. \<exists>p. m b = Some (4, p)}" using kept_delayed [OF assms(2)] by simp
qed

text \<open>Operations on binary trees that keep to the contract of the red-black trees: no
  rotation on insertion, a list on removal.\<close>

fun spine :: "'a list \<Rightarrow> 'a tree" where
  "spine [] = Leaf"
| "spine (x # xs) = Node Leaf x (spine xs)"

definition spine_ops :: "'a rb_ops" where
  "spine_ops = \<lparr>rb_insert_color = (\<lambda>t. t), rb_erase = (\<lambda>x t. spine (remove1 x (inorder t)))\<rparr>"

definition spine_sb :: es_sb where
  "spine_sb = \<lparr>es_rb = spine_ops, pr_rb = spine_ops, s_cluster_bits = 0, opt_delalloc = True, fc_replay = False\<rparr>"

lemma inorder_spine [simp]: "inorder (spine xs) = xs"
  by (induction xs) simp_all

lemma spine_sb_plain: "plain_sb spine_sb"
  by (simp add: plain_sb_def spine_sb_def spine_ops_def rb_ok_def)

text \<open>Blocks 10 to 13 are delayed, two of them are allocated, one is punched out, and the
  shrinker runs; the second atomic allocation fails.\<close>

definition some_calls :: "es_call list" where
  "some_calls = [Delay (\<lambda>_. 0) 0 10 4, Insert 10 2 100 1, Lookup 11, Remove 12 1, Reclaim 8]"

lemma some_calls_allowed: "all_allowed es_allowed es_tell some_calls (\<lambda>_. None)"
  by (simp add: some_calls_def fits_def es_set_range_def es_state_def)

lemma some_calls_told: "es_told some_calls b = (if b = 10 \<or> b = 11 then Some (1, Some (100 + of_nat (b - 10))) else if b = 13 then Some (4, None) else None)"
  by (auto simp: some_calls_def es_told_def es_set_range_def es_state_def)

section \<open>Properties\<close>

text \<open>C10: take a file system with delayed allocation and one block per cluster, not in the
  replay of fast commits, and a sequence of lookups, scans, cachings, insertions, delayed
  insertions, removals, reclaims and clearings on the extent status tree of a new inode. Let the
  callers keep to what they promise: ranges and physical blocks have room in the fields of an
  entry, only blocks that are not delayed are made delayed, and what is cached agrees with what
  the tree was told. Then, whichever atomic allocations fail, every operation returns and no
  assertion of the code is hit, and a lookup in the tree that results finds the state and the
  physical block that the block was last told to have, or nothing; nothing only if the block is
  not delayed.\<close>

theorem es_tree_refines_map:
  assumes "plain_sb sbi" and "all_allowed es_allowed es_tell cs (\<lambda>_. None)"
  shows "\<exists>ei r ei'. es_run sbi cs (ext4_es_init_tree mem) = Some ei \<and> ext4_es_lookup_extent sbi b ei = Some (r, ei') \<and>
    (case r of Some (es, _) \<Rightarrow> in_range b es \<and> es_told cs b = Some (es_val es b) | None \<Rightarrow> \<forall>p. es_told cs b \<noteq> Some (4, p))"
proof -
  obtain ei where e: "es_run sbi cs (ext4_es_init_tree mem) = Some ei" "da_inv ei" "kept_of (es_told cs) (emap ei)" by (rule run_ok [OF assms])
  have k: "emap ei b = None \<and> (\<forall>p. es_told cs b \<noteq> Some (4, p)) \<or> emap ei b = es_told cs b" using e(3) unfolding kept_of_def by blast
  show ?thesis by (rule lookup_spec [OF assms(1) e(2), of b]) (use e(1) k in auto)
qed

theorem es_tree_refines_map_witness:
  "\<exists>ei r ei'. es_run spine_sb some_calls (ext4_es_init_tree [True, False]) = Some ei \<and> ext4_es_lookup_extent spine_sb 13 ei = Some (r, ei') \<and>
    (\<exists>es n. r = Some (es, n) \<and> in_range 13 es \<and> es_val es 13 = (4, None))"
  using es_tree_refines_map [OF spine_sb_plain some_calls_allowed, of "[True, False]" 13] by (auto simp: some_calls_told split: option.splits)

text \<open>C21: on such a file system and after every such sequence of operations, the counter of
  the blocks that the inode has reserved for delayed allocation is exactly the number of blocks
  that were told to be delayed and not told otherwise since.\<close>

theorem es_reserved_delayed:
  assumes "plain_sb sbi" and "all_allowed es_allowed es_tell cs (\<lambda>_. None)"
  shows "\<exists>ei. es_run sbi cs (ext4_es_init_tree mem) = Some ei \<and> i_reserved_data_blocks ei = card {b. \<exists>p. es_told cs b = Some (4, p)}"
proof -
  obtain ei where e: "es_run sbi cs (ext4_es_init_tree mem) = Some ei" "da_inv ei" "kept_of (es_told cs) (emap ei)" by (rule run_ok [OF assms])
  then show ?thesis using delayed_told [OF e(2,3)] by (auto simp: da_inv_def)
qed

theorem es_reserved_delayed_witness:
  "\<exists>ei. es_run spine_sb some_calls (ext4_es_init_tree [True, False]) = Some ei \<and> i_reserved_data_blocks ei = 1"
proof -
  have "{b. \<exists>p. es_told some_calls b = Some (4, p)} = {13}" by (auto simp: some_calls_told split: if_splits)
  then show ?thesis using es_reserved_delayed [OF spine_sb_plain some_calls_allowed, of "[True, False]"] by simp
qed

text \<open>When no allocation fails, the state of the blocks of a range inserted into the tree
  is what a lookup of any of them finds, whatever the tree said of them; and after the removal
  of the range it is not found any more.\<close>

theorem es_insert_lookup_remove:
  assumes "plain_sb sbi" and "da_inv ei" and "False \<notin> set (atomic_mem ei)" and "fits lblk len pblk status" and "status \<noteq> 4"
    and "lblk \<le> b" and "b < lblk + len"
  shows "\<exists>ei1 es nxt ei2 ei3 ei4. ext4_es_insert_extent sbi lblk len pblk status ei = Some ei1 \<and>
    ext4_es_lookup_extent sbi b ei1 = Some (Some (es, nxt), ei2) \<and> in_range b es \<and> Some (es_val es b) = es_state lblk pblk status b \<and>
    ext4_es_remove_extent sbi lblk len ei2 = Some ei3 \<and> ext4_es_lookup_extent sbi b ei3 = Some (None, ei4)"
proof -
  obtain ei1 where i: "ext4_es_insert_extent sbi lblk len pblk status ei = Some ei1" "inserted lblk len pblk status ei ei1"
    using es_insert_extent_spec [OF assms(1,2,4,5)] by blast
  have e1: "da_inv ei1" "False \<notin> set (atomic_mem ei1)" "emap ei1 b = es_state lblk pblk status b"
    using i(2) assms(3,6,7) by (auto simp: inserted_def es_set_range_def)
  obtain es nxt ei2 where l: "ext4_es_lookup_extent sbi b ei1 = Some (Some (es, nxt), ei2)" "in_range b es"
    "Some (es_val es b) = es_state lblk pblk status b" "da_inv ei2" "rest_same ei1 ei2"
    by (rule lookup_spec [OF assms(1) e1(1), of b]) (use e1(3) in \<open>auto simp: es_state_def\<close>)
  have len: "0 < len" "lblk + len < 2 ^ 32" using assms(4) by (auto simp: fits_def)
  obtain ei3 where r: "ext4_es_remove_extent sbi lblk len ei2 = Some ei3" "da_inv ei3" "emap ei3 b = None"
    by (rule es_remove_extent_spec [OF assms(1) l(4) len]) (use l(5) e1(2) assms(6,7) in \<open>auto simp: rest_same_def es_set_range_def\<close>)
  obtain ei4 where "ext4_es_lookup_extent sbi b ei3 = Some (None, ei4)"
    by (rule lookup_spec [OF assms(1) r(2), of b]) (use r(3) in auto)
  with i(1) l r(1) show ?thesis by blast
qed

theorem es_insert_lookup_remove_witness:
  "\<exists>ei1 es nxt ei2. ext4_es_insert_extent spine_sb 10 3 100 2 (ext4_es_init_tree []) = Some ei1 \<and>
    ext4_es_lookup_extent spine_sb 12 ei1 = Some (Some (es, nxt), ei2) \<and> es_val es 12 = (2, Some 102)"
proof -
  have "False \<notin> set (atomic_mem (ext4_es_init_tree []))" "fits 10 3 100 2" by (simp_all add: ext4_es_init_tree_def fits_def)
  from es_insert_lookup_remove [OF spine_sb_plain init_tree_inv(1) this, of 12] show ?thesis by (auto simp: es_state_def)
qed

end
