(* ===== verification/Extent_Recovery.thy ===== *)
theory Extent_Recovery
  imports Extent_Run Friend_Bitmap
begin

unbundle bit_operations_syntax

text \<open>
  The recovery of a friend file from the extents that the child has on the disk: they are
  read into the extent status tree, and the bits are set from the entries of the tree.
  Source: \<open>src/ext4-module/corw_sparse.c\<close>. A child whose extent tree has more than one
  level is read by \<open>ext4_ext_precache\<close>, which is not modelled.
\<close>

section \<open>The extents of the child\<close>

text \<open>An extent of an extent tree of one level, as it is on the disk.\<close>

record ext4_extent =
  ee_block :: nat
  ee_len :: nat
  ee_start :: "64 word"
  ee_is_unwritten :: bool

text \<open>\<open>scorw_ext_precache_depth0\<close>: the extents, and the gaps between them as holes, are
  handed to \<open>ext4_es_cache_extent\<close>.\<close>

fun precache_from :: "es_sb \<Rightarrow> nat \<Rightarrow> ext4_extent list \<Rightarrow> es_inode \<Rightarrow> es_inode option" where
  "precache_from sbi prev [] ei = Some ei"
| "precache_from sbi prev (ex # exs) ei =
     Option.bind (if prev \<noteq> 0 \<and> prev \<noteq> ee_block ex
                  then ext4_es_cache_extent sbi prev ((ee_block ex + 2 ^ 32 - prev) mod 2 ^ 32) (- 1) EXTENT_STATUS_HOLE ei
                  else Some ei) (\<lambda>ei1.
     Option.bind (ext4_es_cache_extent sbi (ee_block ex) (ee_len ex) (ee_start ex)
                    (if ee_is_unwritten ex then EXTENT_STATUS_UNWRITTEN else EXTENT_STATUS_WRITTEN) ei1)
       (precache_from sbi ((ee_block ex + ee_len ex) mod 2 ^ 32) exs))"

definition scorw_ext_precache_depth0 :: "es_sb \<Rightarrow> ext4_extent list \<Rightarrow> es_inode \<Rightarrow> es_inode option" where
  "scorw_ext_precache_depth0 sbi exs ei = precache_from sbi 0 exs ei"

text \<open>\<open>scorw_recover_friend_file\<close> for such a child.\<close>

definition recover_depth0 :: "es_sb \<Rightarrow> kenv \<Rightarrow> page \<Rightarrow> ext4_extent list \<Rightarrow> es_inode \<Rightarrow> file \<Rightarrow> nat \<Rightarrow> (es_inode \<times> file) option" where
  "recover_depth0 sbi e junk exs ei f child_copy_size =
     Option.bind (scorw_ext_precache_depth0 sbi exs ei) (\<lambda>ei1. Some (ei1, scorw_recover_friend_file e junk (es_nodes ei1) f child_copy_size))"

section \<open>What the tree knows after reading the extents\<close>

text \<open>The extents are in order, not empty and within the range of block numbers.\<close>

fun extents_ok :: "nat \<Rightarrow> ext4_extent list \<Rightarrow> bool" where
  "extents_ok prev [] = True"
| "extents_ok prev (ex # exs) = (prev \<le> ee_block ex \<and> 0 < ee_len ex \<and> ee_block ex + ee_len ex < 2 ^ 32 \<and>
     unat (ee_start ex) + ee_len ex \<le> 2 ^ 48 \<and> extents_ok (ee_block ex + ee_len ex) exs)"

definition extent_covers :: "ext4_extent \<Rightarrow> nat \<Rightarrow> bool" where
  "extent_covers ex b \<longleftrightarrow> ee_block ex \<le> b \<and> b < ee_block ex + ee_len ex"

definition es_has_block :: "es_inode \<Rightarrow> nat \<Rightarrow> bool" where
  "es_has_block ei b \<longleftrightarrow> (\<exists>v. emap ei b = Some v \<and> fst v \<noteq> 8)"

lemma status_bits: "ext4_es_status es AND 1 = ext4_es_type es AND 1" "ext4_es_status es AND 2 = ext4_es_type es AND 2"
  "ext4_es_status es AND 4 = ext4_es_type es AND 4"
  unfolding type_of_status [symmetric] by (simp_all add: and.assoc mask_eq_exp_minus_1)

lemma has_blocks_type:
  assumes "es_ok es"
  shows "es_has_blocks es \<longleftrightarrow> ext4_es_type es \<noteq> 8"
proof -
  have "ext4_es_type es \<in> {1, 2, 4, 8}" using assms by (simp add: es_ok_def)
  then show ?thesis
    unfolding es_has_blocks_def EXTENT_STATUS_WRITTEN_def EXTENT_STATUS_UNWRITTEN_def EXTENT_STATUS_DELAYED_def status_bits by auto
qed

lemma has_block_nodes:
  assumes "es_inv ei"
  shows "es_has_block ei b \<longleftrightarrow> (\<exists>es\<in>set (es_nodes ei). es_has_blocks es \<and> es_lblk es \<le> b \<and> b < es_lblk es + es_len es)"
proof -
  have wf: "wf_nodes (es_nodes ei)" using assms by (simp add: es_inv_def)
  have t: "es \<in> set (es_nodes ei) \<Longrightarrow> es_has_blocks es \<longleftrightarrow> fst (es_val es b) \<noteq> 8" for es
    using has_blocks_type [OF wf_nodes_ok [OF wf]] by (simp add: es_val_def)
  show ?thesis unfolding es_has_block_def emap_Some [OF assms] es_says_def in_range_def using t by blast
qed

lemma gap_len:
  assumes "prev \<le> blk" and "blk < 2 ^ 32"
  shows "(blk + 2 ^ 32 - prev) mod 2 ^ 32 = blk - (prev :: nat)"
proof -
  have "blk + 2 ^ 32 - prev = (blk - prev) + 2 ^ 32" "blk - prev < 2 ^ 32" using assms by linarith+
  then show ?thesis by (simp only: mod_add_self2) simp
qed

text \<open>Caching a range nothing is known of.\<close>

lemma cache_new:
  assumes "plain_sb sbi" and "da_inv ei" and "False \<notin> set (atomic_mem ei)" and "fits lblk len pblk status" and "status \<noteq> 4" and "\<forall>b\<ge>lblk. emap ei b = None"
  obtains ei' where "ext4_es_cache_extent sbi lblk len pblk status ei = Some ei'" "da_inv ei'" "False \<notin> set (atomic_mem ei')"
    "\<forall>b\<ge>lblk + len. emap ei' b = None" "\<forall>b. es_has_block ei' b \<longleftrightarrow> es_has_block ei b \<or> status \<noteq> 8 \<and> lblk \<le> b \<and> b < lblk + len"
proof -
  obtain ei' where e: "ext4_es_cache_extent sbi lblk len pblk status ei = Some ei'" "da_inv ei'" "False \<notin> set (atomic_mem ei')"
    "emap ei' = es_set_range lblk len (es_state lblk pblk status) (emap ei)"
    by (rule cache_spec [OF assms(1,2,4,5)]) (use assms(3,6) in auto)
  show ?thesis
    by (rule that [OF e(1-3)]) (use assms(6) in \<open>auto simp: e(4) es_set_range_def es_has_block_def es_state_def\<close>)
qed

lemma precache_ok:
  assumes "plain_sb sbi" and "da_inv ei" and "False \<notin> set (atomic_mem ei)" and "extents_ok prev exs" and "\<forall>b\<ge>prev. emap ei b = None"
  shows "\<exists>ei'. precache_from sbi prev exs ei = Some ei' \<and> da_inv ei' \<and> (\<forall>b. es_has_block ei' b \<longleftrightarrow> es_has_block ei b \<or> (\<exists>ex\<in>set exs. extent_covers ex b))"
  using assms(2-)
proof (induction exs arbitrary: prev ei)
  case (Cons ex exs)
  let ?l = "ee_block ex" and ?s = "if ee_is_unwritten ex then EXTENT_STATUS_UNWRITTEN else EXTENT_STATUS_WRITTEN"
  have ex: "prev \<le> ?l" "?l + ee_len ex < 2 ^ 32" "fits ?l (ee_len ex) (ee_start ex) ?s" "?s \<noteq> 4" "?s \<noteq> 8" "extents_ok (?l + ee_len ex) exs"
    using Cons.prems(3) by (auto simp: fits_def EXTENT_STATUS_UNWRITTEN_def EXTENT_STATUS_WRITTEN_def)
  obtain ei1 where e1: "(if prev \<noteq> 0 \<and> prev \<noteq> ?l then ext4_es_cache_extent sbi prev ((?l + 2 ^ 32 - prev) mod 2 ^ 32) (- 1) EXTENT_STATUS_HOLE ei else Some ei) = Some ei1"
    "da_inv ei1" "False \<notin> set (atomic_mem ei1)" "\<forall>b\<ge>?l. emap ei1 b = None" "\<forall>b. es_has_block ei1 b \<longleftrightarrow> es_has_block ei b"
  proof (cases "prev \<noteq> 0 \<and> prev \<noteq> ?l")
    case True
    have g: "(?l + 2 ^ 32 - prev) mod 2 ^ 32 = ?l - prev" by (rule gap_len) (use ex in auto)
    have hole: "fits prev (?l - prev) (- 1) EXTENT_STATUS_HOLE" "EXTENT_STATUS_HOLE \<noteq> 4" using True ex(1,2) by (auto simp: fits_def EXTENT_STATUS_HOLE_def)
    obtain ei1 where "ext4_es_cache_extent sbi prev (?l - prev) (- 1) EXTENT_STATUS_HOLE ei = Some ei1" "da_inv ei1" "False \<notin> set (atomic_mem ei1)"
      "\<forall>b\<ge>prev + (?l - prev). emap ei1 b = None" "\<forall>b. es_has_block ei1 b \<longleftrightarrow> es_has_block ei b \<or> EXTENT_STATUS_HOLE \<noteq> 8 \<and> prev \<le> b \<and> b < prev + (?l - prev)"
      by (rule cache_new [OF assms(1) Cons.prems(1,2) hole Cons.prems(4)])
    with True show ?thesis using that [of ei1] ex(1) unfolding g by (simp add: EXTENT_STATUS_HOLE_def)
  next
    case False
    then show ?thesis using that [of ei] Cons.prems ex(1) by auto
  qed
  obtain ei2 where e2: "ext4_es_cache_extent sbi ?l (ee_len ex) (ee_start ex) ?s ei1 = Some ei2" "da_inv ei2" "False \<notin> set (atomic_mem ei2)"
    "\<forall>b\<ge>?l + ee_len ex. emap ei2 b = None" "\<forall>b. es_has_block ei2 b \<longleftrightarrow> es_has_block ei1 b \<or> ?s \<noteq> 8 \<and> ?l \<le> b \<and> b < ?l + ee_len ex"
    by (rule cache_new [OF assms(1) e1(2,3) ex(3,4) e1(4)])
  have "(?l + ee_len ex) mod 2 ^ 32 = ?l + ee_len ex" using ex(2) by (rule mod_less)
  then have run: "precache_from sbi prev (ex # exs) ei = precache_from sbi (?l + ee_len ex) exs ei2" unfolding precache_from.simps e1(1) using e2(1) by simp
  show ?case unfolding run using Cons.IH [OF e2(2,3) ex(6) e2(4)] e2(5) e1(5) ex(5) by (auto simp: extent_covers_def)
qed simp

lemma recover_bits:
  assumes "precache_from sbi 0 exs ei = Some ei'" and "da_inv ei'" and "pages_env_ok e" and "sz < 2 ^ 58" and "b * PAGE_SIZE < sz"
  shows "\<exists>g r g'. recover_depth0 sbi e junk exs ei f sz = Some (ei', g) \<and> scorw_is_block_copied e g b = (r, g') \<and> (r \<noteq> 0 \<longleftrightarrow> es_has_block ei' b)"
  using recover_friend_file_exact [OF assms(3-5), of junk "es_nodes ei'" f] has_block_nodes [of ei' b] assms(1,2)
  by (auto simp: recover_depth0_def scorw_ext_precache_depth0_def da_inv_def)

lemma init_has_block: "\<not> es_has_block (ext4_es_init_tree mem) b"
  by (simp add: es_has_block_def init_tree_inv)

lemma first_not_cached:
  assumes "plain_sb sbi" and "fits lblk len pblk status"
  shows "ext4_es_cache_extent sbi lblk len pblk status (ext4_es_init_tree (False # ms)) = Some (ext4_es_init_tree ms)"
proof -
  have len: "0 < len" "lblk + len < 2 ^ 32" using assms(2) by (auto simp: fits_def)
  then have "\<not> lblk + len - 1 < lblk" "len \<noteq> 0" by auto
  then show ?thesis
    unfolding ext4_es_cache_extent_def wrap_end [OF len] Let_def using plain_sbD(4) [OF assms(1)]
    by (simp add: ext4_es_init_tree_def es_tree_search_def es_insert_extent_def atomic_alloc_def)
qed

section \<open>Properties\<close>

text \<open>C11: take a file system with delayed allocation and one block per cluster, not in the
  replay of fast commits, and a child that has its extents, in order and apart, in the inode, as
  after a crash with an empty extent status tree. When every entry of the tree can be allocated,
  the friend file that is recovered says of a block of the snapshot that it is copied exactly
  when an extent on the disk of the child covers the block, whatever the friend file held
  before.\<close>

theorem recover_from_disk_exact:
  assumes "plain_sb sbi" and "extents_ok 0 exs" and "False \<notin> set mem" and "pages_env_ok e" and "sz < 2 ^ 58" and "b * PAGE_SIZE < sz"
  shows "\<exists>ei g r g'. recover_depth0 sbi e junk exs (ext4_es_init_tree mem) f sz = Some (ei, g) \<and>
    scorw_is_block_copied e g b = (r, g') \<and> (r \<noteq> 0 \<longleftrightarrow> (\<exists>ex\<in>set exs. extent_covers ex b))"
proof -
  have mem: "False \<notin> set (atomic_mem (ext4_es_init_tree mem))" using assms(3) by (simp add: ext4_es_init_tree_def)
  obtain ei' where "precache_from sbi 0 exs (ext4_es_init_tree mem) = Some ei'" "da_inv ei'"
    "\<forall>b. es_has_block ei' b \<longleftrightarrow> es_has_block (ext4_es_init_tree mem) b \<or> (\<exists>ex\<in>set exs. extent_covers ex b)"
    using precache_ok [OF assms(1) init_tree_inv(1) mem assms(2)] init_tree_inv(2) [of mem] by auto
  then show ?thesis using recover_bits [OF _ _ assms(4-6)] init_has_block by (metis (no_types, lifting))
qed

definition some_extents :: "ext4_extent list" where
  "some_extents = [\<lparr>ee_block = 3, ee_len = 2, ee_start = 100, ee_is_unwritten = False\<rparr>,
     \<lparr>ee_block = 60, ee_len = 10, ee_start = 200, ee_is_unwritten = True\<rparr>]"

lemma some_extents_ok: "extents_ok 0 some_extents"
  by (simp add: some_extents_def)

theorem recover_from_disk_exact_witness:
  "(\<exists>ei g r g'. recover_depth0 spine_sb good_env zero_page some_extents (ext4_es_init_tree []) empty_file 409600 = Some (ei, g) \<and>
      scorw_is_block_copied good_env g 64 = (r, g') \<and> r \<noteq> 0) \<and>
   (\<exists>ei g r g'. recover_depth0 spine_sb good_env zero_page some_extents (ext4_es_init_tree []) empty_file 409600 = Some (ei, g) \<and>
      scorw_is_block_copied good_env g 5 = (r, g') \<and> r = 0)"
  using recover_from_disk_exact [OF spine_sb_plain some_extents_ok, of "[]" good_env 409600 64 zero_page empty_file]
    recover_from_disk_exact [OF spine_sb_plain some_extents_ok, of "[]" good_env 409600 5 zero_page empty_file]
  by (auto simp: some_extents_def extent_covers_def)

text \<open>The tree is a cache, and \<open>ext4_es_cache_extent\<close> says nothing when it has no memory
  for an entry: if the first allocation fails, no block of the first extent is marked as
  copied, although the child has them on its disk. From then on they are taken for blocks
  of the parent, and the next write copies the snapshot over them.\<close>

theorem recover_loses_extent:
  assumes "plain_sb sbi" and "extents_ok 0 (ex # exs)" and "False \<notin> set mem" and "pages_env_ok e" and "sz < 2 ^ 58" and "b * PAGE_SIZE < sz" and "extent_covers ex b"
  shows "\<exists>ei g g'. recover_depth0 sbi e junk (ex # exs) (ext4_es_init_tree (False # mem)) f sz = Some (ei, g) \<and> scorw_is_block_copied e g b = (0, g')"
proof -
  let ?t = "ext4_es_init_tree mem" and ?s = "if ee_is_unwritten ex then EXTENT_STATUS_UNWRITTEN else EXTENT_STATUS_WRITTEN"
  have fits: "fits (ee_block ex) (ee_len ex) (ee_start ex) ?s" and ok: "extents_ok (ee_block ex + ee_len ex) exs" "ee_block ex + ee_len ex < 2 ^ 32"
    using assms(2) by (auto simp: fits_def EXTENT_STATUS_UNWRITTEN_def EXTENT_STATUS_WRITTEN_def)
  have mem: "False \<notin> set (atomic_mem ?t)" using assms(3) by (simp add: ext4_es_init_tree_def)
  obtain ei' where ei': "precache_from sbi (ee_block ex + ee_len ex) exs ?t = Some ei'" "da_inv ei'"
    "\<forall>b. es_has_block ei' b \<longleftrightarrow> es_has_block ?t b \<or> (\<exists>ex\<in>set exs. extent_covers ex b)"
    using precache_ok [OF assms(1) init_tree_inv(1) mem ok(1)] init_tree_inv(2) by auto
  have "(ee_block ex + ee_len ex) mod 2 ^ 32 = ee_block ex + ee_len ex" using ok(2) by (rule mod_less)
  then have run: "precache_from sbi 0 (ex # exs) (ext4_es_init_tree (False # mem)) = Some ei'"
    using first_not_cached [OF assms(1) fits, of mem] ei'(1) by simp
  have "prev \<le> ee_block x" if "extents_ok prev xs" "x \<in> set xs" for prev xs x
    using that by (induction prev xs rule: extents_ok.induct) fastforce+
  then have "\<not> extent_covers x b" if "x \<in> set exs" for x using ok(1) that assms(7) by (fastforce simp: extent_covers_def)
  then have "\<not> es_has_block ei' b" using ei'(3) init_has_block by blast
  then show ?thesis using recover_bits [OF run ei'(2) assms(4-6), of junk f] by auto
qed

theorem recover_loses_extent_witness:
  "\<exists>ei g g'. recover_depth0 spine_sb good_env zero_page some_extents (ext4_es_init_tree [False]) empty_file 409600 = Some (ei, g) \<and>
     scorw_is_block_copied good_env g 4 = (0, g')"
  using recover_loses_extent [OF spine_sb_plain some_extents_ok [unfolded some_extents_def], of "[]" good_env 409600 4 zero_page empty_file]
  by (simp add: some_extents_def extent_covers_def)

end
