(* ===== verification/Spec2Isabelle.thy ===== *)
theory Spec2Isabelle
  imports Vectored_Writes Garbage_Collection Log_Recovery Friend_Bitmap Active_Map Xattr_Store Cold_Copies Child_Writes Usage Frnd_Version Versioned_Reads Create_Child Extent_Recovery
begin

text \<open>
  A model of the file clones that \<open>src/ext4-module\<close> adds to ext4, and the theorems that say
  what they promise. This theory imports all others and holds this description.

  \<^bold>\<open>The program.\<close> A file, the parent, can have children. Setting the extended attribute
  \<open>SCORW_PARENT\<close> on an empty file makes it a child; two more files come with it, the friend
  file, with one bit per block, and the log. There are two kinds of clones.
  \<^item> Copy-on-write: a write to the parent first saves the old contents of the block in a page
    copy, which a kernel thread hands to the children that have no copy of the block yet; a
    write to a child first copies the rest of the block from the page copy or from the parent.
    The friend file says which blocks a child has. The blocks that a thread works on are locked
    in a hash table, the active map. The module keeps an in-memory \<open>struct scorw_inode\<close> for
    each parent and child that is in use.
  \<^item> Versioned: a write to a see-through read-only parent goes to fresh blocks at the end of
    the parent and is recorded in the log under a version number. A child reads the parent
    through the log at the version that is stored in the child. Transactions hold a lock and
    make their writes visible at once when they are committed. When the parent is opened after
    a crash the log is cut and versions without data are rolled back, and blocks that no
    version in use can reach are punched out.

  \<^bold>\<open>Conventions.\<close> A kernel call that can fail is a parameter: a field of \<open>kenv\<close> (for the page
  cache of a file) or of \<open>kernel\<close> (memory, attributes, other inodes, the time, what is on the
  stack before it is set). Two result types are used. An option is \<open>None\<close> for a \<open>BUG_ON\<close>, a null
  pointer or a loop that does not end. An \<open>outcome\<close> is \<open>Oops\<close> for the same, \<open>Blocks\<close> for a call
  that waits for ever and \<open>Ret\<close> for one that returns. Unsigned integers are natural numbers with
  \<open>mod 2 ^ w\<close> where the code can wrap, signed ones are integers with \<open>s32\<close> and \<open>s64\<close>, and the
  fields of an extent status entry are words. A page is a function from offsets to bytes. A lock
  or mutex is a field of the state, and taking a mutex that is taken gives \<open>Blocks\<close>.

  \<^bold>\<open>Shared theories.\<close>
  \<^item> \<open>Prelude\<close>: constants, error numbers, signed arithmetic, little-endian codecs, and generic
    lemmas.
  \<^item> \<open>Page_Cache\<close>: a file with its size, its pages in memory and its disk; \<open>scorw_get_page\<close>,
    \<open>write_offset_log\<close>, \<open>write_begin\<close> and \<open>write_end\<close>, writeback and truncation.

  \<^bold>\<open>Versioned files\<close> (\<open>corw_sparse.c\<close>, lines 1389 to 1693 and 4600 to 5578; \<open>file.c\<close>).
  \<^item> \<open>Log_File\<close>, \<open>Log_Scan\<close>: the 32 byte record, appending and reading; the locale \<open>record_log\<close>
    is the contract of an append-only log, interpreted on the file of bytes. Replaying the log
    returns exactly when its size is a multiple of the record size.
  \<^item> \<open>Version_Store\<close>, \<open>Version_Refinement\<close>: the table of at most \<open>MAX_RAM_VERSIONS\<close> loaded
    versions (\<open>scorw_get_or_create_version\<close>, \<open>scorw_lookup_physical_block\<close>,
    \<open>scorw_record_write\<close>). \<open>resolve\<close> is the reference: the newest record of the log that covers
    a block at a version. The locale \<open>versioned_blocks\<close> is the contract of lookup and record,
    interpreted on the table. Lookups refine the reference, a recorded write is seen from its
    version on only, and the table stays bounded and right in every run.
  \<^item> \<open>Transactions\<close>, \<open>Isolation\<close>, \<open>Vectored_Writes\<close>: the transaction lock, commit and
    abort, the redirected write and the vectored write, on the record \<open>ver_inode\<close>. \<open>ver_step\<close>
    is the relation of all these calls and lookups. Versions the parent has reached never change,
    a transaction is atomic and excludes other writers; and what does go wrong: an aborted
    transaction is exposed by the next commit, a failed copy keeps the lock, a vectored write
    records the wrong blocks and does not respect the lock.
  \<^item> \<open>Log_Recovery\<close>: \<open>scorw_truncate_log_to_version\<close> and \<open>scorw_do_recovery\<close>, alone and in
    the order in which opening a parent calls them.
  \<^item> \<open>Garbage_Collection\<close>: \<open>scorw_gc_blocks\<close>; no block that a version in use can reach is
    punched out.
  \<^item> \<open>Read_Path\<close>, \<open>Versioned_Reads\<close>: \<open>filemap_read\<close>, \<open>scorw_read_from_parent\<close> and
    \<open>ext4_file_read_iter\<close>; \<open>see_thru_step\<close> is the relation of writes, transactions, aborts and
    reads on the whole state. A read of a child returns the bytes of its version after any such
    run.

  \<^bold>\<open>Copy-on-write clones\<close> (the other parts of \<open>corw_sparse.c\<close>; \<open>file.c\<close>, \<open>xattr.c\<close>,
  \<open>filemap.c\<close>).
  \<^item> \<open>Friend_Bitmap\<close>: bits of the friend file; the locale \<open>copy_bits\<close> is the contract of a set
    of copied blocks, interpreted on the bytes of the file.
  \<^item> \<open>Active_Map\<close>: the hash table of locked blocks; \<open>amap_step\<close> is the relation of threads that
    get, wait for, put and remove blocks. A thread whose entry could not be allocated either
    gives up or, as the callers do, goes on without it (the parameter \<open>fails\<close>). Exclusion and
    absence of leaks hold in the first case; in the second the lock of another thread can be
    cleared.
  \<^item> \<open>Xattr_Store\<close>: the attributes with their accessors and the part of \<open>ext4_xattr_set\<close> that
    stores them.
  \<^item> \<open>Kernel_State\<close>, \<open>Lifecycle\<close>, \<open>Usage\<close>: the records \<open>scorw_inode\<close>, \<open>vfs_inode\<close>, \<open>world\<close>,
    and the opening, closing and unlinking of files (\<open>scorw_get_inode\<close>, \<open>scorw_put_inode\<close>,
    \<open>scorw_prepare_child_inode\<close>, \<open>scorw_prepare_par_inode\<close>, \<open>special_open\<close>,
    \<open>scorw_unlink_child_file\<close>); uses are balanced, and unlinking an open child can wait for
    itself.
  \<^item> \<open>Page_Copy\<close>, \<open>Cow_Writes\<close>, \<open>Write_Loop\<close>: page copies and a round of their thread,
    \<open>scorw_write_par_blocks\<close>, \<open>scorw_write_child_blocks_begin\<close> and \<open>_end\<close>, the read barrier,
    \<open>scorw_generic_perform_write\<close> and \<open>ext4_buffered_write_iter\<close>. The loop ends and writes the
    right bytes when it gets them, and does not end when it gets none.
  \<^item> \<open>Snapshot\<close>, \<open>Snapshot_Runs\<close>, \<open>Cold_Copies\<close>, \<open>Child_Writes\<close>: \<open>snapshot\<close> is the abstract
    contents of a block of a child, wherever it is kept, \<open>family\<close> the invariant that relates
    the files, inodes and page copies, and \<open>cow_step\<close> the relation of parent writes, rounds of
    the thread and writebacks. The snapshot never changes in a run, a write to a child lands on
    top of it, and the one exception, a page copy without data whose page is written back too
    early, does lose it.
  \<^item> \<open>Writeback\<close>, \<open>Create_Child\<close>: \<open>filemap_fdatawrite_wbc\<close> and the whole creation of a child;
    its snapshot is what the parent holds then.
  \<^item> \<open>Frnd_Version\<close>: the versions of child and friend that tell after a crash whether the friend
    file has to be rebuilt.

  \<^bold>\<open>Extent status tree\<close> (\<open>extents_status.c\<close>, \<open>extents_status.h\<close>, reservations of \<open>inode.c\<close>).
  \<^item> \<open>Extent_Entry\<close>, \<open>Extent_Status\<close>: entries and all operations, with atomic allocations that
    fail and the retries.
  \<^item> \<open>Extent_Map\<close>, \<open>Extent_Remove\<close>, \<open>Extent_Ops\<close>, \<open>Extent_Cache\<close>: the invariant (entries
    sorted and apart, counters and cached entry right) and the effect of each operation on the map
    from blocks to states.
  \<^item> \<open>Extent_Run\<close>: the locale \<open>forgetting_cache\<close> is the contract of a cache that may forget;
    interpreted on the tree it gives that every sequence of calls refines a plain map, forgets no
    delayed block, and keeps the number of reserved blocks right.
  \<^item> \<open>Extent_Recovery\<close>: the friend file rebuilt through the tree from the extents on disk, and
    what an allocation that fails there loses.

  \<^bold>\<open>Loops and bounds.\<close> A loop that can run for ever is a partial function into an option (the
  replay and the truncation of the log, the retries of the extent status tree), and that it
  returns is proved with what it returns. The write loop takes a list of turns, what a signal
  and the user memory do in each; a loop that has used them all is \<open>Blocks\<close>, and \<open>pages_of\<close> turns
  are enough for a write that gets its bytes. \<open>scorw_put_inode\<close> calls itself for the parent or the
  children; the depth of 4 is proved to be enough: with any larger depth, and whatever the result
  beyond it, it computes the same. All other loops are structural recursions.

  \<^bold>\<open>Limits of the model.\<close> Block numbers of the friend file are taken below \<open>2 ^ 32\<close>, the width
  of the parameter in the code. Storing into an xarray succeeds. The theorems on the extent
  status tree are for clusters of one block and delayed allocation; the operations are
  modelled for clusters of any size. The red-black tree of the kernel is a parameter: recolouring
  keeps the order of the entries and erasing takes out the entry. A model step is a whole
  call, and calls of several threads interleave at call boundaries; only in the active map they
  interleave at each acquisition and wait of the per-block locks. Reference counts of VFS inodes
  are left out.

  \<^bold>\<open>Not modelled.\<close> The read code of \<open>corw_sparse.c\<close> that has no caller
  (\<open>scorw_follow_on_read_child_blocks\<close> and what it calls); the start and stop of the module, its
  threads and sysfs files; the dispatch of ioctls; the rest of \<open>filemap.c\<close>, \<open>inode.c\<close>, \<open>file.c\<close>
  and \<open>xattr.c\<close>, and the other files of ext4, which the clones leave as they are (block
  allocation, extent trees on disk, directories, super block, journal and fast commits); the
  registration and statistics of the shrinker and the debugging code of the extent status
  tree; unused old copies of files, tests and user programs.
\<close>

end
